(* ===== verification/Prelude.thy ===== *)
theory Prelude
  imports Main "HOL-Library.Multiset" "HOL-Library.List_Lexorder" "HOL-Library.Char_ord"
begin

text \<open>
  The shared vocabulary of the development: the names for times and durations, the pieces of Go's
  standard library that several components use (string helpers, decimal formatting, sorting), and
  the generic lemmas on lists and maps their proofs share.

  Strings are Go's byte strings, \<^typ>\<open>string\<close>; their order is the bytewise lexicographic order
  of \<open>List_Lexorder\<close> over \<open>Char_ord\<close>, as Go compares strings. Times are integers
  (nanoseconds from Go's zero time, which is \<open>0\<close>), durations are integers.
\<close>

section \<open>Times, errors and collections of facts\<close>

type_synonym time = int
type_synonym duration = int

named_theorems inv_intros \<open>rules that establish a component's invariant\<close>
named_theorems go_defs \<open>definitions unfolded in branch-by-branch proofs\<close>

definition second :: duration where
  "second = 1000000000"

definition minute :: duration where
  "minute = 60 * second"

text \<open>\<open>types.NamespacedName\<close>, the key of an object: also a \<open>reconcile.Request\<close>.\<close>

record nsname =
  Namespace :: string
  Name :: string

section \<open>Strings\<close>

fun has_prefix :: "string \<Rightarrow> string \<Rightarrow> bool" where
  "has_prefix s [] = True"
| "has_prefix [] (p # ps) = False"
| "has_prefix (c # cs) (p # ps) = (c = p \<and> has_prefix cs ps)"

definition has_suffix :: "string \<Rightarrow> string \<Rightarrow> bool" where
  "has_suffix s p = has_prefix (rev s) (rev p)"

fun join :: "string \<Rightarrow> string list \<Rightarrow> string" where
  "join sep [] = []"
| "join sep [x] = x"
| "join sep (x # y # zs) = x @ sep @ join sep (y # zs)"

text \<open>\<open>strings.Split\<close> with a one-byte separator: always at least one piece.\<close>

fun split_on :: "char \<Rightarrow> string \<Rightarrow> string list" where
  "split_on c [] = [[]]"
| "split_on c (x # xs) =
     (if x = c then [] # split_on c xs
      else (case split_on c xs of [] \<Rightarrow> [[x]] | y # ys \<Rightarrow> (x # y) # ys))"

text \<open>\<open>strings.TrimSpace\<close>: the runes that \<open>unicode.IsSpace\<close> accepts, in UTF-8, are removed at both ends.\<close>

definition space_runes :: "string list" where
  "space_runes =
     map (\<lambda>n. [char_of (n :: nat)]) [9, 10, 11, 12, 13, 32] @
     [[CHR 0xC2, CHR 0x85], [CHR 0xC2, CHR 0xA0], [CHR 0xE1, CHR 0x9A, CHR 0x80]] @
     map (\<lambda>n. [CHR 0xE2, CHR 0x80, char_of (n :: nat)]) ([128..<139] @ [168, 169, 175]) @
     [[CHR 0xE2, CHR 0x81, CHR 0x9F], [CHR 0xE3, CHR 0x80, CHR 0x80]]"

function strip :: "string list \<Rightarrow> string \<Rightarrow> string" where
  "strip ps s =
     (case find (\<lambda>p. p \<noteq> [] \<and> has_prefix s p) ps of
        None \<Rightarrow> s
      | Some p \<Rightarrow> strip ps (drop (length p) s))"
  by pat_completeness auto
termination
proof (relation "measure (\<lambda>(ps, s). length s)", goal_cases)
  case (2 ps s p)
  then have "p \<noteq> []" "has_prefix s p" by (auto simp: find_Some_iff)
  then have "s \<noteq> []" by (cases s; cases p) auto
  then show ?case using \<open>p \<noteq> []\<close> by simp
qed simp

declare strip.simps [simp del]

definition trim_space :: "string \<Rightarrow> string" where
  "trim_space s = rev (strip (map rev space_runes) (rev (strip space_runes s)))"

text \<open>\<open>strings.ToLower\<close> on ASCII letters. Of the other runes only the Kelvin sign has a lower case in ASCII, \<open>k\<close>; no
  text of this development is compared with one that has a \<open>k\<close>.\<close>

definition lower_char :: "char \<Rightarrow> char" where
  "lower_char c = (let n = (of_char c :: nat) in if 65 \<le> n \<and> n \<le> 90 then char_of (n + 32) else c)"

definition to_lower :: "string \<Rightarrow> string" where
  "to_lower s = map lower_char s"

text \<open>\<open>strings.Cut\<close> at a one-byte separator, \<open>strings.TrimSuffix\<close>.\<close>

definition cut :: "char \<Rightarrow> string \<Rightarrow> (string \<times> string) option" where
  "cut c s = (if c \<in> set s then Some (takeWhile (\<lambda>x. x \<noteq> c) s, tl (dropWhile (\<lambda>x. x \<noteq> c) s)) else None)"

definition trim_suffix :: "string \<Rightarrow> string \<Rightarrow> string" where
  "trim_suffix s p = (if has_suffix s p then take (length s - length p) s else s)"

text \<open>Decimal formatting (\<open>strconv.Itoa\<close>, the verb \<open>%d\<close>).\<close>

definition digit :: "nat \<Rightarrow> char" where
  "digit n = char_of (48 + n :: nat)"

fun nat_str :: "nat \<Rightarrow> string" where
  "nat_str n = (if n < 10 then [digit n] else nat_str (n div 10) @ [digit (n mod 10)])"

declare nat_str.simps [simp del]

definition int_str :: "int \<Rightarrow> string" where
  "int_str i = (if i < 0 then CHR ''-'' # nat_str (nat (- i)) else nat_str (nat i))"

text \<open>The verb \<open>%q\<close> (\<open>strconv.Quote\<close>) on text whose non-ASCII runes are printable: these stay as they are.\<close>

definition hex_digit :: "nat \<Rightarrow> char" where
  "hex_digit n = (if n < 10 then digit n else char_of (87 + n :: nat))"

definition quote_char :: "char \<Rightarrow> string" where
  "quote_char c =
     (let n = (of_char c :: nat); esc = (\<lambda>s. char_of (92 :: nat) # s) in
      if n = 34 \<or> n = 92 then esc [c]
      else if n = 7 then esc ''a'' else if n = 8 then esc ''b'' else if n = 9 then esc ''t'' else if n = 10 then esc ''n''
      else if n = 11 then esc ''v'' else if n = 12 then esc ''f'' else if n = 13 then esc ''r''
      else if n < 32 \<or> n = 127 then esc (CHR ''x'' # [hex_digit (n div 16), hex_digit (n mod 16)])
      else [c])"

definition quote :: "string \<Rightarrow> string" where
  "quote s = char_of (34 :: nat) # concat (map quote_char s) @ [char_of (34 :: nat)]"

text \<open>Cutting a byte string at a byte that starts a rune (not \<open>10xxxxxx\<close>), as \<open>utf8.RuneStart\<close> tells.\<close>

definition rune_start :: "char \<Rightarrow> bool" where
  "rune_start c = ((of_char c :: nat) div 64 \<noteq> 2)"

fun rune_cut :: "string \<Rightarrow> nat \<Rightarrow> nat" where
  "rune_cut s 0 = 0"
| "rune_cut s (Suc n) = (if rune_start (s ! Suc n) then Suc n else rune_cut s n)"

definition ellipsis :: string where
  "ellipsis = [CHR 0xE2, CHR 0x80, CHR 0xA6]"

definition em_dash :: string where
  "em_dash = [CHR 0xE2, CHR 0x80, CHR 0x94]"

text \<open>What follows the last occurrence of \<open>pat\<close> (\<open>strings.LastIndex\<close>).\<close>

fun after_last :: "string \<Rightarrow> string \<Rightarrow> string option" where
  "after_last pat [] = (if pat = [] then Some [] else None)"
| "after_last pat (c # cs) =
     (case after_last pat cs of
        Some r \<Rightarrow> Some r
      | None \<Rightarrow> if has_prefix (c # cs) pat then Some (drop (length pat) (c # cs)) else None)"

section \<open>Systems and their invariants\<close>

text \<open>The interface between a component that changes its state in steps and what is proved about all its states: a property that
  holds at the start and that every step keeps holds in every reachable state. A component whose operations are
  functions on its state is the special case \<open>run_system\<close>.\<close>

locale step_system =
  fixes start :: "'s \<Rightarrow> bool" and step :: "'s \<Rightarrow> 's \<Rightarrow> bool" and inv :: "'s \<Rightarrow> bool"
  assumes inv_start: "start s \<Longrightarrow> inv s"
    and inv_step: "step s s' \<Longrightarrow> inv s \<Longrightarrow> inv s'"
begin

lemma inv_steps: "rtranclp step s s' \<Longrightarrow> start s \<Longrightarrow> inv s'"
  by (induction rule: rtranclp_induct) (auto intro: inv_start inv_step)

lemma inv_later: "rtranclp step s s' \<Longrightarrow> inv s \<Longrightarrow> inv s'"
  by (induction rule: rtranclp_induct) (auto intro: inv_step)

end

locale run_system =
  fixes first :: 's and act :: "'s \<Rightarrow> 'e \<Rightarrow> 's" and inv :: "'s \<Rightarrow> bool"
  assumes inv_first: "inv first"
    and inv_act: "inv s \<Longrightarrow> inv (act s e)"

sublocale run_system \<subseteq> step_system "\<lambda>s. s = first" "\<lambda>s s'. \<exists>e. s' = act s e" inv
  by unfold_locales (auto intro: inv_first inv_act)

context run_system
begin

lemma run_steps: "rtranclp (\<lambda>s s'. \<exists>e. s' = act s e) first (foldl act first es)"
  by (induction es rule: rev_induct) (auto intro: rtranclp.rtrancl_into_rtrancl)

lemma inv_run: "inv (foldl act first es)"
  using inv_steps [OF run_steps] by simp

end

section \<open>Lemmas on strings\<close>

lemma has_prefix_iff: "has_prefix s p \<longleftrightarrow> (\<exists>t. s = p @ t)"
  by (induction s p rule: has_prefix.induct) auto

lemma has_prefix_append [simp]: "has_prefix (p @ t) p"
  by (simp add: has_prefix_iff)

lemma has_suffix_iff: "has_suffix s p \<longleftrightarrow> (\<exists>t. s = t @ p)"
proof
  assume "has_suffix s p"
  then obtain t where "rev s = rev p @ t"
    by (auto simp: has_suffix_def has_prefix_iff)
  then have "s = rev t @ p"
    by (metis rev_append rev_rev_ident)
  then show "\<exists>t. s = t @ p" by blast
qed (auto simp: has_suffix_def has_prefix_iff)

lemma split_on_nonempty [simp]: "split_on c s \<noteq> []"
  by (cases s) (auto split: list.splits)

lemma digit_inj: "m < 10 \<Longrightarrow> n < 10 \<Longrightarrow> digit m = digit n \<Longrightarrow> m = n"
proof -
  assume "m < 10" "n < 10" "digit m = digit n"
  then have "of_char (digit m) = (of_char (digit n) :: nat)" by simp
  with \<open>m < 10\<close> \<open>n < 10\<close> show "m = n" by (simp add: digit_def)
qed

lemma strip_none: "\<forall>p \<in> set ps. p = [] \<or> \<not> has_prefix s p \<Longrightarrow> strip ps s = s"
proof -
  assume "\<forall>p \<in> set ps. p = [] \<or> \<not> has_prefix s p"
  then have "find (\<lambda>p. p \<noteq> [] \<and> has_prefix s p) ps = None" by (auto simp: find_None_iff)
  then show ?thesis by (simp add: strip.simps)
qed

lemma strip_Nil [simp]: "strip ps [] = []"
  by (rule strip_none) (auto elim: has_prefix.elims)

lemma trim_space_Nil [simp]: "trim_space '''' = ''''"
  by (simp add: trim_space_def)

text \<open>A text of visible ASCII characters is its own trim.\<close>

definition visible :: "char \<Rightarrow> bool" where
  "visible c = (33 \<le> (of_char c :: nat) \<and> of_char c < (127 :: nat))"

lemma space_not_visible: "p \<in> set space_runes \<Longrightarrow> p \<noteq> [] \<and> \<not> visible (hd p) \<and> \<not> visible (last p)"
  by (auto simp: space_runes_def visible_def)

lemma trim_space_visible:
  assumes "list_all visible s"
  shows "trim_space s = s"
proof -
  have pre: "strip ps s = s" if "list_all visible s" "\<forall>p \<in> set ps. p \<noteq> [] \<and> \<not> visible (hd p)" for ps s
    by (rule strip_none, use that in \<open>auto simp: has_prefix_iff\<close>) (metis hd_append hd_in_set list_all_iff Un_iff set_append)
  have "strip space_runes s = s" using pre [OF assms] space_not_visible by blast
  moreover have "strip (map rev space_runes) (rev s) = rev s"
    by (rule pre) (use assms space_not_visible in \<open>auto simp: hd_rev list_all_iff\<close>)
  ultimately show ?thesis by (simp add: trim_space_def)
qed

lemma find_SomeD: "find P xs = Some x \<Longrightarrow> x \<in> set xs \<and> P x"
  by (induction xs) (auto split: if_splits)

lemma rune_cut_le: "rune_cut s n \<le> n"
  by (induction n) auto

end
