(* ===== verification/Actors.thy ===== *)
theory Actors
  imports Prelude "HOL-Library.Product_Lexorder"
begin

text \<open>
  Who acts, and for whom: the package \<open>pkg/actor\<close>. \<open>Derive\<close> and \<open>Scope\<close> (\<open>actor.go\<close>) read the agent index,
  \<open>Evaluate\<close> (\<open>registry.go\<close>) builds it from the AgentIdentities, \<open>Party\<close>, \<open>SameParty\<close> and \<open>PartyKey\<close>
  (\<open>party.go\<close>) are the one-party rule, \<open>VerifyStamp\<close> (\<open>verify.go\<close>) checks a recorded stamp, \<open>DecodeEntry\<close>
  and \<open>Readable\<close> (\<open>compact.go\<close>) read the compact index format, \<open>Source_Index\<close> and \<open>Resolve\<close> (\<open>source.go\<close>) read
  the index from the API server, whose answers are arguments. \<open>index_status\<close> is the status that the index
  reconciler (\<open>pkg/reconciler/agentidentity\<close>) writes from a registry; \<open>meta.SetStatusCondition\<close>, which it
  calls, is an argument with its documented behaviour (\<open>sets_condition\<close>).

  The kinds of an actor are a datatype, an index is a pair of maps. Two calls have results the model takes
  as arguments: \<open>compile_err\<close> (the error text of \<open>regexp.Compile\<close>, \<open>None\<close> when the pattern compiles) and
  \<open>json_size\<close> (the length of \<open>json.Marshal\<close> of an entry).
\<close>

section \<open>Data\<close>

datatype ActorKind = ActorHuman | ActorAgent | ActorBot | ActorController | ActorUnknown

record AssertedActor =
  as_model :: string
  as_session :: string
  as_client :: string

record Actor =
  Kind :: ActorKind
  Principal :: string
  Agent :: string
  Sponsor :: string
  Via :: string
  Asserted :: "AssertedActor option"

record AgentIndexEntry =
  ie_agent :: string
  ie_sponsor :: string
  ie_namespaces :: "string list"
  ie_pipelines :: "string list"
  ie_environments :: "string list"
  ie_autonomy :: string
  Blocked :: string

record AgentIndex =
  Users :: "string \<Rightarrow> AgentIndexEntry option"
  Groups :: "string \<Rightarrow> AgentIndexEntry option"

record User =
  Username :: string
  u_groups :: "string list"

record Resolved =
  r_actor :: Actor
  r_entry :: "AgentIndexEntry option"

record Where =
  wh_namespace :: string
  wh_pipeline :: string
  wh_environment :: string

datatype actor_error =
    ErrConflict string string string
  | ErrBlocked string string
  | ErrOutOfScope string string

section \<open>Parties\<close>

definition Party :: "Actor \<Rightarrow> string list" where
  "Party a =
     (if Principal a \<noteq> '''' then [Principal a] else []) @
     (if Kind a = ActorAgent then [Sponsor a, ''agent:'' @ Agent a] else [])"

definition SameParty :: "Actor \<Rightarrow> Actor \<Rightarrow> bool" where
  "SameParty a b = list_ex (\<lambda>x. x \<in> set (Party b)) (Party a)"

definition PartyKey :: "Actor \<Rightarrow> string" where
  "PartyKey a = (if Kind a = ActorAgent then Sponsor a else Principal a)"

section \<open>Derivation\<close>

definition ServiceAccountPrefix :: string where
  "ServiceAccountPrefix = ''system:serviceaccount:''"

definition plain_actor :: "ActorKind \<Rightarrow> string \<Rightarrow> Actor" where
  "plain_actor k p = \<lparr>Kind = k, Principal = p, Agent = '''', Sponsor = '''', Via = '''', Asserted = None\<rparr>"

definition index_matches :: "User \<Rightarrow> AgentIndex option \<Rightarrow> AgentIndexEntry list" where
  "index_matches u idx =
     (case idx of
        None \<Rightarrow> []
      | Some i \<Rightarrow>
          (case Users i (Username u) of None \<Rightarrow> [] | Some e \<Rightarrow> [e]) @
          List.map_filter (Groups i) (u_groups u))"

definition Derive :: "User \<Rightarrow> AgentIndex option \<Rightarrow> actor_error + Resolved" where
  "Derive u idx =
     (case index_matches u idx of
        [] \<Rightarrow>
          Inr \<lparr>r_actor = plain_actor (if has_prefix (Username u) ServiceAccountPrefix then ActorBot else ActorHuman)
                 (Username u), r_entry = None\<rparr>
      | first # rest \<Rightarrow>
          (case find (\<lambda>m. ie_agent m \<noteq> ie_agent first) rest of
             Some m \<Rightarrow> Inl (ErrConflict (Username u) (ie_agent first) (ie_agent m))
           | None \<Rightarrow>
               (case find (\<lambda>m. Blocked m \<noteq> '''') (first # rest) of
                  Some m \<Rightarrow> Inl (ErrBlocked (ie_agent m) (Blocked m))
                | None \<Rightarrow>
                    Inr \<lparr>r_actor = (plain_actor ActorAgent (Username u))\<lparr>Agent := ie_agent first,
                           Sponsor := ie_sponsor first\<rparr>, r_entry = Some first\<rparr>)))"

definition Matches :: "string list \<Rightarrow> string \<Rightarrow> bool" where
  "Matches patterns v =
     list_ex (\<lambda>p. if has_suffix p ''*'' then has_prefix v (butlast p) else p = v) patterns"

definition Scope :: "AgentIndexEntry option \<Rightarrow> Where \<Rightarrow> actor_error option" where
  "Scope e w =
     (case e of
        None \<Rightarrow> None
      | Some x \<Rightarrow>
          if \<not> Matches (ie_namespaces x) (wh_namespace w) then Some (ErrOutOfScope (ie_agent x) (wh_namespace w))
          else if wh_pipeline w \<noteq> '''' \<and> \<not> Matches (ie_pipelines x) (wh_pipeline w)
          then Some (ErrOutOfScope (ie_agent x) (wh_pipeline w))
          else if wh_environment w \<noteq> '''' \<and> \<not> Matches (ie_environments x) (wh_environment w)
          then Some (ErrOutOfScope (ie_agent x) (wh_environment w))
          else None)"

definition Stamp :: "Resolved \<Rightarrow> AssertedActor option \<Rightarrow> Actor" where
  "Stamp r a =
     (case a of
        Some x \<Rightarrow>
          if as_model x \<noteq> '''' \<or> as_session x \<noteq> '''' \<or> as_client x \<noteq> ''''
          then (r_actor r)\<lparr>Asserted := Some x\<rparr> else r_actor r
      | None \<Rightarrow> r_actor r)"

definition OnBehalf :: "Resolved \<Rightarrow> string \<Rightarrow> Actor" where
  "OnBehalf r via = (r_actor r)\<lparr>Via := via\<rparr>"

definition Controller :: "string \<Rightarrow> string \<Rightarrow> Actor" where
  "Controller who via = (plain_actor ActorController who)\<lparr>Via := via\<rparr>"

definition OrUnknown :: "Actor option \<Rightarrow> string \<Rightarrow> Actor" where
  "OrUnknown a legacy = (case a of Some x \<Rightarrow> x | None \<Rightarrow> plain_actor ActorUnknown legacy)"

definition describe_via :: "string \<Rightarrow> string" where
  "describe_via via = (if via = ''ui'' then '' via the UI'' else if via = ''api'' then '' via the API'' else '''')"

definition Describe :: "Actor \<Rightarrow> string" where
  "Describe a =
     (case Kind a of
        ActorAgent \<Rightarrow> ''agent '' @ Agent a @ '' for '' @ Sponsor a @ describe_via (Via a)
      | ActorBot \<Rightarrow> ''bot '' @ Principal a @ describe_via (Via a)
      | ActorController \<Rightarrow> ''kardinal ('' @ Via a @ '')''
      | ActorHuman \<Rightarrow> Principal a @ describe_via (Via a)
      | ActorUnknown \<Rightarrow> if Principal a = '''' then ''unknown'' else Principal a)"

definition DescribeAsserted :: "Actor \<Rightarrow> string" where
  "DescribeAsserted a =
     (case Asserted a of
        None \<Rightarrow> ''''
      | Some x \<Rightarrow>
          let parts = (if as_model x \<noteq> '''' then [''model '' @ as_model x] else []) @
                (if as_session x \<noteq> '''' then [''session '' @ as_session x] else []) @
                (if as_client x \<noteq> '''' then [''client '' @ as_client x] else [])
          in if parts = [] then '''' else join '', '' parts @ '' (asserted)'')"

section \<open>The registry\<close>

record AgentSubject =
  sub_kind :: string
  sub_namespace :: string
  sub_name :: string

record AgentIdentity =
  ai_name :: string
  ai_created :: time
  ai_subjects :: "AgentSubject list"
  ai_sponsor :: string
  ai_namespaces :: "string list"
  ai_pipelines :: "string list"
  ai_environments :: "string list"
  ai_autonomy :: string
  ai_signing :: "string list"
  Suspended :: bool

definition SubjectKey :: "AgentSubject \<Rightarrow> string" where
  "SubjectKey s =
     (if sub_kind s = ''ServiceAccount''
      then ServiceAccountPrefix @ sub_namespace s @ '':'' @ sub_name s else sub_name s)"

definition ownerKey :: "AgentSubject \<Rightarrow> string" where
  "ownerKey s = (if sub_kind s = ''Group'' then ''group:'' @ sub_name s else ''user:'' @ SubjectKey s)"

definition orAll :: "string list \<Rightarrow> string list" where
  "orAll v = (if v = [] then [''*''] else v)"

definition orDefault :: "string \<Rightarrow> string" where
  "orDefault a = (if trim_space a = '''' then ''approve'' else a)"

datatype reason = Valid | SubjectConflict | InvalidSponsor | IndexFull | InvalidSigningIdentity

record Verdict =
  v_ready :: bool
  v_reason :: reason
  v_message :: string

record Registry =
  Verdicts :: "string \<Rightarrow> Verdict option"
  Index :: AgentIndex
  ObservedIdentities :: nat
  Full :: bool
  Bytes :: nat
  MaxBytes :: nat

definition reason_str :: "reason \<Rightarrow> string" where
  "reason_str r =
     (case r of Valid \<Rightarrow> ''Valid'' | SubjectConflict \<Rightarrow> ''SubjectConflict'' | InvalidSponsor \<Rightarrow> ''InvalidSponsor''
      | IndexFull \<Rightarrow> ''IndexFull'' | InvalidSigningIdentity \<Rightarrow> ''InvalidSigningIdentity'')"

text \<open>\<open>userSubjects\<close>: the first AgentIdentity that lists a user or ServiceAccount.\<close>

definition userSubjects :: "AgentIdentity list \<Rightarrow> string \<Rightarrow> string option" where
  "userSubjects ids =
     foldl (\<lambda>m (k, n). if m k = None then m(k \<mapsto> n) else m) Map.empty
       [(SubjectKey s, ai_name i). i \<leftarrow> ids, s \<leftarrow> ai_subjects i, sub_kind s \<noteq> ''Group'']"

definition conflict_of :: "(string \<Rightarrow> string option) \<Rightarrow> AgentIdentity \<Rightarrow> (AgentSubject \<times> string) option" where
  "conflict_of owner i =
     (case find (\<lambda>s. case owner (ownerKey s) of None \<Rightarrow> False | Some n \<Rightarrow> n \<noteq> ai_name i) (ai_subjects i) of
        None \<Rightarrow> None
      | Some s \<Rightarrow> Some (s, the (owner (ownerKey s))))"

fun bad_signing :: "(string \<Rightarrow> string option) \<Rightarrow> nat \<Rightarrow> string list \<Rightarrow> (nat \<times> string) option" where
  "bad_signing compile_err n [] = None"
| "bad_signing compile_err n (r # rs) =
     (if r = '''' then bad_signing compile_err (Suc n) rs
      else (case compile_err (''^(?:'' @ r @ '')$'') of
              None \<Rightarrow> bad_signing compile_err (Suc n) rs
            | Some err \<Rightarrow> Some (n, err)))"

definition verdict_of ::
  "(string \<Rightarrow> string option) \<Rightarrow> (string \<Rightarrow> string option) \<Rightarrow> (string \<Rightarrow> string option) \<Rightarrow> AgentIdentity \<Rightarrow> Verdict" where
  "verdict_of compile_err users owner i =
     (case conflict_of owner i of
        Some (s, o') \<Rightarrow> \<lparr>v_ready = False, v_reason = SubjectConflict, v_message =
          ''subject '' @ SubjectKey s @ '' is already agent '' @ o' @ '' (the older AgentIdentity keeps it)''\<rparr>
      | None \<Rightarrow>
          (case users (ai_sponsor i) of
             Some o' \<Rightarrow> \<lparr>v_ready = False, v_reason = InvalidSponsor, v_message =
               ''sponsor '' @ ai_sponsor i @ '' is agent '' @ o' @ '': an agent cannot sponsor an agent''\<rparr>
           | None \<Rightarrow>
               (case bad_signing compile_err 0 (ai_signing i) of
                  Some (n, err) \<Rightarrow> \<lparr>v_ready = False, v_reason = InvalidSigningIdentity, v_message =
                    ''signingIdentities['' @ nat_str n @ ''].subjectRegExp does not compile: '' @ err\<rparr>
                | None \<Rightarrow> \<lparr>v_ready = True, v_reason = Valid, v_message = ''the agent is registered''\<rparr>)))"

definition entry_of :: "Verdict \<Rightarrow> AgentIdentity \<Rightarrow> AgentIndexEntry" where
  "entry_of v i =
     (if \<not> v_ready v
      then \<lparr>ie_agent = ai_name i, ie_sponsor = ai_sponsor i, ie_namespaces = [], ie_pipelines = [],
            ie_environments = [], ie_autonomy = '''', Blocked = ''not ready: '' @ reason_str (v_reason v)\<rparr>
      else \<lparr>ie_agent = ai_name i, ie_sponsor = ai_sponsor i, ie_namespaces = ai_namespaces i,
            ie_pipelines = orAll (ai_pipelines i), ie_environments = orAll (ai_environments i),
            ie_autonomy = orDefault (ai_autonomy i), Blocked = (if Suspended i then ''suspended'' else '''')\<rparr>)"

text \<open>The state of the loop: the verdicts, the index, the owners of the subjects and the size.\<close>

record reg_state =
  rs_verdicts :: "string \<Rightarrow> Verdict option"
  rs_index :: AgentIndex
  rs_owner :: "string \<Rightarrow> string option"
  rs_size :: nat

definition add_subject ::
  "(AgentIndexEntry \<Rightarrow> nat) \<Rightarrow> AgentIdentity \<Rightarrow> AgentIndexEntry \<Rightarrow> reg_state \<Rightarrow> AgentSubject \<Rightarrow> reg_state" where
  "add_subject json_size i e st s =
     (let k = ownerKey s; idx = rs_index st in
      if rs_owner st k \<noteq> None then st
      else st\<lparr>rs_owner := (rs_owner st)(k \<mapsto> ai_name i),
              rs_size := rs_size st + (json_size e + length (SubjectKey s) + 4),
              rs_index := (if sub_kind s = ''Group''
                then idx\<lparr>Groups := (Groups idx)(sub_name s \<mapsto> e)\<rparr>
                else idx\<lparr>Users := (Users idx)(SubjectKey s \<mapsto> e)\<rparr>)\<rparr>)"

definition add_identity ::
  "(string \<Rightarrow> string option) \<Rightarrow> (AgentIndexEntry \<Rightarrow> nat) \<Rightarrow> (string \<Rightarrow> string option) \<Rightarrow> reg_state \<Rightarrow> AgentIdentity \<Rightarrow> reg_state" where
  "add_identity compile_err json_size users st i =
     (let v = verdict_of compile_err users (rs_owner st) i
      in foldl (add_subject json_size i (entry_of v i))
           (st\<lparr>rs_verdicts := (rs_verdicts st)(ai_name i \<mapsto> v)\<rparr>) (ai_subjects i))"

definition empty_index :: AgentIndex where
  "empty_index = \<lparr>Users = Map.empty, Groups = Map.empty\<rparr>"

definition Evaluate ::
  "(string \<Rightarrow> string option) \<Rightarrow> (AgentIndexEntry \<Rightarrow> nat) \<Rightarrow> AgentIdentity list \<Rightarrow> nat \<Rightarrow> Registry" where
  "Evaluate compile_err json_size ids maxBytes =
     (let sorted_ids = sort_key (\<lambda>i. (ai_created i, ai_name i)) ids;
          st = foldl (add_identity compile_err json_size (userSubjects sorted_ids))
            \<lparr>rs_verdicts = Map.empty, rs_index = empty_index, rs_owner = Map.empty, rs_size = 0\<rparr> sorted_ids;
          size_n = rs_size st;
          full = (maxBytes < size_n)
      in \<lparr>Verdicts = (if full
            then (\<lambda>n. map_option (\<lambda>_. \<lparr>v_ready = False, v_reason = IndexFull, v_message =
              ''the agent index is full ('' @ nat_str size_n @ '' bytes of '' @ nat_str maxBytes @
              ''): remove AgentIdentities or subjects; until then kardinal refuses the writes the actor policy checks''\<rparr>)
              (rs_verdicts st n))
            else rs_verdicts st),
          Index = (if full then empty_index else rs_index st),
          ObservedIdentities = length ids, Full = full, Bytes = size_n, MaxBytes = maxBytes\<rparr>)"

section \<open>Recorded stamps\<close>

text \<open>The result is the stamp to record and why one is not recorded (empty when it is). A missing index comes
  with the text of its error, if any; \<open>gkeys\<close> lists the keys of the index's group map.\<close>

definition kind_str :: "ActorKind \<Rightarrow> string" where
  "kind_str k =
     (case k of ActorHuman \<Rightarrow> ''human'' | ActorAgent \<Rightarrow> ''agent'' | ActorBot \<Rightarrow> ''bot''
      | ActorController \<Rightarrow> ''controller'' | ActorUnknown \<Rightarrow> ''unknown'')"

definition VerifyStamp ::
  "Actor option \<Rightarrow> string \<Rightarrow> AgentIndex option \<Rightarrow> string list \<Rightarrow> string option \<Rightarrow> Actor option \<times> string" where
  "VerifyStamp stamp who idx gkeys idxErr =
     (case stamp of
        None \<Rightarrow> (None, '''')
      | Some a \<Rightarrow>
          if Principal a \<noteq> who then (None, ''its stamp names '' @ Principal a @ '', not '' @ who)
          else (case idx of
                  None \<Rightarrow>
                    if Kind a \<noteq> ActorAgent then (Some a, '''')
                    else (None, ''its agent stamp could not be verified: '' @
                      (case idxErr of None \<Rightarrow> ''the AgentIndex is missing'' | Some err \<Rightarrow> err))
                | Some i \<Rightarrow>
                    (case Users i who of
                       Some e \<Rightarrow>
                         if Kind a \<noteq> ActorAgent
                         then (None, ''its stamp says '' @ kind_str (Kind a) @ '', but the AgentIndex says '' @ who @
                                '' is agent '' @ ie_agent e)
                         else if ie_agent e \<noteq> Agent a \<or> ie_sponsor e \<noteq> Sponsor a
                         then (None, ''its stamp names agent '' @ Agent a @ '' of '' @ Sponsor a @
                                '', but the AgentIndex says '' @ who @ '' is agent '' @ ie_agent e @ '' of '' @ ie_sponsor e)
                         else (Some a, '''')
                     | None \<Rightarrow>
                         if Kind a \<noteq> ActorAgent then (Some a, '''')
                         else if list_ex (\<lambda>g. case Groups i g of None \<Rightarrow> False | Some e \<Rightarrow> ie_agent e = Agent a) gkeys
                         then (None, ''agent '' @ Agent a @
                                '' is registered by group, and the controller cannot confirm that '' @ who @ '' belongs to it'')
                         else (None, ''the AgentIndex has no agent '' @ Agent a @ '' of '' @ Sponsor a @ '' for '' @ who))))"

section \<open>The compact index\<close>

text \<open>\<open>strings.SplitN\<close> with a one-byte separator and at most \<open>n\<close> pieces: the last one keeps the rest.\<close>

fun splitN :: "char \<Rightarrow> nat \<Rightarrow> string \<Rightarrow> string list" where
  "splitN c n [] = [[]]"
| "splitN c n (x # xs) =
     (if n \<le> 1 then [x # xs]
      else if x = c then [] # splitN c (n - 1) xs
      else (case splitN c n xs of [] \<Rightarrow> [[x]] | y # ys \<Rightarrow> (x # y) # ys))"

definition compactField :: char where
  "compactField = CHR 0x7F"

definition compactList :: char where
  "compactList = CHR 0x1F"

definition DecodeEntry :: "string \<Rightarrow> AgentIndexEntry" where
  "DecodeEntry s =
     (let f = splitN compactField 7 s;
          lst = (\<lambda>v. if v = '''' then [] else split_on compactList v)
      in if length f \<noteq> 7
         then \<lparr>ie_agent = '''', ie_sponsor = '''', ie_namespaces = [], ie_pipelines = [], ie_environments = [],
               ie_autonomy = '''', Blocked = ''the agent index entry is malformed''\<rparr>
         else \<lparr>ie_agent = f ! 0, ie_sponsor = f ! 1, ie_namespaces = lst (f ! 3), ie_pipelines = lst (f ! 4),
               ie_environments = lst (f ! 5), ie_autonomy = f ! 2, Blocked = f ! 6\<rparr>)"

record Condition =
  c_type :: string
  c_status :: string
  c_reason :: string

record AgentIndexStatus =
  Conditions :: "Condition list"
  legacy :: AgentIndex
  CompactUsers :: "string \<Rightarrow> string option"
  CompactGroups :: "string \<Rightarrow> string option"

definition find_condition :: "Condition list \<Rightarrow> string \<Rightarrow> Condition option" where
  "find_condition cs t = find (\<lambda>c. c_type c = t) cs"

definition condition_true :: "Condition list \<Rightarrow> string \<Rightarrow> bool" where
  "condition_true cs t = (case find_condition cs t of None \<Rightarrow> False | Some c \<Rightarrow> c_status c = ''True'')"

definition IsCompact :: "AgentIndexStatus \<Rightarrow> bool" where
  "IsCompact st =
     (case find_condition (Conditions st) ''Ready'' of None \<Rightarrow> False | Some c \<Rightarrow> c_reason c = ''CompactFormat'')"

text \<open>\<open>Readable\<close>: the index in the legacy shape (with the compact maps dropped) and whether it is built.\<close>

definition Readable :: "AgentIndexStatus option \<Rightarrow> AgentIndexStatus option \<times> bool" where
  "Readable st =
     (case st of
        None \<Rightarrow> (None, False)
      | Some x \<Rightarrow>
          if \<not> IsCompact x
          then (Some (x\<lparr>CompactUsers := Map.empty, CompactGroups := Map.empty\<rparr>),
                condition_true (Conditions x) ''Ready'')
          else if \<not> condition_true (Conditions x) ''CompactReady'' then (None, False)
          else (Some (x\<lparr>legacy := \<lparr>Users = (\<lambda>k. map_option DecodeEntry (CompactUsers x k)),
                       Groups = (\<lambda>k. map_option DecodeEntry (CompactGroups x k))\<rparr>,
                     CompactUsers := Map.empty, CompactGroups := Map.empty\<rparr>), True))"

section \<open>Writing and reading the index\<close>

definition NearFullPercent :: nat where
  "NearFullPercent = 80"

definition nearFull :: "Registry \<Rightarrow> Condition" where
  "nearFull reg =
     (if MaxBytes reg \<le> 0 then \<lparr>c_type = ''NearFull'', c_status = ''False'', c_reason = ''HasRoom''\<rparr>
      else if 100 * Bytes reg div MaxBytes reg \<ge> NearFullPercent
      then \<lparr>c_type = ''NearFull'', c_status = ''True'', c_reason = ''NearFull''\<rparr>
      else \<lparr>c_type = ''NearFull'', c_status = ''False'', c_reason = ''HasRoom''\<rparr>)"

text \<open>The status the reconciler of the index writes over the conditions \<open>cs\<close> it read: a full registry is
  written empty and not \<open>Ready\<close>. Where it finds the status equal it writes nothing, with the same result.\<close>

definition index_status ::
  "(Condition list \<Rightarrow> Condition \<Rightarrow> Condition list) \<Rightarrow> Condition list \<Rightarrow> Registry \<Rightarrow> AgentIndexStatus" where
  "index_status set_cond cs reg =
     (let cond = (if Full reg then \<lparr>c_type = ''Ready'', c_status = ''False'', c_reason = reason_str IndexFull\<rparr>
                  else \<lparr>c_type = ''Ready'', c_status = ''True'', c_reason = ''Built''\<rparr>)
      in \<lparr>Conditions = set_cond (set_cond cs cond) (nearFull reg), legacy = Index reg,
          CompactUsers = Map.empty, CompactGroups = Map.empty\<rparr>)"

text \<open>What the API server answers to a read.\<close>

datatype 'a answer = Answer 'a | Missing | ReadError

datatype source_error = ErrIndexNotReady | ErrIndexRead | ErrActor actor_error

text \<open>\<open>Source.Index\<close>: with a \<open>name\<close> (the controller) its own index, which must be built; without (the CLI)
  the first built one by name, if any. The list holds the names with the statuses.\<close>

definition Source_Index ::
  "string \<Rightarrow> AgentIndexStatus answer \<Rightarrow> (string \<times> AgentIndexStatus) list answer \<Rightarrow>
   source_error + AgentIndexStatus option" where
  "Source_Index name get lst =
     (if name \<noteq> ''''
      then (case get of
              Missing \<Rightarrow> Inl ErrIndexNotReady
            | ReadError \<Rightarrow> Inl ErrIndexRead
            | Answer st \<Rightarrow> (case Readable (Some st) of
                (x, built) \<Rightarrow> if built then Inr x else Inl ErrIndexNotReady))
      else (case lst of
              Missing \<Rightarrow> Inr None
            | ReadError \<Rightarrow> Inl ErrIndexRead
            | Answer items \<Rightarrow>
                (case find (\<lambda>p. snd (Readable (Some (snd p)))) (sort_key fst items) of
                   None \<Rightarrow> Inr None
                 | Some p \<Rightarrow> Inr (fst (Readable (Some (snd p)))))))"

text \<open>\<open>Resolve\<close>: the error, and the actor where one was derived (also when it is out of scope).\<close>

definition Resolve ::
  "string \<Rightarrow> AgentIndexStatus answer \<Rightarrow> (string \<times> AgentIndexStatus) list answer \<Rightarrow> User \<Rightarrow> Where \<Rightarrow>
   source_error option \<times> Resolved option" where
  "Resolve name get lst u w =
     (case Source_Index name get lst of
        Inl err \<Rightarrow> (Some err, None)
      | Inr idx \<Rightarrow>
          (case Derive u (map_option legacy idx) of
             Inl err \<Rightarrow> (Some (ErrActor err), None)
           | Inr r \<Rightarrow> (map_option ErrActor (Scope (r_entry r) w), Some r)))"

text \<open>The documented behaviour of \<open>meta.SetStatusCondition\<close>: it sets the condition of the given type and
  leaves those of the other types.\<close>

definition sets_condition :: "(Condition list \<Rightarrow> Condition \<Rightarrow> Condition list) \<Rightarrow> bool" where
  "sets_condition set_cond \<longleftrightarrow>
     (\<forall>cs c t. find_condition (set_cond cs c) t = (if t = c_type c then Some c else find_condition cs t))"

lemma Readable_index_status:
  assumes "sets_condition set_cond"
  shows "snd (Readable (Some (index_status set_cond cs reg))) \<longleftrightarrow> \<not> Full reg"
    and "map_option legacy (fst (Readable (Some (index_status set_cond cs reg)))) = Some (Index reg)"
proof -
  have "find_condition (Conditions (index_status set_cond cs reg)) ''Ready'' =
      Some (if Full reg then \<lparr>c_type = ''Ready'', c_status = ''False'', c_reason = reason_str IndexFull\<rparr>
        else \<lparr>c_type = ''Ready'', c_status = ''True'', c_reason = ''Built''\<rparr>)"
    using assms by (simp add: sets_condition_def index_status_def nearFull_def Let_def)
  then show "snd (Readable (Some (index_status set_cond cs reg))) \<longleftrightarrow> \<not> Full reg"
    "map_option legacy (fst (Readable (Some (index_status set_cond cs reg)))) = Some (Index reg)"
    by (simp_all add: Readable_def IsCompact_def condition_true_def reason_str_def index_status_def Let_def)
qed

lemma Resolve_controller:
  assumes "sets_condition set_cond" "name \<noteq> ''''"
  shows "Resolve name (Answer (index_status set_cond cs reg)) lst u w =
    (if Full reg then (Some ErrIndexNotReady, None)
     else case Derive u (Some (Index reg)) of
       Inl err \<Rightarrow> (Some (ErrActor err), None)
     | Inr r \<Rightarrow> (map_option ErrActor (Scope (r_entry r) w), Some r))"
  using Readable_index_status [OF assms(1), of cs reg] assms(2)
  by (cases "Readable (Some (index_status set_cond cs reg))") (auto simp: Resolve_def Source_Index_def)

section \<open>The index of a registry\<close>

abbreviation id_key :: "AgentIdentity \<Rightarrow> time \<times> string" where
  "id_key i \<equiv> (ai_created i, ai_name i)"

definition user_keys :: "AgentIdentity list \<Rightarrow> string set" where
  "user_keys ids = {SubjectKey s | i s. i \<in> set ids \<and> s \<in> set (ai_subjects i) \<and> sub_kind s \<noteq> ''Group''}"

lemma first_wins:
  "dom (foldl (\<lambda>m (k, n). if m k = None then m(k \<mapsto> n) else m) m kns) = dom m \<union> fst ` set kns"
  by (induction kns arbitrary: m) (auto split: if_splits)

lemma userSubjects_dom: "dom (userSubjects ids) = user_keys ids"
  by (force simp: userSubjects_def first_wins user_keys_def)

text \<open>The invariant of the loop over the AgentIdentities: a user or ServiceAccount in the index belongs to
  one of them, with its name and sponsor, and an entry that is not blocked has a sponsor who is no agent.\<close>

definition reg_ok :: "(string \<Rightarrow> string option) \<Rightarrow> AgentIdentity list \<Rightarrow> reg_state \<Rightarrow> bool" where
  "reg_ok users ids st \<longleftrightarrow>
     (\<forall>k e. Users (rs_index st) k = Some e \<longrightarrow>
        rs_owner st (''user:'' @ k) \<noteq> None \<and>
        (\<exists>i \<in> set ids. ie_agent e = ai_name i \<and> ie_sponsor e = ai_sponsor i \<and>
          (\<exists>s \<in> set (ai_subjects i). sub_kind s \<noteq> ''Group'' \<and> SubjectKey s = k) \<and>
          (Blocked e = '''' \<longrightarrow> users (ai_sponsor i) = None \<and> \<not> Suspended i))) \<and>
     (\<forall>k. rs_owner st (''user:'' @ k) \<noteq> None \<longrightarrow> Users (rs_index st) k \<noteq> None)"

lemma ownerKey_user: "sub_kind s \<noteq> ''Group'' \<Longrightarrow> ownerKey s = ''user:'' @ SubjectKey s"
  by (simp add: ownerKey_def)

lemma add_subject_ok:
  assumes ok: "reg_ok users ids st" and i: "i \<in> set ids" and s: "s \<in> set (ai_subjects i)"
    and e: "ie_agent e = ai_name i" "ie_sponsor e = ai_sponsor i"
      "Blocked e = '''' \<Longrightarrow> users (ai_sponsor i) = None \<and> \<not> Suspended i"
  shows "reg_ok users ids (add_subject json_size i e st s)"
proof (cases "rs_owner st (ownerKey s) \<noteq> None")
  case True
  then show ?thesis using ok by (simp add: add_subject_def Let_def)
next
  case False
  then show ?thesis
    using ok i s e unfolding reg_ok_def add_subject_def
    by (auto simp: Let_def ownerKey_def)
qed

lemma verdict_sponsor: "v_ready (verdict_of ce users owner i) \<Longrightarrow> users (ai_sponsor i) = None"
  by (auto simp: verdict_of_def split: option.splits)

lemma entry_facts:
  "ie_agent (entry_of v i) = ai_name i" "ie_sponsor (entry_of v i) = ai_sponsor i"
  "Blocked (entry_of v i) = '''' \<Longrightarrow> v_ready v \<and> \<not> Suspended i"
  by (auto simp: entry_of_def split: if_splits)

lemma add_subjects_ok:
  assumes "reg_ok users ids st" "i \<in> set ids" "set ss \<subseteq> set (ai_subjects i)"
    and "ie_agent e = ai_name i" "ie_sponsor e = ai_sponsor i"
      "Blocked e = '''' \<Longrightarrow> users (ai_sponsor i) = None \<and> \<not> Suspended i"
  shows "reg_ok users ids (foldl (add_subject json_size i e) st ss)"
  using assms
proof (induction ss arbitrary: st)
  case (Cons s ss)
  have "reg_ok users ids (add_subject json_size i e st s)"
    by (rule add_subject_ok) (use Cons.prems in auto)
  then show ?case using Cons by auto
qed simp

lemma add_identity_ok:
  assumes "reg_ok users ids st" "i \<in> set ids"
  shows "reg_ok users ids (add_identity ce js users st i)"
  unfolding add_identity_def Let_def
proof (rule add_subjects_ok)
  show "reg_ok users ids (st\<lparr>rs_verdicts := (rs_verdicts st)(ai_name i \<mapsto> verdict_of ce users (rs_owner st) i)\<rparr>)"
    using assms(1) by (simp add: reg_ok_def)
  show "users (ai_sponsor i) = None \<and> \<not> Suspended i"
    if "Blocked (entry_of (verdict_of ce users (rs_owner st) i) i) = ''''"
    using entry_facts(3) [OF that] verdict_sponsor by blast
qed (use assms(2) entry_facts in simp_all)

lemma owner_mono: "rs_owner st k \<noteq> None \<Longrightarrow> rs_owner (foldl (add_subject js i e) st ss) k \<noteq> None"
proof (induction ss arbitrary: st)
  case (Cons s ss)
  have "rs_owner (add_subject js i e st s) k \<noteq> None" using Cons.prems by (simp add: add_subject_def Let_def)
  then show ?case using Cons.IH by simp
qed simp

lemma owner_new: "s \<in> set ss \<Longrightarrow> rs_owner (foldl (add_subject js i e) st ss) (ownerKey s) \<noteq> None"
proof (induction ss arbitrary: st)
  case (Cons x ss)
  have "rs_owner (add_subject js i e st x) (ownerKey x) \<noteq> None" by (simp add: add_subject_def Let_def)
  then show ?case using Cons owner_mono by (cases "s = x") auto
qed simp

lemma add_identity_owner:
  "rs_owner st k \<noteq> None \<Longrightarrow> rs_owner (add_identity ce js users st i) k \<noteq> None"
  "s \<in> set (ai_subjects i) \<Longrightarrow> rs_owner (add_identity ce js users st i) (ownerKey s) \<noteq> None"
  unfolding add_identity_def Let_def by (simp_all add: owner_mono owner_new del: not_None_eq)

lemma add_identities_owner:
  "rs_owner st k \<noteq> None \<or> (\<exists>i \<in> set is. \<exists>s \<in> set (ai_subjects i). ownerKey s = k) \<Longrightarrow>
   rs_owner (foldl (add_identity ce js users) st is) k \<noteq> None"
proof (induction "is" arbitrary: st)
  case (Cons i "is")
  have "rs_owner (add_identity ce js users st i) k \<noteq> None \<or>
      (\<exists>i \<in> set is. \<exists>s \<in> set (ai_subjects i). ownerKey s = k)"
    using Cons.prems add_identity_owner(1) [of st k ce js users i] add_identity_owner(2) [of _ i ce js users st]
    by (metis set_ConsD)
  then show ?case using Cons.IH by simp
qed simp

lemma add_identities_ok:
  "reg_ok users ids st \<Longrightarrow> set is \<subseteq> set ids \<Longrightarrow> reg_ok users ids (foldl (add_identity ce js users) st is)"
  by (induction "is" arbitrary: st) (auto intro: add_identity_ok)

text \<open>The user map of an index that is not full.\<close>

lemma Evaluate_users:
  assumes nf: "\<not> Full (Evaluate ce js ids mb)"
  shows "Users (Index (Evaluate ce js ids mb)) k \<noteq> None \<longleftrightarrow> k \<in> user_keys ids"
    and "Users (Index (Evaluate ce js ids mb)) k = Some e \<Longrightarrow>
      \<exists>i \<in> set ids. ie_agent e = ai_name i \<and> ie_sponsor e = ai_sponsor i \<and>
        (\<exists>s \<in> set (ai_subjects i). sub_kind s \<noteq> ''Group'' \<and> SubjectKey s = k) \<and>
        (Blocked e = '''' \<longrightarrow> ai_sponsor i \<notin> user_keys ids)"
proof -
  let ?ids = "sort_key id_key ids"
  let ?us = "userSubjects ?ids"
  let ?s0 = "\<lparr>rs_verdicts = Map.empty, rs_index = empty_index, rs_owner = Map.empty, rs_size = 0\<rparr>"
  define st where "st = foldl (add_identity ce js ?us) ?s0 ?ids"
  have idx: "Index (Evaluate ce js ids mb) = rs_index st"
    using nf by (simp add: Evaluate_def st_def Let_def)
  have "reg_ok ?us ids ?s0" by (simp add: reg_ok_def empty_index_def)
  then have ok: "reg_ok ?us ids st" unfolding st_def by (rule add_identities_ok) simp
  have us: "dom ?us = user_keys ids" by (simp add: userSubjects_dom user_keys_def)
  show *: "\<exists>i \<in> set ids. ie_agent e = ai_name i \<and> ie_sponsor e = ai_sponsor i \<and>
      (\<exists>s \<in> set (ai_subjects i). sub_kind s \<noteq> ''Group'' \<and> SubjectKey s = k) \<and>
      (Blocked e = '''' \<longrightarrow> ai_sponsor i \<notin> user_keys ids)"
    if k: "Users (Index (Evaluate ce js ids mb)) k = Some e" for k e
  proof -
    obtain i where i: "i \<in> set ids" "ie_agent e = ai_name i" "ie_sponsor e = ai_sponsor i"
        "\<exists>s \<in> set (ai_subjects i). sub_kind s \<noteq> ''Group'' \<and> SubjectKey s = k"
        "Blocked e = '''' \<longrightarrow> ?us (ai_sponsor i) = None"
      using ok k unfolding reg_ok_def idx by blast
    have "Blocked e = '''' \<longrightarrow> ai_sponsor i \<notin> user_keys ids" using i(5) unfolding us [symmetric] domIff by simp
    then show ?thesis using i(1-4) by (intro bexI [OF _ i(1)]) simp
  qed
  show "Users (Index (Evaluate ce js ids mb)) k \<noteq> None \<longleftrightarrow> k \<in> user_keys ids"
  proof
    assume "Users (Index (Evaluate ce js ids mb)) k \<noteq> None"
    then obtain e where "Users (Index (Evaluate ce js ids mb)) k = Some e" by auto
    from * [OF this] show "k \<in> user_keys ids" unfolding user_keys_def by blast
  next
    assume "k \<in> user_keys ids"
    then obtain i s where "i \<in> set ids" "s \<in> set (ai_subjects i)" "sub_kind s \<noteq> ''Group''" "SubjectKey s = k"
      by (auto simp: user_keys_def)
    then have "rs_owner st (''user:'' @ k) \<noteq> None"
      unfolding st_def by (intro add_identities_owner) (force simp: ownerKey_user)
    then show "Users (Index (Evaluate ce js ids mb)) k \<noteq> None" using ok idx by (simp add: reg_ok_def)
  qed
qed

text \<open>What \<open>Derive\<close> says of a user none of whose groups is an agent's.\<close>

lemma Derive_users:
  assumes g: "\<forall>g \<in> set (u_groups u). Groups idx g = None" and d: "Derive u (Some idx) = Inr r"
  shows "Users idx (Username u) = None \<Longrightarrow>
      Kind (r_actor r) \<noteq> ActorAgent \<and> Principal (r_actor r) = Username u"
    and "Users idx (Username u) = Some e \<Longrightarrow>
      Kind (r_actor r) = ActorAgent \<and> Principal (r_actor r) = Username u \<and> Agent (r_actor r) = ie_agent e \<and>
      Sponsor (r_actor r) = ie_sponsor e \<and> Blocked e = ''''"
proof -
  have "List.map_filter (Groups idx) (u_groups u) = []"
    using g by (auto simp: map_filter_def filter_empty_conv)
  then show "Users idx (Username u) = None \<Longrightarrow>
      Kind (r_actor r) \<noteq> ActorAgent \<and> Principal (r_actor r) = Username u"
    "Users idx (Username u) = Some e \<Longrightarrow>
      Kind (r_actor r) = ActorAgent \<and> Principal (r_actor r) = Username u \<and> Agent (r_actor r) = ie_agent e \<and>
      Sponsor (r_actor r) = ie_sponsor e \<and> Blocked e = ''''"
    using d by (auto simp: Derive_def index_matches_def plain_actor_def split: if_splits)
qed

section \<open>Properties\<close>

text \<open>Whoever is listed as an agent's user is derived as an agent from an index that is not full.\<close>

lemma Derive_listed:
  assumes nf: "\<not> Full (Evaluate compile_err json_size ids maxBytes)" and u: "Username u \<in> user_keys ids"
    and d: "Derive u (Some (Index (Evaluate compile_err json_size ids maxBytes))) = Inr r"
  shows "Kind (r_actor r) = ActorAgent \<and>
    (\<exists>i \<in> set ids. Agent (r_actor r) = ai_name i \<and> Sponsor (r_actor r) = ai_sponsor i \<and>
       (\<exists>s \<in> set (ai_subjects i). sub_kind s \<noteq> ''Group'' \<and> SubjectKey s = Username u))"
proof -
  let ?idx = "Index (Evaluate compile_err json_size ids maxBytes)"
  obtain e where e: "Users ?idx (Username u) = Some e" using Evaluate_users(1) [OF nf] u by auto
  then obtain rest where m: "index_matches u (Some ?idx) = e # rest" by (simp add: index_matches_def)
  have "Kind (r_actor r) = ActorAgent" "Agent (r_actor r) = ie_agent e" "Sponsor (r_actor r) = ie_sponsor e"
    using d m by (auto simp: Derive_def plain_actor_def split: option.splits if_splits)
  then show ?thesis using Evaluate_users(2) [OF nf e] by metis
qed

text \<open>C10. An agent is never taken for a person: where the controller resolves a caller with the index
  written from a registry, over whatever conditions were there before, a caller who signs in as a user or
  ServiceAccount that any AgentIdentity of that registry lists, be it ready, suspended, in conflict or
  otherwise invalid, is derived as the agent of an AgentIdentity that lists it, or refused; never as a human
  or a bot. From a registry over its size bound nobody at all is resolved.\<close>

theorem agent_never_a_person:
  assumes c: "sets_condition set_cond" "name \<noteq> ''''"
    and reg: "reg = Evaluate compile_err json_size ids maxBytes"
    and res: "Resolve name (Answer (index_status set_cond cs reg)) lst u w = (err, actor)"
  shows "(Full reg \<longrightarrow> err = Some ErrIndexNotReady \<and> actor = None) \<and>
    (Username u \<in> user_keys ids \<longrightarrow>
       actor = None \<and> err \<noteq> None \<or>
       (\<exists>r. actor = Some r \<and> Kind (r_actor r) = ActorAgent \<and>
         (\<exists>i \<in> set ids. Agent (r_actor r) = ai_name i \<and> Sponsor (r_actor r) = ai_sponsor i \<and>
           (\<exists>s \<in> set (ai_subjects i). sub_kind s \<noteq> ''Group'' \<and> SubjectKey s = Username u))))"
proof (cases "Full reg")
  case True
  then show ?thesis using res by (auto simp: Resolve_controller [OF c])
next
  case False
  then show ?thesis
    using res Derive_listed [OF False [unfolded reg]]
    by (cases "Derive u (Some (Index reg))") (auto simp: Resolve_controller [OF c] reg)
qed

definition demo_agent :: AgentIdentity where
  "demo_agent = \<lparr>ai_name = ''bot'', ai_created = 1, ai_subjects = [\<lparr>sub_kind = ''User'', sub_namespace = '''',
     sub_name = ''ci''\<rparr>], ai_sponsor = ''alice'', ai_namespaces = [''*''], ai_pipelines = [], ai_environments = [],
     ai_autonomy = '''', ai_signing = [], Suspended = False\<rparr>"

lemma demo_registry:
  "\<not> Full (Evaluate (\<lambda>_. None) (\<lambda>_. 0) [demo_agent] 100)"
  "Users (Index (Evaluate (\<lambda>_. None) (\<lambda>_. 0) [demo_agent] 100)) ''ci'' =
     Some \<lparr>ie_agent = ''bot'', ie_sponsor = ''alice'', ie_namespaces = [''*''], ie_pipelines = [''*''],
       ie_environments = [''*''], ie_autonomy = ''approve'', Blocked = ''''\<rparr>"
  "Users (Index (Evaluate (\<lambda>_. None) (\<lambda>_. 0) [demo_agent] 100)) ''alice'' = None"
  "Groups (Index (Evaluate (\<lambda>_. None) (\<lambda>_. 0) [demo_agent] 100)) g = None"
  by (simp_all add: Evaluate_def demo_agent_def add_identity_def add_subject_def verdict_of_def conflict_of_def
      userSubjects_def entry_of_def empty_index_def ownerKey_def SubjectKey_def orAll_def orDefault_def
      trim_space_def Let_def)

definition demo_ci :: User where "demo_ci = \<lparr>Username = ''ci'', u_groups = []\<rparr>"

definition demo_set :: "Condition list \<Rightarrow> Condition \<Rightarrow> Condition list" where
  "demo_set cs c = c # filter (\<lambda>d. c_type d \<noteq> c_type c) cs"

lemma demo_set_sets: "sets_condition demo_set"
proof -
  have "find (\<lambda>d. c_type d = t) (filter (\<lambda>d. c_type d \<noteq> u) cs) = find (\<lambda>d. c_type d = t) cs"
    if "t \<noteq> u" for t u and cs :: "Condition list"
    using that by (induction cs) auto
  then show ?thesis by (simp add: sets_condition_def demo_set_def find_condition_def)
qed

definition demo_where :: Where where
  "demo_where = \<lparr>wh_namespace = ''shop'', wh_pipeline = '''', wh_environment = ''''\<rparr>"

theorem agent_never_a_person_witness:
  "\<exists>r. snd (Resolve ''kardinal'' (Answer (index_status demo_set []
         (Evaluate (\<lambda>_. None) (\<lambda>_. 0) [demo_agent] 100))) Missing demo_ci demo_where) = Some r \<and>
     Kind (r_actor r) = ActorAgent"
proof -
  let ?reg = "Evaluate (\<lambda>_. None) (\<lambda>_. 0) [demo_agent] 100"
  obtain err r where d: "Resolve ''kardinal'' (Answer (index_status demo_set [] ?reg)) Missing demo_ci demo_where =
      (err, Some r)"
    by (simp add: Resolve_controller [OF demo_set_sets] demo_registry(1) Derive_def index_matches_def demo_ci_def
        demo_registry(2) map_filter_def)
  have "Username demo_ci \<in> user_keys [demo_agent]"
    by (auto simp: user_keys_def demo_ci_def demo_agent_def SubjectKey_def)
  then show ?thesis using agent_never_a_person [OF demo_set_sets _ refl d] d by auto
qed

text \<open>One party, one vote: on actors derived from one registry (by users and ServiceAccounts, with
  principals and sponsors outside the reserved name space of agents), two actors are of the same party
  exactly when they have the same vote key. So \<open>SameParty\<close> is an equivalence there, and \<open>PartyKey\<close> names its
  classes: a person and every agent they sponsor are one vote.\<close>

theorem party_is_one_vote:
  assumes nf: "\<not> Full (Evaluate compile_err json_size ids maxBytes)" and dist: "distinct (map ai_name ids)"
    and idx: "idx = Index (Evaluate compile_err json_size ids maxBytes)"
    and g: "\<forall>g \<in> set (u_groups u) \<union> set (u_groups v). Groups idx g = None"
    and names: "\<forall>n \<in> {Username u, Username v} \<union> ai_sponsor ` set ids. n \<noteq> '''' \<and> \<not> has_prefix n ''agent:''"
    and d: "Derive u (Some idx) = Inr ru" "Derive v (Some idx) = Inr rv"
  shows "SameParty (r_actor ru) (r_actor rv) \<longleftrightarrow> PartyKey (r_actor ru) = PartyKey (r_actor rv)"
proof -
  have facts: "\<exists>i \<in> set ids. Agent (r_actor x) = ai_name i \<and> Sponsor (r_actor x) = ai_sponsor i \<and>
        ai_sponsor i \<notin> user_keys ids \<and> Username w \<in> user_keys ids \<and> Kind (r_actor x) = ActorAgent"
    if w: "Users idx (Username w) \<noteq> None" "w \<in> {u, v}" "Derive w (Some idx) = Inr x" for w x
  proof -
    obtain e where e: "Users idx (Username w) = Some e" using w(1) by auto
    have gw: "\<forall>g \<in> set (u_groups w). Groups idx g = None" using g w(2) by auto
    note a = Derive_users(2) [OF gw w(3) e]
    have "Username w \<in> user_keys ids" using Evaluate_users(1) [OF nf] w(1) idx by simp
    then show ?thesis using Evaluate_users(2) [OF nf e [unfolded idx]] a by metis
  qed
  have prin: "Principal (r_actor ru) = Username u" "Principal (r_actor rv) = Username v"
    using Derive_users [OF _ d(1)] Derive_users [OF _ d(2)] g by (metis UnI1 UnI2 not_None_eq)+
  have hum: "Kind (r_actor x) \<noteq> ActorAgent \<and> Username w \<notin> user_keys ids"
    if "Users idx (Username w) = None" "w \<in> {u, v}" "Derive w (Some idx) = Inr x" for w x
    using Derive_users(1) [OF _ that(3,1)] g that(2) Evaluate_users(1) [OF nf, of "Username w"] that(1) idx by auto
  have ag: "x \<noteq> ''agent:'' @ y" if "\<not> has_prefix x ''agent:''" for x y
    using that has_prefix_append [of "''agent:''" y] by metis
  have ids: "i = j" if "i \<in> set ids" "j \<in> set ids" "ai_name i = ai_name j" for i j
    using dist that by (simp add: distinct_map inj_on_def)
  have nm: "Username u \<noteq> ''''" "Username v \<noteq> ''''" "\<not> has_prefix (Username u) ''agent:''"
      "\<not> has_prefix (Username v) ''agent:''" "\<And>i. i \<in> set ids \<Longrightarrow> \<not> has_prefix (ai_sponsor i) ''agent:''"
    using names by auto
  consider (hh) "Users idx (Username u) = None" "Users idx (Username v) = None"
    | (ha) "Users idx (Username u) = None" "Users idx (Username v) \<noteq> None"
    | (ah) "Users idx (Username u) \<noteq> None" "Users idx (Username v) = None"
    | (aa) "Users idx (Username u) \<noteq> None" "Users idx (Username v) \<noteq> None" by blast
  then show ?thesis
  proof cases
    case hh
    then show ?thesis using hum [OF hh(1) _ d(1)] hum [OF hh(2) _ d(2)] prin nm(1,2)
      by (auto simp: SameParty_def Party_def PartyKey_def)
  next
    case ha
    obtain j where "j \<in> set ids" "Agent (r_actor rv) = ai_name j" "Sponsor (r_actor rv) = ai_sponsor j"
        "Username v \<in> user_keys ids" "Kind (r_actor rv) = ActorAgent"
      using facts [OF ha(2) _ d(2)] by blast
    then show ?thesis using hum [OF ha(1) _ d(1)] prin nm(1,2) ag [OF nm(3)]
      by (auto simp: SameParty_def Party_def PartyKey_def)
  next
    case ah
    obtain i where "i \<in> set ids" "Agent (r_actor ru) = ai_name i" "Sponsor (r_actor ru) = ai_sponsor i"
        "Username u \<in> user_keys ids" "Kind (r_actor ru) = ActorAgent"
      using facts [OF ah(1) _ d(1)] by blast
    then show ?thesis using hum [OF ah(2) _ d(2)] prin nm(1,2) ag [OF nm(4), THEN not_sym]
      by (auto simp: SameParty_def Party_def PartyKey_def)
  next
    case aa
    obtain i where i: "i \<in> set ids" "Agent (r_actor ru) = ai_name i" "Sponsor (r_actor ru) = ai_sponsor i"
        "ai_sponsor i \<notin> user_keys ids" "Username u \<in> user_keys ids" "Kind (r_actor ru) = ActorAgent"
      using facts [OF aa(1) _ d(1)] by blast
    obtain j where j: "j \<in> set ids" "Agent (r_actor rv) = ai_name j" "Sponsor (r_actor rv) = ai_sponsor j"
        "ai_sponsor j \<notin> user_keys ids" "Username v \<in> user_keys ids" "Kind (r_actor rv) = ActorAgent"
      using facts [OF aa(2) _ d(2)] by blast
    have same: "ai_sponsor i = ai_sponsor j" if "Username u = Username v"
    proof -
      obtain e where e: "Users idx (Username u) = Some e" using aa(1) by auto
      have "Sponsor (r_actor ru) = ie_sponsor e" "Sponsor (r_actor rv) = ie_sponsor e"
        using Derive_users(2) [OF _ d(1) e] Derive_users(2) [OF _ d(2)] e that g by auto
      then show ?thesis using i(3) j(3) by simp
    qed
    have "Username u \<noteq> ai_sponsor j" "Username v \<noteq> ai_sponsor i" using i(5) j(4) j(5) i(4) by auto
    then show ?thesis
      using i j prin nm(1,2) same ids [OF i(1) j(1)] ag [OF nm(3)] ag [OF nm(4), THEN not_sym]
        ag [OF nm(5) [OF i(1)]] ag [OF nm(5) [OF j(1)], THEN not_sym]
      by (auto simp: SameParty_def Party_def PartyKey_def)
  qed
qed

theorem party_is_one_vote_witness:
  "\<exists>ru rv. Derive demo_ci (Some (Index (Evaluate (\<lambda>_. None) (\<lambda>_. 0) [demo_agent] 100))) = Inr ru \<and>
     Derive \<lparr>Username = ''alice'', u_groups = []\<rparr> (Some (Index (Evaluate (\<lambda>_. None) (\<lambda>_. 0) [demo_agent] 100))) = Inr rv \<and>
     SameParty (r_actor ru) (r_actor rv)"
proof -
  let ?idx = "Index (Evaluate (\<lambda>_. None) (\<lambda>_. 0) [demo_agent] 100)"
  let ?al = "\<lparr>Username = ''alice'', u_groups = []\<rparr>"
  obtain ru where u: "Derive demo_ci (Some ?idx) = Inr ru" "PartyKey (r_actor ru) = ''alice''"
    by (simp add: Derive_def index_matches_def demo_ci_def demo_registry(2) map_filter_def PartyKey_def plain_actor_def)
  obtain rv where v: "Derive ?al (Some ?idx) = Inr rv" "PartyKey (r_actor rv) = ''alice''"
    by (simp add: Derive_def index_matches_def demo_registry(3) map_filter_def PartyKey_def plain_actor_def)
  have "SameParty (r_actor ru) (r_actor rv) \<longleftrightarrow> PartyKey (r_actor ru) = PartyKey (r_actor rv)"
    by (rule party_is_one_vote [OF demo_registry(1) _ refl _ _ u(1) v(1)])
      (simp_all add: demo_ci_def demo_agent_def)
  then show ?thesis using u v by auto
qed

end
