(* ===== verification/Approvals.thy ===== *)
theory Approvals
  imports Actors "HOL-Library.AList"
begin

text \<open>
  How an approval gate counts decisions: \<open>pkg/lifecycle/approval_tally.go\<close> (\<open>TallyApprovals\<close>, \<open>Met\<close>,
  \<open>ApprovalStandingOf\<close> and the rules they use) and \<open>pkg/lifecycle/approval_fields.go\<close> (the declared fields
  an approve must carry).

  The English texts of the code are values of datatypes here (\<open>ApprovalBlock\<close>, \<open>field_problem\<close>,
  \<open>record_reason\<close>), one constructor for each text, with its arguments. A Go map of strings is an
  association list with distinct keys. Three library calls are arguments: \<open>re\<close> (\<open>regexp.Compile\<close>: an error,
  or the match function), \<open>url_parse\<close> (\<open>url.Parse\<close>: scheme and host) and \<open>utf8_valid\<close> (\<open>utf8.ValidString\<close>).
\<close>

section \<open>Declared fields\<close>

datatype field_type = FieldString | FieldBool | FieldInt | FieldURL | FieldEnum | FieldOther string

record ApprovalField =
  fd_name :: string
  fd_type :: field_type
  fd_required :: bool
  fd_description :: string
  fd_values :: "string list"
  fd_pattern :: string
  fd_mustBe :: string

record GateApprovalPolicy =
  Required :: int
  AllowedUsers :: "string list"
  AllowedGroups :: "string list"
  ExcludeAuthor :: bool
  AllowAgents :: bool
  AllowedAgents :: "string list"
  ap_fields :: "ApprovalField list"

datatype field_problem =
    IsRequired string
  | TooLong
  | NotUTF8
  | NotBool string
  | NotInt string
  | NotURL string
  | NotInEnum "string list" string
  | UnknownType string
  | BadPattern string
  | NoMatch string string
  | MustBe string

record FieldProblem =
  fp_name :: string
  fp_problem :: field_problem
  fp_missing :: bool

definition MaxApprovalFieldValue :: nat where "MaxApprovalFieldValue = 1024"
definition MaxRecordedFieldValue :: nat where "MaxRecordedFieldValue = 256"

text \<open>\<open>truncate\<close> cuts at a byte that starts a rune (not \<open>10xxxxxx\<close>) and appends an ellipsis.\<close>

definition truncate_str :: "string \<Rightarrow> nat \<Rightarrow> string" where
  "truncate_str s n = (if n = 0 \<or> length s \<le> n then s else take (rune_cut s n) s @ ellipsis)"

text \<open>\<open>strconv.ParseInt(v, 10, 64)\<close>: an optional sign and decimal digits within the range of \<open>int64\<close>.\<close>

definition is_digit :: "char \<Rightarrow> bool" where
  "is_digit c = (48 \<le> (of_char c :: nat) \<and> (of_char c :: nat) \<le> 57)"

definition digits_val :: "string \<Rightarrow> int" where
  "digits_val ds = foldl (\<lambda>n c. n * 10 + (of_char c - 48)) 0 ds"

definition parse_int64 :: "string \<Rightarrow> int option" where
  "parse_int64 v =
     (let neg = (v \<noteq> [] \<and> hd v = CHR ''-'');
          ds = (if v \<noteq> [] \<and> (hd v = CHR ''-'' \<or> hd v = CHR ''+'') then tl v else v);
          n = (if neg then - digits_val ds else digits_val ds)
      in if ds = [] \<or> \<not> list_all is_digit ds \<or> n < - (2 ^ 63) \<or> n \<ge> 2 ^ 63 then None else Some n)"

definition fieldValueProblem ::
  "(string \<Rightarrow> string + (string \<Rightarrow> bool)) \<Rightarrow> (string \<Rightarrow> (string \<times> string) option) \<Rightarrow> (string \<Rightarrow> bool) \<Rightarrow>
   ApprovalField \<Rightarrow> string \<Rightarrow> field_problem option" where
  "fieldValueProblem re url_parse utf8_valid f v =
     (let t = truncate_str v 64;
          by_type = (case fd_type f of
             FieldBool \<Rightarrow> if v \<noteq> ''true'' \<and> v \<noteq> ''false'' then Some (NotBool t) else None
           | FieldInt \<Rightarrow> if parse_int64 v = None then Some (NotInt t) else None
           | FieldURL \<Rightarrow>
               (case url_parse v of
                  None \<Rightarrow> Some (NotURL t)
                | Some (scheme, host) \<Rightarrow>
                    if (scheme \<noteq> ''https'' \<and> scheme \<noteq> ''http'') \<or> host = '''' then Some (NotURL t) else None)
           | FieldEnum \<Rightarrow> if v \<in> set (fd_values f) then None else Some (NotInEnum (fd_values f) t)
           | FieldString \<Rightarrow> None
           | FieldOther x \<Rightarrow> Some (UnknownType x))
      in if length v > MaxApprovalFieldValue then Some TooLong
         else if \<not> utf8_valid v then Some NotUTF8
         else case by_type of
                Some p \<Rightarrow> Some p
              | None \<Rightarrow>
                  (case (if fd_pattern f = '''' then None
                         else (case re (fd_pattern f) of
                                 Inl err \<Rightarrow> Some (BadPattern err)
                               | Inr matches \<Rightarrow> if matches v then None else Some (NoMatch (fd_pattern f) t))) of
                     Some p \<Rightarrow> Some p
                   | None \<Rightarrow> if fd_mustBe f \<noteq> '''' \<and> v \<noteq> fd_mustBe f then Some (MustBe (fd_mustBe f)) else None))"

text \<open>The libraries of the fields, in one record.\<close>

record field_lib =
  fl_re :: "string \<Rightarrow> string + (string \<Rightarrow> bool)"
  fl_url :: "string \<Rightarrow> (string \<times> string) option"
  fl_utf8 :: "string \<Rightarrow> bool"

definition field_problem_of :: "field_lib \<Rightarrow> (string \<times> string) list \<Rightarrow> ApprovalField \<Rightarrow> FieldProblem option" where
  "field_problem_of lib fs f =
     (case map_of fs (fd_name f) of
        None \<Rightarrow> if fd_required f then Some \<lparr>fp_name = fd_name f, fp_problem = IsRequired (fd_description f), fp_missing = True\<rparr>
                else None
      | Some v \<Rightarrow>
          if v = ''''
          then if fd_required f then Some \<lparr>fp_name = fd_name f, fp_problem = IsRequired (fd_description f), fp_missing = True\<rparr>
               else None
          else map_option (\<lambda>p. \<lparr>fp_name = fd_name f, fp_problem = p, fp_missing = False\<rparr>)
                 (fieldValueProblem (fl_re lib) (fl_url lib) (fl_utf8 lib) f v))"

definition ApprovalFieldProblems :: "field_lib \<Rightarrow> GateApprovalPolicy option \<Rightarrow> (string \<times> string) list \<Rightarrow> FieldProblem list" where
  "ApprovalFieldProblems lib p fs =
     (case p of
        None \<Rightarrow> []
      | Some pol \<Rightarrow> sort_key fp_name (List.map_filter (field_problem_of lib fs) (ap_fields pol)))"

definition ApprovalFieldsValid :: "field_lib \<Rightarrow> GateApprovalPolicy option \<Rightarrow> (string \<times> string) list \<Rightarrow> bool" where
  "ApprovalFieldsValid lib p fs = (ApprovalFieldProblems lib p fs = [])"

definition DeclaredFields :: "GateApprovalPolicy option \<Rightarrow> (string \<times> string) list \<Rightarrow> nat \<Rightarrow> (string \<times> string) list" where
  "DeclaredFields p fs limit =
     (case p of
        None \<Rightarrow> []
      | Some pol \<Rightarrow>
          List.map_filter (\<lambda>f. map_option (\<lambda>v. (fd_name f, truncate_str v limit)) (map_of fs (fd_name f))) (ap_fields pol))"

section \<open>Decisions\<close>

datatype ApprovalBlock =
    ApprovalOpen | ApprovalTooMany | ApprovalNoCreator | ApprovalComponentCreator | ApprovalRejected
  | ApprovalCounted | ApprovalNotAllowed | ApprovalAuthor | ApprovalAgentsOff | ApprovalAgentNotAllowed
  | ApprovalOwnParty

definition Held :: "ApprovalBlock \<Rightarrow> bool" where
  "Held b = (b = ApprovalTooMany \<or> b = ApprovalNoCreator \<or> b = ApprovalComponentCreator)"

definition MaxGateApprovals :: nat where "MaxGateApprovals = 100"

datatype decision = Approve | Reject

record GateApproval =
  ga_user :: string
  ga_groups :: "string list"
  ga_actor :: "Actor option"
  ga_bundle :: string
  ga_environment :: string
  ga_decision :: decision
  ga_comment :: string
  ga_fields :: "(string \<times> string) list"

record ApprovalGate =
  gt_policy :: "GateApprovalPolicy option"
  gt_bundle :: string
  gt_environment :: string
  gt_approvals :: "GateApproval list"
  gt_required :: "bool option"

record Approver =
  apr_user :: string
  apr_groups :: "string list"
  apr_actor :: "Actor option"

definition actorOf :: "Approver \<Rightarrow> Actor" where
  "actorOf a = OrUnknown (apr_actor a) (apr_user a)"

definition ComponentCreator :: "string \<Rightarrow> bool" where
  "ComponentCreator who =
     (who \<in> {''kardinal-controller'', ''bundle-api'', ''kardinal-ui''} \<or> has_prefix who ''subscription:'')"

definition componentAuthor :: "Actor \<Rightarrow> bool" where
  "componentAuthor author = (Kind author = ActorController \<or> ComponentCreator (Principal author))"

definition approvalPolicyBlock :: "GateApprovalPolicy option \<Rightarrow> nat \<Rightarrow> Actor \<Rightarrow> ApprovalBlock" where
  "approvalPolicyBlock p n author =
     (case p of
        None \<Rightarrow> ApprovalOpen
      | Some pol \<Rightarrow>
          if n > MaxGateApprovals then ApprovalTooMany
          else if ExcludeAuthor pol \<and> Principal author = '''' then ApprovalNoCreator
          else if ExcludeAuthor pol \<and> componentAuthor author then ApprovalComponentCreator
          else ApprovalOpen)"

definition approvalAllowed :: "GateApprovalPolicy \<Rightarrow> string \<Rightarrow> string list \<Rightarrow> bool" where
  "approvalAllowed p user groups =
     (if AllowedUsers p = [] \<and> AllowedGroups p = [] then True
      else user \<in> set (AllowedUsers p) \<or> list_ex (\<lambda>g. g \<in> set (AllowedGroups p)) groups)"

definition approvalDecisionBlock :: "GateApprovalPolicy option \<Rightarrow> Approver \<Rightarrow> Actor \<Rightarrow> ApprovalBlock" where
  "approvalDecisionBlock p a author =
     (let who = actorOf a in
      if Kind who = ActorAgent
      then (case p of
              None \<Rightarrow> ApprovalAgentsOff
            | Some pol \<Rightarrow>
                if \<not> AllowAgents pol then ApprovalAgentsOff
                else if Agent who \<notin> set (AllowedAgents pol) then ApprovalAgentNotAllowed
                else if Principal author \<noteq> '''' \<and> SameParty author who then ApprovalOwnParty
                else ApprovalOpen)
      else (case p of
              None \<Rightarrow> ApprovalOpen
            | Some pol \<Rightarrow>
                if \<not> approvalAllowed pol (apr_user a) (apr_groups a) then ApprovalNotAllowed
                else if ExcludeAuthor pol \<and> Principal author \<noteq> '''' \<and> SameParty author who then ApprovalAuthor
                else ApprovalOpen))"

definition ApprovalDecisionCounts :: "GateApprovalPolicy option \<Rightarrow> Approver \<Rightarrow> Actor \<Rightarrow> bool" where
  "ApprovalDecisionCounts p a author =
     (case approvalDecisionBlock p a author of
        ApprovalNotAllowed \<Rightarrow> False | ApprovalAuthor \<Rightarrow> False | ApprovalAgentsOff \<Rightarrow> False
      | ApprovalAgentNotAllowed \<Rightarrow> False | ApprovalOwnParty \<Rightarrow> False | _ \<Rightarrow> True)"

definition partyRelation :: "Actor \<Rightarrow> Actor \<Rightarrow> string" where
  "partyRelation author approver =
     (let agentAuthor = (Kind author = ActorAgent); agentApprover = (Kind approver = ActorAgent) in
      if Principal approver = Principal author then ''the version's author''
      else if agentAuthor \<and> agentApprover \<and> Agent approver = Agent author then ''the version's agent''
      else if agentAuthor \<and> Principal approver = Sponsor author
      then ''the sponsor of the version's agent '' @ Agent author
      else if agentApprover \<and> Sponsor approver = Principal author
      then ''the author's own agent '' @ Agent approver
      else if agentAuthor \<and> agentApprover
      then ''an agent of the same sponsor as the version's agent '' @ Agent author
      else ''the author's party'')"

section \<open>The tally\<close>

datatype record_reason =
    NoReason
  | OtherGate string string
  | NotCounted ApprovalBlock
  | FieldsInvalid "FieldProblem list"
  | AlreadyCountedFor string

record GateApprovalStatus =
  st_user :: string
  st_decision :: decision
  st_comment :: string
  st_actor :: "Actor option"
  st_fields :: "(string \<times> string) list"
  st_counted :: bool
  st_reason :: record_reason

record tally_state =
  ts_approved :: "(string \<times> string) list"
  ts_fields :: "(string \<times> (string \<times> string) list) list"
  ts_rejected :: "(string \<times> string) list"
  ts_comments :: "(string \<times> string) list"
  ts_records :: "GateApprovalStatus list"

record ApprovalTally =
  t_required :: int
  Approvers :: "string list"
  Rejecters :: "string list"
  Comments :: "(string \<times> string) list"
  Records :: "GateApprovalStatus list"
  t_held :: ApprovalBlock
  t_fields :: "(string \<times> string list) list"
  countedKeys :: "(string \<times> string) list"

definition approver_of :: "GateApproval \<Rightarrow> Approver" where
  "approver_of d = \<lparr>apr_user = ga_user d, apr_groups = ga_groups d, apr_actor = ga_actor d\<rparr>"

definition fields_ok :: "field_lib \<Rightarrow> GateApprovalPolicy option \<Rightarrow> GateApproval \<Rightarrow> bool" where
  "fields_ok lib p d = (ga_decision d = Reject \<or> ApprovalFieldsValid lib p (ga_fields d))"

definition tally_one :: "field_lib \<Rightarrow> ApprovalGate \<Rightarrow> Actor \<Rightarrow> tally_state \<Rightarrow> GateApproval \<Rightarrow> tally_state" where
  "tally_one lib gate author st d =
     (let p = gt_policy gate;
          who = approver_of d;
          rec0 = \<lparr>st_user = ga_user d, st_decision = ga_decision d, st_comment = ga_comment d, st_actor = ga_actor d,
            st_fields = DeclaredFields p (ga_fields d) MaxRecordedFieldValue, st_counted = False, st_reason = NoReason\<rparr>;
          note_rec = (\<lambda>st r. st\<lparr>ts_records := ts_records st @ [r]\<rparr>);
          key = PartyKey (actorOf who)
      in if ga_bundle d \<noteq> gt_bundle gate \<or> ga_environment d \<noteq> gt_environment gate
         then note_rec st (rec0\<lparr>st_reason := OtherGate (ga_bundle d) (ga_environment d)\<rparr>)
         else if \<not> ApprovalDecisionCounts p who author
         then note_rec st (rec0\<lparr>st_reason := NotCounted (approvalDecisionBlock p who author)\<rparr>)
         else if \<not> fields_ok lib p d
         then note_rec st (rec0\<lparr>st_reason := FieldsInvalid (ApprovalFieldProblems lib p (ga_fields d))\<rparr>)
         else if ga_decision d = Reject
         then let rej = (case map_of (ts_rejected st) key of
                           None \<Rightarrow> ts_rejected st @ [(key, ga_user d)] | Some _ \<Rightarrow> ts_rejected st);
                  com = (if ga_comment d \<noteq> '''' then AList.update (the (map_of rej key)) (ga_comment d) (ts_comments st)
                         else ts_comments st)
              in note_rec (st\<lparr>ts_rejected := rej, ts_comments := com\<rparr>) (rec0\<lparr>st_counted := True\<rparr>)
         else (case map_of (ts_approved st) key of
                 None \<Rightarrow> note_rec (st\<lparr>ts_approved := ts_approved st @ [(key, ga_user d)],
                                    ts_fields := ts_fields st @ [(key, ga_fields d)]\<rparr>) (rec0\<lparr>st_counted := True\<rparr>)
               | Some u \<Rightarrow>
                   if u \<noteq> ga_user d then note_rec st (rec0\<lparr>st_reason := AlreadyCountedFor u\<rparr>)
                   else note_rec st (rec0\<lparr>st_counted := True\<rparr>)))"

definition tally_fields ::
  "GateApprovalPolicy option \<Rightarrow> (string \<times> string) list \<Rightarrow> (string \<times> (string \<times> string) list) list \<Rightarrow> string list \<Rightarrow>
   (string \<times> string list) list" where
  "tally_fields p counted fmap approvers =
     (case p of
        None \<Rightarrow> []
      | Some pol \<Rightarrow>
          let byUser = (\<lambda>u. case map_of (map (\<lambda>(k, u). (u, k)) counted) u of None \<Rightarrow> '''' | Some k \<Rightarrow> k);
              given = (\<lambda>n u. case map_of fmap (byUser u) of
                 None \<Rightarrow> [] | Some fs \<Rightarrow> (case map_of fs n of None \<Rightarrow> [] | Some v \<Rightarrow> if v \<noteq> '''' then [v] else []))
          in map (\<lambda>f. (fd_name f, concat (map (given (fd_name f)) approvers))) (ap_fields pol))"

definition TallyApprovals :: "field_lib \<Rightarrow> ApprovalGate \<Rightarrow> Actor \<Rightarrow> ApprovalTally" where
  "TallyApprovals lib gate author =
     (let p = gt_policy gate;
          st = foldl (tally_one lib gate author)
            \<lparr>ts_approved = [], ts_fields = [], ts_rejected = [], ts_comments = [], ts_records = []\<rparr>
            (sort_key ga_user (gt_approvals gate));
          counted = filter (\<lambda>(k, u). map_of (ts_rejected st) k = None) (ts_approved st);
          approvers = sort (map snd counted)
      in \<lparr>t_required = (case p of None \<Rightarrow> 0 | Some pol \<Rightarrow> max (Required pol) 1),
          Approvers = approvers, Rejecters = sort (map snd (ts_rejected st)), Comments = ts_comments st,
          Records = ts_records st, t_held = approvalPolicyBlock p (length (gt_approvals gate)) author,
          t_fields = tally_fields p counted (ts_fields st) approvers, countedKeys = counted\<rparr>)"

definition Met :: "ApprovalTally \<Rightarrow> bool" where
  "Met t =
     (if t_required t = 0 then True
      else t_held t = ApprovalOpen \<and> Rejecters t = [] \<and> int (length (Approvers t)) \<ge> t_required t)"

section \<open>Standing\<close>

definition ApprovalWaived :: "ApprovalGate \<Rightarrow> bool" where
  "ApprovalWaived gate = (gt_required gate = Some False)"

record ApprovalStanding =
  as_approved :: nat
  as_required :: int
  CanApprove :: bool
  AlreadyCounted :: bool
  RejectedBy :: "string list"
  Block :: ApprovalBlock
  Who :: "string list"
  Waived :: bool

definition who_may :: "GateApprovalPolicy option \<Rightarrow> string list" where
  "who_may p =
     (case p of
        None \<Rightarrow> []
      | Some pol \<Rightarrow> AllowedUsers pol @ map (\<lambda>g. ''group '' @ g) (AllowedGroups pol) @
          (if AllowAgents pol then map (\<lambda>a. ''agent '' @ a) (AllowedAgents pol) else []))"

definition ApprovalStandingOf :: "field_lib \<Rightarrow> ApprovalGate \<Rightarrow> Actor \<Rightarrow> Approver option \<Rightarrow> ApprovalStanding" where
  "ApprovalStandingOf lib gate author idn =
     (let t = TallyApprovals lib gate author;
          p = gt_policy gate;
          counted = (case idn of None \<Rightarrow> False | Some who \<Rightarrow> map_of (countedKeys t) (PartyKey (actorOf who)) \<noteq> None);
          s = \<lparr>as_approved = length (Approvers t), as_required = t_required t, CanApprove = False,
               AlreadyCounted = counted, RejectedBy = Rejecters t, Block = ApprovalOpen, Who = who_may p,
               Waived = ApprovalWaived gate\<rparr>
      in if t_held t \<noteq> ApprovalOpen then s\<lparr>Block := t_held t\<rparr>
         else if Rejecters t \<noteq> [] then s\<lparr>Block := ApprovalRejected\<rparr>
         else (case idn of
                 None \<Rightarrow> s
               | Some who \<Rightarrow>
                   if counted then s\<lparr>Block := ApprovalCounted\<rparr>
                   else s\<lparr>Block := approvalDecisionBlock p who author,
                          CanApprove := ApprovalDecisionCounts p who author\<rparr>))"

definition joinUsers :: "string list \<Rightarrow> string" where
  "joinUsers users =
     (case users of
        [] \<Rightarrow> ''''
      | [u] \<Rightarrow> u
      | _ \<Rightarrow> join '', '' (butlast users) @ '' and '' @ last users)"

section \<open>What is counted\<close>

definition counts :: "field_lib \<Rightarrow> ApprovalGate \<Rightarrow> Actor \<Rightarrow> GateApproval \<Rightarrow> bool" where
  "counts lib gate author d \<longleftrightarrow> ga_bundle d = gt_bundle gate \<and> ga_environment d = gt_environment gate \<and>
     ApprovalDecisionCounts (gt_policy gate) (approver_of d) author \<and> fields_ok lib (gt_policy gate) d"

abbreviation vote_key :: "GateApproval \<Rightarrow> string" where
  "vote_key d \<equiv> PartyKey (actorOf (approver_of d))"

definition approving :: "field_lib \<Rightarrow> ApprovalGate \<Rightarrow> Actor \<Rightarrow> GateApproval set \<Rightarrow> string set" where
  "approving lib gate author D = vote_key ` {d \<in> D. counts lib gate author d \<and> ga_decision d = Approve}"

definition rejecting :: "field_lib \<Rightarrow> ApprovalGate \<Rightarrow> Actor \<Rightarrow> GateApproval set \<Rightarrow> string set" where
  "rejecting lib gate author D = vote_key ` {d \<in> D. counts lib gate author d \<and> ga_decision d = Reject}"

definition tally_inv :: "field_lib \<Rightarrow> ApprovalGate \<Rightarrow> Actor \<Rightarrow> GateApproval list \<Rightarrow> tally_state \<Rightarrow> bool" where
  "tally_inv lib gate author ds st \<longleftrightarrow>
     distinct (map fst (ts_approved st)) \<and> distinct (map fst (ts_rejected st)) \<and>
     fst ` set (ts_approved st) = approving lib gate author (set ds) \<and>
     fst ` set (ts_rejected st) = rejecting lib gate author (set ds) \<and>
     length (ts_records st) = length ds"

lemma approving_insert [simp]:
  "approving lib gate author (insert d D) =
     (if counts lib gate author d \<and> ga_decision d = Approve then insert (vote_key d) (approving lib gate author D)
      else approving lib gate author D)"
  by (auto simp: approving_def)

lemma rejecting_insert [simp]:
  "rejecting lib gate author (insert d D) =
     (if counts lib gate author d \<and> ga_decision d = Reject then insert (vote_key d) (rejecting lib gate author D)
      else rejecting lib gate author D)"
  by (auto simp: rejecting_def)

lemma tally_one_inv:
  assumes inv: "tally_inv lib gate author ds st"
  shows "tally_inv lib gate author (ds @ [d]) (tally_one lib gate author st d)"
proof (cases "counts lib gate author d")
  case False
  then show ?thesis
    using inv by (auto simp: tally_inv_def tally_one_def counts_def Let_def)
next
  case True
  note key = map_of_eq_None_iff [of _ "vote_key d"]
  show ?thesis
  proof (cases "ga_decision d")
    case Approve
    show ?thesis
    proof (cases "map_of (ts_approved st) (vote_key d)")
      case None
      then show ?thesis using inv True Approve key [of "ts_approved st"]
        by (simp add: tally_inv_def tally_one_def counts_def Let_def)
    next
      case (Some u)
      then have "vote_key d \<in> fst ` set (ts_approved st)" by (metis key option.distinct(1))
      then show ?thesis using inv True Approve Some
        by (auto simp: tally_inv_def tally_one_def counts_def insert_absorb Let_def)
    qed
  next
    case Reject
    show ?thesis
    proof (cases "map_of (ts_rejected st) (vote_key d)")
      case None
      then show ?thesis using inv True Reject key [of "ts_rejected st"]
        by (simp add: tally_inv_def tally_one_def counts_def Let_def)
    next
      case (Some u)
      then have "vote_key d \<in> fst ` set (ts_rejected st)" by (metis key option.distinct(1))
      then show ?thesis using inv True Reject Some
        by (auto simp: tally_inv_def tally_one_def counts_def insert_absorb Let_def)
    qed
  qed
qed

lemma tally_fold_inv:
  "tally_inv lib gate author ds (foldl (tally_one lib gate author)
     \<lparr>ts_approved = [], ts_fields = [], ts_rejected = [], ts_comments = [], ts_records = []\<rparr> ds)"
proof (induction ds rule: rev_induct)
  case Nil
  then show ?case by (simp add: tally_inv_def approving_def rejecting_def)
next
  case (snoc d ds)
  then show ?case using tally_one_inv by simp
qed

lemma filter_fst_card:
  "distinct (map fst xs) \<Longrightarrow> length (filter (\<lambda>(k, u). k \<notin> R) xs) = card (fst ` set xs - R)"
proof (induction xs)
  case (Cons x xs)
  have "fst ` set (x # xs) - R = (if fst x \<in> R then fst ` set xs - R else insert (fst x) (fst ` set xs - R))" by auto
  then show ?case using Cons by (auto simp: case_prod_beta)
qed simp

lemma fst_filter: "fst ` set (filter (\<lambda>(k, u). k \<notin> R) xs) = fst ` set xs - R"
  by force

lemma tally_counts:
  fixes lib gate author
  defines "t \<equiv> TallyApprovals lib gate author" and "D \<equiv> set (gt_approvals gate)"
  shows "length (Approvers t) = card (approving lib gate author D - rejecting lib gate author D)"
    "length (Rejecters t) = card (rejecting lib gate author D)"
    "fst ` set (countedKeys t) = approving lib gate author D - rejecting lib gate author D"
    "Rejecters t = [] \<longleftrightarrow> rejecting lib gate author D = {}"
proof -
  define st where "st = foldl (tally_one lib gate author)
    \<lparr>ts_approved = [], ts_fields = [], ts_rejected = [], ts_comments = [], ts_records = []\<rparr>
    (sort_key ga_user (gt_approvals gate))"
  have inv: "distinct (map fst (ts_approved st))" "distinct (map fst (ts_rejected st))"
      "fst ` set (ts_approved st) = approving lib gate author D" "fst ` set (ts_rejected st) = rejecting lib gate author D"
    using tally_fold_inv [of lib gate author "sort_key ga_user (gt_approvals gate)"]
    by (auto simp: tally_inv_def st_def D_def)
  have f: "filter (\<lambda>(k, u). map_of (ts_rejected st) k = None) (ts_approved st) =
      filter (\<lambda>(k, u). k \<notin> rejecting lib gate author D) (ts_approved st)"
    using inv(4) by (simp add: map_of_eq_None_iff)
  have t: "Approvers t = sort (map snd (filter (\<lambda>(k, u). k \<notin> rejecting lib gate author D) (ts_approved st)))"
      "Rejecters t = sort (map snd (ts_rejected st))"
      "countedKeys t = filter (\<lambda>(k, u). k \<notin> rejecting lib gate author D) (ts_approved st)"
    unfolding t_def TallyApprovals_def Let_def st_def [symmetric] f by simp_all
  show "length (Approvers t) = card (approving lib gate author D - rejecting lib gate author D)"
    using filter_fst_card [OF inv(1)] inv(3) by (simp add: t(1))
  show r: "length (Rejecters t) = card (rejecting lib gate author D)"
    using distinct_card [OF inv(2)] inv(4) by (simp add: t(2))
  show "fst ` set (countedKeys t) = approving lib gate author D - rejecting lib gate author D"
    unfolding t(3) inv(3) [symmetric] by (rule fst_filter)
  have "finite (rejecting lib gate author D)" by (simp add: rejecting_def D_def)
  then show "Rejecters t = [] \<longleftrightarrow> rejecting lib gate author D = {}" using r by (metis card_eq_0_iff length_0_conv)
qed

lemma TallyApprovals_held:
  "t_held (TallyApprovals lib gate author) = approvalPolicyBlock (gt_policy gate) (length (gt_approvals gate)) author"
  "t_required (TallyApprovals lib gate author) = (case gt_policy gate of None \<Rightarrow> 0 | Some pol \<Rightarrow> max (Required pol) 1)"
  by (simp_all add: TallyApprovals_def Let_def)

section \<open>Properties\<close>

text \<open>C11. The quorum. Without a policy the gate is met. With one it is met exactly when nothing holds the
  policy, no decision that counts is a reject, and the number of distinct parties with an approve that counts
  is at least \<open>required\<close> (at least 1). How often, in what order and by how many members of a party decisions
  are given makes no difference.\<close>

theorem approval_quorum:
  "Met (TallyApprovals lib gate author) \<longleftrightarrow>
     (case gt_policy gate of
        None \<Rightarrow> True
      | Some pol \<Rightarrow>
          approvalPolicyBlock (Some pol) (length (gt_approvals gate)) author = ApprovalOpen \<and>
          rejecting lib gate author (set (gt_approvals gate)) = {} \<and>
          int (card (approving lib gate author (set (gt_approvals gate)))) \<ge> max (Required pol) 1)"
  using tally_counts [of lib gate author]
  by (cases "gt_policy gate") (auto simp: Met_def TallyApprovals_held)

text \<open>C12. No self-approval. With \<open>excludeAuthor\<close>, a met gate has an approve that counts by someone who is not of
  the party of the version's author, and the author is known and no kardinal component; and whatever the
  policy says, an agent counts only where the gate opts in to it by name, and never on its own party's work.\<close>

theorem no_self_approval:
  assumes "gt_policy gate = Some pol" "Met (TallyApprovals lib gate author)"
  shows "(ExcludeAuthor pol \<longrightarrow> Principal author \<noteq> '''' \<and> \<not> componentAuthor author \<and>
      (\<exists>d \<in> set (gt_approvals gate). counts lib gate author d \<and> ga_decision d = Approve \<and>
         \<not> SameParty author (actorOf (approver_of d)))) \<and>
    (\<forall>d \<in> set (gt_approvals gate). counts lib gate author d \<longrightarrow> Kind (actorOf (approver_of d)) = ActorAgent \<longrightarrow>
       AllowAgents pol \<and> Agent (actorOf (approver_of d)) \<in> set (AllowedAgents pol) \<and>
       (Principal author \<noteq> '''' \<longrightarrow> \<not> SameParty author (actorOf (approver_of d))))"
proof -
  have q: "approvalPolicyBlock (Some pol) (length (gt_approvals gate)) author = ApprovalOpen"
      "int (card (approving lib gate author (set (gt_approvals gate)))) \<ge> 1"
    using assms tally_counts [of lib gate author] by (auto simp: Met_def TallyApprovals_held split: if_splits)
  have "approving lib gate author (set (gt_approvals gate)) \<noteq> {}" using q(2) by auto
  then obtain d where d: "d \<in> set (gt_approvals gate)" "counts lib gate author d" "ga_decision d = Approve"
    by (auto simp: approving_def)
  have c: "\<not> SameParty author (actorOf (approver_of d))"
    if "counts lib gate author d" "Principal author \<noteq> ''''"
      "ExcludeAuthor pol \<or> Kind (actorOf (approver_of d)) = ActorAgent" for d
    using that assms(1)
    by (auto simp: counts_def ApprovalDecisionCounts_def approvalDecisionBlock_def Let_def split: if_splits)
  have a: "AllowAgents pol \<and> Agent (actorOf (approver_of d)) \<in> set (AllowedAgents pol)"
    if "counts lib gate author d" "Kind (actorOf (approver_of d)) = ActorAgent" for d
    using that assms(1)
    by (auto simp: counts_def ApprovalDecisionCounts_def approvalDecisionBlock_def Let_def split: if_splits)
  have "Principal author \<noteq> '''' \<and> \<not> componentAuthor author" if "ExcludeAuthor pol"
    using q(1) that by (auto simp: approvalPolicyBlock_def split: if_splits)
  then show ?thesis using c a d by blast
qed

definition demo_lib :: field_lib where
  "demo_lib = \<lparr>fl_re = (\<lambda>_. Inr (\<lambda>_. True)), fl_url = (\<lambda>_. None), fl_utf8 = (\<lambda>_. True)\<rparr>"

definition demo_policy :: GateApprovalPolicy where
  "demo_policy = \<lparr>Required = 1, AllowedUsers = [], AllowedGroups = [], ExcludeAuthor = True, AllowAgents = False,
     AllowedAgents = [], ap_fields = []\<rparr>"

definition demo_approval :: "string \<Rightarrow> GateApproval" where
  "demo_approval u = \<lparr>ga_user = u, ga_groups = [], ga_actor = None, ga_bundle = ''b'', ga_environment = ''prod'',
     ga_decision = Approve, ga_comment = '''', ga_fields = []\<rparr>"

definition demo_gate :: "GateApproval list \<Rightarrow> ApprovalGate" where
  "demo_gate ds = \<lparr>gt_policy = Some demo_policy, gt_bundle = ''b'', gt_environment = ''prod'', gt_approvals = ds,
     gt_required = None\<rparr>"

lemmas demo_defs = demo_lib_def demo_policy_def demo_approval_def demo_gate_def

theorem no_self_approval_witness:
  "\<exists>d \<in> set (gt_approvals (demo_gate [demo_approval ''bob''])).
     \<not> SameParty (plain_actor ActorHuman ''alice'') (actorOf (approver_of d))"
proof -
  have "Met (TallyApprovals demo_lib (demo_gate [demo_approval ''bob'']) (plain_actor ActorHuman ''alice''))"
    by code_simp
  from no_self_approval [OF _ this, of demo_policy] show ?thesis by (auto simp: demo_defs)
qed

text \<open>\<open>CanApprove\<close> keeps its promise: when the standing of a caller says they can approve and the gate has
  fewer than the maximum of decisions, then an approve of theirs for this gate, with valid fields, raises
  the number of approvals by exactly one, and the gate stays free of holds and rejects.\<close>

theorem can_approve_counts:
  assumes can: "CanApprove (ApprovalStandingOf lib gate author (Some who))"
    and d: "approver_of d = who" "ga_bundle d = gt_bundle gate" "ga_environment d = gt_environment gate"
      "ga_decision d = Approve" "ApprovalFieldsValid lib (gt_policy gate) (ga_fields d)"
    and room: "length (gt_approvals gate) < MaxGateApprovals"
  shows "let gate' = gate\<lparr>gt_approvals := gt_approvals gate @ [d]\<rparr>;
             s = ApprovalStandingOf lib gate author (Some who); s' = ApprovalStandingOf lib gate' author (Some who)
         in as_approved s' = as_approved s + 1 \<and> Block s' = ApprovalCounted"
proof -
  let ?g = "gate\<lparr>gt_approvals := gt_approvals gate @ [d]\<rparr>" and ?D = "set (gt_approvals gate)"
  let ?t = "TallyApprovals lib gate author" and ?t' = "TallyApprovals lib ?g author"
  let ?A = "approving lib gate author ?D" and ?R = "rejecting lib gate author ?D"
  have cnt: "counts lib ?g author = counts lib gate author" by (simp add: counts_def fun_eq_iff)
  have c: "t_held ?t = ApprovalOpen" "Rejecters ?t = []" "map_of (countedKeys ?t) (PartyKey (actorOf who)) = None"
      "ApprovalDecisionCounts (gt_policy gate) who author"
    using can by (auto simp: ApprovalStandingOf_def Let_def split: if_splits)
  have R: "?R = {}" using c(2) tally_counts(4) [of lib gate author] by simp
  have nk: "vote_key d \<notin> ?A"
    using c(3) tally_counts(3) [of lib gate author] d(1) R by (simp add: map_of_eq_None_iff)
  have cd: "counts lib gate author d" using c(4) d by (simp add: counts_def fields_ok_def)
  have A': "approving lib ?g author (set (gt_approvals ?g)) = insert (vote_key d) ?A"
    using cd d(4) by (auto simp: approving_def cnt)
  have R': "rejecting lib ?g author (set (gt_approvals ?g)) = {}"
    using R d(4) by (auto simp: rejecting_def cnt)
  have fin: "finite ?A" by (simp add: approving_def)
  have len: "length (Approvers ?t') = Suc (length (Approvers ?t))"
    using tally_counts(1) [of lib ?g author] tally_counts(1) [of lib gate author] A' R' R nk fin by simp
  have h: "t_held ?t' = ApprovalOpen"
    using c(1) room
    by (cases "gt_policy gate") (auto simp: TallyApprovals_held approvalPolicyBlock_def split: if_splits)
  have r: "Rejecters ?t' = []" using tally_counts(4) [of lib ?g author] R' by simp
  have k: "map_of (countedKeys ?t') (PartyKey (actorOf who)) \<noteq> None"
    using tally_counts(3) [of lib ?g author] A' R' d(1) by (simp add: map_of_eq_None_iff)
  show ?thesis using len h r k by (auto simp: ApprovalStandingOf_def Let_def)
qed

theorem can_approve_counts_witness:
  "Block (ApprovalStandingOf demo_lib (demo_gate [demo_approval ''bob'']) (plain_actor ActorHuman ''alice'')
     (Some (approver_of (demo_approval ''bob'')))) = ApprovalCounted"
proof -
  have 1: "CanApprove (ApprovalStandingOf demo_lib (demo_gate []) (plain_actor ActorHuman ''alice'')
      (Some (approver_of (demo_approval ''bob''))))" by code_simp
  have 2: "ApprovalFieldsValid demo_lib (gt_policy (demo_gate [])) (ga_fields (demo_approval ''bob''))" by code_simp
  from can_approve_counts [OF 1 refl _ _ _ 2] show ?thesis
    by (simp add: demo_defs Let_def MaxGateApprovals_def)
qed

text \<open>At exactly the maximum of decisions the promise of \<open>CanApprove\<close> fails: the standing still says yes, and
  the decision it invites is the one that holds the gate.\<close>

definition full_gate :: ApprovalGate where
  "full_gate = demo_gate (replicate 100 ((demo_approval ''carol'')\<lparr>ga_bundle := ''old''\<rparr>))"

lemma can_approve_at_the_limit:
  "CanApprove (ApprovalStandingOf demo_lib full_gate (plain_actor ActorHuman ''alice'')
      (Some (approver_of (demo_approval ''bob'')))) \<and>
   Block (ApprovalStandingOf demo_lib (full_gate\<lparr>gt_approvals := gt_approvals full_gate @ [demo_approval ''bob'']\<rparr>)
      (plain_actor ActorHuman ''alice'') (Some (approver_of (demo_approval ''bob'')))) = ApprovalTooMany"
  by code_simp

end
