(* ===== verification/Verdicts.thy ===== *)
theory Verdicts
  imports Actors
begin

text \<open>
  How a verify gate counts verdicts: \<open>pkg/lifecycle/verdict_tally.go\<close>. The texts are the code's own. The loop of
  \<open>TallyVerdicts\<close> works on indices into the sorted verdicts (\<open>latest\<close>, \<open>eligible\<close>, \<open>records\<close>), as in the
  code; \<open>latest\<close> is an association list. \<open>time.ParseDuration\<close> is the argument \<open>parse\<close> of \<open>VerifyTimeout\<close>.

  The properties say which verdicts are votes (the latest countable one of every voter, in the order of
  time and name), what the outcome of the votes is, and what blocks a gate.
\<close>

section \<open>Data\<close>

datatype VerdictResult = VerdictPass | VerdictFail | VerdictInconclusive

datatype VerifyAction = VerifyUnset | VerifyHold | VerifyRetry | VerifyFail | VerifyAllow

datatype VerifyOutcome = NoOutcome | VerifyWaiting | VerifyVerified | VerifyFailed | VerifyTimedOut

record VerdictRun =
  run_index :: int
  run_attempt :: int

record GateVerifyRun =
  run_template :: string
  run_count :: int

record GateVerifyPolicy =
  v_check :: string
  v_environment :: string
  v_required :: int
  v_maxFailures :: int
  v_allowedAgents :: "string list"
  v_allowedUsers :: "string list"
  v_allowedGroups :: "string list"
  v_excludeAuthor :: "bool option"
  OnInconclusive :: VerifyAction
  Retries :: int
  v_timeout :: string
  OnTimeout :: VerifyAction
  v_run :: "GateVerifyRun option"

record GateVerdict =
  gv_name :: string
  gv_createdAt :: "time option"
  gv_bundle :: string
  gv_bundleUID :: string
  gv_environment :: string
  gv_check :: string
  gv_result :: VerdictResult
  gv_summary :: string
  gv_evidenceURL :: string
  gv_findings :: int
  gv_highFindings :: int
  gv_by :: string
  gv_groups :: "string list"
  gv_actor :: "Actor option"
  gv_run :: "VerdictRun option"

record VerifyGate =
  vg_name :: string
  vg_bundle :: string
  vg_verify :: "GateVerifyPolicy option"
  vg_verdicts :: "GateVerdict list"

record GateVerdictStatus =
  vs_name :: string
  vs_verifier :: string
  vs_result :: VerdictResult
  vs_counted :: bool
  vs_reason :: string
  vs_run :: int
  vs_attempt :: int
  vs_summary :: string
  vs_evidenceURL :: string
  vs_findings :: int
  vs_createdAt :: "time option"

record VerdictTally =
  vt_policy :: "GateVerifyPolicy option"
  vt_required :: int
  vt_maxFailures :: int
  Passed :: "string list"
  Failed :: "string list"
  Inconclusive :: nat
  HighFindings :: int
  vt_records :: "GateVerdictStatus list"
  vt_held :: string
  vt_deadline :: "time option"
  Outcome :: VerifyOutcome

definition MaxGateVerdicts :: nat where "MaxGateVerdicts = 100"

section \<open>The policy and its rules\<close>

definition VerifyPolicyOf :: "VerifyGate \<Rightarrow> GateVerifyPolicy option" where
  "VerifyPolicyOf gate =
     (case vg_verify gate of
        None \<Rightarrow> None
      | Some p \<Rightarrow>
          let p1 = p\<lparr>v_required := max (v_required p) 1\<rparr>;
              p2 = (if v_excludeAuthor p1 = None then p1\<lparr>v_excludeAuthor := Some True\<rparr> else p1);
              p3 = (if OnInconclusive p2 = VerifyUnset then p2\<lparr>OnInconclusive := VerifyHold\<rparr> else p2);
              p4 = (if OnTimeout p3 = VerifyUnset then p3\<lparr>OnTimeout := VerifyFail\<rparr> else p3)
          in Some (case v_run p4 of
                     None \<Rightarrow> p4
                   | Some r \<Rightarrow> if run_count r = 0 then p4\<lparr>v_run := Some (r\<lparr>run_count := v_required p4\<rparr>)\<rparr> else p4))"

definition VerifyTimeout :: "(string \<Rightarrow> duration option) \<Rightarrow> GateVerifyPolicy option \<Rightarrow> duration" where
  "VerifyTimeout parse p =
     (case p of
        None \<Rightarrow> 0
      | Some pol \<Rightarrow>
          if v_timeout pol = '''' then 0
          else (case parse (v_timeout pol) of None \<Rightarrow> 0 | Some d \<Rightarrow> if d < 0 then 0 else d))"

definition VerifyDeadline ::
  "(string \<Rightarrow> duration option) \<Rightarrow> GateVerifyPolicy option \<Rightarrow> time option \<Rightarrow> time option" where
  "VerifyDeadline parse p healthCheckedAt =
     (let d = VerifyTimeout parse p in
      if d = 0 then None else map_option (\<lambda>t. t + d) healthCheckedAt)"

definition VerifierActor :: "GateVerdict \<Rightarrow> Actor" where
  "VerifierActor v = OrUnknown (gv_actor v) (gv_by v)"

definition verifierLabel :: "Actor \<Rightarrow> string" where
  "verifierLabel a = (if Kind a = ActorAgent then Agent a else Principal a)"

definition VerdictWriterAllowed :: "GateVerifyPolicy \<Rightarrow> Actor \<Rightarrow> string list \<Rightarrow> bool \<times> string" where
  "VerdictWriterAllowed p v groups =
     (if Kind v = ActorAgent
      then if Agent v \<in> set (v_allowedAgents p) then (True, '''')
           else (False, ''agent '' @ Agent v @ '' is not in verify.allowedAgents'')
      else if v_allowedAgents p = [] \<and> v_allowedUsers p = [] \<and> v_allowedGroups p = [] then (True, '''')
      else if Principal v \<in> set (v_allowedUsers p) \<or> list_ex (\<lambda>g. g \<in> set (v_allowedGroups p)) groups then (True, '''')
      else if v_allowedUsers p = [] \<and> v_allowedGroups p = []
      then (False, Principal v @ '' is not an allowed verifier: the gate counts only the agents in verify.allowedAgents (''
              @ join '', '' (v_allowedAgents p) @ ''); list people in verify.allowedUsers or allowedGroups to count them'')
      else (False, Principal v @ '' is not in verify.allowedUsers or allowedGroups''))"

definition excludes_author :: "GateVerifyPolicy \<Rightarrow> bool" where
  "excludes_author p = (case v_excludeAuthor p of None \<Rightarrow> True | Some b \<Rightarrow> b)"

definition VerdictPartyBlock :: "GateVerifyPolicy \<Rightarrow> Actor \<Rightarrow> Actor \<Rightarrow> string" where
  "VerdictPartyBlock p author v =
     (if \<not> excludes_author p \<and> Kind v \<noteq> ActorAgent then ''''
      else if Principal author = ''''
      then if Kind v = ActorAgent
           then ''the version's author is unknown, so an agent's verdict cannot be checked against it''
           else ''''
      else if SameParty author v then ''the author's party ('' @ Describe author @ '')''
      else '''')"

definition voterOf :: "GateVerdict \<Rightarrow> Actor \<Rightarrow> string" where
  "voterOf v a =
     (case gv_run v of
        Some r \<Rightarrow> ''run:'' @ int_str (run_index r)
      | None \<Rightarrow> ''party:'' @ PartyKey a)"

definition verdictTime :: "GateVerdict \<Rightarrow> time" where
  "verdictTime v = (case gv_createdAt v of None \<Rightarrow> 0 | Some t \<Rightarrow> t)"

section \<open>The tally\<close>

text \<open>The state of the first loop: the index of the latest countable verdict of every voter, which verdicts
  are still votes, and the records.\<close>

record vote_state =
  latest :: "(string \<times> nat) list"
  eligible :: "bool list"
  recs :: "GateVerdictStatus list"

definition verdict_record :: "GateVerdict \<Rightarrow> GateVerdictStatus" where
  "verdict_record v =
     \<lparr>vs_name = gv_name v, vs_verifier = Describe (VerifierActor v), vs_result = gv_result v, vs_counted = False,
      vs_reason = '''', vs_run = (case gv_run v of None \<Rightarrow> 0 | Some r \<Rightarrow> run_index r),
      vs_attempt = (case gv_run v of None \<Rightarrow> 0 | Some r \<Rightarrow> run_attempt r), vs_summary = gv_summary v,
      vs_evidenceURL = gv_evidenceURL v, vs_findings = gv_findings v, vs_createdAt = gv_createdAt v\<rparr>"

text \<open>Why a verdict cannot be a vote, empty when it can: the branches of the switch.\<close>

definition refused ::
  "string \<Rightarrow> GateVerifyPolicy \<Rightarrow> Actor \<Rightarrow> string \<Rightarrow> time option \<Rightarrow> GateVerdict \<Rightarrow> string" where
  "refused bundle p author bundleUID deadline v =
     (let a = VerifierActor v; env = v_environment p; party = VerdictPartyBlock p author a in
      if (bundle \<noteq> '''' \<and> gv_bundle v \<noteq> bundle) \<or> (env \<noteq> '''' \<and> gv_environment v \<noteq> env) \<or> gv_check v \<noteq> v_check p
      then ''for bundle '' @ gv_bundle v @ '', '' @ gv_environment v @ '', check '' @ gv_check v @ '': not this gate's''
      else if gv_bundleUID v \<noteq> bundleUID
      then ''for another version of '' @ gv_bundle v @ '' (UID '' @ gv_bundleUID v @ '')''
      else if \<not> fst (VerdictWriterAllowed p a (gv_groups v)) then snd (VerdictWriterAllowed p a (gv_groups v))
      else if party \<noteq> '''' then ''not counted: '' @ party
      else if (case (deadline, gv_createdAt v) of (Some d, Some c) \<Rightarrow> c > d | _ \<Rightarrow> False)
      then ''written after the timeout ('' @ v_timeout p @ '')''
      else '''')"

fun vote_loop :: "(GateVerdict \<Rightarrow> string) \<Rightarrow> nat \<Rightarrow> GateVerdict list \<Rightarrow> vote_state \<Rightarrow> vote_state" where
  "vote_loop why i [] st = st"
| "vote_loop why i (v # vs) st =
     (let key = voterOf v (VerifierActor v);
          st' = (if why v \<noteq> '''' then st
                 else let st1 = st\<lparr>eligible := (eligible st)[i := True]\<rparr>;
                          st2 = (case map_of (latest st1) key of
                                   None \<Rightarrow> st1
                                 | Some prev \<Rightarrow>
                                     st1\<lparr>recs := (recs st1)[prev := (recs st1 ! prev)\<lparr>vs_reason := ''superseded by '' @ gv_name v\<rparr>],
                                         eligible := (eligible st1)[prev := False]\<rparr>)
                      in st2\<lparr>latest := (key, i) # latest st2\<rparr>)
      in vote_loop why (i + 1) vs
           (st'\<lparr>recs := (recs st')[i := (verdict_record v)\<lparr>vs_reason := why v\<rparr>]\<rparr>))"

text \<open>One step of the second loop: a vote is counted in the tally and noted on its record.\<close>

definition count_vote ::
  "GateVerifyPolicy \<Rightarrow> GateVerdict \<times> bool \<times> GateVerdictStatus \<Rightarrow> VerdictTally \<Rightarrow> VerdictTally \<times> GateVerdictStatus" where
  "count_vote p x t =
     (let (v, el, r) = x; label = verifierLabel (VerifierActor v) in
      if \<not> el \<or> vt_held t \<noteq> ''''
      then (t, if vt_held t \<noteq> '''' \<and> vs_reason r = '''' then r\<lparr>vs_reason := vt_held t\<rparr> else r)
      else if gv_result v = VerdictPass
      then (t\<lparr>Passed := Passed t @ [label], HighFindings := HighFindings t + gv_highFindings v\<rparr>, r\<lparr>vs_counted := True\<rparr>)
      else if gv_result v = VerdictFail \<or> (gv_result v = VerdictInconclusive \<and> OnInconclusive p = VerifyFail)
      then (t\<lparr>Failed := Failed t @ [label @ '': '' @ gv_summary v], HighFindings := HighFindings t + gv_highFindings v\<rparr>,
            (if gv_result v = VerdictInconclusive
             then r\<lparr>vs_counted := True, vs_reason := ''inconclusive counts as a fail (onInconclusive: fail)''\<rparr>
             else r\<lparr>vs_counted := True\<rparr>))
      else (t\<lparr>Inconclusive := Inconclusive t + 1\<rparr>,
            (case gv_run v of
               Some n \<Rightarrow>
                 if OnInconclusive p = VerifyRetry \<and> run_attempt n \<le> Retries p
                 then r\<lparr>vs_reason := ''inconclusive (retrying: attempt '' @ int_str (run_attempt n + 1) @ '' of ''
                                      @ int_str (Retries p + 1) @ '')''\<rparr>
                 else r\<lparr>vs_reason := ''inconclusive (waiting for more verdicts)''\<rparr>
             | None \<Rightarrow> r\<lparr>vs_reason := ''inconclusive (waiting for more verdicts)''\<rparr>)))"

fun count_loop ::
  "GateVerifyPolicy \<Rightarrow> (GateVerdict \<times> bool \<times> GateVerdictStatus) list \<Rightarrow> VerdictTally \<Rightarrow> VerdictTally \<times> GateVerdictStatus list"
where
  "count_loop p [] t = (t, [])"
| "count_loop p (x # xs) t =
     (let (t1, r) = count_vote p x t; (t2, rs) = count_loop p xs t1 in (t2, r # rs))"

definition held_reason :: "GateVerifyPolicy \<Rightarrow> nat \<Rightarrow> Actor \<Rightarrow> string" where
  "held_reason p n author =
     (if n > MaxGateVerdicts
      then ''more than '' @ nat_str MaxGateVerdicts @ '' verdicts for check '' @ v_check p
             @ ''; delete the ones that do not count''
      else if Principal author = '''' \<and> excludes_author p
      then ''verify.excludeAuthor cannot be checked: the version has no verified author''
      else '''')"

definition verdict_key :: "GateVerdict \<Rightarrow> time \<times> string" where
  "verdict_key v = (verdictTime v, gv_name v)"

definition empty_tally :: "GateVerifyPolicy option \<Rightarrow> time option \<Rightarrow> VerdictTally" where
  "empty_tally p deadline =
     \<lparr>vt_policy = p, vt_required = 0, vt_maxFailures = 0, Passed = [], Failed = [], Inconclusive = 0, HighFindings = 0,
      vt_records = [], vt_held = '''', vt_deadline = deadline, Outcome = NoOutcome\<rparr>"

definition outcome_of :: "VerdictTally \<Rightarrow> time option \<Rightarrow> time \<Rightarrow> VerifyOutcome" where
  "outcome_of t deadline now =
     (if vt_held t \<noteq> '''' then VerifyWaiting
      else if int (length (Failed t)) > vt_maxFailures t then VerifyFailed
      else if int (length (Passed t)) \<ge> vt_required t then VerifyVerified
      else if (case deadline of None \<Rightarrow> False | Some d \<Rightarrow> now > d) then VerifyTimedOut
      else VerifyWaiting)"

definition TallyVerdicts :: "VerifyGate \<Rightarrow> Actor \<Rightarrow> string \<Rightarrow> time option \<Rightarrow> time \<Rightarrow> VerdictTally" where
  "TallyVerdicts gate author bundleUID deadline now =
     (case VerifyPolicyOf gate of
        None \<Rightarrow> empty_tally None deadline
      | Some p \<Rightarrow>
          let t = (empty_tally (Some p) deadline)\<lparr>vt_required := v_required p, vt_maxFailures := v_maxFailures p,
                    vt_held := held_reason p (length (vg_verdicts gate)) author\<rparr>;
              verdicts = sort_key verdict_key (vg_verdicts gate);
              n = length verdicts;
              st = vote_loop (refused (vg_bundle gate) p author bundleUID deadline) 0 verdicts
                     \<lparr>latest = [], eligible = replicate n False, recs = map verdict_record verdicts\<rparr>;
              (t', rs) = count_loop p (zip verdicts (zip (eligible st) (recs st))) t
          in t'\<lparr>vt_records := sort_key vs_name rs, Outcome := outcome_of t' deadline now\<rparr>)"

section \<open>What the tally says\<close>

fun distinct_order :: "string list \<Rightarrow> string list \<Rightarrow> string list" where
  "distinct_order seen [] = []"
| "distinct_order seen (l # ls) =
     (if l \<in> set seen then distinct_order seen ls else l # distinct_order (l # seen) ls)"

definition times_sign :: string where
  "times_sign = [CHR 0xC3, CHR 0x97]"

definition voters :: "string list \<Rightarrow> string" where
  "voters labels =
     join '', '' (map (\<lambda>l. let n = count_list labels l in
        l @ (if n > 1 then '' '' @ times_sign @ nat_str n else '''')) (distinct_order [] labels))"

definition tally_count :: "VerdictTally \<Rightarrow> string" where
  "tally_count t =
     nat_str (length (Passed t)) @ '' of '' @ int_str (vt_required t) @
     (if Passed t \<noteq> [] then '' ('' @ voters (Passed t) @ '')'' else '''')"

definition Tally_Blocked :: "VerdictTally \<Rightarrow> string" where
  "Tally_Blocked t =
     (case vt_policy t of
        None \<Rightarrow> ''''
      | Some p \<Rightarrow>
          if vt_held t \<noteq> '''' then vt_held t
          else (case Outcome t of
                  VerifyFailed \<Rightarrow> ''verification failed: '' @ hd (Failed t) @
                    (if length (Failed t) > 1 then '' (and '' @ nat_str (length (Failed t) - 1) @ '' more)'' else '''')
                | VerifyVerified \<Rightarrow> ''''
                | VerifyTimedOut \<Rightarrow>
                    if OnTimeout p = VerifyAllow then ''''
                    else ''verification timed out after '' @ v_timeout p @ '': '' @ tally_count t
                | _ \<Rightarrow> ''waiting for verdicts: '' @ tally_count t @
                    (if Inconclusive t > 0
                     then ''; '' @ nat_str (Inconclusive t) @ '' inconclusive, '' @
                          (if OnInconclusive p = VerifyRetry then ''retrying'' else ''waiting'')
                     else '''')))"

definition Tally_Met :: "VerdictTally \<Rightarrow> string" where
  "Tally_Met t =
     (case vt_policy t of
        None \<Rightarrow> ''''
      | Some p \<Rightarrow>
          if vt_held t \<noteq> '''' then ''''
          else if Outcome t = VerifyVerified then ''verified: '' @ tally_count t
          else if Outcome t = VerifyTimedOut \<and> OnTimeout p = VerifyAllow
          then ''verification timed out after '' @ v_timeout p @ '', allowed by onTimeout: '' @ tally_count t
          else '''')"

record VerdictContext =
  cx_passed :: nat
  cx_failed :: nat
  cx_inconclusive :: nat
  cx_required :: int
  cx_verifiers :: "string list"
  cx_timedOut :: bool
  cx_high :: int

definition Tally_Context :: "VerdictTally \<Rightarrow> VerdictContext" where
  "Tally_Context t =
     \<lparr>cx_passed = length (Passed t), cx_failed = length (Failed t), cx_inconclusive = Inconclusive t,
      cx_required = vt_required t, cx_verifiers = Passed t, cx_timedOut = (Outcome t = VerifyTimedOut),
      cx_high = HighFindings t\<rparr>"

record VerdictStanding =
  Counts :: bool
  vd_reason :: string

definition VerdictStandingOf :: "VerifyGate \<Rightarrow> Actor \<Rightarrow> Actor \<Rightarrow> string list \<Rightarrow> VerdictStanding" where
  "VerdictStandingOf gate author v groups =
     (case VerifyPolicyOf gate of
        None \<Rightarrow> \<lparr>Counts = False, vd_reason = ''gate '' @ vg_name gate @ '' has no verify policy''\<rparr>
      | Some p \<Rightarrow>
          if \<not> fst (VerdictWriterAllowed p v groups)
          then \<lparr>Counts = False, vd_reason = snd (VerdictWriterAllowed p v groups)\<rparr>
          else if VerdictPartyBlock p author v \<noteq> ''''
          then \<lparr>Counts = False, vd_reason = VerdictPartyBlock p author v\<rparr>
          else \<lparr>Counts = True, vd_reason = ''''\<rparr>)"

section \<open>One vote per voter\<close>

abbreviation voter :: "GateVerdict \<Rightarrow> string" where
  "voter v \<equiv> voterOf v (VerifierActor v)"

text \<open>The votes of a list of verdicts: the last one of every voter, in order.\<close>

fun last_votes :: "GateVerdict list \<Rightarrow> GateVerdict list" where
  "last_votes [] = []"
| "last_votes (v # vs) = (if voter v \<in> voter ` set vs then last_votes vs else v # last_votes vs)"

definition countable_verdicts ::
  "VerifyGate \<Rightarrow> GateVerifyPolicy \<Rightarrow> Actor \<Rightarrow> string \<Rightarrow> time option \<Rightarrow> GateVerdict list" where
  "countable_verdicts gate p author bundleUID deadline =
     filter (\<lambda>v. refused (vg_bundle gate) p author bundleUID deadline v = '''') (sort_key verdict_key (vg_verdicts gate))"

definition votes :: "VerifyGate \<Rightarrow> GateVerifyPolicy \<Rightarrow> Actor \<Rightarrow> string \<Rightarrow> time option \<Rightarrow> GateVerdict list" where
  "votes gate p author bundleUID deadline = last_votes (countable_verdicts gate p author bundleUID deadline)"

text \<open>A vote that passes, and one that counts as a fail under the policy.\<close>

definition fails :: "GateVerifyPolicy \<Rightarrow> GateVerdict \<Rightarrow> bool" where
  "fails p v \<longleftrightarrow> gv_result v = VerdictFail \<or> (gv_result v = VerdictInconclusive \<and> OnInconclusive p = VerifyFail)"

lemma last_votes_subset: "set (last_votes vs) \<subseteq> set vs"
  by (induction vs) auto

lemma last_votes_voters: "voter ` set (last_votes vs) = voter ` set vs"
  by (induction vs) auto

lemma last_votes_distinct: "distinct (map voter (last_votes vs))"
proof (induction vs)
  case (Cons v vs)
  then show ?case using last_votes_voters [of vs] by (auto simp: image_iff)
qed simp

text \<open>Which positions of a processed prefix are still votes.\<close>

definition standing :: "(GateVerdict \<Rightarrow> bool) \<Rightarrow> GateVerdict list \<Rightarrow> nat \<Rightarrow> bool" where
  "standing ok ps j \<longleftrightarrow> j < length ps \<and> ok (ps ! j) \<and> (\<forall>w \<in> set (drop (Suc j) ps). ok w \<longrightarrow> voter w \<noteq> voter (ps ! j))"

lemma standing_snoc:
  "standing ok (ps @ [v]) j \<longleftrightarrow>
     (if j < length ps then standing ok ps j \<and> (ok v \<longrightarrow> voter v \<noteq> voter (ps ! j)) else j = length ps \<and> ok v)"
  by (auto simp: standing_def nth_append less_Suc_eq)

lemma standing_Cons_0: "standing ok (v # vs) 0 \<longleftrightarrow> ok v \<and> (\<forall>w \<in> set vs. ok w \<longrightarrow> voter w \<noteq> voter v)"
  by (simp add: standing_def)

lemma standing_Cons_Suc [simp]: "standing ok (v # vs) (Suc j) \<longleftrightarrow> standing ok vs j"
  by (simp add: standing_def)

lemma standing_votes:
  assumes "length es = length vs" "\<forall>j < length vs. es ! j = standing ok vs j"
  shows "map fst (filter snd (zip vs es)) = last_votes (filter ok vs)"
  using assms
proof (induction vs arbitrary: es)
  case (Cons v vs)
  then obtain e es' where es: "es = e # es'" by (cases es) auto
  have e: "e = (ok v \<and> (\<forall>w \<in> set vs. ok w \<longrightarrow> voter w \<noteq> voter v))"
    using Cons.prems(2) [rule_format, of 0] by (simp add: es standing_Cons_0)
  have IH: "map fst (filter snd (zip vs es')) = last_votes (filter ok vs)"
    using Cons.prems(2) Cons.prems(1) by (intro Cons.IH) (auto simp: es All_less_Suc2)
  show ?case
  proof (cases "ok v")
    case True
    then show ?thesis using IH e by (auto simp: es image_iff)
  qed (use IH e in \<open>auto simp: es\<close>)
qed simp

text \<open>The invariant of the first loop over the prefix \<open>ps\<close> of the \<open>n\<close> verdicts.\<close>

definition vote_inv :: "(GateVerdict \<Rightarrow> string) \<Rightarrow> nat \<Rightarrow> GateVerdict list \<Rightarrow> vote_state \<Rightarrow> bool" where
  "vote_inv why n ps st \<longleftrightarrow>
     length (eligible st) = n \<and> length (recs st) = n \<and> length ps \<le> n \<and>
     (\<forall>j < n. eligible st ! j = standing (\<lambda>v. why v = '''') ps j) \<and>
     (\<forall>k j. map_of (latest st) k = Some j \<longleftrightarrow> standing (\<lambda>v. why v = '''') ps j \<and> voter (ps ! j) = k) \<and>
     (\<forall>j < length ps. \<exists>x. recs st ! j = (verdict_record (ps ! j))\<lparr>vs_reason := x\<rparr> \<and>
        (x = '''' \<longleftrightarrow> standing (\<lambda>v. why v = '''') ps j))"

definition vote_step :: "(GateVerdict \<Rightarrow> string) \<Rightarrow> nat \<Rightarrow> GateVerdict \<Rightarrow> vote_state \<Rightarrow> vote_state" where
  "vote_step why i v st = vote_loop why i [v] st"

lemma vote_loop_step: "vote_loop why i (v # vs) st = vote_loop why (i + 1) vs (vote_step why i v st)"
  by (simp add: vote_step_def Let_def)

lemma vote_step_inv:
  assumes inv: "vote_inv why n ps st" and n: "length ps < n"
  shows "vote_inv why n (ps @ [v]) (vote_step why (length ps) v st)"
proof -
  let ?ok = "\<lambda>v. why v = ''''" and ?i = "length ps" and ?k = "voter v"
  have len: "length (eligible st) = n" "length (recs st) = n"
    and el: "\<And>j. j < n \<Longrightarrow> eligible st ! j = standing ?ok ps j"
    and la: "\<And>k j. map_of (latest st) k = Some j \<longleftrightarrow> standing ?ok ps j \<and> voter (ps ! j) = k"
    and re: "\<And>j. j < ?i \<Longrightarrow> \<exists>x. recs st ! j = (verdict_record (ps ! j))\<lparr>vs_reason := x\<rparr> \<and> (x = '''' \<longleftrightarrow> standing ?ok ps j)"
    using inv by (auto simp: vote_inv_def)
  have st_lt: "standing ?ok ps j \<Longrightarrow> j < ?i" for j by (simp add: standing_def)
  show ?thesis
  proof (cases "?ok v")
    case False
    then have "vote_step why ?i v st = st\<lparr>recs := (recs st)[?i := (verdict_record v)\<lparr>vs_reason := why v\<rparr>]\<rparr>"
      by (simp add: vote_step_def Let_def)
    then show ?thesis using False len el la re n st_lt
      by (auto simp: vote_inv_def standing_snoc nth_append nth_list_update less_Suc_eq)
  next
    case True
    show ?thesis
    proof (cases "map_of (latest st) ?k")
      case None
      have no: "\<not> (standing ?ok ps j \<and> voter (ps ! j) = ?k)" for j using None la [of ?k j] by auto
      have s: "vote_step why ?i v st = st\<lparr>eligible := (eligible st)[?i := True], latest := (?k, ?i) # latest st,
          recs := (recs st)[?i := (verdict_record v)\<lparr>vs_reason := ''''\<rparr>]\<rparr>"
        using True None by (simp add: vote_step_def Let_def)
      have 1: "(eligible st)[?i := True] ! j = standing ?ok (ps @ [v]) j" if "j < n" for j
        using that True el [of j] no [of j] st_lt len n by (auto simp: standing_snoc nth_list_update)
      have 2: "map_of ((?k, ?i) # latest st) k = Some j \<longleftrightarrow> standing ?ok (ps @ [v]) j \<and> voter ((ps @ [v]) ! j) = k" for k j
        using True la [of k j] st_lt [of j] no [of j] by (auto simp: standing_snoc nth_append)
      have 3: "\<exists>x. (recs st)[?i := (verdict_record v)\<lparr>vs_reason := ''''\<rparr>] ! j = (verdict_record ((ps @ [v]) ! j))\<lparr>vs_reason := x\<rparr> \<and>
          (x = '''' \<longleftrightarrow> standing ?ok (ps @ [v]) j)" if "j < length (ps @ [v])" for j
        using that re [of j] no [of j] True len n
        by (cases "j = ?i") (auto simp: standing_snoc nth_append nth_list_update)
      show ?thesis unfolding s using 1 2 3 len n by (simp add: vote_inv_def)
    next
      case (Some prev)
      have pr: "standing ?ok ps prev" "voter (ps ! prev) = ?k" "prev < ?i" using Some la st_lt by blast+
      have un: "j = prev" if "standing ?ok ps j" "voter (ps ! j) = ?k" for j using la [of ?k j] Some that by simp
      obtain x where x: "recs st ! prev = (verdict_record (ps ! prev))\<lparr>vs_reason := x\<rparr>" using re pr(3) by blast
      have s: "vote_step why ?i v st = st\<lparr>eligible := (eligible st)[?i := True, prev := False], latest := (?k, ?i) # latest st,
          recs := (recs st)[prev := (verdict_record (ps ! prev))\<lparr>vs_reason := ''superseded by '' @ gv_name v\<rparr>,
                            ?i := (verdict_record v)\<lparr>vs_reason := ''''\<rparr>]\<rparr>"
        using True Some x by (simp add: vote_step_def Let_def)
      have 1: "(eligible st)[?i := True, prev := False] ! j = standing ?ok (ps @ [v]) j" if "j < n" for j
        using that True el [of j] pr un [of j] st_lt [of j] len n by (auto simp: standing_snoc nth_list_update)
      have 2: "map_of ((?k, ?i) # latest st) k = Some j \<longleftrightarrow> standing ?ok (ps @ [v]) j \<and> voter ((ps @ [v]) ! j) = k" for k j
        using True la [of k j] st_lt [of j] by (auto simp: standing_snoc nth_append)
      have 3: "\<exists>x. (recs st)[prev := (verdict_record (ps ! prev))\<lparr>vs_reason := ''superseded by '' @ gv_name v\<rparr>,
            ?i := (verdict_record v)\<lparr>vs_reason := ''''\<rparr>] ! j = (verdict_record ((ps @ [v]) ! j))\<lparr>vs_reason := x\<rparr> \<and>
          (x = '''' \<longleftrightarrow> standing ?ok (ps @ [v]) j)" if "j < length (ps @ [v])" for j
      proof (cases "j = ?i \<or> j = prev")
        case True
        then show ?thesis using \<open>?ok v\<close> pr len n by (auto simp: standing_snoc nth_append nth_list_update)
      next
        case False
        then show ?thesis using that re [of j] un [of j] \<open>?ok v\<close> len n
          by (auto simp: standing_snoc nth_append nth_list_update)
      qed
      show ?thesis unfolding s using 1 2 3 len n by (simp add: vote_inv_def)
    qed
  qed
qed

lemma vote_loop_inv:
  "vote_inv why n ps st \<Longrightarrow> length ps + length vs \<le> n \<Longrightarrow> vote_inv why n (ps @ vs) (vote_loop why (length ps) vs st)"
proof (induction vs arbitrary: ps st)
  case (Cons v vs)
  have "vote_inv why n (ps @ [v]) (vote_step why (length ps) v st)" using Cons.prems by (intro vote_step_inv) auto
  from Cons.IH [OF this] Cons.prems(2) show ?case by (simp add: vote_loop_step del: vote_loop.simps)
qed simp

section \<open>The count\<close>

definition vote_label :: "GateVerdict \<Rightarrow> string" where
  "vote_label v = verifierLabel (VerifierActor v)"

definition counted_tally :: "GateVerifyPolicy \<Rightarrow> GateVerdict list \<Rightarrow> VerdictTally \<Rightarrow> VerdictTally" where
  "counted_tally p V t =
     (if vt_held t \<noteq> '''' then t
      else t\<lparr>Passed := Passed t @ map vote_label (filter (\<lambda>v. gv_result v = VerdictPass) V),
             Failed := Failed t @ map (\<lambda>v. vote_label v @ '': '' @ gv_summary v) (filter (fails p) V),
             Inconclusive := Inconclusive t + length (filter (\<lambda>v. gv_result v = VerdictInconclusive \<and> \<not> fails p v) V),
             HighFindings := HighFindings t + sum_list (map gv_highFindings (filter (\<lambda>v. gv_result v = VerdictPass \<or> fails p v) V))\<rparr>)"

lemma count_vote_tally:
  "fst (count_vote p (v, el, r) t) = counted_tally p (if el then [v] else []) t"
  unfolding count_vote_def counted_tally_def fails_def vote_label_def Let_def
  by (cases "gv_result v"; cases "OnInconclusive p = VerifyFail"; cases el; cases "vt_held t = ''''"; simp)

lemma counted_tally_append: "counted_tally p V (counted_tally p U t) = counted_tally p (U @ V) t"
  by (simp add: counted_tally_def)

lemma count_loop_tally:
  "fst (count_loop p xs t) = counted_tally p (map fst (filter (\<lambda>x. fst (snd x)) xs)) t"
proof (induction xs arbitrary: t)
  case Nil
  then show ?case by (simp add: counted_tally_def)
next
  case (Cons x xs)
  obtain v el r where x: "x = (v, el, r)" by (cases x)
  have "fst (count_loop p (x # xs) t) = fst (count_loop p xs (fst (count_vote p x t)))"
    by (simp add: case_prod_beta)
  then show ?case using Cons.IH by (simp add: x count_vote_tally counted_tally_append)
qed

lemma count_vote_held: "vt_held (fst (count_vote p x t)) = vt_held t"
  by (cases x) (simp add: count_vote_tally counted_tally_def)

lemma count_vote_record:
  fixes p t v el
  assumes "r = (verdict_record v)\<lparr>vs_reason := w\<rparr>" "w = '''' \<longleftrightarrow> el"
  defines "r' \<equiv> snd (count_vote p (v, el, r) t)"
  shows "vs_name r' = gv_name v \<and>
    (vs_counted r' \<longleftrightarrow> el \<and> vt_held t = '''' \<and> (gv_result v = VerdictPass \<or> fails p v)) \<and>
    (\<not> vs_counted r' \<longrightarrow> vs_reason r' \<noteq> '''')"
  using assms
  by (cases "gv_result v"; cases "gv_run v")
    (auto simp: count_vote_def fails_def verdict_record_def Let_def)

lemma count_loop_records:
  "snd (count_loop p xs t) = map (\<lambda>x. snd (count_vote p x (t\<lparr>Passed := P\<rparr>))) xs"
proof (induction xs arbitrary: t P)
  case (Cons x xs)
  have same: "snd (count_vote p x t) = snd (count_vote p x t')" if "vt_held t = vt_held t'" for x t t'
    using that by (auto simp: count_vote_def Let_def split: prod.splits option.splits)
  show ?case
    using Cons.IH [of "fst (count_vote p x t)" "Passed (fst (count_vote p x t))"]
      same [of t "t\<lparr>Passed := P\<rparr>" x] same [of "fst (count_vote p x t)" "t\<lparr>Passed := P\<rparr>"] count_vote_held [of p x t]
    by (auto simp: case_prod_beta)
qed simp

lemma VerifyPolicyOf_eq:
  assumes "VerifyPolicyOf gate = Some p"
  shows "v_required p \<ge> 1" "v_excludeAuthor p \<noteq> None" "OnInconclusive p \<noteq> VerifyUnset" "OnTimeout p \<noteq> VerifyUnset"
    "\<exists>q. vg_verify gate = Some q \<and> v_check p = v_check q \<and> v_allowedAgents p = v_allowedAgents q"
  using assms by (auto simp: VerifyPolicyOf_def Let_def split: option.splits if_splits)

text \<open>The verdicts, the flags and the records after the first loop.\<close>

definition first_loop ::
  "VerifyGate \<Rightarrow> GateVerifyPolicy \<Rightarrow> Actor \<Rightarrow> string \<Rightarrow> time option \<Rightarrow> (GateVerdict \<times> bool \<times> GateVerdictStatus) list" where
  "first_loop gate p author bundleUID deadline =
     (let verdicts = sort_key verdict_key (vg_verdicts gate);
          st = vote_loop (refused (vg_bundle gate) p author bundleUID deadline) 0 verdicts
                 \<lparr>latest = [], eligible = replicate (length verdicts) False, recs = map verdict_record verdicts\<rparr>
      in zip verdicts (zip (eligible st) (recs st)))"

lemma first_loop_inv:
  fixes gate p author bundleUID deadline
  defines "vs \<equiv> sort_key verdict_key (vg_verdicts gate)" and "why \<equiv> refused (vg_bundle gate) p author bundleUID deadline"
  shows "vote_inv why (length vs) vs
    (vote_loop why 0 vs \<lparr>latest = [], eligible = replicate (length vs) False, recs = map verdict_record vs\<rparr>)"
proof -
  have "vote_inv why (length vs) [] \<lparr>latest = [], eligible = replicate (length vs) False, recs = map verdict_record vs\<rparr>"
    by (simp add: vote_inv_def standing_def)
  from vote_loop_inv [OF this, of vs] show ?thesis by simp
qed

lemma filter_zip3:
  "length ys = length zs \<Longrightarrow> map fst (filter (\<lambda>x. fst (snd x)) (zip xs (zip ys zs))) = map fst (filter snd (zip xs ys))"
proof (induction xs arbitrary: ys zs)
  case (Cons x xs)
  then show ?case by (cases ys; cases zs) auto
qed simp

lemma first_loop_votes:
  "map fst (filter (\<lambda>x. fst (snd x)) (first_loop gate p author bundleUID deadline)) = votes gate p author bundleUID deadline"
  using first_loop_inv [of gate p author bundleUID deadline]
  by (simp add: first_loop_def Let_def vote_inv_def filter_zip3 standing_votes votes_def countable_verdicts_def)

lemma TallyVerdicts_eq:
  fixes gate p author bundleUID deadline
  assumes "VerifyPolicyOf gate = Some p"
  defines "t0 \<equiv> (empty_tally (Some p) deadline)\<lparr>vt_required := v_required p, vt_maxFailures := v_maxFailures p,
      vt_held := held_reason p (length (vg_verdicts gate)) author\<rparr>"
  defines "t1 \<equiv> counted_tally p (votes gate p author bundleUID deadline) t0"
  shows "TallyVerdicts gate author bundleUID deadline now =
    t1\<lparr>vt_records := sort_key vs_name (map (\<lambda>x. snd (count_vote p x t0)) (first_loop gate p author bundleUID deadline)),
       Outcome := outcome_of t1 deadline now\<rparr>"
proof -
  let ?xs = "first_loop gate p author bundleUID deadline"
  have 1: "fst (count_loop p ?xs t0) = t1" unfolding t1_def count_loop_tally first_loop_votes ..
  have 2: "snd (count_loop p ?xs t0) = map (\<lambda>x. snd (count_vote p x t0)) ?xs"
    using count_loop_records [of p ?xs t0 "Passed t0"] by simp
  have "TallyVerdicts gate author bundleUID deadline now =
      (case count_loop p ?xs t0 of (t', rs) \<Rightarrow> t'\<lparr>vt_records := sort_key vs_name rs, Outcome := outcome_of t' deadline now\<rparr>)"
    using assms(1) by (simp add: TallyVerdicts_def first_loop_def t0_def Let_def)
  then show ?thesis using 1 2 by (simp add: case_prod_beta)
qed

lemma last_votes_latest:
  assumes "sorted (map verdict_key vs)" "v \<in> set (last_votes vs)" "w \<in> set vs" "voter w = voter v"
  shows "verdict_key w \<le> verdict_key v"
  using assms
proof (induction vs)
  case (Cons x vs)
  show ?case
  proof (cases "v \<in> set (last_votes vs)")
    case True
    then have "v \<in> set vs" using last_votes_subset by blast
    then show ?thesis using Cons True by auto
  next
    case False
    then have "v = x" "voter x \<notin> voter ` set vs" using Cons.prems(2) by (auto split: if_splits)
    then have "w = v" using Cons.prems(3,4) by (auto simp: image_iff)
    then show ?thesis by simp
  qed
qed simp

lemma countable_sorted: "sorted (map verdict_key (countable_verdicts gate p author bundleUID deadline))"
  by (simp add: countable_verdicts_def sorted_filter)

lemma countable_set:
  "set (countable_verdicts gate p author bundleUID deadline) =
     {v \<in> set (vg_verdicts gate). refused (vg_bundle gate) p author bundleUID deadline v = ''''}"
  by (auto simp: countable_verdicts_def)

lemma not_refused:
  assumes "refused bundle p author bundleUID deadline v = ''''"
  shows "fst (VerdictWriterAllowed p (VerifierActor v) (gv_groups v))" "VerdictPartyBlock p author (VerifierActor v) = ''''"
    "gv_bundleUID v = bundleUID" "gv_check v = v_check p"
  using assms by (auto simp: refused_def VerdictWriterAllowed_def Let_def split: if_splits)

lemma party_open:
  assumes "VerdictPartyBlock p author a = ''''" "excludes_author p \<or> Kind a = ActorAgent" "Principal author \<noteq> ''''"
  shows "\<not> SameParty author a"
  using assms by (auto simp: VerdictPartyBlock_def split: if_splits)

lemma tally_fields_of:
  assumes "VerifyPolicyOf gate = Some p"
  shows "vt_held (TallyVerdicts gate author bundleUID deadline now) = held_reason p (length (vg_verdicts gate)) author"
    "vt_policy (TallyVerdicts gate author bundleUID deadline now) = Some p"
    "held_reason p (length (vg_verdicts gate)) author = '''' \<Longrightarrow>
      Passed (TallyVerdicts gate author bundleUID deadline now) =
        map vote_label (filter (\<lambda>v. gv_result v = VerdictPass) (votes gate p author bundleUID deadline)) \<and>
      Failed (TallyVerdicts gate author bundleUID deadline now) =
        map (\<lambda>v. vote_label v @ '': '' @ gv_summary v) (filter (fails p) (votes gate p author bundleUID deadline))"
    "Outcome (TallyVerdicts gate author bundleUID deadline now) =
      (if held_reason p (length (vg_verdicts gate)) author \<noteq> '''' then VerifyWaiting
       else if int (length (filter (fails p) (votes gate p author bundleUID deadline))) > v_maxFailures p then VerifyFailed
       else if int (length (filter (\<lambda>v. gv_result v = VerdictPass) (votes gate p author bundleUID deadline))) \<ge> v_required p
       then VerifyVerified
       else if (case deadline of None \<Rightarrow> False | Some d \<Rightarrow> now > d) then VerifyTimedOut else VerifyWaiting)"
  unfolding TallyVerdicts_eq [OF assms]
  by (simp_all add: counted_tally_def empty_tally_def outcome_of_def)

section \<open>Properties\<close>

text \<open>C13. What a verify gate counts and decides. Its votes are one verdict of every voter (a run, or a party)
  that has a countable one, the latest by creation time and name; the outcome is waiting while the gate is
  held, failed with more than \<open>maxFailures\<close> failing votes, verified with \<open>required\<close> passing ones, and timed out
  after the deadline otherwise. Failures come before passes.\<close>

theorem verdict_outcome:
  assumes "VerifyPolicyOf gate = Some p"
  shows "let V = votes gate p author bundleUID deadline; t = TallyVerdicts gate author bundleUID deadline now;
             C = {v \<in> set (vg_verdicts gate). refused (vg_bundle gate) p author bundleUID deadline v = ''''} in
     set V \<subseteq> C \<and> voter ` set V = voter ` C \<and> distinct (map voter V) \<and>
     (\<forall>v \<in> set V. \<forall>w \<in> C. voter w = voter v \<longrightarrow> verdict_key w \<le> verdict_key v) \<and>
     (held_reason p (length (vg_verdicts gate)) author = '''' \<longrightarrow>
        Passed t = map vote_label (filter (\<lambda>v. gv_result v = VerdictPass) V)) \<and>
     Outcome t =
       (if held_reason p (length (vg_verdicts gate)) author \<noteq> '''' then VerifyWaiting
        else if int (length (filter (fails p) V)) > v_maxFailures p then VerifyFailed
        else if int (length (filter (\<lambda>v. gv_result v = VerdictPass) V)) \<ge> v_required p then VerifyVerified
        else if (case deadline of None \<Rightarrow> False | Some d \<Rightarrow> now > d) then VerifyTimedOut else VerifyWaiting)"
proof -
  let ?L = "countable_verdicts gate p author bundleUID deadline"
  have "\<forall>v \<in> set (last_votes ?L). \<forall>w \<in> set ?L. voter w = voter v \<longrightarrow> verdict_key w \<le> verdict_key v"
    using last_votes_latest [OF countable_sorted] by blast
  then show ?thesis
    using last_votes_subset [of ?L] last_votes_voters [of ?L] last_votes_distinct [of ?L]
      tally_fields_of(3,4) [OF assms, of author bundleUID deadline now]
    unfolding countable_set votes_def Let_def by simp
qed

definition demo_verify :: GateVerifyPolicy where
  "demo_verify = \<lparr>v_check = ''qa'', v_environment = '''', v_required = 0, v_maxFailures = 0, v_allowedAgents = [],
     v_allowedUsers = [], v_allowedGroups = [], v_excludeAuthor = None, OnInconclusive = VerifyUnset, Retries = 0,
     v_timeout = '''', OnTimeout = VerifyUnset, v_run = None\<rparr>"

definition demo_verdict :: "string \<Rightarrow> time \<Rightarrow> string \<Rightarrow> VerdictResult \<Rightarrow> GateVerdict" where
  "demo_verdict n c who res = \<lparr>gv_name = n, gv_createdAt = Some c, gv_bundle = ''b'', gv_bundleUID = ''u'',
     gv_environment = ''test'', gv_check = ''qa'', gv_result = res, gv_summary = ''s'', gv_evidenceURL = '''',
     gv_findings = 0, gv_highFindings = 0, gv_by = who, gv_groups = [], gv_actor = None, gv_run = None\<rparr>"

definition demo_vgate :: "GateVerdict list \<Rightarrow> VerifyGate" where
  "demo_vgate vs = \<lparr>vg_name = ''g'', vg_bundle = ''b'', vg_verify = Some demo_verify, vg_verdicts = vs\<rparr>"

definition demo_effective :: GateVerifyPolicy where
  "demo_effective = the (VerifyPolicyOf (demo_vgate []))"

lemma demo_effective: "VerifyPolicyOf (demo_vgate vs) = Some demo_effective"
  by (simp add: VerifyPolicyOf_def demo_vgate_def demo_effective_def demo_verify_def)

text \<open>Bob passes the version after he had failed it: one vote, a pass.\<close>

definition demo_change :: VerifyGate where
  "demo_change = demo_vgate [demo_verdict ''v2'' 20 ''bob'' VerdictPass, demo_verdict ''v1'' 10 ''bob'' VerdictFail]"

theorem verdict_outcome_witness:
  "Outcome (TallyVerdicts demo_change (plain_actor ActorHuman ''alice'') ''u'' None 30) = VerifyVerified"
proof -
  have 1: "VerifyPolicyOf demo_change = Some demo_effective" by (simp add: demo_change_def demo_effective)
  have 2: "length (filter (\<lambda>v. gv_result v = VerdictPass)
      (votes demo_change demo_effective (plain_actor ActorHuman ''alice'') ''u'' None)) = 1"
    "filter (fails demo_effective) (votes demo_change demo_effective (plain_actor ActorHuman ''alice'') ''u'' None) = []"
    "held_reason demo_effective (length (vg_verdicts demo_change)) (plain_actor ActorHuman ''alice'') = ''''"
    "v_required demo_effective = 1" "v_maxFailures demo_effective = 0"
    by code_simp+
  from verdict_outcome [OF 1, of "plain_actor ActorHuman ''alice''" "''u''" None 30] 2 show ?thesis by (simp add: Let_def)
qed

text \<open>C14. What an open verify gate guarantees. When nothing blocks the gate, either enough distinct voters passed
  the version and no more than \<open>maxFailures\<close> failed it, or the wait ended and the policy says to allow that. No
  vote is by the author's party when the policy excludes it, nor ever by an agent of that party, and agents
  vote only when the policy names them.\<close>

theorem verify_gate_opens:
  assumes p: "VerifyPolicyOf gate = Some p"
    and blocked: "Tally_Blocked (TallyVerdicts gate author bundleUID deadline now) = ''''"
  shows "let V = votes gate p author bundleUID deadline in
     ((int (card (voter ` {v \<in> set V. gv_result v = VerdictPass})) \<ge> max 1 (v_required p) \<and>
        int (card (voter ` {v \<in> set V. fails p v})) \<le> v_maxFailures p) \<or>
      (OnTimeout p = VerifyAllow \<and> (\<exists>d. deadline = Some d \<and> now > d))) \<and>
     (\<forall>v \<in> set V. (excludes_author p \<or> Kind (VerifierActor v) = ActorAgent \<longrightarrow> \<not> SameParty author (VerifierActor v)) \<and>
        (Kind (VerifierActor v) = ActorAgent \<longrightarrow> Agent (VerifierActor v) \<in> set (v_allowedAgents p)) \<and>
        gv_bundleUID v = bundleUID)"
proof -
  let ?V = "votes gate p author bundleUID deadline" and ?t = "TallyVerdicts gate author bundleUID deadline now"
  have held: "held_reason p (length (vg_verdicts gate)) author = ''''"
    using blocked by (auto simp: Tally_Blocked_def tally_fields_of [OF p] split: if_splits)
  have out: "Outcome ?t = VerifyVerified \<or> (Outcome ?t = VerifyTimedOut \<and> OnTimeout p = VerifyAllow)"
    using blocked by (auto simp: Tally_Blocked_def tally_fields_of(1,2) [OF p] split: if_splits VerifyOutcome.splits)
  have card: "card (voter ` {v \<in> set ?V. Q v}) = length (filter Q ?V)" for Q
  proof -
    have "distinct (map voter (filter Q ?V))"
      using last_votes_distinct distinct_map_filter unfolding votes_def by blast
    from distinct_card [OF this] show ?thesis by simp
  qed
  have quorum: "(int (length (filter (\<lambda>v. gv_result v = VerdictPass) ?V)) \<ge> v_required p \<and> int (length (filter (fails p) ?V)) \<le> v_maxFailures p)
      \<or> (OnTimeout p = VerifyAllow \<and> (\<exists>d. deadline = Some d \<and> now > d))"
    using out held by (auto simp: tally_fields_of(4) [OF p] split: if_splits option.splits)
  have author: "Principal author \<noteq> ''''" if "excludes_author p"
    using held that by (auto simp: held_reason_def split: if_splits)
  have vote: "(excludes_author p \<or> Kind (VerifierActor v) = ActorAgent \<longrightarrow> \<not> SameParty author (VerifierActor v)) \<and>
      (Kind (VerifierActor v) = ActorAgent \<longrightarrow> Agent (VerifierActor v) \<in> set (v_allowedAgents p)) \<and> gv_bundleUID v = bundleUID"
    if v: "v \<in> set ?V" for v
  proof -
    have r: "refused (vg_bundle gate) p author bundleUID deadline v = ''''"
      using v last_votes_subset countable_set unfolding votes_def by blast
    note nr = not_refused [OF r]
    have "Principal author \<noteq> ''''" if "excludes_author p \<or> Kind (VerifierActor v) = ActorAgent"
      using that author nr(2) by (auto simp: VerdictPartyBlock_def split: if_splits)
    then show ?thesis using nr party_open [OF nr(2)] by (auto simp: VerdictWriterAllowed_def split: if_splits)
  qed
  show ?thesis using quorum vote VerifyPolicyOf_eq(1) [OF p] by (simp add: Let_def card)
qed

theorem verify_gate_opens_witness:
  "list_all (\<lambda>v. \<not> SameParty (plain_actor ActorHuman ''alice'') (VerifierActor v))
     (votes demo_change demo_effective (plain_actor ActorHuman ''alice'') ''u'' None) \<and>
   length (votes demo_change demo_effective (plain_actor ActorHuman ''alice'') ''u'' None) = 1"
proof -
  have 1: "VerifyPolicyOf demo_change = Some demo_effective" by (simp add: demo_change_def demo_effective)
  have 2: "Tally_Blocked (TallyVerdicts demo_change (plain_actor ActorHuman ''alice'') ''u'' None 30) = ''''" by code_simp
  have 3: "excludes_author demo_effective" by code_simp
  have 4: "length (votes demo_change demo_effective (plain_actor ActorHuman ''alice'') ''u'' None) = 1" by code_simp
  from verify_gate_opens [OF 1 2] 3 4 show ?thesis by (simp add: Let_def list_all_iff)
qed

lemma first_loop_record:
  assumes "(v, el, r) \<in> set (first_loop gate p author bundleUID deadline)"
  shows "\<exists>w. r = (verdict_record v)\<lparr>vs_reason := w\<rparr> \<and> (w = '''' \<longleftrightarrow> el)"
proof -
  let ?vs = "sort_key verdict_key (vg_verdicts gate)" and ?why = "refused (vg_bundle gate) p author bundleUID deadline"
  note inv = first_loop_inv [of gate p author bundleUID deadline]
  obtain j where "j < length ?vs" "v = ?vs ! j"
    "el = eligible (vote_loop ?why 0 ?vs \<lparr>latest = [], eligible = replicate (length ?vs) False, recs = map verdict_record ?vs\<rparr>) ! j"
    "r = recs (vote_loop ?why 0 ?vs \<lparr>latest = [], eligible = replicate (length ?vs) False, recs = map verdict_record ?vs\<rparr>) ! j"
    using assms by (auto simp: first_loop_def Let_def set_zip)
  then show ?thesis using inv by (auto simp: vote_inv_def)
qed

lemma decided_votes:
  "length (filter (\<lambda>v. gv_result v = VerdictPass \<or> fails p v) V) =
     length (filter (\<lambda>v. gv_result v = VerdictPass) V) + length (filter (fails p) V)"
  by (induction V) (auto simp: fails_def)

lemma first_loop_fst: "map fst (first_loop gate p author bundleUID deadline) = sort_key verdict_key (vg_verdicts gate)"
  using first_loop_inv [of gate p author bundleUID deadline]
  by (simp add: first_loop_def Let_def vote_inv_def)

text \<open>The records account for every verdict: one record each, under its name, sorted by name; a verdict that is
  not counted says why; and on a gate that is not held as many are counted as there are passing and failing
  votes. The order in which the Graph copied the verdicts into the gate makes no difference.\<close>

theorem verdict_records:
  assumes p: "VerifyPolicyOf gate = Some p"
  shows "let t = TallyVerdicts gate author bundleUID deadline now in
     mset (map vs_name (vt_records t)) = mset (map gv_name (vg_verdicts gate)) \<and> sorted (map vs_name (vt_records t)) \<and>
     (\<forall>r \<in> set (vt_records t). \<not> vs_counted r \<longrightarrow> vs_reason r \<noteq> '''') \<and>
     length (filter vs_counted (vt_records t)) = length (Passed t) + length (Failed t) \<and>
     (\<forall>gate'. distinct (map gv_name (vg_verdicts gate)) \<and> mset (vg_verdicts gate') = mset (vg_verdicts gate) \<and>
        vg_verify gate' = vg_verify gate \<and> vg_bundle gate' = vg_bundle gate \<longrightarrow>
        TallyVerdicts gate' author bundleUID deadline now = t)"
proof -
  let ?xs = "first_loop gate p author bundleUID deadline" and ?t = "TallyVerdicts gate author bundleUID deadline now"
  define t0 where "t0 = (empty_tally (Some p) deadline)\<lparr>vt_required := v_required p, vt_maxFailures := v_maxFailures p,
      vt_held := held_reason p (length (vg_verdicts gate)) author\<rparr>"
  let ?R = "map (\<lambda>x. snd (count_vote p x t0)) ?xs"
  have recs: "vt_records ?t = sort_key vs_name ?R" by (simp add: TallyVerdicts_eq [OF p] t0_def)
  have one: "vs_name (snd (count_vote p x t0)) = gv_name (fst x)"
      "vs_counted (snd (count_vote p x t0)) \<longleftrightarrow>
         fst (snd x) \<and> vt_held t0 = '''' \<and> (gv_result (fst x) = VerdictPass \<or> fails p (fst x))"
      "\<not> vs_counted (snd (count_vote p x t0)) \<longrightarrow> vs_reason (snd (count_vote p x t0)) \<noteq> ''''" if x: "x \<in> set ?xs" for x
  proof -
    obtain v el r where e: "x = (v, el, r)" by (cases x)
    obtain w where "r = (verdict_record v)\<lparr>vs_reason := w\<rparr>" "w = '''' \<longleftrightarrow> el" using first_loop_record x e by blast
    from count_vote_record [OF this, of p t0] show "vs_name (snd (count_vote p x t0)) = gv_name (fst x)"
      "vs_counted (snd (count_vote p x t0)) \<longleftrightarrow>
         fst (snd x) \<and> vt_held t0 = '''' \<and> (gv_result (fst x) = VerdictPass \<or> fails p (fst x))"
      "\<not> vs_counted (snd (count_vote p x t0)) \<longrightarrow> vs_reason (snd (count_vote p x t0)) \<noteq> ''''"
      using e by simp_all
  qed
  have "map vs_name ?R = map (gv_name \<circ> fst) ?xs" using one(1) by simp
  also have "\<dots> = map gv_name (sort_key verdict_key (vg_verdicts gate))" by (simp only: first_loop_fst flip: map_map)
  finally have names: "mset (map vs_name (vt_records ?t)) = mset (map gv_name (vg_verdicts gate))"
    unfolding recs by (metis mset_map mset_sort)
  have counted: "length (filter vs_counted (vt_records ?t)) = length (Passed ?t) + length (Failed ?t)"
  proof -
    let ?V = "map fst (filter (\<lambda>x. fst (snd x)) ?xs)"
    have "length (filter vs_counted (vt_records ?t)) = length (filter (\<lambda>x. vs_counted (snd (count_vote p x t0))) ?xs)"
      by (simp add: recs filter_sort filter_map comp_def)
    also have "\<dots> = length (filter (\<lambda>x. fst (snd x) \<and> vt_held t0 = '''' \<and> (gv_result (fst x) = VerdictPass \<or> fails p (fst x))) ?xs)"
      by (rule arg_cong [where f = length], rule filter_cong [OF refl], rule one(2))
    also have "\<dots> = (if vt_held t0 = '''' then length (filter (\<lambda>v. gv_result v = VerdictPass \<or> fails p v) ?V) else 0)"
      by (simp add: filter_map comp_def conj_commute)
    also have "length (filter (\<lambda>v. gv_result v = VerdictPass \<or> fails p v) ?V) =
        length (filter (\<lambda>v. gv_result v = VerdictPass) ?V) + length (filter (fails p) ?V)"
      by (rule decided_votes)
    finally show ?thesis
      by (simp add: TallyVerdicts_eq [OF p] counted_tally_def first_loop_votes empty_tally_def t0_def)
  qed
  have perm: "TallyVerdicts gate' author bundleUID deadline now = ?t"
    if d: "distinct (map gv_name (vg_verdicts gate))" and m: "mset (vg_verdicts gate') = mset (vg_verdicts gate)"
      and g: "vg_verify gate' = vg_verify gate" "vg_bundle gate' = vg_bundle gate" for gate'
  proof -
    have "inj_on verdict_key (set (vg_verdicts gate'))"
      using d m mset_eq_setD [OF m] by (auto simp: inj_on_def verdict_key_def distinct_map)
    then have "sort_key verdict_key (vg_verdicts gate') = sort_key verdict_key (vg_verdicts gate)"
      using m by (intro sort_key_inj_key_eq) auto
    moreover have "length (vg_verdicts gate') = length (vg_verdicts gate)" using m by (metis size_mset)
    moreover have "VerifyPolicyOf gate' = VerifyPolicyOf gate" using g by (simp add: VerifyPolicyOf_def)
    ultimately show ?thesis using g(2) by (simp only: TallyVerdicts_def)
  qed
  have sorted: "sorted (map vs_name (vt_records ?t))" by (simp add: recs)
  have why: "\<forall>r \<in> set (vt_records ?t). \<not> vs_counted r \<longrightarrow> vs_reason r \<noteq> ''''" using one(3) by (auto simp: recs)
  show ?thesis unfolding Let_def by (intro conjI allI impI names sorted why counted perm) simp_all
qed

theorem verdict_records_witness:
  "map vs_name (vt_records (TallyVerdicts demo_change (plain_actor ActorHuman ''alice'') ''u'' None 30)) = [''v1'', ''v2''] \<and>
   TallyVerdicts (demo_vgate (rev (vg_verdicts demo_change))) (plain_actor ActorHuman ''alice'') ''u'' None 30 =
   TallyVerdicts demo_change (plain_actor ActorHuman ''alice'') ''u'' None 30"
proof -
  have 1: "VerifyPolicyOf demo_change = Some demo_effective" by (simp add: demo_change_def demo_effective)
  have 2: "map vs_name (vt_records (TallyVerdicts demo_change (plain_actor ActorHuman ''alice'') ''u'' None 30)) = [''v1'', ''v2'']"
    by code_simp
  have 3: "distinct (map gv_name (vg_verdicts demo_change)) \<and>
      mset (vg_verdicts (demo_vgate (rev (vg_verdicts demo_change)))) = mset (vg_verdicts demo_change) \<and>
      vg_verify (demo_vgate (rev (vg_verdicts demo_change))) = vg_verify demo_change \<and>
      vg_bundle (demo_vgate (rev (vg_verdicts demo_change))) = vg_bundle demo_change"
    by (simp add: demo_change_def demo_vgate_def demo_verdict_def)
  note 4 = verdict_records [OF 1, of "plain_actor ActorHuman ''alice''" "''u''" None 30, unfolded Let_def,
      THEN conjunct2, THEN conjunct2, THEN conjunct2, THEN conjunct2, THEN spec, THEN mp, OF 3]
  from 2 4 show ?thesis by (rule conjI)
qed

text \<open>\<open>VerdictStandingOf\<close> does not look at the verdicts of the gate: it tells a verifier that their verdict would
  count on a gate that is already decided.\<close>

lemma standing_of_a_decided_gate:
  "Outcome (TallyVerdicts demo_change (plain_actor ActorHuman ''alice'') ''u'' None 30) = VerifyVerified \<and>
   Counts (VerdictStandingOf demo_change (plain_actor ActorHuman ''alice'') (plain_actor ActorHuman ''carol'') [])"
  by code_simp

end
