(* ===== verification/Audit_Outbox.thy ===== *)
theory Audit_Outbox
  imports Actors "HOL-Library.Word"
begin

text \<open>
  The audit outbox: \<open>pkg/audit/outbox.go\<close>. A reconciler stores the records of a transition in its own status, in the
  patch that makes the transition (\<open>Enqueue\<close>), and writes them afterwards (\<open>Flush\<close>).

  \<open>AuditEventSpec\<close> has the fields this code reads or sets; the others pass through it unchanged. What the
  Kubernetes validation library says of a name or a label, the text of a time, and the API server's create are
  arguments. The API server is a world \<open>w\<close> with the events it stores, \<open>evs w\<close>; what is assumed of a create is
  \<open>create_ok\<close>. The counters of the metrics are returned. The count of merged records is the \<open>int32\<close> of the code:
  a 32-bit word, read with its sign, whose sums wrap around.
\<close>

section \<open>Records\<close>

type_synonym int32 = "32 word"

record AuditEventSpec =
  ev_timestamp :: time
  ev_bundle :: string
  ev_pipeline :: string
  ev_environment :: string
  ev_action :: string
  ev_outcome :: string
  ev_message :: string
  ev_actor :: "Actor option"
  ev_merged :: int32

record PendingAuditEvent =
  pe_name :: string
  pe_labels :: "(string \<times> string) list"
  pe_spec :: AuditEventSpec
  pe_createdAt :: string

record AuditEvent =
  ae_namespace :: string
  ae_name :: string
  ae_labels :: "(string \<times> string) list"
  ae_annotations :: "(string \<times> string) list"
  ae_spec :: AuditEventSpec

definition AuditActions :: "string list" where
  "AuditActions =
     [''PromotionStarted'', ''PromotionSucceeded'', ''PromotionFailed'', ''PromotionSuperseded'', ''PromotionRejected'',
      ''RollbackStarted'', ''RollbackSucceeded'', ''HealthCheckFailed'', ''GateBlocked'', ''GateEvaluated'',
      ''GateOverridden'', ''ApprovalRecorded'', ''ApprovalRevoked'', ''HoldCreated'', ''HoldReleased'', ''HoldBundleMissing'',
      ''BundleRejected'', ''APIWrite'', ''VerdictRecorded'', ''VerdictRevoked'', ''FreezeExempted'',
      ''PipelinePaused'', ''PipelineResumed'', ''FreezeStarted'', ''FreezeLifted'',
      ''PRMerged'', ''ReceiptFailed'', ''ChangeRequestOpened'', ''ChangeRequestLinked'', ''ChangeRequestApproved'', ''ChangeRequestRejected'',
      ''GateChanged'']"

definition AuditOutcomes :: "string list" where
  "AuditOutcomes = [''Success'', ''Failure'', ''Pending'']"

definition MaxPendingAuditEvents :: nat where "MaxPendingAuditEvents = 32"
definition MaxMessageBytes :: nat where "MaxMessageBytes = 1024"

definition audit_truncate :: "string \<Rightarrow> nat \<Rightarrow> string" where
  "audit_truncate s n = (if length s \<le> n then s else take (rune_cut s (n - length ellipsis)) s @ ellipsis)"

definition Entry ::
  "(time \<Rightarrow> string) \<Rightarrow> string \<Rightarrow> (string \<times> string) list \<Rightarrow> AuditEventSpec \<Rightarrow> time \<Rightarrow> PendingAuditEvent" where
  "Entry rfc3339nano name labels spec at =
     \<lparr>pe_name = name, pe_labels = labels,
      pe_spec = spec\<lparr>ev_timestamp := at, ev_message := audit_truncate (ev_message spec) MaxMessageBytes\<rparr>,
      pe_createdAt = rfc3339nano at\<rparr>"

section \<open>Validation\<close>

record validation_lib =
  vl_subdomain :: "string \<Rightarrow> string list"
  vl_qualified :: "string \<Rightarrow> string list"
  vl_value :: "string \<Rightarrow> string list"

datatype entry_problem =
    BadName string "string list"
  | BadLabelKey string "string list"
  | BadLabelValue string string "string list"
  | EmptySpecField string
  | UnknownAction string
  | UnknownOutcome string

definition label_problems :: "validation_lib \<Rightarrow> string \<times> string \<Rightarrow> entry_problem list" where
  "label_problems lib kv =
     (let (k, v) = kv in
      (if vl_qualified lib k \<noteq> [] then [BadLabelKey k (vl_qualified lib k)] else []) @
      (if vl_value lib v \<noteq> [] then [BadLabelValue k v (vl_value lib v)] else []))"

text \<open>The problems of an entry; the code sorts and joins their texts. No problem means \<open>nil\<close>.\<close>

definition Validate :: "validation_lib \<Rightarrow> PendingAuditEvent \<Rightarrow> entry_problem list" where
  "Validate lib e =
     (let sp = pe_spec e in
      (if vl_subdomain lib (pe_name e) \<noteq> [] then [BadName (pe_name e) (vl_subdomain lib (pe_name e))] else []) @
      concat (map (label_problems lib) (pe_labels e)) @
      (if ev_bundle sp = '''' then [EmptySpecField ''bundleName''] else []) @
      (if ev_pipeline sp = '''' then [EmptySpecField ''pipelineName''] else []) @
      (if ev_environment sp = '''' then [EmptySpecField ''environment''] else []) @
      (if ev_action sp \<notin> set AuditActions then [UnknownAction (ev_action sp)] else []) @
      (if ev_outcome sp \<notin> set AuditOutcomes then [UnknownOutcome (ev_outcome sp)] else []))"

section \<open>The bounded queue\<close>

text \<open>The registered coalescers, by action.\<close>

type_synonym coalescers = "string \<Rightarrow> (PendingAuditEvent \<Rightarrow> PendingAuditEvent \<Rightarrow> PendingAuditEvent option) option"

definition mergedCount :: "PendingAuditEvent \<Rightarrow> int32" where
  "mergedCount e = (if 1 \<le>s ev_merged (pe_spec e) then ev_merged (pe_spec e) else 1)"

text \<open>The inner loop: the first later entry of the same action that merges with \<open>p\<close> is replaced.\<close>

fun merge_into ::
  "validation_lib \<Rightarrow> (PendingAuditEvent \<Rightarrow> PendingAuditEvent \<Rightarrow> PendingAuditEvent option) \<Rightarrow> PendingAuditEvent \<Rightarrow>
   PendingAuditEvent list \<Rightarrow> PendingAuditEvent list option" where
  "merge_into lib fn p [] = None"
| "merge_into lib fn p (q # qs) =
     (if ev_action (pe_spec q) \<noteq> ev_action (pe_spec p) then map_option (\<lambda>r. q # r) (merge_into lib fn p qs)
      else case fn p q of
             None \<Rightarrow> map_option (\<lambda>r. q # r) (merge_into lib fn p qs)
           | Some m \<Rightarrow>
               let m' = m\<lparr>pe_spec := (pe_spec m)\<lparr>ev_merged := mergedCount p + mergedCount q\<rparr>\<rparr>
               in if Validate lib m' \<noteq> [] then map_option (\<lambda>r. q # r) (merge_into lib fn p qs)
                  else Some (m' # qs))"

fun coalesceOldest :: "validation_lib \<Rightarrow> coalescers \<Rightarrow> PendingAuditEvent list \<Rightarrow> PendingAuditEvent list option" where
  "coalesceOldest lib co [] = None"
| "coalesceOldest lib co (p # ps) =
     (case co (ev_action (pe_spec p)) of
        None \<Rightarrow> map_option (\<lambda>r. p # r) (coalesceOldest lib co ps)
      | Some fn \<Rightarrow>
          (case merge_into lib fn p ps of
             Some r \<Rightarrow> Some r
           | None \<Rightarrow> map_option (\<lambda>r. p # r) (coalesceOldest lib co ps)))"

lemma merge_into_length: "merge_into lib fn p qs = Some r \<Longrightarrow> length r = length qs"
  by (induction qs arbitrary: r) (auto simp: Let_def split: if_splits option.splits)

lemma coalesceOldest_length: "coalesceOldest lib co ps = Some r \<Longrightarrow> Suc (length r) = length ps"
  by (induction ps arbitrary: r) (auto dest: merge_into_length split: option.splits)

record outbox_effect =
  ob_pending :: "PendingAuditEvent list"
  ob_invalid :: "PendingAuditEvent list"
  ob_dropped :: "PendingAuditEvent list"
  ob_coalesced :: nat

function shrink_outbox :: "validation_lib \<Rightarrow> coalescers \<Rightarrow> PendingAuditEvent list \<Rightarrow> outbox_effect" where
  "shrink_outbox lib co ps =
     (if length ps \<le> MaxPendingAuditEvents
      then \<lparr>ob_pending = ps, ob_invalid = [], ob_dropped = [], ob_coalesced = 0\<rparr>
      else (case coalesceOldest lib co ps of
              Some ps' \<Rightarrow> let r = shrink_outbox lib co ps' in r\<lparr>ob_coalesced := ob_coalesced r + 1\<rparr>
            | None \<Rightarrow> let r = shrink_outbox lib co (tl ps) in r\<lparr>ob_dropped := hd ps # ob_dropped r\<rparr>))"
  by pat_completeness auto
termination
  by (relation "measure (\<lambda>(lib, co, ps). length ps)") (auto dest: coalesceOldest_length)

declare shrink_outbox.simps [simp del]

definition Enqueue :: "validation_lib \<Rightarrow> coalescers \<Rightarrow> PendingAuditEvent list \<Rightarrow> PendingAuditEvent \<Rightarrow> outbox_effect" where
  "Enqueue lib co ps e =
     (if Validate lib e \<noteq> [] then \<lparr>ob_pending = ps, ob_invalid = [e], ob_dropped = [], ob_coalesced = 0\<rparr>
      else if pe_name e \<in> pe_name ` set ps then \<lparr>ob_pending = ps, ob_invalid = [], ob_dropped = [], ob_coalesced = 0\<rparr>
      else shrink_outbox lib co (ps @ [e]))"

text \<open>The metrics count one for each dropped entry, invalid or pushed out.\<close>

definition dropped_metric :: "outbox_effect \<Rightarrow> nat" where
  "dropped_metric r = length (ob_invalid r) + length (ob_dropped r)"

section \<open>Writing the records\<close>

definition build :: "string \<Rightarrow> PendingAuditEvent \<Rightarrow> AuditEvent" where
  "build namespace p =
     \<lparr>ae_namespace = namespace, ae_name = pe_name p, ae_labels = pe_labels p,
      ae_annotations = (if pe_createdAt p \<noteq> '''' then [(''kardinal.io/created-at'', pe_createdAt p)] else []),
      ae_spec = pe_spec p\<rparr>"

datatype create_result = Created | AlreadyExists | NamespaceTerminating | RejectedInvalid | CreateFailed

type_synonym 'w create_call = "'w \<Rightarrow> AuditEvent \<Rightarrow> 'w \<times> create_result"

record 'w flush_result =
  fl_world :: 'w
  fl_remaining :: "PendingAuditEvent list"
  fl_dropped :: "PendingAuditEvent list"
  fl_errors :: "string list"

fun Flush :: "'w create_call \<Rightarrow> string \<Rightarrow> PendingAuditEvent list \<Rightarrow> 'w \<Rightarrow> 'w flush_result" where
  "Flush create namespace [] w = \<lparr>fl_world = w, fl_remaining = [], fl_dropped = [], fl_errors = []\<rparr>"
| "Flush create namespace (p # ps) w =
     (let (w1, res) = create w (build namespace p); r = Flush create namespace ps w1 in
      case res of
        Created \<Rightarrow> r
      | AlreadyExists \<Rightarrow> r
      | NamespaceTerminating \<Rightarrow> r\<lparr>fl_dropped := p # fl_dropped r\<rparr>
      | RejectedInvalid \<Rightarrow> r\<lparr>fl_dropped := p # fl_dropped r\<rparr>
      | CreateFailed \<Rightarrow> r\<lparr>fl_remaining := p # fl_remaining r, fl_errors := pe_name p # fl_errors r\<rparr>)"

definition Pending_update :: "PendingAuditEvent list \<Rightarrow> PendingAuditEvent list \<Rightarrow> bool" where
  "Pending_update old new =
     (if new = [] then False
      else if length new \<noteq> length old then True
      else list_ex (\<lambda>(a, b). pe_name a \<noteq> pe_name b) (zip new old))"

section \<open>Lemmas\<close>

text \<open>The records that a list of entries stands for.\<close>

definition records :: "PendingAuditEvent list \<Rightarrow> int" where
  "records ps = sum_list (map (\<lambda>p. sint (mergedCount p)) ps)"

lemma records_simps [simp]:
  "records [] = 0" "records (p # ps) = sint (mergedCount p) + records ps" "records (ps @ qs) = records ps + records qs"
  by (simp_all add: records_def)

lemma mergedCount_pos: "1 \<le> sint (mergedCount e)"
  by (simp add: mergedCount_def word_sle_eq)

lemma records_nonneg: "0 \<le> records ps"
  using mergedCount_pos by (induction ps) (simp_all add: order_trans [OF zero_le_one])

lemma sint_plus_int32: "0 \<le> sint a \<Longrightarrow> 0 \<le> sint b \<Longrightarrow> sint a + sint b < 2 ^ 31 \<Longrightarrow> sint (a + b) = sint a + sint b"
  for a b :: int32
  by (simp add: sint_word_ariths signed_take_bit_int_eq_self)

lemma mergedCount_merged:
  assumes "sint (mergedCount p) + sint (mergedCount q) < 2 ^ 31"
  shows "mergedCount (m\<lparr>pe_spec := (pe_spec m)\<lparr>ev_merged := mergedCount p + mergedCount q\<rparr>\<rparr>) = mergedCount p + mergedCount q"
proof -
  have "sint (mergedCount p + mergedCount q) = sint (mergedCount p) + sint (mergedCount q)"
    by (rule sint_plus_int32) (use assms mergedCount_pos [of p] mergedCount_pos [of q] in auto)
  then have "1 \<le>s mergedCount p + mergedCount q"
    using mergedCount_pos [of p] mergedCount_pos [of q] by (simp add: word_sle_eq)
  then show ?thesis by (subst mergedCount_def) simp
qed

text \<open>While all the records together fit an \<open>int32\<close>, merging loses none.\<close>

lemma merge_into_records:
  "merge_into lib fn p qs = Some r \<Longrightarrow> sint (mergedCount p) + records qs < 2 ^ 31 \<Longrightarrow>
   records r = sint (mergedCount p) + records qs"
proof (induction qs arbitrary: r)
  case (Cons q qs)
  have q: "sint (mergedCount p) + sint (mergedCount q) < 2 ^ 31" "sint (mergedCount p) + records qs < 2 ^ 31"
    using Cons.prems(2) mergedCount_pos [of q] records_nonneg [of qs] by auto
  show ?case
  proof (cases "\<exists>r'. merge_into lib fn p qs = Some r' \<and> r = q # r'")
    case True
    then show ?thesis using Cons.IH q(2) by auto
  next
    case False
    with Cons.prems obtain m where "r = m\<lparr>pe_spec := (pe_spec m)\<lparr>ev_merged := mergedCount p + mergedCount q\<rparr>\<rparr> # qs"
      by (auto simp: Let_def split: if_splits option.splits)
    then show ?thesis
      using mergedCount_merged [OF q(1)] sint_plus_int32 [OF _ _ q(1)] mergedCount_pos [of p] mergedCount_pos [of q] by simp
  qed
qed simp

lemma coalesceOldest_records: "coalesceOldest lib co ps = Some r \<Longrightarrow> records ps < 2 ^ 31 \<Longrightarrow> records r = records ps"
proof (induction ps arbitrary: r)
  case (Cons p ps)
  have "records ps < 2 ^ 31" using Cons.prems(2) mergedCount_pos [of p] by simp
  then show ?case using Cons by (auto dest: merge_into_records split: option.splits)
qed simp

lemma coalesce_valid:
  "merge_into lib fn p qs = Some r \<Longrightarrow> list_all (\<lambda>q. Validate lib q = []) qs \<Longrightarrow> list_all (\<lambda>q. Validate lib q = []) r"
  by (induction qs arbitrary: r) (auto simp: Let_def split: if_splits option.splits)

lemma coalesceOldest_valid:
  "coalesceOldest lib co ps = Some r \<Longrightarrow> list_all (\<lambda>q. Validate lib q = []) ps \<Longrightarrow> list_all (\<lambda>q. Validate lib q = []) r"
  by (induction ps arbitrary: r) (auto dest: coalesce_valid split: option.splits)

lemma shrink_spec:
  "length (ob_pending (shrink_outbox lib co ps)) \<le> MaxPendingAuditEvents \<and>
   (records ps < 2 ^ 31 \<longrightarrow>
     records (ob_pending (shrink_outbox lib co ps)) + records (ob_dropped (shrink_outbox lib co ps)) = records ps) \<and>
   length (ob_pending (shrink_outbox lib co ps)) + length (ob_dropped (shrink_outbox lib co ps)) +
     ob_coalesced (shrink_outbox lib co ps) = length ps \<and>
   ob_invalid (shrink_outbox lib co ps) = [] \<and>
   (list_all (\<lambda>q. Validate lib q = []) ps \<longrightarrow> list_all (\<lambda>q. Validate lib q = []) (ob_pending (shrink_outbox lib co ps)))"
proof (induction lib co ps rule: shrink_outbox.induct)
  case (1 lib co ps)
  show ?case
  proof (cases "length ps \<le> MaxPendingAuditEvents")
    case True
    then show ?thesis by (simp add: shrink_outbox.simps [of lib co ps])
  next
    case False
    show ?thesis
    proof (cases "coalesceOldest lib co ps")
      case None
      have "records ps = sint (mergedCount (hd ps)) + records (tl ps)" "length ps = Suc (length (tl ps))"
        using False by (cases ps; simp)+
      moreover have "records (tl ps) < 2 ^ 31" if "records ps < 2 ^ 31" using that calculation(1) mergedCount_pos [of "hd ps"] by simp
      moreover have "list_all (\<lambda>q. Validate lib q = []) ps \<longrightarrow> list_all (\<lambda>q. Validate lib q = []) (tl ps)" by (cases ps) auto
      ultimately show ?thesis using "1.IH"(1) [OF False None] False None
        by (simp add: shrink_outbox.simps [of lib co ps] Let_def)
    next
      case (Some r)
      then show ?thesis
        using "1.IH"(2) [OF False Some] False coalesceOldest_records [OF Some] coalesceOldest_valid [OF Some] coalesceOldest_length [OF Some]
        by (simp add: shrink_outbox.simps [of lib co ps] Let_def)
    qed
  qed
qed

lemma shrink_small: "length ps \<le> MaxPendingAuditEvents \<Longrightarrow> shrink_outbox lib co ps = \<lparr>ob_pending = ps, ob_invalid = [], ob_dropped = [], ob_coalesced = 0\<rparr>"
  by (simp add: shrink_outbox.simps)

text \<open>What the outbox relies on of the API server: a create that reports success stored the event, one that reports
  that the event exists found one of that name, and no create changes or removes another event or stores
  anything but the event it was given. A create that fails may have stored it.\<close>

definition create_ok :: "'w create_call \<Rightarrow> ('w \<Rightarrow> nsname \<Rightarrow> AuditEvent option) \<Rightarrow> bool" where
  "create_ok create evs \<longleftrightarrow>
     (\<forall>w ev. let k = \<lparr>Namespace = ae_namespace ev, Name = ae_name ev\<rparr>; (w', r) = create w ev in
        (\<forall>k'. k' \<noteq> k \<longrightarrow> evs w' k' = evs w k') \<and>
        (evs w k \<noteq> None \<longrightarrow> evs w' k = evs w k) \<and>
        (evs w k = None \<longrightarrow> evs w' k \<in> {None, Some ev}) \<and>
        (r = Created \<longrightarrow> evs w' k = Some ev) \<and> (r = AlreadyExists \<longrightarrow> evs w k \<noteq> None))"

lemma create_okD:
  assumes "create_ok create evs" "create w ev = (w', r)"
  shows "evs w k' = Some e \<Longrightarrow> evs w' k' = Some e"
    "evs w' k' = Some e \<Longrightarrow> evs w k' = Some e \<or> e = ev \<and> k' = \<lparr>Namespace = ae_namespace ev, Name = ae_name ev\<rparr>"
    "r \<in> {Created, AlreadyExists} \<Longrightarrow> evs w' \<lparr>Namespace = ae_namespace ev, Name = ae_name ev\<rparr> \<noteq> None"
proof -
  let ?k = "\<lparr>Namespace = ae_namespace ev, Name = ae_name ev\<rparr>"
  have c: "\<And>k'. k' \<noteq> ?k \<Longrightarrow> evs w' k' = evs w k'" "evs w ?k \<noteq> None \<Longrightarrow> evs w' ?k = evs w ?k"
    "evs w ?k = None \<Longrightarrow> evs w' ?k \<in> {None, Some ev}" "r = Created \<Longrightarrow> evs w' ?k = Some ev" "r = AlreadyExists \<Longrightarrow> evs w ?k \<noteq> None"
    using assms(1) [unfolded create_ok_def Let_def, THEN spec [of _ w], THEN spec [of _ ev]] unfolding assms(2) prod.case by blast+
  show "evs w k' = Some e \<Longrightarrow> evs w' k' = Some e" using c(1,2) by (cases "k' = ?k") auto
  show "evs w' k' = Some e \<Longrightarrow> evs w k' = Some e \<or> e = ev \<and> k' = ?k"
    using c(1) [of k'] c(2,3) by (cases "k' = ?k"; cases "evs w ?k") auto
  show "r \<in> {Created, AlreadyExists} \<Longrightarrow> evs w' ?k \<noteq> None" using c(2,4,5) by auto
qed

lemma Flush_keeps: "create_ok create evs \<Longrightarrow> evs w k = Some e \<Longrightarrow> evs (fl_world (Flush create ns ps w)) k = Some e"
proof (induction ps arbitrary: w)
  case (Cons p ps)
  obtain w1 r where c: "create w (build ns p) = (w1, r)" by (cases "create w (build ns p)")
  have "fl_world (Flush create ns (p # ps) w) = fl_world (Flush create ns ps w1)" using c by (simp add: Let_def split: create_result.split)
  then show ?case using Cons.IH [OF Cons.prems(1) create_okD(1) [OF Cons.prems(1) c Cons.prems(2)]] by simp
qed simp

lemma Flush_Cons:
  fixes create :: "'w create_call"
  assumes "create w (build ns p) = (w1, res)"
  shows "fl_world (Flush create ns (p # ps) w) = fl_world (Flush create ns ps w1)"
    "fl_remaining (Flush create ns (p # ps) w) = (if res = CreateFailed then [p] else []) @ fl_remaining (Flush create ns ps w1)"
    "fl_dropped (Flush create ns (p # ps) w) =
       (if res \<in> {NamespaceTerminating, RejectedInvalid} then [p] else []) @ fl_dropped (Flush create ns ps w1)"
    "fl_errors (Flush create ns (p # ps) w) = (if res = CreateFailed then [pe_name p] else []) @ fl_errors (Flush create ns ps w1)"
  using assms by (auto simp: Let_def split: create_result.splits)

lemma Flush_new:
  fixes create :: "'w create_call"
  assumes "create_ok create evs" "evs (fl_world (Flush create ns ps w)) k = Some e" "evs w k = None"
  shows "\<exists>p \<in> set ps. e = build ns p \<and> k = \<lparr>Namespace = ns, Name = pe_name p\<rparr>"
  using assms(2,3)
proof (induction ps arbitrary: w)
  case (Cons p ps)
  obtain w1 res where c: "create w (build ns p) = (w1, res)" by (cases "create w (build ns p)")
  show ?case
  proof (cases "evs w1 k")
    case None
    then show ?thesis using Cons Flush_Cons(1) [where create = create and w = w and ns = ns, OF c] by simp
  next
    case (Some e')
    then have "e' = build ns p" "k = \<lparr>Namespace = ns, Name = pe_name p\<rparr>"
      using create_okD(2) [OF assms(1) c Some] Cons.prems(2) by (auto simp: build_def)
    moreover have "e = e'" using Flush_keeps [OF assms(1) Some, of ns ps] Cons.prems(1) Flush_Cons(1) [where create = create and w = w and ns = ns, OF c] by simp
    ultimately show ?thesis by auto
  qed
qed simp

lemma Flush_written:
  fixes create :: "'w create_call"
  assumes "create_ok create evs" "p \<in> set ps"
  shows "p \<in> set (fl_remaining (Flush create ns ps w)) \<or> p \<in> set (fl_dropped (Flush create ns ps w)) \<or>
    evs (fl_world (Flush create ns ps w)) \<lparr>Namespace = ns, Name = pe_name p\<rparr> \<noteq> None"
  using assms(2)
proof (induction ps arbitrary: w)
  case (Cons q ps)
  obtain w1 res where c: "create w (build ns q) = (w1, res)" by (cases "create w (build ns q)")
  show ?case
  proof (cases "p \<in> set ps")
    case True
    then show ?thesis using Cons.IH [of w1] by (auto simp del: Flush.simps simp: Flush_Cons [where create = create and w = w and ns = ns, OF c])
  next
    case False
    then have "p = q" using Cons.prems by simp
    moreover have "evs (fl_world (Flush create ns ps w1)) \<lparr>Namespace = ns, Name = pe_name q\<rparr> \<noteq> None" if "res \<in> {Created, AlreadyExists}"
      using create_okD(3) [OF assms(1) c that] Flush_keeps [OF assms(1)] by (fastforce simp: build_def)
    ultimately show ?thesis by (cases res) (auto simp del: Flush.simps simp: Flush_Cons [where create = create and w = w and ns = ns, OF c])
  qed
qed simp

lemma Flush_remaining_subseq:
  "set (fl_remaining (Flush create ns ps w)) \<subseteq> set ps \<and> map pe_name (fl_remaining (Flush create ns ps w)) = fl_errors (Flush create ns ps w)"
proof (induction ps arbitrary: w)
  case (Cons p ps)
  obtain w1 res where c: "create w (build ns p) = (w1, res)" by (cases "create w (build ns p)")
  show ?case using Cons.IH [of w1] by (auto simp del: Flush.simps simp: Flush_Cons [where create = create and w = w and ns = ns, OF c])
qed simp

lemma audit_truncate_bound: "3 \<le> n \<Longrightarrow> length (audit_truncate s n) \<le> n"
  using rune_cut_le [of s "n - 3"] by (auto simp: audit_truncate_def ellipsis_def numeral_3_eq_3)

section \<open>Properties\<close>

text \<open>C17. The outbox loses nothing silently. It stays within its bound and its entries valid. An invalid record is reported
  and not stored, and a record whose name is already waiting is not stored again: both leave the outbox as it is. Any
  other record is appended as it is while there is room; when there is none, every entry is kept, merged into another, or
  reported as dropped, and as long as the records that all entries stand for together fit the \<open>int32\<close> counter, the entries kept and
  the entries dropped stand for exactly the records there were and the new one.\<close>

theorem outbox_accounting:
  assumes "length ps \<le> MaxPendingAuditEvents" "list_all (\<lambda>q. Validate lib q = []) ps"
  shows "let r = Enqueue lib co ps e in
     length (ob_pending r) \<le> MaxPendingAuditEvents \<and> list_all (\<lambda>q. Validate lib q = []) (ob_pending r) \<and>
     (if Validate lib e \<noteq> []
      then r = \<lparr>ob_pending = ps, ob_invalid = [e], ob_dropped = [], ob_coalesced = 0\<rparr>
      else if pe_name e \<in> pe_name ` set ps
      then r = \<lparr>ob_pending = ps, ob_invalid = [], ob_dropped = [], ob_coalesced = 0\<rparr>
      else ob_invalid r = [] \<and>
           length (ob_pending r) + length (ob_dropped r) + ob_coalesced r = length ps + 1 \<and>
           (records (ps @ [e]) < 2 ^ 31 \<longrightarrow> records (ob_pending r) + records (ob_dropped r) = records (ps @ [e])) \<and>
           (length ps < MaxPendingAuditEvents \<longrightarrow> ob_pending r = ps @ [e] \<and> ob_dropped r = []))"
  using assms shrink_spec [of lib co "ps @ [e]"] by (auto simp: Enqueue_def Let_def shrink_small)

definition plain_lib :: validation_lib where
  "plain_lib = \<lparr>vl_subdomain = (\<lambda>_. []), vl_qualified = (\<lambda>_. []), vl_value = (\<lambda>_. [])\<rparr>"

definition demo_entry :: "string \<Rightarrow> string \<Rightarrow> int32 \<Rightarrow> PendingAuditEvent" where
  "demo_entry n act k = \<lparr>pe_name = n, pe_labels = [], pe_spec = \<lparr>ev_timestamp = 0, ev_bundle = ''b'', ev_pipeline = ''p'',
     ev_environment = ''prod'', ev_action = act, ev_outcome = ''Success'', ev_message = '''', ev_actor = None, ev_merged = k\<rparr>,
     pe_createdAt = ''''\<rparr>"

theorem outbox_accounting_witness:
  "ob_pending (Enqueue plain_lib (\<lambda>_. None) [demo_entry ''a'' ''GateChanged'' 0] (demo_entry ''b'' ''GateChanged'' 0)) =
     [demo_entry ''a'' ''GateChanged'' 0, demo_entry ''b'' ''GateChanged'' 0]"
proof -
  have 1: "length [demo_entry ''a'' ''GateChanged'' 0] \<le> MaxPendingAuditEvents" by (simp add: MaxPendingAuditEvents_def)
  have v: "Validate plain_lib (demo_entry n ''GateChanged'' 0) = []" for n
    by (simp add: Validate_def plain_lib_def demo_entry_def AuditActions_def AuditOutcomes_def)
  have 2: "list_all (\<lambda>q. Validate plain_lib q = []) [demo_entry ''a'' ''GateChanged'' 0]" by (simp add: v)
  from outbox_accounting [OF 1 2, of "\<lambda>_. None" "demo_entry ''b'' ''GateChanged'' 0"] show ?thesis
    by (simp add: Let_def v) (simp add: demo_entry_def MaxPendingAuditEvents_def)
qed

text \<open>Writing the outbox. After a flush every entry is still waiting, or was refused for good, or the API server
  stores an event of its name; the entries that wait are exactly the ones an error is reported for, so a flush without
  error leaves nothing; no stored event is changed or removed, and what is new is the event of one of the
  entries. So repeating a flush, also after a create that failed but took effect, never writes a record twice.\<close>

theorem outbox_flush:
  assumes "create_ok create evs"
  shows "let r = Flush create ns ps w in
     (\<forall>p \<in> set ps. p \<in> set (fl_remaining r) \<or> p \<in> set (fl_dropped r) \<or>
        evs (fl_world r) \<lparr>Namespace = ns, Name = pe_name p\<rparr> \<noteq> None) \<and>
     set (fl_remaining r) \<subseteq> set ps \<and> (fl_errors r = [] \<longleftrightarrow> fl_remaining r = []) \<and>
     (\<forall>k e. evs w k = Some e \<longrightarrow> evs (fl_world r) k = Some e) \<and>
     (\<forall>k e. evs w k = None \<and> evs (fl_world r) k = Some e \<longrightarrow>
        (\<exists>p \<in> set ps. e = build ns p \<and> k = \<lparr>Namespace = ns, Name = pe_name p\<rparr>))"
proof -
  note 1 = Flush_written [OF assms]
  note 2 = Flush_remaining_subseq [of create ns ps w]
  have 3: "fl_errors (Flush create ns ps w) = [] \<longleftrightarrow> fl_remaining (Flush create ns ps w) = []" using 2 by (metis map_is_Nil_conv)
  show ?thesis using 1 2 3 Flush_keeps [OF assms] Flush_new [OF assms] unfolding Let_def by blast
qed

text \<open>An API server of this kind: it stores an event unless it has one of that name.\<close>

definition demo_create :: "(nsname \<Rightarrow> AuditEvent option) create_call" where
  "demo_create w ev = (let k = \<lparr>Namespace = ae_namespace ev, Name = ae_name ev\<rparr> in
     if w k = None then (w(k \<mapsto> ev), Created) else (w, AlreadyExists))"

lemma demo_create_ok: "create_ok demo_create (\<lambda>w. w)"
  by (auto simp: create_ok_def demo_create_def Let_def)

theorem outbox_flush_witness:
  "fl_world (Flush demo_create ''ns'' [demo_entry ''a'' ''GateChanged'' 0] (\<lambda>_. None)) \<lparr>Namespace = ''ns'', Name = ''a''\<rparr> \<noteq> None"
proof -
  have "fl_remaining (Flush demo_create ''ns'' [demo_entry ''a'' ''GateChanged'' 0] (\<lambda>_. None)) = []"
    "fl_dropped (Flush demo_create ''ns'' [demo_entry ''a'' ''GateChanged'' 0] (\<lambda>_. None)) = []"
    by (simp_all add: demo_create_def demo_entry_def build_def)
  then show ?thesis
    using outbox_flush [OF demo_create_ok, of "''ns''" "[demo_entry ''a'' ''GateChanged'' 0]" "\<lambda>_. None"]
    unfolding Let_def by (auto simp: demo_entry_def)
qed

text \<open>The metric for lost records counts entries: an entry that stands for several merged records counts as one when it
  is pushed out.\<close>

definition full_outbox :: "PendingAuditEvent list" where
  "full_outbox = demo_entry ''m'' ''GateChanged'' 5 # map (\<lambda>i. demo_entry (nat_str i) ''PromotionStarted'' 0) [0..<31]"

text \<open>Past the bound the counter wraps: two entries of \<open>2 ^ 30\<close> records each merge into one that stands for a single record.\<close>

lemma merged_count_wraps:
  "map_option (map mergedCount) (merge_into plain_lib (\<lambda>p q. Some q) (demo_entry ''a'' ''GateChanged'' (2 ^ 30))
     [demo_entry ''b'' ''GateChanged'' (2 ^ 30)]) = Some [1]"
  by code_simp

lemma merged_entry_counts_once:
  "let r = Enqueue plain_lib (\<lambda>_. None) full_outbox (demo_entry ''n'' ''PromotionStarted'' 0)
   in records (ob_dropped r) = 5 \<and> dropped_metric r = 1"
  by code_simp

end
