(* ===== verification/Step_Transition.thy ===== *)
theory Step_Transition
  imports Audit_Outbox
begin

text \<open>
  How a PromotionStep changes state: \<open>transition.go\<close>, \<open>audit.go\<close> and \<open>status_patch.go\<close> of
  \<open>pkg/reconciler/promotionstep\<close>, with \<open>closeStep\<close> of its \<open>reconciler.go\<close>. Every transition goes through
  \<open>transitionClosing\<close>: the step entries of the phases being left are closed, the audit records and the
  receipt are stored in the patch that changes the state, and the records are written afterwards.

  The reads of the API server, what building the receipt gives and the outcome of a patch are arguments. \<open>AdoptedSuffix\<close>
  (the text about an adopted pull request) is an argument of \<open>prMergedMessage\<close>.
\<close>

section \<open>States and step entries\<close>

datatype step_state =
    StatePending | StatePendingExplicit | StatePromoting | StateWaitingForMerge | StateHealthChecking | StateVerifying
  | StateVerified | StateFailed | StateAbortedByAlarm | StateRollingBack | StateSuperseded

definition state_str :: "step_state \<Rightarrow> string" where
  "state_str s = (case s of StatePending \<Rightarrow> '''' | StatePendingExplicit \<Rightarrow> ''Pending'' | StatePromoting \<Rightarrow> ''Promoting''
     | StateWaitingForMerge \<Rightarrow> ''WaitingForMerge'' | StateHealthChecking \<Rightarrow> ''HealthChecking'' | StateVerifying \<Rightarrow> ''Verifying''
     | StateVerified \<Rightarrow> ''Verified'' | StateFailed \<Rightarrow> ''Failed'' | StateAbortedByAlarm \<Rightarrow> ''AbortedByAlarm''
     | StateRollingBack \<Rightarrow> ''RollingBack'' | StateSuperseded \<Rightarrow> ''Superseded'')"

datatype StepExecutionState = StepExecutionPending | StepExecutionInProgress | StepExecutionCompleted | StepExecutionFailed

record StepStatus =
  ss_name :: string
  ss_state :: StepExecutionState
  ss_startedAt :: "time option"
  ss_completedAt :: "time option"
  ss_durationMs :: int
  ss_message :: string

type_synonym stepObservations = "(string \<times> duration) list"

definition healthCheckStep :: string where "healthCheckStep = ''health-check''"

definition closeStep :: "StepStatus \<Rightarrow> StepExecutionState \<Rightarrow> time \<Rightarrow> time \<Rightarrow> bool \<Rightarrow> StepStatus \<times> stepObservations" where
  "closeStep s state started finished observe =
     (let known = (ss_startedAt s \<noteq> None \<or> started \<noteq> 0);
          start = (case ss_startedAt s of Some t \<Rightarrow> t | None \<Rightarrow> if started = 0 then finished else started);
          d = max (finished - start) 0
      in (s\<lparr>ss_state := state, ss_startedAt := Some start, ss_completedAt := Some finished, ss_durationMs := d div 1000000\<rparr>,
          if observe \<and> known then [(ss_name s, d)] else []))"

definition complete_step :: "time \<Rightarrow> StepStatus \<Rightarrow> StepStatus \<times> stepObservations" where
  "complete_step now s =
     (if ss_state s \<noteq> StepExecutionCompleted then closeStep s StepExecutionCompleted 0 now True else (s, []))"

fun close_until_health :: "time \<Rightarrow> StepStatus list \<Rightarrow> StepStatus list \<times> stepObservations" where
  "close_until_health now [] = ([], [])"
| "close_until_health now (s # ss) =
     (if ss_name s = healthCheckStep
      then ((if ss_state s \<noteq> StepExecutionInProgress
             then s\<lparr>ss_state := StepExecutionInProgress, ss_startedAt := Some now, ss_completedAt := None, ss_durationMs := 0\<rparr>
             else s) # ss, [])
      else let (s', o1) = complete_step now s; (ss', o2) = close_until_health now ss in (s' # ss', o1 @ o2))"

fun complete_all :: "time \<Rightarrow> StepStatus list \<Rightarrow> StepStatus list \<times> stepObservations" where
  "complete_all now [] = ([], [])"
| "complete_all now (s # ss) =
     (let (s', o1) = complete_step now s; (ss', o2) = complete_all now ss in (s' # ss', o1 @ o2))"

fun fail_first :: "time \<Rightarrow> string \<Rightarrow> StepStatus list \<Rightarrow> StepStatus list \<times> stepObservations" where
  "fail_first now msg [] = ([], [])"
| "fail_first now msg (s # ss) =
     (if ss_state s = StepExecutionFailed then (s # ss, [])
      else if ss_state s = StepExecutionCompleted
      then let (ss', o1) = fail_first now msg ss in (s # ss', o1)
      else let (s', o1) = closeStep s StepExecutionFailed 0 now True in (s'\<lparr>ss_message := msg\<rparr> # ss, o1))"

definition closeStepStatuses :: "time \<Rightarrow> StepStatus list \<Rightarrow> string \<Rightarrow> step_state \<Rightarrow> StepStatus list \<times> stepObservations" where
  "closeStepStatuses now ss message state =
     (case state of
        StateHealthChecking \<Rightarrow> close_until_health now ss
      | StateVerifying \<Rightarrow> complete_all now ss
      | StateVerified \<Rightarrow> complete_all now ss
      | StateFailed \<Rightarrow> fail_first now message ss
      | StateAbortedByAlarm \<Rightarrow> fail_first now message ss
      | StateRollingBack \<Rightarrow> fail_first now message ss
      | StateSuperseded \<Rightarrow> fail_first now message ss
      | _ \<Rightarrow> (ss, []))"

section \<open>The step and its audit records\<close>

record StepFreeze =
  sf_name :: string
  sf_since :: time

record StepCondition =
  sc_type :: string
  sc_status :: bool
  sc_reason :: string
  sc_message :: string
  sc_generation :: int
  sc_time :: time

record PromotionStepStatus =
  ps_state :: step_state
  ps_message :: string
  ps_transitionTime :: "time option"
  FrozenBy :: "StepFreeze option"
  ps_steps :: "StepStatus list"
  RetryCount :: nat
  GitCredentialRetries :: nat
  ps_pending :: "PendingAuditEvent list"
  PendingReceipt :: "string option"
  Receipt :: string
  ReceiptError :: string
  PRURL :: string
  Outputs :: "(string \<times> string) list"
  CurrentStepIndex :: nat
  NextRetryAt :: "time option"
  ContendedRetries :: nat
  SCMWaitSince :: "time option"
  ps_conditions :: "StepCondition list"
  RenderRequestedAt :: "time option"

record StepObject =
  so_namespace :: string
  so_name :: string
  so_labels :: "(string \<times> string) list"
  so_environment :: string
  so_bundleName :: string
  so_status :: PromotionStepStatus

definition assoc_str :: "(string \<times> string) list \<Rightarrow> string \<Rightarrow> string" where
  "assoc_str m k = (case map_of m k of None \<Rightarrow> '''' | Some v \<Rightarrow> v)"

definition slugifyAction :: "string \<Rightarrow> string" where
  "slugifyAction action =
     (if action = ''PromotionStarted'' then ''started''
      else if action = ''PromotionSucceeded'' then ''succeeded''
      else if action = ''PromotionFailed'' then ''failed''
      else if action = ''PromotionSuperseded'' then ''superseded''
      else if action = ''PromotionRejected'' then ''rejected''
      else if action = ''RollbackStarted'' then ''rollback-started''
      else if action = ''RollbackSucceeded'' then ''rollback-succeeded''
      else ''event'')"

definition name_char :: "char \<Rightarrow> char" where
  "name_char c =
     (let n = (of_char c :: nat) in
      if 65 \<le> n \<and> n \<le> 90 then char_of (n + 32)
      else if (97 \<le> n \<and> n \<le> 122) \<or> (48 \<le> n \<and> n \<le> 57) \<or> c = CHR ''-'' \<or> c = CHR ''.'' then c
      else CHR ''-'')"

definition sanitizeK8sName :: "string \<Rightarrow> string" where
  "sanitizeK8sName s =
     rev (dropWhile (\<lambda>c. c = CHR ''-'') (rev (dropWhile (\<lambda>c. c = CHR ''-'') (map name_char (take 253 s)))))"

definition auditEntry ::
  "(time \<Rightarrow> string) \<Rightarrow> StepObject \<Rightarrow> string \<Rightarrow> string \<Rightarrow> string \<Rightarrow> time \<Rightarrow> Actor option \<Rightarrow> PendingAuditEvent option" where
  "auditEntry fmt ps action outcome message at who =
     (let pipelineName = assoc_str (so_labels ps) ''kardinal.io/pipeline'';
          bundleName = assoc_str (so_labels ps) ''kardinal.io/bundle'';
          envName = assoc_str (so_labels ps) ''kardinal.io/environment'';
          name = sanitizeK8sName (so_name ps @ ''-'' @ slugifyAction action)
      in if pipelineName = '''' \<or> bundleName = '''' then None
         else Some (Entry fmt name
           [(''kardinal.io/pipeline'', pipelineName), (''kardinal.io/bundle'', bundleName),
            (''kardinal.io/environment'', envName), (''kardinal.io/action'', action)]
           \<lparr>ev_timestamp = 0, ev_bundle = bundleName, ev_pipeline = pipelineName, ev_environment = envName,
            ev_action = action, ev_outcome = outcome, ev_message = message, ev_actor = who, ev_merged = 0\<rparr> at))"

text \<open>A Bundle as the records read it, and the outcome of reading it.\<close>

record RollbackBundle =
  rb_labels :: "(string \<times> string) list"
  rb_annotations :: "(string \<times> string) list"
  rb_provenance :: "(string \<times> string) option"

datatype bundle_read = BundleFound RollbackBundle | BundleNotFound | BundleReadError string

definition IsRollbackBundle :: "RollbackBundle \<Rightarrow> bool" where
  "IsRollbackBundle b =
     (assoc_str (rb_labels b) ''kardinal.io/rollback'' = ''true'' \<or>
      (case rb_provenance b of None \<Rightarrow> False | Some (rollbackOf, _) \<Rightarrow> rollbackOf \<noteq> ''''))"

definition RollbackFromOf :: "RollbackBundle \<Rightarrow> string" where
  "RollbackFromOf b =
     (case rb_provenance b of
        Some (_, rollbackFrom) \<Rightarrow> if rollbackFrom \<noteq> '''' then rollbackFrom
          else assoc_str (rb_annotations b) ''kardinal.io/rollback-from''
      | None \<Rightarrow> assoc_str (rb_annotations b) ''kardinal.io/rollback-from'')"

definition rollbackSucceededMessage :: "StepObject \<Rightarrow> string \<Rightarrow> bundle_read \<Rightarrow> string + string option" where
  "rollbackSucceededMessage ps message rd =
     (let name = (if so_bundleName ps \<noteq> '''' then so_bundleName ps else assoc_str (so_labels ps) ''kardinal.io/bundle'') in
      if name = '''' then Inr None
      else case rd of
             BundleNotFound \<Rightarrow> Inr None
           | BundleReadError err \<Rightarrow> Inl (''read Bundle '' @ name @ '' for the RollbackSucceeded AuditEvent: '' @ err)
           | BundleFound b \<Rightarrow>
               if \<not> IsRollbackBundle b then Inr None
               else let detail = (case rb_provenance b of
                          Some (rollbackOf, _) \<Rightarrow>
                            if rollbackOf \<noteq> ''''
                            then '' (artifacts of '' @ rollbackOf @
                                 (if RollbackFromOf b \<noteq> '''' then '', rolled back from '' @ RollbackFromOf b else '''') @ '')''
                            else ''''
                        | None \<Rightarrow> '''')
                    in Inr (Some (''rollback Bundle '' @ name @ detail @ '' verified in '' @ so_environment ps @ '': '' @ message)))"

definition prMergedMessage :: "(string \<times> string) list \<Rightarrow> string \<Rightarrow> string \<Rightarrow> string \<Rightarrow> string" where
  "prMergedMessage outputs prURL adoptedSuffix message =
     (let by1 = assoc_str outputs ''prMergedBy''; via = assoc_str outputs ''prMergedVia''; sha = assoc_str outputs ''mergeCommitSHA'' in
      message @ '' by '' @ (if by1 = '''' then ''(unknown: the SCM did not name who, or its lookup failed for 5 minutes)'' else by1) @
      (if via \<noteq> '''' then '' (seen by '' @ via @ '')'' else '''') @
      (if sha \<noteq> '''' then '' as '' @ sha else '''') @
      (if prURL \<noteq> '''' then '': '' @ prURL else '''') @ adoptedSuffix)"

text \<open>What the reconciler reads from its surroundings during a transition.\<close>

record transition_env =
  te_now :: time
  te_wall :: time
  te_fmt :: "time \<Rightarrow> string"
  te_who :: "Actor option"
  te_bundle :: bundle_read
  te_adopted :: string

definition auditEntries ::
  "transition_env \<Rightarrow> StepObject \<Rightarrow> step_state \<Rightarrow> string \<Rightarrow> string \<Rightarrow> string + PendingAuditEvent list" where
  "auditEntries env ps state message auditAction =
     (let at = te_now env;
          add = (\<lambda>action outcome msg. case auditEntry (te_fmt env) ps action outcome msg at (te_who env) of None \<Rightarrow> [] | Some e \<Rightarrow> [e])
      in case state of
           StatePromoting \<Rightarrow> Inr (add ''PromotionStarted'' ''Pending'' message)
         | StateVerified \<Rightarrow>
             (case rollbackSucceededMessage ps message (te_bundle env) of
                Inl err \<Rightarrow> Inl err
              | Inr None \<Rightarrow> Inr (add ''PromotionSucceeded'' ''Success'' message)
              | Inr (Some msg) \<Rightarrow> Inr (add ''PromotionSucceeded'' ''Success'' message @ add ''RollbackSucceeded'' ''Success'' msg))
         | StateFailed \<Rightarrow> Inr (add (if auditAction = '''' then ''PromotionFailed'' else auditAction) ''Failure'' message)
         | StateAbortedByAlarm \<Rightarrow> Inr (add (if auditAction = '''' then ''PromotionFailed'' else auditAction) ''Failure'' message)
         | StateRollingBack \<Rightarrow> Inr (add ''RollbackStarted'' ''Pending'' message)
         | StateSuperseded \<Rightarrow> Inr (if auditAction \<noteq> '''' then add auditAction ''Failure'' message else [])
         | StateHealthChecking \<Rightarrow>
             Inr (if auditAction = ''PRMerged''
                  then (case auditEntry (te_fmt env) ps ''PRMerged'' ''Success''
                          (prMergedMessage (Outputs (so_status ps)) (PRURL (so_status ps)) (te_adopted env) message) at None of
                          None \<Rightarrow> [] | Some e \<Rightarrow> [e])
                  else [])
         | _ \<Rightarrow> Inr [])"

section \<open>Writing the status\<close>

datatype patch_result = PatchOK | PatchNotFound | PatchConflict | PatchFailed string

text \<open>\<open>patchStatusLocked\<close>: \<open>patch i rv\<close> is the outcome of the \<open>i\<close>-th patch call, locked on resource version \<open>rv\<close>, and \<open>rd i\<close>
  what the API server returns for the read before it: an error, nothing, or a version and its status. The result
  is the outcome and the version the last patch was locked on.\<close>

datatype locked_result = Written nat | NotWritten patch_result | ReadFailed string

definition statusPatchTries :: nat where "statusPatchTries = 3"

function patch_loop ::
  "(nat \<Rightarrow> nat \<Rightarrow> patch_result) \<Rightarrow> (nat \<Rightarrow> string + (nat \<times> 's) option) \<Rightarrow> 's \<Rightarrow> nat \<Rightarrow> nat \<Rightarrow> patch_result \<Rightarrow> locked_result" where
  "patch_loop patch rd baseStatus i rv r =
     (if i < statusPatchTries \<and> r = PatchConflict
      then (case rd i of
              Inl err \<Rightarrow> ReadFailed err
            | Inr None \<Rightarrow> NotWritten PatchNotFound
            | Inr (Some (rv', fresh)) \<Rightarrow>
                if fresh \<noteq> baseStatus then NotWritten PatchConflict
                else patch_loop patch rd baseStatus (i + 1) rv' (patch i rv'))
      else if r = PatchOK then Written rv else NotWritten r)"
  by pat_completeness auto
termination
  by (relation "measure (\<lambda>(patch, rd, b, i, rv, r). statusPatchTries - i)") auto

declare patch_loop.simps [simp del]

definition patchStatusLocked ::
  "(nat \<Rightarrow> nat \<Rightarrow> patch_result) \<Rightarrow> (nat \<Rightarrow> string + (nat \<times> 's) option) \<Rightarrow> 's \<Rightarrow> nat \<Rightarrow> locked_result" where
  "patchStatusLocked patch rd baseStatus baseRV = patch_loop patch rd baseStatus 1 baseRV (patch 0 baseRV)"

section \<open>The transition\<close>

datatype receipt_result = ReceiptBuilt string | ReceiptNeverBuilds string | ReceiptRetry string

datatype transition_error = EntriesError string | ReceiptReadError string | StepChanged | StatusPatchError string

definition enqueue_all ::
  "validation_lib \<Rightarrow> coalescers \<Rightarrow> PendingAuditEvent list \<Rightarrow> PendingAuditEvent list \<Rightarrow> PendingAuditEvent list" where
  "enqueue_all lib co ps es = foldl (\<lambda>ps e. ob_pending (Enqueue lib co ps e)) ps es"

text \<open>The status a state change stores; \<open>receipts\<close> is \<^const>\<open>None\<close> when receipts are off.\<close>

definition changed_status ::
  "validation_lib \<Rightarrow> coalescers \<Rightarrow> transition_env \<Rightarrow> receipt_result option \<Rightarrow> StepObject \<Rightarrow> step_state \<Rightarrow> string \<Rightarrow>
   PendingAuditEvent list \<Rightarrow> transition_error + (PromotionStepStatus \<times> stepObservations)" where
  "changed_status lib co env receipts ps state message entries =
     (let st0 = (so_status ps)\<lparr>ps_state := state, ps_message := message,
            FrozenBy := (if state \<noteq> StatePendingExplicit \<and> state \<noteq> StatePromoting then None else FrozenBy (so_status ps))\<rparr>;
          (ss, obs) = closeStepStatuses (te_wall env) (ps_steps st0) message state;
          st1 = st0\<lparr>ps_transitionTime := Some (te_now env div second * second), ps_steps := ss, RetryCount := 0,
                   GitCredentialRetries := 0, ps_pending := enqueue_all lib co (ps_pending st0) entries\<rparr>
      in if state = StateVerified \<and> receipts \<noteq> None \<and> PendingReceipt st1 = None \<and> Receipt st1 = '''' \<and> ReceiptError st1 = ''''
         then (case the receipts of
                 ReceiptBuilt r \<Rightarrow> Inr (st1\<lparr>PendingReceipt := Some r\<rparr>, obs)
               | ReceiptNeverBuilds err \<Rightarrow>
                   let st2 = st1\<lparr>ReceiptError := err\<rparr>
                   in (case auditEntry (te_fmt env) ps ''ReceiptFailed'' ''Failure'' (''no promotion receipt: '' @ err) (te_now env) None of
                         None \<Rightarrow> Inr (st2, obs)
                       | Some e \<Rightarrow> Inr (st2\<lparr>ps_pending := enqueue_all lib co (ps_pending st2) [e]\<rparr>, obs))
               | ReceiptRetry err \<Rightarrow> Inl (ReceiptReadError err))
         else Inr (st1, obs))"

definition patchState ::
  "validation_lib \<Rightarrow> coalescers \<Rightarrow> transition_env \<Rightarrow> receipt_result option \<Rightarrow> patch_result \<Rightarrow> PromotionStepStatus \<Rightarrow> StepObject \<Rightarrow>
   step_state \<Rightarrow> string \<Rightarrow> stepObservations \<Rightarrow> PendingAuditEvent list \<Rightarrow>
   (transition_error + bool) \<times> PromotionStepStatus option \<times> stepObservations" where
  "patchState lib co env receipts result base ps state message closed entries =
     (let changed = (ps_state base \<noteq> state);
          next_st = (if changed then changed_status lib co env receipts ps state message entries
                     else Inr ((so_status ps)\<lparr>ps_state := state, ps_message := message,
                       FrozenBy := (if state \<noteq> StatePendingExplicit \<and> state \<noteq> StatePromoting then None else FrozenBy (so_status ps))\<rparr>, []))
      in case next_st of
           Inl err \<Rightarrow> (Inl err, None, [])
         | Inr (st, obs) \<Rightarrow>
             (case result of
                PatchOK \<Rightarrow> (Inr changed, Some st, closed @ obs)
              | PatchNotFound \<Rightarrow> (Inr False, None, [])
              | PatchConflict \<Rightarrow> (Inl StepChanged, None, [])
              | PatchFailed err \<Rightarrow> (Inl (StatusPatchError err), None, [])))"

record emitted_event =
  em_warning :: bool
  em_reason :: string
  em_action :: string
  em_note :: string

definition recordTransition :: "StepObject \<Rightarrow> step_state \<Rightarrow> string \<Rightarrow> emitted_event option \<times> string list" where
  "recordTransition ps state message =
     (let env = so_environment ps; ev = (\<lambda>w act note. Some \<lparr>em_warning = w, em_reason = state_str state, em_action = act, em_note = note\<rparr>) in
      case state of
        StatePromoting \<Rightarrow> (ev False ''Promote'' (''env '' @ env @ '': promotion started: '' @ message), [])
      | StateWaitingForMerge \<Rightarrow> (ev False ''Promote'' (''env '' @ env @ '': PR opened, waiting for merge: '' @ PRURL (so_status ps)), [])
      | StateHealthChecking \<Rightarrow> (ev False ''CheckHealth'' (''env '' @ env @ '': change delivered, running health check''), [])
      | StateVerifying \<Rightarrow> (ev False ''RunVerification'' (''env '' @ env @ '': health check passed, verifying (post-deploy hooks and analyses)''), [])
      | StateVerified \<Rightarrow> (ev False ''Verify'' (''env '' @ env @ '': step completed successfully''), [''succeeded''])
      | StateFailed \<Rightarrow> (ev True ''Promote'' (''env '' @ env @ '': step failed: '' @ message), [''failed''])
      | StateAbortedByAlarm \<Rightarrow> (ev True ''Promote'' (''env '' @ env @ '': step failed: '' @ message), [''failed''])
      | StateRollingBack \<Rightarrow> (ev True ''Rollback'' (''env '' @ env @ '': '' @ message), [])
      | StateSuperseded \<Rightarrow> (ev False ''Supersede'' (''env '' @ env @ '': '' @ message), [])
      | _ \<Rightarrow> (None, []))"

text \<open>\<open>flushAudit\<close>: writes the outbox and removes what was written, when the patch that removes it succeeds.\<close>

definition flushAudit ::
  "'w create_call \<Rightarrow> string \<Rightarrow> patch_result \<Rightarrow> PromotionStepStatus \<Rightarrow> 'w \<Rightarrow> 'w \<times> PromotionStepStatus \<times> bool" where
  "flushAudit create namespace result st w =
     (if ps_pending st = [] then (w, st, True)
      else let r = Flush create namespace (ps_pending st) w in
           if length (fl_remaining r) \<noteq> length (ps_pending st)
           then (case result of
                   PatchOK \<Rightarrow> (fl_world r, st\<lparr>ps_pending := fl_remaining r\<rparr>, fl_errors r = [])
                 | PatchNotFound \<Rightarrow> (fl_world r, st\<lparr>ps_pending := fl_remaining r\<rparr>, fl_errors r = [])
                 | _ \<Rightarrow> (fl_world r, st, False))
           else (fl_world r, st, fl_errors r = []))"

definition transitionClosing ::
  "validation_lib \<Rightarrow> coalescers \<Rightarrow> transition_env \<Rightarrow> receipt_result option \<Rightarrow> patch_result \<Rightarrow> PromotionStepStatus \<Rightarrow> StepObject \<Rightarrow>
   step_state \<Rightarrow> string \<Rightarrow> string \<Rightarrow> stepObservations \<Rightarrow>
   'w create_call \<Rightarrow> patch_result \<Rightarrow> 'w \<Rightarrow>
   (transition_error + bool) \<times> PromotionStepStatus option \<times> 'w \<times> emitted_event option" where
  "transitionClosing lib co env receipts result base ps state message auditAction closed create flushResult w =
     (case (if ps_state base \<noteq> state then auditEntries env ps state message auditAction else Inr []) of
        Inl err \<Rightarrow> (Inl (EntriesError err), None, w, None)
      | Inr entries \<Rightarrow>
          (case patchState lib co env receipts result base ps state message closed entries of
             (Inl err, stored, _) \<Rightarrow> (Inl err, stored, w, None)
           | (Inr False, stored, _) \<Rightarrow> (Inr False, stored, w, None)
           | (Inr True, stored, _) \<Rightarrow>
               let (w', st', _) = flushAudit create (so_namespace ps) flushResult (the stored) w
               in (Inr True, Some st', w', fst (recordTransition ps state message))))"

definition cancelUnstarted ::
  "validation_lib \<Rightarrow> coalescers \<Rightarrow> transition_env \<Rightarrow> receipt_result option \<Rightarrow> patch_result \<Rightarrow> PromotionStepStatus \<Rightarrow> StepObject \<Rightarrow>
   string \<Rightarrow> string \<Rightarrow> (transition_error + unit) \<times> PromotionStepStatus option \<times> emitted_event option" where
  "cancelUnstarted lib co env receipts result base ps message eventReason =
     (case patchState lib co env receipts result base ps StateFailed message [] [] of
        (Inl err, stored, _) \<Rightarrow> (Inl err, stored, None)
      | (Inr False, stored, _) \<Rightarrow> (Inr (), stored, None)
      | (Inr True, stored, _) \<Rightarrow> (Inr (), stored, Some \<lparr>em_warning = False, em_reason = eventReason, em_action = ''Cancel'',
            em_note = ''env '' @ so_environment ps @ '': '' @ message\<rparr>))"

section \<open>Lemmas\<close>

lemma closeStep_simps [simp]:
  "ss_name (fst (closeStep s st a b obs)) = ss_name s" "ss_state (fst (closeStep s st a b obs)) = st"
  "ss_completedAt (fst (closeStep s st a b obs)) = Some b" "ss_startedAt (fst (closeStep s st a b obs)) \<noteq> None"
  "0 \<le> ss_durationMs (fst (closeStep s st a b obs))"
  by (simp_all add: closeStep_def Let_def)

lemma complete_step_simps [simp]:
  "ss_name (fst (complete_step now s)) = ss_name s" "ss_state (fst (complete_step now s)) = StepExecutionCompleted"
  by (simp_all add: complete_step_def)

lemma complete_all_spec: "fst (complete_all now ss) = map (\<lambda>s. fst (complete_step now s)) ss"
  by (induction ss) (auto simp: case_prod_beta)

lemma close_until_health_spec:
  "fst (close_until_health now ss) =
     map (\<lambda>s. fst (complete_step now s)) (takeWhile (\<lambda>s. ss_name s \<noteq> healthCheckStep) ss) @
     (case dropWhile (\<lambda>s. ss_name s \<noteq> healthCheckStep) ss of
        [] \<Rightarrow> []
      | h # rest \<Rightarrow>
          (if ss_state h \<noteq> StepExecutionInProgress
           then h\<lparr>ss_state := StepExecutionInProgress, ss_startedAt := Some now, ss_completedAt := None, ss_durationMs := 0\<rparr>
           else h) # rest)"
  by (induction ss) (auto simp: case_prod_beta)

lemma fail_first_spec:
  "\<exists>pre rest. ss = pre @ rest \<and> list_all (\<lambda>s. ss_state s = StepExecutionCompleted) pre \<and>
     (case rest of
        [] \<Rightarrow> fst (fail_first now msg ss) = ss
      | h # tail \<Rightarrow>
          ss_state h \<noteq> StepExecutionCompleted \<and>
          fst (fail_first now msg ss) =
            (if ss_state h = StepExecutionFailed then ss
             else pre @ (fst (closeStep h StepExecutionFailed 0 now True))\<lparr>ss_message := msg\<rparr> # tail))"
proof (induction ss)
  case (Cons s ss)
  show ?case
  proof (cases "ss_state s = StepExecutionCompleted")
    case True
    from Cons.IH obtain pre rest where "ss = pre @ rest" "list_all (\<lambda>s. ss_state s = StepExecutionCompleted) pre"
      "case rest of [] \<Rightarrow> fst (fail_first now msg ss) = ss
       | h # tail \<Rightarrow> ss_state h \<noteq> StepExecutionCompleted \<and> fst (fail_first now msg ss) =
           (if ss_state h = StepExecutionFailed then ss
            else pre @ (fst (closeStep h StepExecutionFailed 0 now True))\<lparr>ss_message := msg\<rparr> # tail)" by blast
    then show ?thesis using True
      by (intro exI [of _ "s # pre"] exI [of _ rest]) (auto simp: case_prod_beta split: list.splits)
  next
    case False
    then show ?thesis by (intro exI [of _ "[]"] exI [of _ "s # ss"]) (auto simp: case_prod_beta)
  qed
qed simp

lemma enqueue_keeps_names:
  assumes "length ps < MaxPendingAuditEvents" "Validate lib e = []"
  shows "\<exists>p \<in> set (ob_pending (Enqueue lib co ps e)). pe_name p = pe_name e" "set ps \<subseteq> set (ob_pending (Enqueue lib co ps e))"
    "length (ob_pending (Enqueue lib co ps e)) \<le> Suc (length ps)"
  using assms by (auto simp: Enqueue_def shrink_small)

lemma enqueue_all_names:
  assumes "length ps + length es \<le> MaxPendingAuditEvents"
  shows "set ps \<subseteq> set (enqueue_all lib co ps es) \<and>
    (\<forall>e \<in> set es. Validate lib e = [] \<longrightarrow> (\<exists>p \<in> set (enqueue_all lib co ps es). pe_name p = pe_name e)) \<and>
    length (enqueue_all lib co ps es) \<le> length ps + length es"
  using assms
proof (induction es arbitrary: ps)
  case (Cons e es)
  let ?ps = "ob_pending (Enqueue lib co ps e)"
  have inv: "?ps = ps" if "Validate lib e \<noteq> []" using that by (simp add: Enqueue_def)
  have e: "Validate lib e = [] \<longrightarrow> (\<exists>p \<in> set ?ps. pe_name p = pe_name e)" "set ps \<subseteq> set ?ps" "length ?ps \<le> Suc (length ps)"
    using Cons.prems enqueue_keeps_names [of ps lib e co] inv by (cases "Validate lib e = []"; simp)+
  have IH: "set ?ps \<subseteq> set (enqueue_all lib co ?ps es)"
    "\<forall>e \<in> set es. Validate lib e = [] \<longrightarrow> (\<exists>p \<in> set (enqueue_all lib co ?ps es). pe_name p = pe_name e)"
    "length (enqueue_all lib co ?ps es) \<le> length ?ps + length es"
    using Cons.IH [of ?ps] Cons.prems e(3) by auto
  have "enqueue_all lib co ps (e # es) = enqueue_all lib co ?ps es" by (simp add: enqueue_all_def)
  then show ?case using IH e by auto
qed (simp add: enqueue_all_def)

lemma changed_status_pending:
  assumes "changed_status lib co env receipts ps state message entries = Inr (st, obs)"
  shows "ps_state st = state" "ps_message st = message"
    "\<exists>es. ps_pending st = enqueue_all lib co (ps_pending (so_status ps)) (entries @ es) \<and> length es \<le> 1 \<and>
       (\<forall>e \<in> set es. \<exists>err. auditEntry (te_fmt env) ps ''ReceiptFailed'' ''Failure'' (''no promotion receipt: '' @ err) (te_now env) None = Some e)"
proof -
  have ea: "enqueue_all lib co (enqueue_all lib co p xs) ys = enqueue_all lib co p (xs @ ys)" for p xs ys
    by (simp add: enqueue_all_def)
  show "ps_state st = state" "ps_message st = message"
    using assms by (auto simp: changed_status_def Let_def split: prod.splits if_splits receipt_result.splits option.splits)
  have nil: "enqueue_all lib co p [] = p" for p by (simp add: enqueue_all_def)
  from assms consider "ps_pending st = enqueue_all lib co (ps_pending (so_status ps)) entries"
    | err e where "auditEntry (te_fmt env) ps ''ReceiptFailed'' ''Failure'' (''no promotion receipt: '' @ err) (te_now env) None = Some e"
        "ps_pending st = enqueue_all lib co (enqueue_all lib co (ps_pending (so_status ps)) entries) [e]"
    by (auto simp: changed_status_def Let_def split: prod.splits if_splits receipt_result.splits option.splits)
  then show "\<exists>es. ps_pending st = enqueue_all lib co (ps_pending (so_status ps)) (entries @ es) \<and> length es \<le> 1 \<and>
      (\<forall>e \<in> set es. \<exists>err. auditEntry (te_fmt env) ps ''ReceiptFailed'' ''Failure'' (''no promotion receipt: '' @ err) (te_now env) None = Some e)"
  proof cases
    case 1
    then show ?thesis by (intro exI [of _ "[]"]) simp
  next
    case (2 err e)
    then show ?thesis by (intro exI [of _ "[e]"]) (auto simp: ea)
  qed
qed

lemma flushAudit_spec:
  assumes "create_ok create evs" "flushAudit create ns result st w = (w', st', ok)"
  shows "ps_state st' = ps_state st" "ps_pending st' = ps_pending st \<or> ps_pending st' = fl_remaining (Flush create ns (ps_pending st) w)"
    "ps_pending st = [] \<and> w' = w \<or> w' = fl_world (Flush create ns (ps_pending st) w)"
  using assms(2) by (auto simp: flushAudit_def Let_def split: if_splits patch_result.splits)

text \<open>Validity of the records of a step: its name and its labels pass the API server's rules.\<close>

lemma auditEntry_valid:
  assumes "auditEntry fmt ps action outcome message at who = Some e" "action \<in> set AuditActions" "outcome \<in> set AuditOutcomes"
    "vl_subdomain lib = (\<lambda>_. [])" "vl_qualified lib = (\<lambda>_. [])" "vl_value lib = (\<lambda>_. [])"
    "assoc_str (so_labels ps) ''kardinal.io/environment'' \<noteq> ''''"
  shows "Validate lib e = []"
  using assms by (auto simp: auditEntry_def Entry_def Validate_def label_problems_def Let_def split: if_splits)

lemma patchState_True:
  assumes "patchState lib co env receipts result base ps state message closed entries = (Inr True, stored, obs)"
  shows "\<exists>st os. stored = Some st \<and> changed_status lib co env receipts ps state message entries = Inr (st, os) \<and> result = PatchOK \<and>
    ps_state base \<noteq> state"
  using assms by (auto simp: patchState_def Let_def split: sum.splits prod.splits patch_result.splits if_splits)

lemma patchState_not_written:
  assumes "patchState lib co env receipts result base ps state message closed entries = (Inl err, stored, obs)"
  shows "stored = None \<and> obs = []"
  using assms by (auto simp: patchState_def Let_def split: sum.splits prod.splits patch_result.splits if_splits)

lemma transitionClosing_True:
  assumes "transitionClosing lib co env receipts result base ps state message auditAction closed create flushResult w = (Inr True, stored, w', ev)"
  obtains entries st os st' ok where "ps_state base \<noteq> state" "auditEntries env ps state message auditAction = Inr entries"
    "changed_status lib co env receipts ps state message entries = Inr (st, os)"
    "flushAudit create (so_namespace ps) flushResult st w = (w', st', ok)" "stored = Some st'"
proof -
  obtain entries where e: "(if ps_state base \<noteq> state then auditEntries env ps state message auditAction else Inr []) = Inr entries"
    using assms by (auto simp: transitionClosing_def split: sum.splits)
  obtain stored0 obs where p: "patchState lib co env receipts result base ps state message closed entries = (Inr True, stored0, obs)"
    using assms unfolding transitionClosing_def e by (auto split: prod.splits sum.splits bool.splits)
  from patchState_True [OF p] obtain st os where s: "stored0 = Some st"
    "changed_status lib co env receipts ps state message entries = Inr (st, os)" "ps_state base \<noteq> state" by blast
  obtain st' ok where f: "flushAudit create (so_namespace ps) flushResult st w = (w', st', ok)" "stored = Some st'"
    using assms unfolding transitionClosing_def e by (auto simp: p s(1) split: prod.splits)
  show ?thesis using that s(3) e s(2) f by auto
qed

section \<open>Properties\<close>

text \<open>The step entries follow the state. Entering Verifying or Verified completes every entry. Entering
  HealthChecking completes the entries before the first health check, starts that one and leaves the rest. Entering
  a failure state marks the first entry that is not completed as failed, with the message, unless an entry already
  failed there; what was completed stays. No other state touches the entries, and none changes their names.\<close>

theorem closeStepStatuses_spec:
  "let ss' = fst (closeStepStatuses now ss message state); done = (\<lambda>s. ss_state s = StepExecutionCompleted);
       hc = (\<lambda>s. ss_name s \<noteq> healthCheckStep) in
   map ss_name ss' = map ss_name ss \<and>
   (if state \<in> {StateVerifying, StateVerified} then list_all done ss'
    else if state = StateHealthChecking
    then list_all done (takeWhile hc ss') \<and> tl (dropWhile hc ss') = tl (dropWhile hc ss) \<and>
         (dropWhile hc ss' \<noteq> [] \<longrightarrow> ss_state (hd (dropWhile hc ss')) = StepExecutionInProgress)
    else if state \<in> {StateFailed, StateAbortedByAlarm, StateRollingBack, StateSuperseded}
    then takeWhile done ss' = takeWhile done ss \<and> tl (dropWhile done ss') = tl (dropWhile done ss) \<and>
         (dropWhile done ss' \<noteq> [] \<longrightarrow> ss_state (hd (dropWhile done ss')) = StepExecutionFailed \<and>
            (ss_state (hd (dropWhile done ss)) \<noteq> StepExecutionFailed \<longrightarrow> ss_message (hd (dropWhile done ss')) = message))
    else ss' = ss)"
proof -
  let ?hc = "\<lambda>s. ss_name s \<noteq> healthCheckStep" and ?done = "\<lambda>s. ss_state s = StepExecutionCompleted"
  have complete: "map ss_name (fst (complete_all now ss)) = map ss_name ss" "list_all ?done (fst (complete_all now ss))"
    by (simp_all add: complete_all_spec list_all_iff)
  have health: "map ss_name (fst (close_until_health now ss)) = map ss_name ss \<and>
      list_all ?done (takeWhile ?hc (fst (close_until_health now ss))) \<and>
      tl (dropWhile ?hc (fst (close_until_health now ss))) = tl (dropWhile ?hc ss) \<and>
      (dropWhile ?hc (fst (close_until_health now ss)) \<noteq> [] \<longrightarrow>
         ss_state (hd (dropWhile ?hc (fst (close_until_health now ss)))) = StepExecutionInProgress)"
    by (induction ss) (auto simp: case_prod_beta)
  have fail: "map ss_name (fst (fail_first now message ss)) = map ss_name ss \<and>
      takeWhile ?done (fst (fail_first now message ss)) = takeWhile ?done ss \<and>
      tl (dropWhile ?done (fst (fail_first now message ss))) = tl (dropWhile ?done ss) \<and>
      (dropWhile ?done (fst (fail_first now message ss)) \<noteq> [] \<longrightarrow>
         ss_state (hd (dropWhile ?done (fst (fail_first now message ss)))) = StepExecutionFailed \<and>
         (ss_state (hd (dropWhile ?done ss)) \<noteq> StepExecutionFailed \<longrightarrow>
            ss_message (hd (dropWhile ?done (fst (fail_first now message ss)))) = message))"
    by (induction ss) (auto simp: case_prod_beta)
  show ?thesis using complete health fail by (cases state) (auto simp: closeStepStatuses_def Let_def)
qed

definition demo_entry_step :: "string \<Rightarrow> StepExecutionState \<Rightarrow> StepStatus" where
  "demo_entry_step n st = \<lparr>ss_name = n, ss_state = st, ss_startedAt = None, ss_completedAt = None, ss_durationMs = 0, ss_message = ''''\<rparr>"

theorem closeStepStatuses_spec_witness:
  "ss_state (hd (fst (closeStepStatuses 5 [demo_entry_step ''git-push'' StepExecutionInProgress] ''boom'' StateFailed))) = StepExecutionFailed"
  using closeStepStatuses_spec [of 5 "[demo_entry_step ''git-push'' StepExecutionInProgress]" "''boom''" StateFailed]
  by (simp add: Let_def closeStepStatuses_def demo_entry_step_def case_prod_beta)

text \<open>C18. No state change without its record. When a transition reports that it changed the state, and the outbox it read has
  room for its records and one of a failed receipt (fewer than 32 with them), the new state is stored together with its
  audit records: for each of them that is valid (\<open>Validate\<close>; \<open>Enqueue\<close> reports and leaves out an invalid one), the API
  server stores an event of its name, or an entry of its name is still in the stored outbox (whatever happened to the
  flush), or the API server refused it for good. A step with its Pipeline and Bundle labels that starts, succeeds, fails,
  is aborted or rolls back has at least one record.\<close>

theorem transition_records:
  assumes api: "create_ok create evs"
    and tr: "transitionClosing lib co env receipts result base ps state message auditAction closed create flushResult w = (Inr True, stored, w', ev)"
    and entries: "auditEntries env ps state message auditAction = Inr entries"
    and room: "length (ps_pending (so_status ps)) + length entries < MaxPendingAuditEvents"
  shows "\<exists>st pending es. stored = Some st \<and> ps_state st = state \<and>
    pending = enqueue_all lib co (ps_pending (so_status ps)) (entries @ es) \<and>
    (\<forall>e \<in> set entries. Validate lib e = [] \<longrightarrow> (\<exists>p \<in> set pending. pe_name p = pe_name e \<and>
       (p \<in> set (ps_pending st) \<or> p \<in> set (fl_dropped (Flush create (so_namespace ps) pending w)) \<or>
        evs w' \<lparr>Namespace = so_namespace ps, Name = pe_name e\<rparr> \<noteq> None))) \<and>
    (state \<in> {StatePromoting, StateVerified, StateFailed, StateAbortedByAlarm, StateRollingBack} \<and>
     assoc_str (so_labels ps) ''kardinal.io/pipeline'' \<noteq> '''' \<and> assoc_str (so_labels ps) ''kardinal.io/bundle'' \<noteq> '''' \<longrightarrow> entries \<noteq> [])"
proof -
  from transitionClosing_True [OF tr] obtain es0 st os st' ok where "auditEntries env ps state message auditAction = Inr es0"
    and cs0: "changed_status lib co env receipts ps state message es0 = Inr (st, os)"
    and fl: "flushAudit create (so_namespace ps) flushResult st w = (w', st', ok)" and stored: "stored = Some st'" by metis
  then have cs: "changed_status lib co env receipts ps state message entries = Inr (st, os)" using entries by simp
  obtain es where pend: "ps_pending st = enqueue_all lib co (ps_pending (so_status ps)) (entries @ es)" and es: "length es \<le> 1"
    using changed_status_pending(3) [OF cs] by blast
  have names: "\<exists>p \<in> set (ps_pending st). pe_name p = pe_name e" if "e \<in> set entries" "Validate lib e = []" for e
    using enqueue_all_names [of "ps_pending (so_status ps)" "entries @ es" lib co] room es that by (auto simp: pend)
  note f = flushAudit_spec [OF api fl]
  have each: "\<exists>p \<in> set (ps_pending st). pe_name p = pe_name e \<and>
      (p \<in> set (ps_pending st') \<or> p \<in> set (fl_dropped (Flush create (so_namespace ps) (ps_pending st) w)) \<or>
       evs w' \<lparr>Namespace = so_namespace ps, Name = pe_name e\<rparr> \<noteq> None)" if e: "e \<in> set entries" "Validate lib e = []" for e
  proof -
    obtain p where p: "p \<in> set (ps_pending st)" "pe_name p = pe_name e" using names [OF e] by blast
    then have "w' = fl_world (Flush create (so_namespace ps) (ps_pending st) w)" using f(3) by auto
    then show ?thesis using p f(2) Flush_written [OF api p(1), of "so_namespace ps" w] by (metis)
  qed
  have "entries \<noteq> []" if "state \<in> {StatePromoting, StateVerified, StateFailed, StateAbortedByAlarm, StateRollingBack}"
    "assoc_str (so_labels ps) ''kardinal.io/pipeline'' \<noteq> ''''" "assoc_str (so_labels ps) ''kardinal.io/bundle'' \<noteq> ''''"
    using that entries by (auto simp: auditEntries_def auditEntry_def Let_def split: sum.splits option.splits)
  then show ?thesis using stored each f(1) changed_status_pending(1) [OF cs] pend by blast
qed

definition demo_status :: "step_state \<Rightarrow> PromotionStepStatus" where
  "demo_status s = \<lparr>ps_state = s, ps_message = '''', ps_transitionTime = None, FrozenBy = None, ps_steps = [], RetryCount = 0,
     GitCredentialRetries = 0, ps_pending = [], PendingReceipt = None, Receipt = '''', ReceiptError = '''', PRURL = '''', Outputs = [],
     CurrentStepIndex = 0, NextRetryAt = None, ContendedRetries = 0, SCMWaitSince = None, ps_conditions = [], RenderRequestedAt = None\<rparr>"

definition demo_object :: "step_state \<Rightarrow> StepObject" where
  "demo_object s = \<lparr>so_namespace = ''ns'', so_name = ''b1-prod'',
     so_labels = [(''kardinal.io/pipeline'', ''p''), (''kardinal.io/bundle'', ''b1''), (''kardinal.io/environment'', ''prod'')],
     so_environment = ''prod'', so_bundleName = ''b1'', so_status = demo_status s\<rparr>"

definition demo_env :: transition_env where
  "demo_env = \<lparr>te_now = 5 * second, te_wall = 5 * second, te_fmt = (\<lambda>_. ''5''), te_who = None, te_bundle = BundleNotFound, te_adopted = ''''\<rparr>"

definition demo_started :: PendingAuditEvent where
  "demo_started = the (auditEntry (te_fmt demo_env) (demo_object StatePending) ''PromotionStarted'' ''Pending'' ''go'' (te_now demo_env) None)"

text \<open>A step starts, and its record is written: the API server then stores an event named after the step.\<close>

theorem transition_records_witness:
  "\<exists>w' ev st. transitionClosing plain_lib (\<lambda>_. None) demo_env None PatchOK (demo_status StatePending) (demo_object StatePending)
       StatePromoting ''go'' '''' [] demo_create PatchOK (\<lambda>_. None) = (Inr True, Some st, w', ev) \<and>
     ps_state st = StatePromoting \<and> w' \<lparr>Namespace = ''ns'', Name = ''b1-prod-started''\<rparr> \<noteq> None"
proof -
  let ?t = "transitionClosing plain_lib (\<lambda>_. None) demo_env None PatchOK (demo_status StatePending) (demo_object StatePending)
       StatePromoting ''go'' '''' [] demo_create PatchOK (\<lambda>_. None)"
  have e: "auditEntries demo_env (demo_object StatePending) StatePromoting ''go'' '''' = Inr [demo_started]"
    by (simp add: auditEntries_def demo_started_def auditEntry_def demo_env_def demo_object_def assoc_str_def Let_def)
  have n: "pe_name demo_started = ''b1-prod-started''" by code_simp
  have v: "Validate plain_lib demo_started = []" by code_simp
  obtain r stored w' ev where t: "?t = (r, stored, w', ev)" by (metis prod_cases4)
  have r: "r = Inr True"
  proof -
    have "fst ?t = Inr True"
      by (simp add: transitionClosing_def e patchState_def changed_status_def closeStepStatuses_def case_prod_beta Let_def)
        (simp add: demo_status_def)
    then show ?thesis using t by simp
  qed
  have room: "length (ps_pending (so_status (demo_object StatePending))) + length [demo_started] < MaxPendingAuditEvents"
    by (simp add: demo_object_def demo_status_def MaxPendingAuditEvents_def)
  have drop: "fl_dropped (Flush demo_create ns ps w) = []" for ns ps w
    by (induction ps arbitrary: w) (auto simp: demo_create_def Let_def split: create_result.splits)
  have rem: "fl_remaining (Flush demo_create ns ps w) = []" for ns ps w
    by (induction ps arbitrary: w) (auto simp: demo_create_def Let_def split: create_result.splits)
  from transition_records [OF demo_create_ok t [unfolded r] e room]
  obtain st where st: "stored = Some st" "ps_state st = StatePromoting"
    and p: "(\<exists>p. p \<in> set (ps_pending st)) \<or> w' \<lparr>Namespace = ''ns'', Name = ''b1-prod-started''\<rparr> \<noteq> None"
    by (auto simp: drop n v demo_object_def)
  have "ps_pending st = []"
  proof -
    from transitionClosing_True [OF t [unfolded r]] obtain st0 st1 ok where
      f: "flushAudit demo_create (so_namespace (demo_object StatePending)) PatchOK st0 (\<lambda>_. None) = (w', st1, ok)" and "stored = Some st1"
      by metis
    then have "st1 = st" using st(1) by simp
    then show ?thesis using f by (auto simp: flushAudit_def rem Let_def split: if_splits)
  qed
  then show ?thesis using p st t r by auto
qed

lemma patch_loop_written:
  assumes "patch_loop patch rd baseStatus i rv0 r = Written rv" "hist rv0 = baseStatus" "1 \<le> i" "i \<le> statusPatchTries" "r = patch (i - 1) rv0"
    and "\<And>i rv st. rd i = Inr (Some (rv, st)) \<Longrightarrow> st = hist rv"
  shows "hist rv = baseStatus \<and> (\<exists>i < statusPatchTries. patch i rv = PatchOK)"
  using assms
proof (induction patch rd baseStatus i rv0 r rule: patch_loop.induct)
  case (1 patch rd baseStatus i rv0 r)
  show ?case
  proof (cases "i < statusPatchTries \<and> r = PatchConflict")
    case False
    then have "r = PatchOK" "rv = rv0" using "1.prems"(1) by (auto simp: patch_loop.simps [of patch rd baseStatus i rv0 r] split: if_splits)
    moreover have "i - 1 < statusPatchTries" using "1.prems"(3,4) by linarith
    ultimately show ?thesis using "1.prems"(2,5) by metis
  next
    case True
    obtain rv' st where rd: "rd i = Inr (Some (rv', st))" "st = baseStatus"
      and loop: "patch_loop patch rd baseStatus (i + 1) rv' (patch i rv') = Written rv"
      using "1.prems"(1) True unfolding patch_loop.simps [of patch rd baseStatus i rv0 r]
      by (auto split: sum.splits option.splits if_splits)
    have h: "hist rv' = baseStatus" using "1.prems"(6) [OF rd(1)] rd(2) by simp
    show ?thesis
      by (rule "1.IH" [OF True rd(1) refl refl]) (use h rd(2) loop True "1.prems"(6) in auto)
  qed
qed

text \<open>No lost update. A status is written only over a version of the step whose status is the one the reconcile read: when
  the write succeeds, the version it was locked on has that status, even after the retries that follow a change of
  the spec or the metadata. Versions identify what is stored: \<open>hist rv\<close> is the status of version \<open>rv\<close>.\<close>

theorem patchStatusLocked_no_lost_update:
  assumes base: "hist baseRV = baseStatus"
    and reads: "\<And>i rv st. rd i = Inr (Some (rv, st)) \<Longrightarrow> st = hist rv"
    and written: "patchStatusLocked patch rd baseStatus baseRV = Written rv"
  shows "hist rv = baseStatus \<and> (\<exists>i < statusPatchTries. patch i rv = PatchOK)"
proof -
  have loop: "patch_loop patch rd baseStatus 1 baseRV (patch 0 baseRV) = Written rv"
    using written by (simp add: patchStatusLocked_def)
  show ?thesis
    by (rule patch_loop_written [OF loop]) (use base reads in \<open>auto simp: statusPatchTries_def\<close>)
qed

theorem patchStatusLocked_no_lost_update_witness:
  "patchStatusLocked (\<lambda>i rv. if rv = 8 then PatchOK else PatchConflict) (\<lambda>_. Inr (Some (8, ''s''))) ''s'' 7 = Written 8 \<and>
   (if (8::nat) = 8 then ''s'' else ''t'') = ''s''"
proof -
  have w: "patchStatusLocked (\<lambda>i rv. if rv = 8 then PatchOK else PatchConflict) (\<lambda>_. Inr (Some (8, ''s''))) ''s'' 7 = Written 8"
    by code_simp
  show ?thesis
    using patchStatusLocked_no_lost_update [where hist = "\<lambda>rv. if rv = 8 \<or> rv = 7 then ''s'' else ''t''", OF _ _ w] w by auto
qed

section \<open>Two records under one name\<close>

text \<open>\<open>slugifyAction\<close> has no name of its own for PRMerged and ReceiptFailed, so both records of a step are named
  \<open><step>-event\<close>. A step whose pull request was merged and whose receipt cannot be built therefore never writes its
  ReceiptFailed record: the API server answers that the event exists, which counts as written.\<close>

lemma merged_and_receipt_share_a_name:
  assumes "auditEntry fmt ps ''PRMerged'' o1 m1 t1 w1 = Some e1" "auditEntry fmt ps ''ReceiptFailed'' o2 m2 t2 w2 = Some e2"
  shows "pe_name e1 = pe_name e2 \<and> ev_action (pe_spec e1) = ''PRMerged'' \<and> ev_action (pe_spec e2) = ''ReceiptFailed''"
  using assms by (auto simp: auditEntry_def Entry_def slugifyAction_def Let_def split: if_splits)

definition merged_event :: PendingAuditEvent where
  "merged_event = the (auditEntry (te_fmt demo_env) (demo_object StateWaitingForMerge) ''PRMerged'' ''Success'' ''PR #1 merged'' 1 None)"

definition receipt_event :: PendingAuditEvent where
  "receipt_event = the (auditEntry (te_fmt demo_env) (demo_object StateVerifying) ''ReceiptFailed'' ''Failure'' ''no promotion receipt: e'' 2 None)"

lemma receipt_record_lost:
  "let w = fl_world (Flush demo_create ''ns'' [merged_event] (\<lambda>_. None)); r = Flush demo_create ''ns'' [receipt_event] w in
   fl_remaining r = [] \<and> fl_errors r = [] \<and>
   map_option (\<lambda>e. ev_action (ae_spec e)) (fl_world r \<lparr>Namespace = ''ns'', Name = ''b1-prod-event''\<rparr>) = Some ''PRMerged''"
  by code_simp

end
