(* ===== verification/Gate_Overrides.thy ===== *)
theory Gate_Overrides
  imports Approvals Verdicts Step_Transition
begin

text \<open>
  A PolicyGate instance, its audit outbox (\<open>pkg/reconciler/policygate/audit.go\<close>) and its overrides
  (\<open>pkg/reconciler/policygate/overrides.go\<close>): break-glass entries that people write to \<open>spec.overrides\<close>, which count from when the
  controller first saw them, for a bounded time.

  A reconcile works on a copy of the gate it read (\<open>run_gate\<close>); a status patch carries the version of that copy, so it either
  stores the copy (\<open>run_stored\<close>) or fails and stores nothing. The API server, SHA-256, the formatting of times and the conditions of
  apimachinery are arguments. \<open>override_step\<close> is the history of a gate: anyone edits the entries, and the controller records
  them. The theorem on it is the cap: no edit makes an override count longer. The API server keeps a \<open>metav1.Time\<close> to the second;
  the model keeps \<open>firstSeen\<close> as it was written, which is later by less than a second.
\<close>

section \<open>The gate\<close>

record PolicyGateOverride =
  ov_reason :: string
  ov_stage :: string
  ov_expiresAt :: time
  ov_createdAt :: "time option"
  ov_createdBy :: string
  ov_actor :: "Actor option"

record OverrideRecord =
  or_key :: string
  FirstSeen :: time
  Verified :: bool
  Audited :: bool

record GateCondition =
  gc_type :: string
  gc_status :: bool
  gc_reason :: string
  gc_message :: string
  gc_generation :: int
  gc_transition :: time

text \<open>A recorded decision comes with when the gate first saw it.\<close>

record GateStatus =
  Ready :: bool
  gs_reason :: string
  BundleVersion :: string
  gs_lastEvaluatedAt :: "time option"
  gs_conditions :: "GateCondition list"
  gs_pending :: "PendingAuditEvent list"
  gs_approvals :: "(GateApprovalStatus \<times> time option) list"
  gs_verdicts :: "GateVerdictStatus list"
  ApprovalRequired :: "bool option"
  gs_overrides :: "OverrideRecord list"
  OverridesVerifiedSince :: "time option"

record GateInstance =
  pg_namespace :: string
  pg_name :: string
  pg_labels :: "(string \<times> string) list"
  pg_generation :: int
  pg_expression :: string
  pg_message :: string
  RecheckInterval :: string
  pg_approval :: "GateApprovalPolicy option"
  RequiredWhen :: string
  pg_approvals :: "GateApproval list"
  pg_verify :: "GateVerifyPolicy option"
  pg_verdicts :: "GateVerdict list"
  pg_overrides :: "PolicyGateOverride list"
  pg_status :: GateStatus

record gate_lib =
  sha256_hex :: "string \<Rightarrow> string"
  gl_rfc3339 :: "time \<Rightarrow> string"
  gl_rfc3339nano :: "time \<Rightarrow> string"
  gl_minutes :: "time \<Rightarrow> string"
  gl_unixMilli :: "time \<Rightarrow> int"
  gl_find :: "GateCondition list \<Rightarrow> string \<Rightarrow> GateCondition option"
  gl_set :: "GateCondition list \<Rightarrow> GateCondition \<Rightarrow> GateCondition list"
  gl_validation :: validation_lib
  gl_coalescers :: coalescers

datatype patch_out = PatchOK | PatchConflict | PatchNotFound | PatchFailed string

record 'w gate_api =
  api_patch :: "GateInstance \<Rightarrow> 'w \<Rightarrow> patch_out \<times> 'w"
  api_create :: "'w create_call"

record 'w gate_run =
  run_stored :: GateInstance
  run_gate :: GateInstance
  run_world :: 'w

text \<open>The status patch of the copy, and a change of the copy's status.\<close>

definition patch_status :: "'w gate_api \<Rightarrow> 'w gate_run \<Rightarrow> patch_out \<times> 'w gate_run" where
  "patch_status api s =
     (case api_patch api (run_gate s) (run_world s) of
        (out, w) \<Rightarrow> (out, (if out = PatchOK then s\<lparr>run_stored := run_gate s, run_world := w\<rparr> else s\<lparr>run_world := w\<rparr>)))"

definition set_status :: "(GateStatus \<Rightarrow> GateStatus) \<Rightarrow> 'w gate_run \<Rightarrow> 'w gate_run" where
  "set_status f s = s\<lparr>run_gate := (run_gate s)\<lparr>pg_status := f (pg_status (run_gate s))\<rparr>\<rparr>"

definition gate_label :: "GateInstance \<Rightarrow> string \<Rightarrow> string" where
  "gate_label g k = assoc_str (pg_labels g) k"

definition labelPipeline :: string where "labelPipeline = ''kardinal.io/pipeline''"
definition labelBundle :: string where "labelBundle = ''kardinal.io/bundle''"
definition labelEnvironment :: string where "labelEnvironment = ''kardinal.io/environment''"

section \<open>Audit records\<close>

definition maxObjectNameLength :: nat where "maxObjectNameLength = 253"

definition sanitizeGateName :: "string \<Rightarrow> string" where
  "sanitizeGateName s =
     (let trim = dropWhile (\<lambda>c. c = CHR ''-'') in rev (trim (rev (trim (map name_char (take maxObjectNameLength s))))))"

definition gateAuditLabels :: "(string \<times> string) list \<Rightarrow> string \<Rightarrow> (string \<times> string) list" where
  "gateAuditLabels labels action =
     [(labelPipeline, assoc_str labels labelPipeline), (labelBundle, assoc_str labels labelBundle),
      (labelEnvironment, assoc_str labels labelEnvironment), (''kardinal.io/action'', action)] @
     (if assoc_str labels ''kardinal.io/gate-name'' \<noteq> '''' then [(''kardinal.io/gate'', assoc_str labels ''kardinal.io/gate-name'')]
      else if assoc_str labels ''kardinal.io/gate-template'' \<noteq> '''' then [(''kardinal.io/gate'', assoc_str labels ''kardinal.io/gate-template'')]
      else [])"

definition gate_event :: "GateInstance \<Rightarrow> string \<Rightarrow> string \<Rightarrow> string \<Rightarrow> Actor option \<Rightarrow> AuditEventSpec" where
  "gate_event g action outcome msg who =
     \<lparr>ev_timestamp = 0, ev_bundle = gate_label g labelBundle, ev_pipeline = gate_label g labelPipeline,
      ev_environment = gate_label g labelEnvironment, ev_action = action, ev_outcome = outcome, ev_message = msg, ev_actor = who, ev_merged = 0\<rparr>"

definition gateAuditEntry :: "gate_lib \<Rightarrow> GateInstance \<Rightarrow> string \<Rightarrow> string \<Rightarrow> time \<Rightarrow> PendingAuditEvent option" where
  "gateAuditEntry lib g outcome reason at =
     (if gate_label g labelPipeline = '''' \<or> gate_label g labelBundle = '''' then None
      else let suffix = ''-gate-'' @ to_lower outcome @ ''-'' @ int_str (gl_unixMilli lib at);
               base = take (maxObjectNameLength - length suffix) (pg_name g)
           in Some (Entry (gl_rfc3339nano lib) (sanitizeGateName (base @ suffix)) (gateAuditLabels (pg_labels g) ''GateEvaluated'')
                      (gate_event g ''GateEvaluated'' outcome reason None) at))"

definition gate_enqueue :: "gate_lib \<Rightarrow> PendingAuditEvent list \<Rightarrow> PendingAuditEvent \<Rightarrow> PendingAuditEvent list" where
  "gate_enqueue lib ps e = ob_pending (Enqueue (gl_validation lib) (gl_coalescers lib) ps e)"

text \<open>\<open>flushAudit\<close>: whether it returns an error.\<close>

definition gate_flushAudit :: "'w gate_api \<Rightarrow> 'w gate_run \<Rightarrow> bool \<times> 'w gate_run" where
  "gate_flushAudit api s =
     (let pending = gs_pending (pg_status (run_gate s)) in
      if pending = [] then (False, s)
      else let f = Flush (api_create api) (pg_namespace (run_gate s)) pending (run_world s);
               s1 = s\<lparr>run_world := fl_world f\<rparr>; failed = (fl_errors f \<noteq> [])
           in if length (fl_remaining f) = length pending then (failed, s1)
              else (case patch_status api (set_status (\<lambda>st. st\<lparr>gs_pending := fl_remaining f\<rparr>) s1) of
                      (out, s2) \<Rightarrow>
                        if out = PatchOK \<or> out = PatchNotFound then (failed, s2) else (True, set_status (\<lambda>st. st\<lparr>gs_pending := pending\<rparr>) s2)))"

section \<open>Overrides\<close>

definition overrideClockSkew :: duration where "overrideClockSkew = 5 * minute"
definition maxOverrideRecords :: nat where "maxOverrideRecords = 200"
definition DefaultMaxOverride :: duration where "DefaultMaxOverride = 24 * 60 * minute"

definition maxOverride :: "duration \<Rightarrow> duration" where
  "maxOverride configured = (if 0 < configured then configured else DefaultMaxOverride)"

definition overrideKey :: "gate_lib \<Rightarrow> PolicyGateOverride \<Rightarrow> string" where
  "overrideKey lib ov =
     (let z = [CHR 0x00]; created = (case ov_createdAt ov of None \<Rightarrow> '''' | Some t \<Rightarrow> gl_rfc3339nano lib t)
      in take 12 (sha256_hex lib (ov_createdBy ov @ z @ created @ z @ ov_stage ov @ z @ gl_rfc3339nano lib (ov_expiresAt ov) @ z @ ov_reason ov)))"

definition overrideRecords :: "OverrideRecord list \<Rightarrow> string \<Rightarrow> OverrideRecord option" where
  "overrideRecords rs = map_of (rev (map (\<lambda>r. (or_key r, r)) rs))"

definition futureDated :: "PolicyGateOverride \<Rightarrow> time \<Rightarrow> bool" where
  "futureDated ov firstSeen = (case ov_createdAt ov of None \<Rightarrow> False | Some t \<Rightarrow> firstSeen + overrideClockSkew < t)"

definition overrideEnd :: "PolicyGateOverride \<Rightarrow> time \<Rightarrow> duration \<Rightarrow> time" where
  "overrideEnd ov firstSeen maxO =
     (if 0 < maxO \<and> firstSeen + maxO < ov_expiresAt ov then firstSeen + maxO else ov_expiresAt ov)"

definition agentOverride :: "PolicyGateOverride \<Rightarrow> bool" where
  "agentOverride ov = (case ov_actor ov of None \<Rightarrow> False | Some a \<Rightarrow> Kind a = ActorAgent)"

record activeOverride =
  ao_override :: PolicyGateOverride
  ao_record :: OverrideRecord
  ao_end :: time

definition override_reason :: "gate_lib \<Rightarrow> activeOverride \<Rightarrow> string" where
  "override_reason lib a =
     ''OVERRIDDEN by '' @ ov_createdBy (ao_override a) @ (if Verified (ao_record a) then '''' else '' (unverified)'') @ '': '' @
     ov_reason (ao_override a) @ '' (expires '' @ gl_minutes lib (ao_end a) @ '')''"

fun active_among ::
  "gate_lib \<Rightarrow> (string \<Rightarrow> OverrideRecord option) \<Rightarrow> string \<Rightarrow> time \<Rightarrow> duration \<Rightarrow> PolicyGateOverride list \<Rightarrow> activeOverride option" where
  "active_among lib rmap env now maxO [] = None"
| "active_among lib rmap env now maxO (ov # ovs) =
     (case rmap (overrideKey lib ov) of
        None \<Rightarrow> active_among lib rmap env now maxO ovs
      | Some r \<Rightarrow>
          if ov_expiresAt ov = 0 \<or> futureDated ov (FirstSeen r) then active_among lib rmap env now maxO ovs
          else if agentOverride ov then active_among lib rmap env now maxO ovs
          else if overrideEnd ov (FirstSeen r) maxO \<le> now then active_among lib rmap env now maxO ovs
          else if ov_stage ov = '''' \<or> ov_stage ov = env
          then Some \<lparr>ao_override = ov, ao_record = r, ao_end = overrideEnd ov (FirstSeen r) maxO\<rparr>
          else active_among lib rmap env now maxO ovs)"

definition findActiveOverride :: "gate_lib \<Rightarrow> GateInstance \<Rightarrow> string \<Rightarrow> time \<Rightarrow> duration \<Rightarrow> activeOverride option" where
  "findActiveOverride lib g env now maxO = active_among lib (overrideRecords (gs_overrides (pg_status g))) env now maxO (pg_overrides g)"

definition OverrideVerified :: "gate_lib \<Rightarrow> GateInstance \<Rightarrow> PolicyGateOverride \<Rightarrow> bool" where
  "OverrideVerified lib g ov =
     (case overrideRecords (gs_overrides (pg_status g)) (overrideKey lib ov) of None \<Rightarrow> False | Some r \<Rightarrow> Verified r)"

definition stampVerifiedSince :: "time \<Rightarrow> GateStatus \<Rightarrow> GateStatus" where
  "stampVerifiedSince now st =
     (if OverridesVerifiedSince st = None then st\<lparr>OverridesVerifiedSince := Some now\<rparr> else st)"

text \<open>The loop of \<open>recordOverrides\<close>: the records by key, the records to store, and the entries that are not counted.\<close>

record override_loop =
  ol_records :: "string \<Rightarrow> OverrideRecord option"
  ol_next :: "OverrideRecord list"
  ol_ignored :: "string list"

definition judge_override :: "gate_lib \<Rightarrow> PolicyGateOverride \<Rightarrow> OverrideRecord \<Rightarrow> override_loop \<Rightarrow> override_loop" where
  "judge_override lib ov r s =
     s\<lparr>ol_ignored := ol_ignored s @
        (if agentOverride ov
         then [quote (ov_reason ov) @ '' by agent '' @ Agent (the (ov_actor ov)) @ '': overrides by agents are not honoured''] else []) @
        (if futureDated ov (FirstSeen r)
         then [quote (ov_reason ov) @ '' by '' @ ov_createdBy ov @ '' created '' @ gl_rfc3339 lib (the (ov_createdAt ov)) @
               '', more than 5m0s after the controller first saw it''] else [])\<rparr>"

definition see_override :: "gate_lib \<Rightarrow> bool \<Rightarrow> time \<Rightarrow> override_loop \<Rightarrow> PolicyGateOverride \<Rightarrow> override_loop" where
  "see_override lib verified now s ov =
     (let key = overrideKey lib ov in
      case ol_records s key of
        Some r \<Rightarrow> judge_override lib ov r s
      | None \<Rightarrow>
          if maxOverrideRecords \<le> length (ol_next s)
          then s\<lparr>ol_ignored := ol_ignored s @ [quote (ov_reason ov) @ '' by '' @ ov_createdBy ov @ '': more than '' @
                   nat_str maxOverrideRecords @ '' overrides recorded on this gate'']\<rparr>
          else let r = \<lparr>or_key = key, FirstSeen = now, Verified = verified, Audited = False\<rparr>
               in judge_override lib ov r (s\<lparr>ol_records := (ol_records s)(key \<mapsto> r), ol_next := ol_next s @ [r]\<rparr>))"

definition truncateMessage :: "string \<Rightarrow> string" where
  "truncateMessage msg = (if length msg \<le> 1024 then msg else take (rune_cut msg 1024) msg)"

definition conditionOverrideIgnored :: string where "conditionOverrideIgnored = ''OverrideIgnored''"

definition ignored_condition :: "GateInstance \<Rightarrow> time \<Rightarrow> string list \<Rightarrow> GateCondition" where
  "ignored_condition g now ignored =
     (if ignored = []
      then \<lparr>gc_type = conditionOverrideIgnored, gc_status = False, gc_reason = ''NoneIgnored'',
            gc_message = ''every override counts from when the controller first saw it'', gc_generation = pg_generation g, gc_transition = now\<rparr>
      else \<lparr>gc_type = conditionOverrideIgnored, gc_status = True, gc_reason = ''NotCounted'',
            gc_message = truncateMessage (nat_str (length ignored) @ '' override(s) not counted: '' @ join ''; '' ignored),
            gc_generation = pg_generation g, gc_transition = now\<rparr>)"

definition overrideAuditEntry :: "gate_lib \<Rightarrow> duration \<Rightarrow> GateInstance \<Rightarrow> PolicyGateOverride \<Rightarrow> OverrideRecord \<Rightarrow> PendingAuditEvent option" where
  "overrideAuditEntry lib configured g ov r =
     (if gate_label g labelPipeline = '''' \<or> gate_label g labelBundle = '''' \<or> gate_label g labelEnvironment = '''' then None
      else
        let stage = (if ov_stage ov = '''' then ''every stage'' else ov_stage ov);
            by0 = (if ov_createdBy ov = '''' then ''(unknown)'' else ov_createdBy ov);
            by1 = (if Verified r then (case ov_actor ov of None \<Rightarrow> by0 | Some a \<Rightarrow> Describe a)
                   else by0 @ '' (unverified: the identity admission policy did not check it)'');
            who = (if Verified r then ov_actor ov else None);
            msg = (if agentOverride ov
                   then ''override of gate '' @ pg_name g @ '' by '' @ by1 @ '' not honoured: overrides by agents are not honoured: '' @ ov_reason ov
                   else ''gate '' @ pg_name g @ '' overridden by '' @ by1 @ '' for '' @ stage @ '' until '' @
                        gl_rfc3339 lib (overrideEnd ov (FirstSeen r) (maxOverride configured)) @ '': '' @ ov_reason ov);
            suffix = ''-override-'' @ or_key r;
            base = take (maxObjectNameLength - length suffix) (pg_name g)
        in Some (Entry (gl_rfc3339nano lib) (sanitizeGateName (base @ suffix)) (gateAuditLabels (pg_labels g) ''GateOverridden'')
             (gate_event g ''GateOverridden'' (if agentOverride ov then ''Failure'' else ''Success'') msg who) (FirstSeen r)))"

text \<open>The recorded, unaudited overrides, each key once.\<close>

fun to_audit ::
  "gate_lib \<Rightarrow> (string \<Rightarrow> OverrideRecord option) \<Rightarrow> string list \<Rightarrow> PolicyGateOverride list \<Rightarrow> (PolicyGateOverride \<times> OverrideRecord) list" where
  "to_audit lib rmap seen [] = []"
| "to_audit lib rmap seen (ov # ovs) =
     (case rmap (overrideKey lib ov) of
        None \<Rightarrow> to_audit lib rmap seen ovs
      | Some r \<Rightarrow>
          if Audited r \<or> overrideKey lib ov \<in> set seen then to_audit lib rmap seen ovs
          else (ov, r) # to_audit lib rmap (overrideKey lib ov # seen) ovs)"

definition mark :: "string list \<Rightarrow> OverrideRecord list \<Rightarrow> OverrideRecord list" where
  "mark keys rs = map (\<lambda>r. if or_key r \<in> set keys then r\<lparr>Audited := True\<rparr> else r) rs"

text \<open>\<open>auditRecordedOverrides\<close>, \<open>recordOverrides\<close>: the patch that failed, if any.\<close>

definition auditRecordedOverrides :: "'w gate_api \<Rightarrow> gate_lib \<Rightarrow> duration \<Rightarrow> 'w gate_run \<Rightarrow> patch_out \<times> 'w gate_run" where
  "auditRecordedOverrides api lib configured s =
     (let g = run_gate s; todo = to_audit lib (overrideRecords (gs_overrides (pg_status g))) [] (pg_overrides g);
          keys = map (\<lambda>p. overrideKey lib (fst p)) todo;
          entries = List.map_filter (\<lambda>p. overrideAuditEntry lib configured g (fst p) (snd p)) todo
      in if todo = [] then (PatchOK, s)
         else (case patch_status api (set_status (\<lambda>st.
                   st\<lparr>gs_overrides := mark keys (gs_overrides st),
                      gs_pending := foldl (gate_enqueue lib) (gs_pending st) entries\<rparr>) s) of
                 (PatchOK, s1) \<Rightarrow> (PatchOK, snd (gate_flushAudit api s1))
               | (e, s1) \<Rightarrow> (e, s1)))"

definition recordOverrides :: "'w gate_api \<Rightarrow> gate_lib \<Rightarrow> duration \<Rightarrow> bool \<Rightarrow> time \<Rightarrow> 'w gate_run \<Rightarrow> patch_out \<times> 'w gate_run" where
  "recordOverrides api lib configured policyActive now s =
     (let g = run_gate s; st = pg_status g;
          verified = (policyActive \<and> (OverridesVerifiedSince st \<noteq> None \<or> gs_lastEvaluatedAt st = None));
          l = foldl (see_override lib verified now)
                \<lparr>ol_records = overrideRecords (gs_overrides st), ol_next = gs_overrides st, ol_ignored = []\<rparr> (pg_overrides g);
          cond = ignored_condition g now (ol_ignored l);
          prev = gl_find lib (gs_conditions st) conditionOverrideIgnored;
          condChanged = ((pg_overrides g \<noteq> [] \<or> prev \<noteq> None) \<and>
             (case prev of None \<Rightarrow> True
              | Some c \<Rightarrow> gc_status c \<noteq> gc_status cond \<or> gc_reason c \<noteq> gc_reason cond \<or> gc_message c \<noteq> gc_message cond));
          stamp = (OverridesVerifiedSince st = None \<and> gs_lastEvaluatedAt st \<noteq> None)
      in if length (ol_next l) \<noteq> length (gs_overrides st) \<or> condChanged \<or> stamp
         then (case patch_status api (set_status (\<lambda>st. stampVerifiedSince now (st\<lparr>gs_overrides := ol_next l,
                      gs_conditions := (if condChanged then gl_set lib (gs_conditions st) cond else gs_conditions st)\<rparr>)) s) of
                 (PatchOK, s1) \<Rightarrow> auditRecordedOverrides api lib configured s1
               | (e, s1) \<Rightarrow> (e, s1))
         else auditRecordedOverrides api lib configured s)"

section \<open>The history of a gate\<close>

definition read_gate :: "GateInstance \<Rightarrow> 'w \<Rightarrow> 'w gate_run" where
  "read_gate g w = \<lparr>run_stored = g, run_gate = g, run_world = w\<rparr>"

text \<open>Anyone edits the entries, however they like; the controller records them, and what it stores depends on the API server.\<close>

inductive override_step :: "'w gate_api \<Rightarrow> gate_lib \<Rightarrow> GateInstance \<Rightarrow> GateInstance \<Rightarrow> bool" for api lib where
  edit: "override_step api lib g (g\<lparr>pg_overrides := ovs, pg_generation := n\<rparr>)"
| seen: "override_step api lib g (run_stored (snd (recordOverrides api lib configured policyActive now (read_gate g w))))"

definition recorded :: "string \<Rightarrow> time \<Rightarrow> GateInstance \<Rightarrow> bool" where
  "recorded key t g = (\<exists>r. overrideRecords (gs_overrides (pg_status g)) key = Some r \<and> FirstSeen r = t)"

section \<open>Lemmas\<close>

lemma overrideRecords_snoc [simp]: "overrideRecords (rs @ [r]) = (overrideRecords rs)(or_key r \<mapsto> r)"
  by (simp add: overrideRecords_def)

lemma overrideRecords_mark:
  "map_option FirstSeen (overrideRecords (mark keys rs) k) = map_option FirstSeen (overrideRecords rs k)"
proof (induction rs rule: rev_induct)
  case (snoc r rs)
  have "mark keys (rs @ [r]) = mark keys rs @ [if or_key r \<in> set keys then r\<lparr>Audited := True\<rparr> else r]"
    by (simp add: mark_def)
  then show ?case using snoc by simp
qed (simp add: mark_def overrideRecords_def)

lemma judge_override_next [simp]:
  "ol_records (judge_override lib ov r s) = ol_records s" "ol_next (judge_override lib ov r s) = ol_next s"
  by (simp_all add: judge_override_def)

lemma see_override_step:
  assumes "ol_records s = overrideRecords (ol_next s)"
  shows "ol_records (see_override lib v now s ov) = overrideRecords (ol_next (see_override lib v now s ov))"
    and "ol_next (see_override lib v now s ov) = ol_next s \<or>
         (\<exists>r. ol_next (see_override lib v now s ov) = ol_next s @ [r] \<and> FirstSeen r = now \<and> overrideRecords (ol_next s) (or_key r) = None \<and>
              length (ol_next s) < maxOverrideRecords)"
  using assms by (auto simp: see_override_def Let_def split: option.splits)

text \<open>A property of the records that new records of an unknown key keep holds after the loop.\<close>

lemma see_overrides:
  assumes "\<And>rs r. Q rs \<Longrightarrow> FirstSeen r = now \<Longrightarrow> overrideRecords rs (or_key r) = None \<Longrightarrow> length rs < maxOverrideRecords \<Longrightarrow> Q (rs @ [r])"
    and "ol_records s = overrideRecords (ol_next s)" "Q (ol_next s)"
  shows "Q (ol_next (foldl (see_override lib v now) s ovs))"
  using assms(2,3)
proof (induction ovs arbitrary: s)
  case (Cons ov ovs)
  let ?s = "see_override lib v now s ov"
  have "Q (ol_next ?s)"
    using see_override_step(2) [OF Cons.prems(1), of lib v now ov] Cons.prems(2) assms(1) by auto
  then show ?case
    using Cons.IH [of ?s] see_override_step(1) [OF Cons.prems(1)] by simp
qed simp

text \<open>A property of a gate that reads its spec, its records and its readiness only, and that an audited mark and a new record keep, holds
  of the stored gate and of the copy throughout a recording.\<close>

locale gate_property =
  fixes P :: "GateInstance \<Rightarrow> bool" and now :: time
  assumes other: "P g \<Longrightarrow> gs_overrides st = gs_overrides (pg_status g) \<Longrightarrow> Ready st = Ready (pg_status g) \<Longrightarrow> P (g\<lparr>pg_status := st\<rparr>)"
    and marked: "P g \<Longrightarrow> P (g\<lparr>pg_status := (pg_status g)\<lparr>gs_overrides := mark keys (gs_overrides (pg_status g))\<rparr>\<rparr>)"
    and added: "P g \<Longrightarrow> FirstSeen r = now \<Longrightarrow> overrideRecords (gs_overrides (pg_status g)) (or_key r) = None \<Longrightarrow>
      length (gs_overrides (pg_status g)) < maxOverrideRecords \<Longrightarrow>
      P (g\<lparr>pg_status := (pg_status g)\<lparr>gs_overrides := gs_overrides (pg_status g) @ [r]\<rparr>\<rparr>)"
begin

definition everywhere :: "'w gate_run \<Rightarrow> bool" where
  "everywhere s = (P (run_stored s) \<and> P (run_gate s))"

lemma patched: "everywhere s \<Longrightarrow> everywhere (snd (patch_status api s))"
  by (auto simp: everywhere_def patch_status_def split: prod.splits)

lemma set_to: "everywhere s \<Longrightarrow> P ((run_gate s)\<lparr>pg_status := f (pg_status (run_gate s))\<rparr>) \<Longrightarrow> everywhere (set_status f s)"
  by (simp add: everywhere_def set_status_def)

lemma set_other:
  "everywhere s \<Longrightarrow> gs_overrides (f (pg_status (run_gate s))) = gs_overrides (pg_status (run_gate s)) \<Longrightarrow>
     Ready (f (pg_status (run_gate s))) = Ready (pg_status (run_gate s)) \<Longrightarrow> everywhere (set_status f s)"
  by (rule set_to, assumption, rule other) (auto simp: everywhere_def)

lemma world [simp]: "everywhere (s\<lparr>run_world := w\<rparr>) = everywhere s"
  by (simp add: everywhere_def)

lemma flushed:
  assumes "everywhere s"
  shows "everywhere (snd (gate_flushAudit api s))"
proof -
  let ?f = "Flush (api_create api) (pg_namespace (run_gate s)) (gs_pending (pg_status (run_gate s))) (run_world s)"
  let ?s = "set_status (\<lambda>st. st\<lparr>gs_pending := fl_remaining ?f\<rparr>) (s\<lparr>run_world := fl_world ?f\<rparr>)"
  have p: "everywhere (snd (patch_status api ?s))"
    using assms by (intro patched set_other) simp_all
  then have "everywhere (set_status (\<lambda>st. st\<lparr>gs_pending := ps\<rparr>) (snd (patch_status api ?s)))" for ps
    by (intro set_other) simp_all
  with p assms show ?thesis
    by (auto simp: gate_flushAudit_def Let_def split: prod.splits)
qed

lemma either: "everywhere (snd a) \<Longrightarrow> everywhere (snd b) \<Longrightarrow> everywhere (snd (if c then a else b))"
  by simp

lemma when_patched:
  assumes "everywhere (snd p)" "\<And>s. everywhere s \<Longrightarrow> everywhere (snd (k s))"
  shows "everywhere (snd (case p of (PatchOK, s1) \<Rightarrow> k s1 | (e, s1) \<Rightarrow> (e, s1)))"
  using assms by (cases p; cases "fst p") simp_all

lemma audited:
  assumes "everywhere s"
  shows "everywhere (snd (auditRecordedOverrides api lib configured s))"
proof -
  let ?g = "run_gate s"
  have "P (?g\<lparr>pg_status := (pg_status ?g)\<lparr>gs_overrides := mark keys (gs_overrides (pg_status ?g)), gs_pending := ps\<rparr>\<rparr>)" for keys ps
    using other [OF marked [of ?g keys], of "(pg_status ?g)\<lparr>gs_overrides := mark keys (gs_overrides (pg_status ?g)), gs_pending := ps\<rparr>"] assms
    by (simp add: everywhere_def)
  then have "everywhere (snd (patch_status api (set_status (\<lambda>st.
      st\<lparr>gs_overrides := mark keys (gs_overrides st), gs_pending := ps st\<rparr>) s)))" for keys ps
    using assms by (intro patched set_to)
  then have "everywhere (snd (case patch_status api (set_status (\<lambda>st.
      st\<lparr>gs_overrides := mark keys (gs_overrides st), gs_pending := ps st\<rparr>) s) of
        (PatchOK, s1) \<Rightarrow> (PatchOK, snd (gate_flushAudit api s1)) | (e, s1) \<Rightarrow> (e, s1)))" for keys ps
    by (rule when_patched) (simp add: flushed)
  with assms show ?thesis
    unfolding auditRecordedOverrides_def Let_def by (split if_split) simp
qed

lemma all_seen:
  assumes "everywhere s"
  shows "P ((run_gate s)\<lparr>pg_status := (pg_status (run_gate s))\<lparr>gs_overrides := ol_next (foldl (see_override lib v now)
      \<lparr>ol_records = overrideRecords (gs_overrides (pg_status (run_gate s))), ol_next = gs_overrides (pg_status (run_gate s)), ol_ignored = []\<rparr> ovs)\<rparr>\<rparr>)"
proof (rule see_overrides [where Q = "\<lambda>rs. P ((run_gate s)\<lparr>pg_status := (pg_status (run_gate s))\<lparr>gs_overrides := rs\<rparr>\<rparr>)"], goal_cases)
  case (1 rs r)
  then show ?case
    using added [of "(run_gate s)\<lparr>pg_status := (pg_status (run_gate s))\<lparr>gs_overrides := rs\<rparr>\<rparr>" r] by simp
qed (use assms in \<open>simp_all add: everywhere_def\<close>)

lemma recording:
  assumes "everywhere s"
  shows "everywhere (snd (recordOverrides api lib configured policyActive now s))"
proof -
  let ?st = "pg_status (run_gate s)"
  let ?next = "\<lambda>v ovs. ol_next (foldl (see_override lib v now)
      \<lparr>ol_records = overrideRecords (gs_overrides ?st), ol_next = gs_overrides ?st, ol_ignored = []\<rparr> ovs)"
  have "P ((run_gate s)\<lparr>pg_status := stampVerifiedSince now (?st\<lparr>gs_overrides := ?next v ovs, gs_conditions := c\<rparr>)\<rparr>)" for v ovs c
    using other [OF all_seen [OF assms, of lib v ovs], of "stampVerifiedSince now (?st\<lparr>gs_overrides := ?next v ovs, gs_conditions := c\<rparr>)"]
    by (simp add: stampVerifiedSince_def)
  then have "everywhere (snd (patch_status api (set_status (\<lambda>st. stampVerifiedSince now
      (st\<lparr>gs_overrides := ?next v ovs, gs_conditions := c st\<rparr>)) s)))" for v ovs c
    using assms by (intro patched set_to)
  then have "everywhere (snd (case patch_status api (set_status (\<lambda>st. stampVerifiedSince now
      (st\<lparr>gs_overrides := ?next v ovs, gs_conditions := c st\<rparr>)) s) of
        (PatchOK, s1) \<Rightarrow> auditRecordedOverrides api lib configured s1 | (e, s1) \<Rightarrow> (e, s1)))" for v ovs c
    by (rule when_patched) (rule audited)
  moreover have "everywhere (snd (auditRecordedOverrides api lib configured s))"
    by (rule audited [OF assms])
  ultimately show ?thesis
    unfolding recordOverrides_def Let_def by (rule either)
qed

lemma recorded_read: "P g \<Longrightarrow> P (run_stored (snd (recordOverrides api lib configured policyActive now (read_gate g w))))"
  using recording [of "read_gate g w" api lib configured policyActive] by (simp add: everywhere_def read_gate_def)

end

lemma recorded_iff: "recorded key t g \<longleftrightarrow> map_option FirstSeen (overrideRecords (gs_overrides (pg_status g)) key) = Some t"
  by (auto simp: recorded_def)

text \<open>A record keeps the time it was made; a key without one gets the time of the evaluation; there are never more than the limit.\<close>

interpretation keeps: gate_property "recorded key t" now for key t now
  by unfold_locales (auto simp: recorded_iff overrideRecords_mark)

interpretation first_seen: gate_property "\<lambda>g. \<forall>t. recorded key t g \<longrightarrow> t = now" now for key now
  by unfold_locales (auto simp: recorded_iff overrideRecords_mark split: if_splits)

interpretation limit: gate_property "\<lambda>g. length (gs_overrides (pg_status g)) \<le> maxOverrideRecords" now for now
  by unfold_locales (auto simp: mark_def)

lemma record_first_seen:
  assumes "\<not> (\<exists>t. recorded key t g)" "recorded key t (run_stored (snd (recordOverrides api lib configured policyActive now (read_gate g w))))"
  shows "t = now"
  using first_seen.recorded_read [where g = g and key = key and now = now and api = api and lib = lib and configured = configured and policyActive = policyActive and w = w] assms
  by blast

lemma recorded_edit [simp]: "recorded key t (g\<lparr>pg_overrides := ovs, pg_generation := n\<rparr>) = recorded key t g"
  by (simp add: recorded_def)

inductive_cases override_stepE: "override_step api lib g g'"

interpretation overrides: step_system "recorded key t" "override_step api lib" "recorded key t" for key t api lib
  by unfold_locales (auto elim!: override_stepE intro: keeps.recorded_read)

interpretation override_limit: step_system "\<lambda>g. gs_overrides (pg_status g) = []" "override_step api lib"
    "\<lambda>g. length (gs_overrides (pg_status g)) \<le> maxOverrideRecords" for api lib
  by unfold_locales (auto elim!: override_stepE intro: limit.recorded_read)

lemma active_among_spec:
  assumes "active_among lib rmap env now maxO ovs = Some a"
  shows "ao_override a \<in> set ovs" "rmap (overrideKey lib (ao_override a)) = Some (ao_record a)"
    and "\<not> agentOverride (ao_override a)" "\<not> futureDated (ao_override a) (FirstSeen (ao_record a))"
    and "now < overrideEnd (ao_override a) (FirstSeen (ao_record a)) maxO" "ov_stage (ao_override a) \<in> {'''', env}"
  using assms by (induction ovs) (auto split: option.splits if_splits)

lemma overrideEnd_le: "0 < maxO \<Longrightarrow> overrideEnd ov t maxO \<le> ov_expiresAt ov \<and> overrideEnd ov t maxO \<le> t + maxO"
  by (auto simp: overrideEnd_def)

section \<open>Properties\<close>

text \<open>C40. However the entries of a gate are edited after the controller recorded a key at \<open>t\<close>, removed and added again included, an
  override with that key is in effect only before its expiry and before the cap after \<open>t\<close>; it is not by an agent, is not dated
  more than five minutes after \<open>t\<close>, and is for this environment or for all.\<close>

theorem override_capped:
  assumes "recorded (overrideKey lib ov) t g" "(override_step api lib)\<^sup>*\<^sup>* g g'"
    and "findActiveOverride lib g' env now (maxOverride configured) = Some a" "ao_override a = ov"
  shows "now < t + maxOverride configured \<and> now < ov_expiresAt ov \<and> \<not> agentOverride ov \<and>
         (\<forall>c. ov_createdAt ov = Some c \<longrightarrow> c \<le> t + overrideClockSkew) \<and> ov_stage ov \<in> {'''', env}"
proof -
  have pos: "0 < maxOverride configured"
    by (simp add: maxOverride_def DefaultMaxOverride_def minute_def second_def)
  note spec = active_among_spec [OF assms(3) [unfolded findActiveOverride_def]]
  have "recorded (overrideKey lib ov) t g'"
    by (rule overrides.inv_later [OF assms(2,1)])
  then have "FirstSeen (ao_record a) = t"
    using spec(2) assms(4) by (simp add: recorded_def)
  then show ?thesis
    using spec(3-6) overrideEnd_le [OF pos, of ov t] assms(4) by (force simp: futureDated_def)
qed

text \<open>An override of prod recorded at noon of some day, removed and added again, is in effect five hours later.\<close>

definition ex_lib :: gate_lib where
  "ex_lib =
     \<lparr>sha256_hex = (\<lambda>s. s), gl_rfc3339 = (\<lambda>_. ''''), gl_rfc3339nano = (\<lambda>_. ''''), gl_minutes = (\<lambda>_. ''''), gl_unixMilli = (\<lambda>t. t div 1000000),
      gl_find = (\<lambda>cs t. find (\<lambda>c. gc_type c = t) cs), gl_set = (\<lambda>cs c. c # filter (\<lambda>d. gc_type d \<noteq> gc_type c) cs),
      gl_validation = plain_lib, gl_coalescers = (\<lambda>_. None)\<rparr>"

definition ex_override :: PolicyGateOverride where
  "ex_override =
     \<lparr>ov_reason = ''fix'', ov_stage = ''prod'', ov_expiresAt = 3000 * minute, ov_createdAt = None, ov_createdBy = ''ann'', ov_actor = None\<rparr>"

definition ex_status :: GateStatus where
  "ex_status =
     \<lparr>Ready = False, gs_reason = '''', BundleVersion = '''', gs_lastEvaluatedAt = None, gs_conditions = [], gs_pending = [], gs_approvals = [],
      gs_verdicts = [], ApprovalRequired = None,
      gs_overrides = [\<lparr>or_key = overrideKey ex_lib ex_override, FirstSeen = 720 * minute, Verified = True, Audited = True\<rparr>],
      OverridesVerifiedSince = Some 1\<rparr>"

definition ex_gate :: "PolicyGateOverride list \<Rightarrow> int \<Rightarrow> GateInstance" where
  "ex_gate ovs n =
     \<lparr>pg_namespace = ''team'', pg_name = ''v1-soak-prod'',
      pg_labels = [(labelPipeline, ''shop''), (labelBundle, ''v1''), (labelEnvironment, ''prod'')], pg_generation = n,
      pg_expression = ''false'', pg_message = '''', RecheckInterval = '''', pg_approval = None, RequiredWhen = '''', pg_approvals = [],
      pg_verify = None, pg_verdicts = [], pg_overrides = ovs, pg_status = ex_status\<rparr>"

definition ex_active :: activeOverride where
  "ex_active = \<lparr>ao_override = ex_override, ao_record = hd (gs_overrides ex_status), ao_end = 2160 * minute\<rparr>"

theorem override_capped_witness:
  "1020 * minute < 720 * minute + maxOverride 0 \<and> 1020 * minute < ov_expiresAt ex_override \<and> \<not> agentOverride ex_override \<and>
   ov_stage ex_override \<in> {'''', ''prod''}"
proof -
  have seen: "recorded (overrideKey ex_lib ex_override) (720 * minute) (ex_gate [ex_override] 1)"
    unfolding recorded_iff by code_simp
  let ?api = "\<lparr>api_patch = \<lambda>_ w. (PatchOK, w), api_create = \<lambda>w _. (w, Created)\<rparr> :: unit gate_api"
  have "override_step ?api ex_lib (ex_gate ovs n) (ex_gate ovs' n')" for ovs n ovs' n'
    using override_step.edit [where api = ?api and lib = ex_lib and g = "ex_gate ovs n" and ovs = ovs' and n = n'] by (simp add: ex_gate_def)
  then have steps: "(override_step ?api ex_lib)\<^sup>*\<^sup>* (ex_gate [ex_override] 1) (ex_gate [ex_override] 3)"
    by (meson r_into_rtranclp rtranclp_trans)
  have active: "findActiveOverride ex_lib (ex_gate [ex_override] 3) ''prod'' (1020 * minute) (maxOverride 0) = Some ex_active"
    by code_simp
  have "ao_override ex_active = ex_override"
    by (simp add: ex_active_def)
  from override_capped [OF seen steps active this] show ?thesis by blast
qed

end
