(* ===== verification/Topo_Sort.thy ===== *)
theory Topo_Sort
  imports Prelude
begin

text \<open>
  \<open>topoSort\<close> and \<open>findCycle\<close> of \<open>pkg/graph/builder.go\<close>: Kahn's algorithm over indexes into the sorted
  names, and the search for a cycle among the names it could not sort.

  A Go map is given as the list of its keys or entries in the order in which one \<open>range\<close> visits them.
  That order is arbitrary, so the theorems hold for every order, and \<open>topoSort_range_order\<close> shows that
  the result does not depend on it. A slice indexed out of range would panic in Go; \<open>relax\<close> leaves the
  state alone there, and no index it is given is out of range (\<open>kahn_state\<close>).
\<close>

section \<open>The algorithm\<close>

fun idx :: "string list \<Rightarrow> string \<Rightarrow> nat option" where
  "idx [] n = None"
| "idx (x # xs) n = (if x = n then Some 0 else map_option Suc (idx xs n))"

text \<open>One edge: \<open>n\<close> depends on \<open>d\<close>. The state is \<open>inDegree\<close> and \<open>dependents\<close>.\<close>

definition add_edge ::
  "string list \<Rightarrow> string \<Rightarrow> int list \<times> nat list list \<Rightarrow> string \<Rightarrow> int list \<times> nat list list" where
  "add_edge names n st d =
     (case (idx names n, idx names d) of
        (Some ni, Some di) \<Rightarrow>
          ((fst st)[ni := fst st ! ni + 1], (snd st)[di := snd st ! di @ [ni]])
      | _ \<Rightarrow> st)"

definition degrees :: "string list \<Rightarrow> (string \<times> string list) list \<Rightarrow> int list \<times> nat list list" where
  "degrees names deps =
     foldl (\<lambda>st (n, ds). foldl (add_edge names n) st ds)
       (replicate (length names) 0, replicate (length names) []) deps"

definition relax :: "nat list \<times> int list \<Rightarrow> nat \<Rightarrow> nat list \<times> int list" where
  "relax qd d =
     (let (queue, deg) = qd in
      if d < length deg
      then let deg' = deg[d := deg ! d - 1]
           in (if deg' ! d = 0 then queue @ [d] else queue, deg')
      else (queue, deg))"

definition open_count :: "int list \<Rightarrow> nat" where
  "open_count deg = length (filter (\<lambda>k. 0 < k) deg)"

lemma filter_update_length:
  "d < length xs \<Longrightarrow> length (filter P (xs[d := v])) + (if P (xs ! d) then 1 else 0) =
     length (filter P xs) + (if P v then 1 else 0)"
proof -
  assume d: "d < length xs"
  have "length (filter P xs) = length (filter P (take d xs @ xs ! d # drop (Suc d) xs))"
    using id_take_nth_drop [OF d] by simp
  then show ?thesis using d by (simp add: upd_conv_take_nth_drop)
qed

lemma relax_measure:
  "length (fst (relax qd d)) + open_count (snd (relax qd d)) \<le> length (fst qd) + open_count (snd qd)"
proof (cases "d < length (snd qd)")
  case True
  then show ?thesis
    using filter_update_length [OF True, of "\<lambda>k. 0 < k" "snd qd ! d - 1"]
    by (auto simp: relax_def open_count_def Let_def split: prod.splits if_splits)
qed (auto simp: relax_def Let_def split: prod.splits)

lemma relax_fold_measure:
  "length (fst (foldl relax qd ds)) + open_count (snd (foldl relax qd ds)) \<le>
   length (fst qd) + open_count (snd qd)"
proof (induction ds arbitrary: qd)
  case (Cons d ds)
  show ?case using order_trans [OF Cons.IH [of "relax qd d"] relax_measure [of qd d]] by simp
qed simp

text \<open>The loop over the queue: the indexes in the order in which they leave it. Every round takes one
  entry from the queue, and an entry joins the queue only when its degree drops to zero.\<close>

function kahn :: "nat list list \<Rightarrow> nat list \<Rightarrow> int list \<Rightarrow> nat list" where
  "kahn dents [] deg = []"
| "kahn dents (n # queue) deg =
     (let (queue', deg') = foldl relax (queue, deg) (sort (dents ! n))
      in n # kahn dents queue' deg')"
  by pat_completeness auto
termination
proof (relation "measure (\<lambda>(dents, queue, deg). length queue + open_count deg)")
  fix dents :: "nat list list" and n queue deg x queue' deg'
  assume "x = foldl relax (queue, deg) (sort (dents ! n))" "(queue', deg') = x"
  then have "foldl relax (queue, deg) (sort (dents ! n)) = (queue', deg')" by simp
  then show "((dents, queue', deg'), dents, n # queue, deg) \<in>
      measure (\<lambda>(dents, queue, deg). length queue + open_count deg)"
    using relax_fold_measure [of "(queue, deg)" "sort (dents ! n)"] by simp
qed simp

text \<open>\<open>findCycle\<close> follows the first unsorted dependency from the first unsorted name until it comes back
  to a name on the path.\<close>

definition lookup_list :: "(string \<times> string list) list \<Rightarrow> string \<Rightarrow> string list" where
  "lookup_list deps n = (case map_of deps n of None \<Rightarrow> [] | Some ds \<Rightarrow> ds)"

definition next_unsorted :: "(string \<times> string list) list \<Rightarrow> string list \<Rightarrow> string \<Rightarrow> string" where
  "next_unsorted deps sorted_names current =
     (case find (\<lambda>d. d \<notin> set sorted_names) (lookup_list deps current) of None \<Rightarrow> '''' | Some d \<Rightarrow> d)"

lemma next_unsorted_mem:
  assumes "next_unsorted deps ss c \<noteq> ''''"
  shows "next_unsorted deps ss c \<in> set (concat (map snd deps))"
    "next_unsorted deps ss c \<in> set (lookup_list deps c)" "next_unsorted deps ss c \<notin> set ss"
proof -
  obtain d where d: "find (\<lambda>d. d \<notin> set ss) (lookup_list deps c) = Some d"
    using assms by (auto simp: next_unsorted_def split: option.splits)
  then have m: "d \<in> set (lookup_list deps c)" "d \<notin> set ss" by (auto simp: find_Some_iff)
  then have "d \<in> set (concat (map snd deps))"
    by (cases "map_of deps c") (auto simp: lookup_list_def intro: bexI [OF _ map_of_SomeD])
  then show "next_unsorted deps ss c \<in> set (concat (map snd deps))"
    "next_unsorted deps ss c \<in> set (lookup_list deps c)" "next_unsorted deps ss c \<notin> set ss"
    using d m by (simp_all add: next_unsorted_def)
qed

function follow ::
  "(string \<times> string list) list \<Rightarrow> string list \<Rightarrow> (string \<rightharpoonup> nat) \<Rightarrow> string list \<Rightarrow> string list" where
  "follow deps sorted_names pos path =
     (let current = last path;
          pos' = pos(current \<mapsto> length path - 1);
          nxt = next_unsorted deps sorted_names current
      in if nxt = '''' then path @ [hd path]
         else case pos' nxt of
                Some at \<Rightarrow> drop at path @ [nxt]
              | None \<Rightarrow> follow deps sorted_names pos' (path @ [nxt]))"
  by pat_completeness auto
termination
proof (relation "measure (\<lambda>(deps, ss, pos, path).
    card (set (concat (map snd deps)) - insert (last path) (dom pos)))")
  fix deps :: "(string \<times> string list) list" and ss pos path current pos' nxt
  assume e: "current = last path" "pos' = pos(current \<mapsto> length path - 1)"
    "nxt = next_unsorted deps ss current" "nxt \<noteq> ''''" "pos' nxt = None"
  let ?D = "set (concat (map snd deps))"
  have "nxt \<in> ?D" using next_unsorted_mem(1) e(3,4) by simp
  moreover have "nxt \<notin> insert (last path) (dom pos)" and d: "dom pos' = insert (last path) (dom pos)"
    using e(1,2,5) by (auto simp: domIff split: if_splits)
  ultimately have "?D - insert nxt (dom pos') \<subset> ?D - insert (last path) (dom pos)"
    unfolding d by blast
  then show "((deps, ss, pos', path @ [nxt]), deps, ss, pos, path) \<in> measure (\<lambda>(deps, ss, pos, path).
      card (set (concat (map snd deps)) - insert (last path) (dom pos)))"
    by (simp add: psubset_card_mono)
qed simp

declare follow.simps [simp del]

definition findCycle ::
  "string list \<Rightarrow> (string \<times> string list) list \<Rightarrow> string list \<Rightarrow> string list" where
  "findCycle nodes deps sorted_names =
     (let unsorted = filter (\<lambda>n. n \<notin> set sorted_names) nodes
      in if unsorted = [] then [] else follow deps sorted_names Map.empty [hd (sort unsorted)])"

text \<open>The result is \<open>Inr\<close> the order or \<open>Inl\<close> the cycle (in Go a pair, one of the two \<open>nil\<close>).\<close>

definition topoSort ::
  "string list \<Rightarrow> (string \<times> string list) list \<Rightarrow> string list + string list" where
  "topoSort nodes deps =
     (let names = sort nodes;
          (deg, dents) = degrees names deps;
          queue = filter (\<lambda>i. deg ! i = 0) [0..<length names];
          order = map ((!) names) (kahn dents queue deg)
      in if length order \<noteq> length nodes then Inl (findCycle nodes deps order) else Inr order)"

section \<open>The tables of the algorithm\<close>

lemma idx_Some: "idx xs n = Some i \<Longrightarrow> i < length xs \<and> xs ! i = n"
  by (induction xs arbitrary: i) (auto split: if_splits)

lemma idx_nth: "distinct xs \<Longrightarrow> i < length xs \<Longrightarrow> idx xs (xs ! i) = Some i"
proof (induction xs arbitrary: i)
  case (Cons x xs)
  then show ?case by (cases i) auto
qed simp

lemma idx_None: "idx xs n = None \<longleftrightarrow> n \<notin> set xs"
  by (induction xs) auto

text \<open>All edges, in the order they are added: as pairs of names, and as pairs of indexes (\<open>v\<close>, \<open>u\<close>),
  \<open>v\<close> depends on \<open>u\<close>, when both are names of the graph.\<close>

definition edges_of :: "(string \<times> string list) list \<Rightarrow> (string \<times> string) list" where
  "edges_of deps = concat (map (\<lambda>(n, ds). map (Pair n) ds) deps)"

definition idx_edge :: "string list \<Rightarrow> string \<times> string \<Rightarrow> (nat \<times> nat) option" where
  "idx_edge names e =
     (case (idx names (fst e), idx names (snd e)) of (Some v, Some u) \<Rightarrow> Some (v, u) | _ \<Rightarrow> None)"

definition idx_edges :: "string list \<Rightarrow> (string \<times> string list) list \<Rightarrow> (nat \<times> nat) list" where
  "idx_edges names deps = List.map_filter (idx_edge names) (edges_of deps)"

definition tables :: "nat \<Rightarrow> (nat \<times> nat) list \<Rightarrow> int list \<times> nat list list" where
  "tables N es =
     (map (\<lambda>v. int (length (filter (\<lambda>e. fst e = v) es))) [0..<N],
      map (\<lambda>u. map fst (filter (\<lambda>e. snd e = u) es)) [0..<N])"

lemma degrees_flat:
  "degrees names deps = foldl (\<lambda>st e. add_edge names (fst e) st (snd e))
     (replicate (length names) 0, replicate (length names) []) (edges_of deps)"
proof -
  have "foldl (\<lambda>st (n, ds). foldl (add_edge names n) st ds) st deps =
      foldl (\<lambda>st e. add_edge names (fst e) st (snd e)) st (edges_of deps)" for st
  proof (induction deps arbitrary: st)
    case (Cons e deps)
    have "foldl (\<lambda>st e. add_edge names (fst e) st (snd e)) st (map (Pair (fst e)) ds) =
        foldl (add_edge names (fst e)) st ds" for st ds
      by (induction ds arbitrary: st) auto
    then show ?case using Cons by (cases e) (simp add: edges_of_def)
  qed (simp add: edges_of_def)
  then show ?thesis by (simp add: degrees_def)
qed

lemma add_edge_tables:
  assumes "length names = N"
  shows "add_edge names (fst e) (tables N es) (snd e) =
    tables N (es @ (case idx_edge names e of None \<Rightarrow> [] | Some e' \<Rightarrow> [e']))"
  using assms
  by (auto simp: add_edge_def idx_edge_def tables_def dest!: idx_Some intro!: nth_equalityI
      simp: nth_list_update split: option.splits)

lemma degrees_tables: "degrees names deps = tables (length names) (idx_edges names deps)"
proof -
  let ?N = "length names"
  have "foldl (\<lambda>st e. add_edge names (fst e) st (snd e)) (tables ?N acc) es =
      tables ?N (acc @ List.map_filter (idx_edge names) es)" for acc es
    by (induction es arbitrary: acc)
      (auto simp: add_edge_tables map_filter_def split: option.splits)
  from this [of "[]" "edges_of deps"] show ?thesis
    by (simp add: degrees_flat idx_edges_def tables_def map_replicate_const)
qed

lemma idx_edges_bound: "(v, u) \<in> set (idx_edges names deps) \<Longrightarrow> v < length names \<and> u < length names"
  by (auto simp: idx_edges_def idx_edge_def map_filter_def dest: idx_Some split: option.splits)

lemma idx_edges_iff:
  "distinct names \<Longrightarrow> (v, u) \<in> set (idx_edges names deps) \<longleftrightarrow>
     v < length names \<and> u < length names \<and> (names ! v, names ! u) \<in> set (edges_of deps)"
proof -
  assume d: "distinct names"
  have *: "idx names n = Some i \<longleftrightarrow> i < length names \<and> names ! i = n" for n i
    using idx_Some idx_nth [OF d] by blast
  have "(v, u) \<in> set (idx_edges names deps) \<longleftrightarrow>
      (\<exists>e \<in> set (edges_of deps). idx_edge names e = Some (v, u))"
    by (force simp: idx_edges_def map_filter_def)
  also have "\<dots> \<longleftrightarrow> (\<exists>e \<in> set (edges_of deps). idx names (fst e) = Some v \<and> idx names (snd e) = Some u)"
    by (intro bex_cong refl) (auto simp: idx_edge_def split: option.splits)
  also have "\<dots> \<longleftrightarrow> v < length names \<and> u < length names \<and> (names ! v, names ! u) \<in> set (edges_of deps)"
    unfolding * by force
  finally show ?thesis .
qed

section \<open>The loop over the queue\<close>

lemma relax_fold:
  assumes "\<forall>d \<in> set ds. d < length deg" "\<forall>v < length deg. int (count_list ds v) \<le> deg ! v"
    and "foldl relax (q, deg) ds = (q', deg')"
  shows "length deg' = length deg \<and> (\<forall>v < length deg. deg' ! v = deg ! v - int (count_list ds v)) \<and>
    (\<exists>new. q' = q @ new \<and> distinct new \<and> set new = {v \<in> set ds. deg' ! v = 0})"
  using assms
proof (induction ds arbitrary: q deg)
  case (Cons d ds)
  define deg1 where "deg1 = deg[d := deg ! d - 1]"
  define q1 where "q1 = (if deg1 ! d = 0 then q @ [d] else q)"
  have d: "d < length deg" using Cons.prems(1) by simp
  have len: "length deg1 = length deg" by (simp add: deg1_def)
  have d1: "deg1 ! v = deg ! v - (if v = d then 1 else 0)" if "v < length deg" for v
    using that d by (auto simp: deg1_def nth_list_update)
  have c1: "\<forall>v < length deg1. int (count_list ds v) \<le> deg1 ! v"
    using Cons.prems(2) d1 len by (auto split: if_splits)
  have "relax (q, deg) d = (q1, deg1)" using d by (simp add: relax_def deg1_def q1_def Let_def)
  then have f: "foldl relax (q1, deg1) ds = (q', deg')" using Cons.prems(3) by simp
  obtain new where IH: "length deg' = length deg" "\<forall>v < length deg. deg' ! v = deg1 ! v - int (count_list ds v)"
      "q' = q1 @ new" "distinct new" "set new = {v \<in> set ds. deg' ! v = 0}"
    using Cons.IH [OF _ c1 f] Cons.prems(1) len by auto
  have cnt: "\<forall>v < length deg. deg' ! v = deg ! v - int (count_list (d # ds) v)"
    using IH(2) d1 by auto
  show ?case
  proof (cases "deg1 ! d = 0")
    case True
    then have "count_list ds d = 0" using c1 d len by auto
    then have nd: "d \<notin> set ds" by (simp add: count_list_0_iff)
    then have "deg' ! d = 0" using IH(2) d True by simp
    then have "q' = q @ (d # new) \<and> distinct (d # new) \<and> set (d # new) = {v \<in> set (d # ds). deg' ! v = 0}"
      using True nd IH(3-5) by (auto simp: q1_def)
    then show ?thesis using IH(1) cnt by blast
  next
    case False
    have "deg' ! d \<noteq> 0 \<or> d \<in> set ds"
      using IH(2) d False count_list_0_iff [of ds d] by auto
    then have "set new = {v \<in> set (d # ds). deg' ! v = 0}" using IH(5) by auto
    then show ?thesis using IH cnt False by (auto simp: q1_def)
  qed
qed simp

text \<open>The state of the loop: \<open>done\<close> has left the queue. A name is in one of the two lists exactly when
  its degree, the number of its edges to names outside \<open>done\<close>, is zero.\<close>

definition topo_order :: "(nat \<times> nat) list \<Rightarrow> nat list \<Rightarrow> bool" where
  "topo_order es order \<longleftrightarrow>
     (\<forall>i < length order. \<forall>u. (order ! i, u) \<in> set es \<longrightarrow> u \<in> set (take i order))"

definition kahn_state :: "nat \<Rightarrow> (nat \<times> nat) list \<Rightarrow> nat list \<Rightarrow> nat list \<Rightarrow> int list \<Rightarrow> bool" where
  "kahn_state N es don queue deg \<longleftrightarrow>
     distinct (don @ queue) \<and> set (don @ queue) \<subseteq> {..<N} \<and> length deg = N \<and>
     (\<forall>v < N. deg ! v = int (length (filter (\<lambda>e. fst e = v \<and> snd e \<notin> set don) es))) \<and>
     (\<forall>v < N. v \<in> set (don @ queue) \<longleftrightarrow> deg ! v = 0) \<and> topo_order es don"

lemma topo_order_snoc:
  "topo_order es (don @ [n]) \<longleftrightarrow> topo_order es don \<and> (\<forall>u. (n, u) \<in> set es \<longrightarrow> u \<in> set don)"
  by (auto simp: topo_order_def nth_append less_Suc_eq)

lemma filter_split_length:
  assumes "\<And>x. x \<in> set xs \<Longrightarrow> P x \<longleftrightarrow> Q x \<or> R x" "\<And>x. x \<in> set xs \<Longrightarrow> \<not> (Q x \<and> R x)"
  shows "length (filter P xs) = length (filter Q xs) + length (filter R xs)"
  using assms by (induction xs) auto

lemma count_fst: "count_list (map fst (filter P es)) v = length (filter (\<lambda>e. P e \<and> fst e = v) es)"
  by (induction es) auto

lemma kahn_step:
  assumes st: "kahn_state N es don (n # queue) deg"
    and dents: "dents = snd (tables N es)" and bnd: "\<forall>(v, u) \<in> set es. v < N \<and> u < N"
    and run: "foldl relax (queue, deg) (sort (dents ! n)) = (queue', deg')"
  shows "kahn_state N es (don @ [n]) queue' deg'"
proof -
  let ?ds = "sort (dents ! n)"
  have n: "n < N" "n \<notin> set don" "deg ! n = 0" using st by (auto simp: kahn_state_def)
  have len: "length deg = N" and dg: "\<forall>v < N. deg ! v = int (length (filter (\<lambda>e. fst e = v \<and> snd e \<notin> set don) es))"
    using st by (auto simp: kahn_state_def)
  have cnt: "count_list ?ds v = length (filter (\<lambda>e. fst e = v \<and> snd e = n) es)" for v
  proof -
    have "count_list ?ds v = count_list (dents ! n) v" by (simp add: count_mset flip: count_mset)
    then show ?thesis using n(1) by (simp add: dents tables_def count_fst conj_commute)
  qed
  have spl: "length (filter (\<lambda>e. fst e = v \<and> snd e \<notin> set don) es) =
      length (filter (\<lambda>e. fst e = v \<and> snd e = n) es) +
      length (filter (\<lambda>e. fst e = v \<and> snd e \<notin> set (don @ [n])) es)" for v
    by (rule filter_split_length) (use n(2) in auto)
  have "\<forall>d \<in> set ?ds. d < length deg" using bnd n(1) len by (auto simp: dents tables_def)
  moreover have "\<forall>v < length deg. int (count_list ?ds v) \<le> deg ! v"
    using dg spl cnt len by simp
  ultimately obtain new where r: "length deg' = N" "\<forall>v < N. deg' ! v = deg ! v - int (count_list ?ds v)"
      "queue' = queue @ new" "distinct new" "set new = {v \<in> set ?ds. deg' ! v = 0}"
    using relax_fold [OF _ _ run] len by auto
  have deg': "\<forall>v < N. deg' ! v = int (length (filter (\<lambda>e. fst e = v \<and> snd e \<notin> set (don @ [n])) es))"
    using r(2) dg spl cnt by simp
  have pos: "v \<in> set ?ds \<longleftrightarrow> 0 < count_list ?ds v" for v
    using count_list_0_iff [of ?ds v] by auto
  have new: "v < N \<and> 0 < deg ! v" if "v \<in> set new" for v
  proof -
    have "v \<in> set ?ds" using that r(5) by simp
    then have "v < N" "0 < length (filter (\<lambda>e. fst e = v \<and> snd e \<notin> set don) es)"
      using \<open>\<forall>d \<in> set ?ds. d < length deg\<close> pos [of v] len cnt [of v] unfolding spl by auto
    then show ?thesis using dg by simp
  qed
  have all: "v \<in> set (don @ [n] @ queue') \<longleftrightarrow> deg' ! v = 0" if "v < N" for v
  proof -
    have "v \<in> set (don @ n # queue) \<longleftrightarrow> deg ! v = 0" using st that by (simp add: kahn_state_def)
    moreover have "deg' ! v = 0" if "deg ! v = 0"
    proof -
      have "length (filter (\<lambda>e. fst e = v \<and> snd e \<notin> set don) es) = 0" using dg \<open>v < N\<close> that by simp
      then have "length (filter (\<lambda>e. fst e = v \<and> snd e \<notin> set (don @ [n])) es) = 0" using spl [of v] by linarith
      then show ?thesis using deg' \<open>v < N\<close> by simp
    qed
    moreover have "v \<in> set new" if "deg' ! v = 0" "deg ! v \<noteq> 0"
      using that r(2,5) \<open>v < N\<close> pos by auto
    ultimately show ?thesis using r(3,5) by auto
  qed
  have "distinct (don @ n # queue @ new)" "set (don @ n # queue) \<subseteq> {..<N}"
  proof -
    have "distinct (don @ n # queue)" and z: "\<And>v. v \<in> set (don @ n # queue) \<Longrightarrow> deg ! v = 0"
      and sub: "set (don @ n # queue) \<subseteq> {..<N}"
      using st unfolding kahn_state_def by (blast, blast, blast)
    moreover have "set new \<inter> set (don @ n # queue) = {}" using new z by fastforce
    ultimately show "distinct (don @ n # queue @ new)" using r(4) by auto
    show "set (don @ n # queue) \<subseteq> {..<N}" by (rule sub)
  qed
  moreover have "topo_order es (don @ [n])"
    using st n dg by (auto simp: kahn_state_def topo_order_snoc filter_empty_conv)
  ultimately show ?thesis
    using r(1,3) deg' all new by (auto simp: kahn_state_def)
qed

text \<open>What the loop returns: names without repetition, each after all it depends on, and exactly those
  names all of whose dependencies it returns.\<close>

definition kahn_result :: "nat \<Rightarrow> (nat \<times> nat) list \<Rightarrow> nat list \<Rightarrow> bool" where
  "kahn_result N es r \<longleftrightarrow> distinct r \<and> set r \<subseteq> {..<N} \<and> topo_order es r \<and>
     (\<forall>v < N. v \<in> set r \<longleftrightarrow> (\<forall>u. (v, u) \<in> set es \<longrightarrow> u \<in> set r))"

lemma kahn_run:
  assumes "kahn_state N es don queue deg" "dents = snd (tables N es)" "\<forall>(v, u) \<in> set es. v < N \<and> u < N"
  shows "kahn_result N es (don @ kahn dents queue deg)"
  using assms
proof (induction dents queue deg arbitrary: don rule: kahn.induct)
  case (1 dents deg)
  have "deg ! v = 0 \<longleftrightarrow> (\<forall>u. (v, u) \<in> set es \<longrightarrow> u \<in> set don)" if "v < N" for v
    using 1 that by (auto simp: kahn_state_def filter_empty_conv)
  then show ?case using 1 by (auto simp: kahn_state_def kahn_result_def)
next
  case (2 dents n queue deg)
  obtain q' d' where r: "foldl relax (queue, deg) (sort (dents ! n)) = (q', d')" by force
  have "kahn_state N es (don @ [n]) q' d'" by (rule kahn_step [OF 2(2-4) r])
  from 2(1) [OF r [symmetric] refl this 2(3,4)] show ?case using r by simp
qed

lemma topo_kahn:
  assumes "tables N es = (deg, dents)" "\<forall>(v, u) \<in> set es. v < N \<and> u < N"
  shows "kahn_result N es (kahn dents (filter (\<lambda>i. deg ! i = 0) [0..<N]) deg)"
proof -
  have "kahn_state N es [] (filter (\<lambda>i. deg ! i = 0) [0..<N]) deg"
    using assms(1) by (auto simp: kahn_state_def topo_order_def tables_def)
  from kahn_run [OF this _ assms(2), of dents] show ?thesis using assms(1) by simp
qed

section \<open>Correctness on names\<close>

text \<open>The same on names, for the value of \<open>order\<close> in \<open>topoSort\<close>.\<close>

definition topo_names :: "string list \<Rightarrow> (string \<times> string list) list \<Rightarrow> string list" where
  "topo_names nodes deps =
     (let names = sort nodes; (deg, dents) = degrees names deps
      in map ((!) names) (kahn dents (filter (\<lambda>i. deg ! i = 0) [0..<length names]) deg))"

lemma topoSort_names:
  "topoSort nodes deps =
     (if length (topo_names nodes deps) \<noteq> length nodes
      then Inl (findCycle nodes deps (topo_names nodes deps)) else Inr (topo_names nodes deps))"
  by (simp add: topoSort_def topo_names_def Let_def split_def)

text \<open>\<open>precedes\<close>: every dependency of a name that is a node stands before the name.\<close>

definition deps_first :: "string list \<Rightarrow> (string \<times> string list) list \<Rightarrow> string list \<Rightarrow> bool" where
  "deps_first nodes deps order \<longleftrightarrow>
     (\<forall>i < length order. \<forall>d \<in> set nodes. (order ! i, d) \<in> set (edges_of deps) \<longrightarrow> d \<in> set (take i order))"

lemma topo_names_result:
  assumes d: "distinct nodes"
  shows "distinct (topo_names nodes deps)" "set (topo_names nodes deps) \<subseteq> set nodes"
    "deps_first nodes deps (topo_names nodes deps)"
    "\<And>n. n \<in> set nodes \<Longrightarrow> n \<in> set (topo_names nodes deps) \<longleftrightarrow>
       (\<forall>d \<in> set nodes. (n, d) \<in> set (edges_of deps) \<longrightarrow> d \<in> set (topo_names nodes deps))"
proof -
  let ?names = "sort nodes" and ?es = "idx_edges (sort nodes) deps"
  define N where "N = length ?names"
  obtain deg dents where t: "tables N ?es = (deg, dents)" by force
  define r where "r = kahn dents (filter (\<lambda>i. deg ! i = 0) [0..<N]) deg"
  have dn: "distinct ?names" and sn: "set ?names = set nodes" using d by simp_all
  have R: "kahn_result N ?es r"
    unfolding r_def by (rule topo_kahn [OF t]) (use idx_edges_bound [of _ _ ?names deps] in \<open>auto simp: N_def\<close>)
  have tn: "topo_names nodes deps = map ((!) ?names) r"
    using t by (simp add: topo_names_def degrees_tables r_def N_def Let_def)
  have lt: "set r \<subseteq> {..<N}" and dr: "distinct r" using R by (auto simp: kahn_result_def)
  have inj: "inj_on ((!) ?names) {..<N}" using dn by (auto simp: inj_on_def N_def nth_eq_iff_index_eq)
  have edge: "(v, u) \<in> set ?es \<longleftrightarrow> v < N \<and> u < N \<and> (?names ! v, ?names ! u) \<in> set (edges_of deps)" for v u
    using idx_edges_iff [OF dn] by (simp add: N_def)
  have img: "?names ! v \<in> (!) ?names ` set xs \<longleftrightarrow> v \<in> set xs" if "v < N" "set xs \<subseteq> {..<N}" for v xs
    using inj that by (auto simp: inj_on_def)
  show "distinct (topo_names nodes deps)"
    unfolding tn distinct_map using dr inj lt by (auto intro: inj_on_subset)
  show "set (topo_names nodes deps) \<subseteq> set nodes"
    unfolding tn sn [symmetric] using lt by (auto simp del: set_sort simp: N_def intro!: nth_mem)
  show "deps_first nodes deps (topo_names nodes deps)"
    unfolding deps_first_def
  proof (intro allI ballI impI)
    fix i d
    assume i: "i < length (topo_names nodes deps)" and "d \<in> set nodes"
      and e: "(topo_names nodes deps ! i, d) \<in> set (edges_of deps)"
    then obtain u where u: "u < N" "d = ?names ! u" using sn by (metis N_def in_set_conv_nth)
    have "r ! i \<in> set r" using i by (simp add: tn)
    then have "r ! i < N" using lt by blast
    then have "(r ! i, u) \<in> set ?es" using edge u e i by (auto simp: tn)
    then have "u \<in> set (take i r)" using R i by (auto simp: kahn_result_def topo_order_def tn)
    then show "d \<in> set (take i (topo_names nodes deps))" using u by (simp add: tn take_map)
  qed
  show "n \<in> set (topo_names nodes deps) \<longleftrightarrow>
      (\<forall>d \<in> set nodes. (n, d) \<in> set (edges_of deps) \<longrightarrow> d \<in> set (topo_names nodes deps))"
    if "n \<in> set nodes" for n
  proof -
    from that have "n \<in> set ?names" by simp
    then obtain v where v: "v < N" "n = ?names ! v" unfolding N_def in_set_conv_nth by blast
    have "n \<in> set (topo_names nodes deps) \<longleftrightarrow> v \<in> set r" using v(2) img [OF v(1) lt] by (simp add: tn)
    also have "\<dots> \<longleftrightarrow> (\<forall>u. (v, u) \<in> set ?es \<longrightarrow> u \<in> set r)" using R v(1) by (simp add: kahn_result_def)
    also have "\<dots> \<longleftrightarrow> (\<forall>u < N. (n, ?names ! u) \<in> set (edges_of deps) \<longrightarrow> u \<in> set r)"
      using v by (simp add: edge) blast
    also have "\<dots> \<longleftrightarrow> (\<forall>u < N. (n, ?names ! u) \<in> set (edges_of deps) \<longrightarrow> ?names ! u \<in> set (topo_names nodes deps))"
      using img [OF _ lt] by (simp add: tn)
    also have "\<dots> \<longleftrightarrow> (\<forall>d \<in> set nodes. (n, d) \<in> set (edges_of deps) \<longrightarrow> d \<in> set (topo_names nodes deps))"
      unfolding sn [symmetric] all_set_conv_all_nth N_def by simp
    finally show ?thesis .
  qed
qed

lemma topo_names_perm:
  assumes "distinct nodes" "length (topo_names nodes deps) = length nodes"
  shows "mset (topo_names nodes deps) = mset nodes"
proof -
  have "set (topo_names nodes deps) = set nodes"
    using topo_names_result(1,2) [OF assms(1), of deps] assms
    by (metis List.finite_set card_subset_eq distinct_card)
  then show ?thesis
    using topo_names_result(1) [OF assms(1)] assms(1) by (simp add: set_eq_iff_mset_eq_distinct)
qed

text \<open>The dependency relation on the nodes.\<close>

definition dep_rel :: "string list \<Rightarrow> (string \<times> string list) list \<Rightarrow> (string \<times> string) set" where
  "dep_rel nodes deps = {(n, d). n \<in> set nodes \<and> d \<in> set nodes \<and> (n, d) \<in> set (edges_of deps)}"

lemma deps_first_acyclic:
  assumes "deps_first nodes deps order" "mset order = mset nodes" "distinct nodes"
  shows "acyclic (dep_rel nodes deps)"
proof -
  have dist: "distinct order" and st: "set order = set nodes"
    using assms(2,3) by (metis distinct_count_atmost_1 set_mset_mset, metis set_mset_mset)
  have "dep_rel nodes deps \<subseteq> {(a, b). the (idx order b) < the (idx order a)}"
  proof clarify
    fix n d
    assume e: "(n, d) \<in> dep_rel nodes deps"
    then have "n \<in> set order" using st by (simp add: dep_rel_def)
    then obtain i where i: "i < length order" "order ! i = n" by (auto simp: in_set_conv_nth)
    then have "d \<in> set (take i order)" using assms(1) e by (auto simp: deps_first_def dep_rel_def)
    then obtain j where "j < i" "order ! j = d" using i by (auto simp: in_set_conv_nth)
    then show "the (idx order d) < the (idx order n)" using i idx_nth [OF dist] by auto
  qed
  moreover have "wf ({(a, b). the (idx order b) < the (idx order a)}\<inverse>)"
    by (rule wf_subset [OF wf_measure [of "\<lambda>x. the (idx order x)"]]) auto
  ultimately show ?thesis
    by (metis acyclic_converse acyclic_subset wf_acyclic)
qed

lemma acyclic_all_sorted:
  assumes d: "distinct nodes" and a: "acyclic (dep_rel nodes deps)"
  shows "set nodes \<subseteq> set (topo_names nodes deps)"
proof (rule ccontr)
  assume "\<not> ?thesis"
  then obtain x where x: "x \<in> set nodes - set (topo_names nodes deps)" by blast
  have "finite (dep_rel nodes deps)"
    by (rule finite_subset [of _ "set nodes \<times> set nodes"]) (auto simp: dep_rel_def)
  then have "wf ((dep_rel nodes deps)\<inverse>)" using a by (rule finite_acyclic_wf_converse)
  then obtain z where z: "z \<in> set nodes - set (topo_names nodes deps)"
      "\<And>y. (y, z) \<in> (dep_rel nodes deps)\<inverse> \<Longrightarrow> y \<notin> set nodes - set (topo_names nodes deps)"
    using x by (meson wfE_min)
  then have "z \<in> set (topo_names nodes deps)"
    using topo_names_result(4) [OF d, of z deps] by (auto simp: dep_rel_def)
  then show False using z(1) by simp
qed

section \<open>The cycle\<close>

definition is_cycle :: "(string \<times> string list) list \<Rightarrow> string list \<Rightarrow> bool" where
  "is_cycle deps c \<longleftrightarrow> 2 \<le> length c \<and> hd c = last c \<and> distinct (tl c) \<and>
     (\<forall>i. i + 1 < length c \<longrightarrow> c ! (i + 1) \<in> set (lookup_list deps (c ! i)))"

lemma edges_lookup:
  "distinct (map fst deps) \<Longrightarrow> (n, d) \<in> set (edges_of deps) \<longleftrightarrow> d \<in> set (lookup_list deps n)"
  by (force simp: edges_of_def lookup_list_def dest: map_of_SomeD split: option.splits)

lemma follow_cycle:
  assumes "path \<noteq> []" "distinct path" "set path \<subseteq> U"
    and "\<forall>i. i + 1 < length path \<longrightarrow> path ! (i + 1) \<in> set (lookup_list deps (path ! i))"
    and "\<forall>x i. pos x = Some i \<longleftrightarrow> i + 1 < length path \<and> path ! i = x"
    and "\<forall>n \<in> U. \<exists>d \<in> set (lookup_list deps n). d \<notin> set ss"
    and "\<forall>n \<in> U. \<forall>d \<in> set (lookup_list deps n). d \<notin> set ss \<longrightarrow> d \<in> U \<and> d \<noteq> ''''"
  shows "is_cycle deps (follow deps ss pos path)"
  using assms
proof (induction deps ss pos path rule: follow.induct)
  case (1 deps ss pos path)
  let ?cur = "last path" and ?nxt = "next_unsorted deps ss (last path)"
  let ?pos = "pos(?cur \<mapsto> length path - 1)"
  have cur: "?cur \<in> U" "?cur = path ! (length path - 1)" using 1(2,4) by (auto simp: last_conv_nth)
  then obtain d where "find (\<lambda>d. d \<notin> set ss) (lookup_list deps ?cur) = Some d"
    using 1(7) by (metis (mono_tags, lifting) find_None_iff not_None_eq)
  then have n: "?nxt = d" "d \<in> set (lookup_list deps ?cur)" "d \<in> U" "d \<noteq> ''''"
  proof -
    assume f: "find (\<lambda>d. d \<notin> set ss) (lookup_list deps ?cur) = Some d"
    then show "?nxt = d" by (simp add: next_unsorted_def)
    have "d \<notin> set ss" using f by (auto simp: find_Some_iff)
    moreover show l: "d \<in> set (lookup_list deps ?cur)" using f by (auto simp: find_Some_iff)
    ultimately show "d \<in> U" "d \<noteq> ''''" using 1(8) cur(1) by auto
  qed
  have pos: "?pos x = Some i \<longleftrightarrow> i < length path \<and> path ! i = x" for x i
    using 1(2,3,6) cur(2) by (auto simp: nth_eq_iff_index_eq less_Suc_eq) 
  have edges: "\<forall>i. i + 1 < length (path @ [d]) \<longrightarrow> (path @ [d]) ! (i + 1) \<in> set (lookup_list deps ((path @ [d]) ! i))"
  proof (intro allI impI)
    fix i
    assume "i + 1 < length (path @ [d])"
    then consider "i + 1 < length path" | "i = length path - 1" by fastforce
    then show "(path @ [d]) ! (i + 1) \<in> set (lookup_list deps ((path @ [d]) ! i))"
      using 1(2,5) n(2) cur(2) by cases (auto simp: nth_append)
  qed
  show ?case
  proof (cases "?pos d")
    case (Some at)
    then have a: "at < length path" "path ! at = d" using pos by auto
    have f: "follow deps ss pos path = drop at path @ [d]"
      using n Some by (simp add: follow.simps [of deps ss pos path] Let_def)
    have eq: "drop at path @ [d] = drop at (path @ [d])" using a by simp
    have "tl (drop at path @ [d]) = drop (Suc at) path @ [d]" using a by (simp add: tl_drop drop_Suc)
    moreover have "d \<notin> set (drop (Suc at) path)"
      using 1(3) a by (auto simp: in_set_conv_nth nth_eq_iff_index_eq)
    moreover have "hd (drop at path @ [d]) = d" using a by (simp add: hd_append hd_drop_conv_nth)
    moreover have "(drop at path @ [d]) ! (i + 1) \<in> set (lookup_list deps ((drop at path @ [d]) ! i))"
      if "i + 1 < length (drop at path @ [d])" for i
    proof -
      have "(drop at path @ [d]) ! j = (path @ [d]) ! (at + j)" for j
        unfolding eq using a(1) by (intro nth_drop) simp
      then show ?thesis using edges [rule_format, of "at + i"] that a by simp
    qed
    ultimately show ?thesis using 1(3) a by (simp add: is_cycle_def f)
  next
    case None
    then have "d \<notin> set path" using pos by (metis in_set_conv_nth option.distinct(1))
    moreover have "\<forall>x i. ?pos x = Some i \<longleftrightarrow> i + 1 < length (path @ [d]) \<and> (path @ [d]) ! i = x"
      using pos by (auto simp: nth_append)
    moreover have "follow deps ss pos path = follow deps ss ?pos (path @ [d])"
      using n None by (simp add: follow.simps [of deps ss pos path] Let_def)
    ultimately show ?thesis
      using 1(1) [OF refl refl refl, unfolded n(1), OF n(4) None] 1(3,4,7,8) n(3) edges
      by (simp del: fun_upd_apply)
  qed
qed

lemma findCycle_cycle:
  assumes d: "distinct nodes" "distinct (map fst deps)"
    and closed: "\<forall>(n, ds) \<in> set deps. set ds \<subseteq> set nodes" and ne: "'''' \<notin> set nodes"
    and un: "\<not> set nodes \<subseteq> set (topo_names nodes deps)"
  shows "is_cycle deps (findCycle nodes deps (topo_names nodes deps))"
proof -
  let ?ss = "topo_names nodes deps"
  let ?un = "filter (\<lambda>n. n \<notin> set ?ss) nodes"
  have ne': "?un \<noteq> []" using un by (auto simp: filter_empty_conv)
  then have hd: "hd (sort ?un) \<in> set ?un" by (metis hd_in_set set_empty set_sort)
  have mem: "d \<in> set nodes" if "d \<in> set (lookup_list deps n)" for n d
    using closed that by (cases "map_of deps n") (auto simp: lookup_list_def dest!: map_of_SomeD)
  have "is_cycle deps (follow deps ?ss Map.empty [hd (sort ?un)])"
  proof (rule follow_cycle [where U = "set ?un"])
    show "\<forall>n \<in> set ?un. \<exists>d \<in> set (lookup_list deps n). d \<notin> set ?ss"
    proof
      fix n
      assume "n \<in> set ?un"
      then obtain d where "(n, d) \<in> set (edges_of deps)" "d \<notin> set ?ss"
        using topo_names_result(4) [OF d(1), of n deps] by auto
      then show "\<exists>d \<in> set (lookup_list deps n). d \<notin> set ?ss" using edges_lookup [OF d(2)] by blast
    qed
    show "\<forall>n \<in> set ?un. \<forall>d \<in> set (lookup_list deps n). d \<notin> set ?ss \<longrightarrow> d \<in> set ?un \<and> d \<noteq> ''''"
      using mem ne by auto
  qed (use hd in auto)
  then show ?thesis using ne' by (simp add: findCycle_def Let_def)
qed

section \<open>The order of a range over a map\<close>

lemma sort_mset: "mset xs = mset ys \<Longrightarrow> sort xs = sort (ys :: 'a :: linorder list)"
  by (metis mset_sort properties_for_sort sorted_sort)

lemma relax_fold_bound:
  "foldl relax (q, deg) ds = (q', deg') \<Longrightarrow>
   length deg' = length deg \<and> set q' \<subseteq> set q \<union> {..<length deg}"
proof (induction ds arbitrary: q deg)
  case (Cons d ds)
  obtain q1 deg1 where r: "relax (q, deg) d = (q1, deg1)" by force
  then have "length deg1 = length deg \<and> set q1 \<subseteq> set q \<union> {..<length deg}"
    by (auto simp: relax_def Let_def split: if_splits)
  then show ?case using Cons.IH [of q1 deg1] Cons.prems r by auto
qed simp

lemma kahn_cong:
  assumes "\<forall>n < N. sort (dents ! n) = sort (dents' ! n)" "set queue \<subseteq> {..<N}" "length deg = N"
  shows "kahn dents queue deg = kahn dents' queue deg"
  using assms
proof (induction dents queue deg rule: kahn.induct)
  case (2 dents n queue deg)
  obtain q' d' where r: "foldl relax (queue, deg) (sort (dents ! n)) = (q', d')" by force
  have "kahn dents q' d' = kahn dents' q' d'"
    using 2(1) [OF r [symmetric] refl 2(2)] relax_fold_bound [OF r] 2(3,4) by auto
  moreover have "sort (dents ! n) = sort (dents' ! n)" using 2(2,3) by simp
  ultimately show ?case using r by simp
qed simp

lemma map_filter_mset: "mset xs = mset ys \<Longrightarrow> mset (List.map_filter f xs) = mset (List.map_filter f ys)"
  by (simp add: map_filter_def)

lemma edges_of_mset: "mset deps = mset deps' \<Longrightarrow> mset (edges_of deps) = mset (edges_of deps')"
  by (simp add: edges_of_def mset_concat flip: sum_mset_sum_list)

lemma topo_names_order:
  assumes "mset nodes = mset nodes'" "mset deps = mset deps'"
  shows "topo_names nodes deps = topo_names nodes' deps'"
proof -
  let ?names = "sort nodes"
  have n: "sort nodes' = ?names" using sort_mset [OF assms(1)] by simp
  let ?es = "idx_edges ?names deps" and ?es' = "idx_edges ?names deps'"
  have m: "mset ?es = mset ?es'"
    unfolding idx_edges_def by (rule map_filter_mset [OF edges_of_mset [OF assms(2)]])
  have len: "length (filter P ?es) = length (filter P ?es')" for P
    by (metis m mset_filter size_mset)
  let ?N = "length ?names"
  obtain deg dents where t: "tables ?N ?es = (deg, dents)" by force
  obtain deg' dents' where t': "tables ?N ?es' = (deg', dents')" by force
  have "deg' = deg" using t t' len by (auto simp: tables_def)
  moreover have "kahn dents (filter (\<lambda>i. deg ! i = 0) [0..<?N]) deg =
      kahn dents' (filter (\<lambda>i. deg ! i = 0) [0..<?N]) deg"
  proof (rule kahn_cong [where N = ?N])
    show "\<forall>u < ?N. sort (dents ! u) = sort (dents' ! u)"
      using t t' m by (auto simp: tables_def intro!: sort_mset)
  qed (use t in \<open>auto simp: tables_def\<close>)
  ultimately show ?thesis
    unfolding topo_names_def degrees_tables n Let_def t t' by simp
qed

lemma next_unsorted_cong:
  "map_of deps = map_of deps' \<Longrightarrow> next_unsorted deps ss = next_unsorted deps' ss"
  by (simp add: next_unsorted_def lookup_list_def fun_eq_iff)

lemma follow_cong:
  assumes "map_of deps = map_of deps'"
  shows "follow deps ss pos path = follow deps' ss pos path"
  using assms
proof (induction deps ss pos path rule: follow.induct)
  case (1 deps ss pos path)
  note n = next_unsorted_cong [OF 1(2), of ss]
  have IH: "follow deps ss (pos(last path \<mapsto> length path - 1)) (path @ [next_unsorted deps ss (last path)]) =
      follow deps' ss (pos(last path \<mapsto> length path - 1)) (path @ [next_unsorted deps ss (last path)])"
    if "next_unsorted deps ss (last path) \<noteq> ''''"
      "(pos(last path \<mapsto> length path - 1)) (next_unsorted deps ss (last path)) = None"
    using 1(1) [OF refl refl refl that 1(2)] .
  show ?case
    unfolding follow.simps [of deps ss pos path] follow.simps [of deps' ss pos path] n [symmetric] Let_def
    using IH by (auto split: option.split)
qed

lemma findCycle_order:
  assumes "mset nodes = mset nodes'" "mset deps = mset deps'" "distinct (map fst deps)"
  shows "findCycle nodes deps ss = findCycle nodes' deps' ss"
proof -
  have "map_of deps = map_of deps'"
    using assms(2,3) by (metis map_of_inject_set mset_eq_setD mset_eq_imp_distinct_iff mset_map)
  moreover have "mset (filter (\<lambda>n. n \<notin> set ss) nodes) = mset (filter (\<lambda>n. n \<notin> set ss) nodes')"
    using assms(1) by simp
  moreover from this have "sort (filter (\<lambda>n. n \<notin> set ss) nodes) = sort (filter (\<lambda>n. n \<notin> set ss) nodes')"
    "filter (\<lambda>n. n \<notin> set ss) nodes = [] \<longleftrightarrow> filter (\<lambda>n. n \<notin> set ss) nodes' = []"
    by (rule sort_mset) (use \<open>mset (filter _ nodes) = _\<close> in \<open>metis mset_zero_iff\<close>)
  ultimately show ?thesis unfolding findCycle_def Let_def using follow_cong by metis
qed

lemma topoSort_facts:
  assumes "distinct nodes" "topoSort nodes deps = Inr order"
  shows "mset order = mset nodes" "deps_first nodes deps order"
  using topo_names_result(3) [OF assms(1), of deps] topo_names_perm [OF assms(1), of deps] assms(2)
  by (auto simp: topoSort_names split: if_splits)

lemma topoSort_acyclic:
  assumes "distinct nodes"
  shows "(\<exists>order. topoSort nodes deps = Inr order) \<longleftrightarrow> acyclic (dep_rel nodes deps)"
proof -
  note r = topo_names_result(1-3) [OF assms, of deps] and perm = topo_names_perm [OF assms, of deps]
  have "length (topo_names nodes deps) = length nodes" if "acyclic (dep_rel nodes deps)"
    using acyclic_all_sorted [OF assms that] r(1,2) assms by (metis distinct_card subset_antisym)
  then show ?thesis
    using r(3) perm deps_first_acyclic [OF r(3) _ assms] by (auto simp: topoSort_names)
qed

section \<open>Properties\<close>

text \<open>C3. The order \<open>topoSort\<close> returns is a permutation of the nodes in which every node comes after
  all its dependencies; and it returns an order exactly when the dependency relation on the nodes has
  no cycle, so a schedulable pipeline is never refused.\<close>

theorem topoSort_correct:
  assumes "distinct nodes"
  shows "(\<forall>order. topoSort nodes deps = Inr order \<longrightarrow> mset order = mset nodes \<and> deps_first nodes deps order) \<and>
    ((\<exists>order. topoSort nodes deps = Inr order) \<longleftrightarrow> acyclic (dep_rel nodes deps))"
  using topoSort_facts [OF assms] topoSort_acyclic [OF assms] by blast

theorem topoSort_correct_witness:
  "topoSort [''b'', ''a''] [(''b'', [''a''])] = Inr [''a'', ''b''] \<and>
   deps_first [''b'', ''a''] [(''b'', [''a''])] [''a'', ''b'']"
proof -
  have "topoSort [''b'', ''a''] [(''b'', [''a''])] = Inr [''a'', ''b'']" by code_simp
  then show ?thesis using topoSort_correct [of "[''b'', ''a'']" "[(''b'', [''a''])]"] by simp
qed

text \<open>When \<open>topoSort\<close> refuses a graph whose dependencies are nodes, what it returns is a genuine
  cycle: a closed path of at least one edge along the dependencies that repeats no node.\<close>

theorem topoSort_cycle:
  assumes "distinct nodes" "distinct (map fst deps)" "\<forall>(n, ds) \<in> set deps. set ds \<subseteq> set nodes"
    and "'''' \<notin> set nodes" "topoSort nodes deps = Inl c"
  shows "is_cycle deps c"
proof -
  have "length (topo_names nodes deps) \<noteq> length nodes" "c = findCycle nodes deps (topo_names nodes deps)"
    using assms(5) by (auto simp: topoSort_names split: if_splits)
  moreover from this have "\<not> set nodes \<subseteq> set (topo_names nodes deps)"
    using topo_names_result(1,2) [OF assms(1), of deps] assms(1) by (metis distinct_card subset_antisym)
  ultimately show ?thesis using findCycle_cycle [OF assms(1-4)] by simp
qed

theorem topoSort_cycle_witness:
  "is_cycle [(''a'', [''b'']), (''b'', [''a''])] [''a'', ''b'', ''a'']"
proof -
  have "topoSort [''a'', ''b''] [(''a'', [''b'']), (''b'', [''a''])] = Inl [''a'', ''b'', ''a'']" by code_simp
  then show ?thesis using topoSort_cycle [of "[''a'', ''b'']" "[(''a'', [''b'']), (''b'', [''a''])]"] by simp
qed

text \<open>C4. The result is deterministic: it does not depend on the order in which Go ranges over the two
  maps, neither the order it returns nor the cycle it reports.\<close>

theorem topoSort_range_order:
  assumes "mset nodes = mset nodes'" "mset deps = mset deps'" "distinct (map fst deps)"
  shows "topoSort nodes deps = topoSort nodes' deps'"
  using topo_names_order [OF assms(1,2)] findCycle_order [OF assms] mset_eq_length [OF assms(1)]
  by (simp add: topoSort_names)

theorem topoSort_range_order_witness:
  "topoSort [''a'', ''b''] [(''a'', [''b'']), (''b'', [''a''])] =
   topoSort [''b'', ''a''] [(''b'', [''a'']), (''a'', [''b''])]"
  by (rule topoSort_range_order) simp_all

end
