(* ===== verification/Graph_Ordering.thy ===== *)
theory Graph_Ordering
  imports Topo_Sort "HOL-Library.AList"
begin

text \<open>
  The order of a Pipeline's environments: \<open>resolveSpecOrdering\<close> of \<open>pkg/graph/builder.go\<close> with the wave
  index it builds (\<open>indexWaves\<close>, \<open>lowerWave\<close>, \<open>waveDeps\<close>, \<open>defaultDeps\<close>), the edges of each environment
  with where they come from (\<open>orderEnvironments\<close>), and the message for a cycle (\<open>cycleError\<close>).

  An environment is the record of the fields the ordering reads. A Go map is an association list with
  distinct keys, updated in place (\<open>AList.update\<close>). The bookkeeping of where an edge comes from (\<open>why\<close>)
  is always returned; in the code the second of two identical passes records it.
\<close>

section \<open>Environments and waves\<close>

record EnvironmentSpec =
  env_name :: string
  DependsOn :: "string list"
  Wave :: int

record waveIndex =
  byWave :: "int \<Rightarrow> string list option"
  sorted_waves :: "int list"
  firstPos :: "int \<Rightarrow> nat option"

definition index_wave :: "waveIndex \<Rightarrow> nat \<times> EnvironmentSpec \<Rightarrow> waveIndex" where
  "index_wave w ie =
     (let (i, e) = ie in
      if Wave e \<le> 0 then w
      else let w' = (if byWave w (Wave e) = None
                     then w\<lparr>sorted_waves := sorted_waves w @ [Wave e],
                            firstPos := (firstPos w)(Wave e \<mapsto> i)\<rparr>
                     else w);
               old = (case byWave w (Wave e) of None \<Rightarrow> [] | Some ns \<Rightarrow> ns)
           in w'\<lparr>byWave := (byWave w')(Wave e \<mapsto> old @ [env_name e])\<rparr>)"

definition indexWaves :: "EnvironmentSpec list \<Rightarrow> waveIndex" where
  "indexWaves envs =
     (let w = foldl index_wave \<lparr>byWave = Map.empty, sorted_waves = [], firstPos = Map.empty\<rparr>
                (enumerate 0 envs)
      in w\<lparr>byWave := (\<lambda>n. map_option sort (byWave w n)), sorted_waves := sort (sorted_waves w)\<rparr>)"

text \<open>The loop of \<open>lowerWave\<close>: the last number before the first one that is not below \<open>bound\<close>.\<close>

fun lower_scan :: "int \<Rightarrow> int \<Rightarrow> int list \<Rightarrow> int" where
  "lower_scan bound prev [] = prev"
| "lower_scan bound prev (n # ns) = (if n \<ge> bound then prev else lower_scan bound n ns)"

definition lowerWave :: "waveIndex \<Rightarrow> EnvironmentSpec \<Rightarrow> int" where
  "lowerWave w e = (if Wave e \<le> 0 then 0 else lower_scan (Wave e) 0 (sorted_waves w))"

definition wave_names :: "waveIndex \<Rightarrow> int \<Rightarrow> string list" where
  "wave_names w n = (case byWave w n of None \<Rightarrow> [] | Some ns \<Rightarrow> ns)"

definition waveDeps :: "waveIndex \<Rightarrow> EnvironmentSpec \<Rightarrow> string list" where
  "waveDeps w e = (let prev = lowerWave w e in if prev = 0 then [] else wave_names w prev)"

definition first_pos :: "waveIndex \<Rightarrow> int \<Rightarrow> nat" where
  "first_pos w n = (case firstPos w n of None \<Rightarrow> 0 | Some i \<Rightarrow> i)"

text \<open>The backward loop of \<open>defaultDeps\<close> over the environments before position \<open>j\<close>.\<close>

fun default_scan :: "waveIndex \<Rightarrow> EnvironmentSpec list \<Rightarrow> EnvironmentSpec \<Rightarrow> nat \<Rightarrow> string list" where
  "default_scan w envs e 0 = []"
| "default_scan w envs e (Suc j) =
     (if Wave (envs ! j) > 0 then default_scan w envs e j
      else let lower = lowerWave w e
           in if lower \<noteq> 0 \<and> j < first_pos w lower then [] else [env_name (envs ! j)])"

definition defaultDeps :: "waveIndex \<Rightarrow> EnvironmentSpec list \<Rightarrow> nat \<Rightarrow> string list" where
  "defaultDeps w envs i =
     (let e = envs ! i in
      if Wave e \<le> 0
      then if i = 0 then []
           else let prev = envs ! (i - 1)
                in if Wave prev > 0 then wave_names w (Wave prev) else [env_name prev]
      else default_scan w envs e (first_pos w (Wave e)))"

section \<open>Edges and the order\<close>

datatype edgeSource = fromDependsOn | fromWave | fromListOrder

datatype build_error =
    NoEnvironments
  | UnknownDependency string string
  | CircularDependency string

text \<open>\<open>add\<close>, with \<open>merged\<close> and the sources of its members in one list.\<close>

definition add_dep :: "(string \<times> edgeSource) list \<Rightarrow> string \<times> edgeSource \<Rightarrow> (string \<times> edgeSource) list" where
  "add_dep merged d = (if fst d \<in> fst ` set merged then merged else merged @ [d])"

definition env_edges ::
  "waveIndex \<Rightarrow> EnvironmentSpec list \<Rightarrow> nat \<Rightarrow> build_error + (string \<times> edgeSource) list" where
  "env_edges w envs i =
     (let e = envs ! i;
          m0 = foldl add_dep [] (map (\<lambda>d. (d, fromWave)) (waveDeps w e))
      in case find (\<lambda>d. d \<notin> env_name ` set envs) (DependsOn e) of
           Some d \<Rightarrow> Inl (UnknownDependency (env_name e) d)
         | None \<Rightarrow>
             let m1 = foldl add_dep m0 (map (\<lambda>d. (d, fromDependsOn)) (DependsOn e))
             in Inr (if DependsOn e = []
                     then foldl add_dep m1 (map (\<lambda>d. (d, fromListOrder)) (defaultDeps w envs i))
                     else m1))"

type_synonym deps_map = "(string \<times> string list) list"
type_synonym why_map = "string \<Rightarrow> string \<Rightarrow> edgeSource option"

definition note_why :: "string \<Rightarrow> why_map \<Rightarrow> string \<times> edgeSource \<Rightarrow> why_map" where
  "note_why n why d = why(n := (why n)(fst d \<mapsto> snd d))"

fun collect_edges ::
  "waveIndex \<Rightarrow> EnvironmentSpec list \<Rightarrow> nat list \<Rightarrow> deps_map \<Rightarrow> why_map \<Rightarrow> build_error + deps_map \<times> why_map" where
  "collect_edges w envs [] deps why = Inr (deps, why)"
| "collect_edges w envs (i # is) deps why =
     (case env_edges w envs i of
        Inl err \<Rightarrow> Inl err
      | Inr edges \<Rightarrow>
          let n = env_name (envs ! i)
          in collect_edges w envs is (AList.update n (map fst edges) deps)
               (foldl (note_why n) why edges))"

datatype order_result =
    OrderError build_error
  | OrderCycle "string list" why_map
  | Ordered "string list" deps_map

definition orderEnvironments :: "EnvironmentSpec list \<Rightarrow> order_result" where
  "orderEnvironments envs =
     (if envs = [] then OrderError NoEnvironments
      else case collect_edges (indexWaves envs) envs [0..<length envs] [] (\<lambda>_. Map.empty) of
             Inl err \<Rightarrow> OrderError err
           | Inr (deps, why) \<Rightarrow>
               (case topoSort (remdups (map env_name envs)) deps of
                  Inl cycle \<Rightarrow> OrderCycle cycle why
                | Inr order \<Rightarrow> Ordered order deps))"

section \<open>The message for a cycle\<close>

definition arrow :: string where
  "arrow = [CHR '' '', CHR 0xE2, CHR 0x86, CHR 0x92, CHR '' '']"

definition wave_of :: "EnvironmentSpec list \<Rightarrow> string \<Rightarrow> int" where
  "wave_of envs n = (case map_of (rev (map (\<lambda>e. (env_name e, Wave e)) envs)) n of None \<Rightarrow> 0 | Some w \<Rightarrow> w)"

definition waveOrder :: "string list \<Rightarrow> (string \<Rightarrow> int) \<Rightarrow> string" where
  "waveOrder cycle wave =
     join '' before '' (map (\<lambda>n. ''wave '' @ int_str n) (sort (remdups (filter (\<lambda>n. n > 0) (map wave cycle)))))"

text \<open>One edge of the cycle: its reason, and whether it is a \<open>dependsOn\<close>, a wave or a list order edge
  (the zero value of \<open>edgeSource\<close>, for an edge \<open>why\<close> does not have, is \<open>fromDependsOn\<close>).\<close>

definition edge_source :: "why_map \<Rightarrow> string \<Rightarrow> string \<Rightarrow> edgeSource" where
  "edge_source why env dep = (case why env dep of None \<Rightarrow> fromDependsOn | Some s \<Rightarrow> s)"

definition edge_reason :: "why_map \<Rightarrow> (string \<Rightarrow> int) \<Rightarrow> string \<times> string \<Rightarrow> string" where
  "edge_reason why wave ed =
     (let (env, dep) = ed in
      case edge_source why env dep of
        fromDependsOn \<Rightarrow> env @ '' dependsOn '' @ dep
      | fromWave \<Rightarrow> env @ '' (wave '' @ int_str (wave env) @ '') waits for all of wave '' @
          int_str (wave dep) @ '', which includes '' @ dep
      | fromListOrder \<Rightarrow>
          if wave env > 0
          then ''wave '' @ int_str (wave env) @ '' starts after '' @ dep @ '', the environment listed before it''
          else env @ '' has no dependsOn, so it follows '' @ dep @ '', listed before it'')"

definition cycleError :: "string list \<Rightarrow> why_map \<Rightarrow> EnvironmentSpec list \<Rightarrow> build_error" where
  "cycleError cycle why envs =
     (let wave = wave_of envs;
          edges = zip cycle (tl cycle);
          reasons = map (edge_reason why wave) edges;
          reorder = map fst (filter (\<lambda>(env, dep). edge_source why env dep = fromListOrder) edges);
          hasDependsOn = list_ex (\<lambda>(env, dep). edge_source why env dep = fromDependsOn) edges;
          hasWave = list_ex (\<lambda>(env, dep). edge_source why env dep = fromWave) edges;
          fix_hint =
            (if hasDependsOn then ''remove one of the dependsOn references to break the cycle''
             else if hasWave
             then ''list the waves in ascending order ('' @ waveOrder cycle wave @ ''), or set dependsOn on '' @
                  join '' or '' reorder @ '' instead of relying on list order''
             else ''set dependsOn on '' @ join '' or '' reorder)
      in CircularDependency (''build: circular dependency in pipeline environments: '' @
           join arrow cycle @ '' (cycle!)'' @ [CHR 0x0A] @ ''  '' @ join ''; '' reasons @ [CHR 0x0A] @
           ''  Fix: '' @ fix_hint))"

definition resolveSpecOrdering ::
  "EnvironmentSpec list \<Rightarrow> build_error + string list \<times> deps_map" where
  "resolveSpecOrdering envs =
     (case orderEnvironments envs of
        OrderError err \<Rightarrow> Inl err
      | OrderCycle cycle why \<Rightarrow> Inl (cycleError cycle why envs)
      | Ordered order deps \<Rightarrow> Inr (order, deps))"

definition DetectCycle :: "EnvironmentSpec list \<Rightarrow> build_error option" where
  "DetectCycle envs = (case resolveSpecOrdering envs of Inl err \<Rightarrow> Some err | Inr _ \<Rightarrow> None)"

section \<open>The wave index\<close>

definition names_of_wave :: "EnvironmentSpec list \<Rightarrow> int \<Rightarrow> string list" where
  "names_of_wave envs n = map env_name (filter (\<lambda>e. Wave e = n) envs)"

text \<open>\<open>k\<close> is the position of the first environment of wave \<open>n\<close>.\<close>

definition first_of_wave :: "EnvironmentSpec list \<Rightarrow> int \<Rightarrow> nat \<Rightarrow> bool" where
  "first_of_wave envs n k \<longleftrightarrow> k < length envs \<and> Wave (envs ! k) = n \<and> (\<forall>j < k. Wave (envs ! j) \<noteq> n)"


lemma first_of_wave_snoc:
  "first_of_wave envs n k \<Longrightarrow> first_of_wave (envs @ [e]) n k"
  "Wave e \<notin> Wave ` set envs \<Longrightarrow> first_of_wave (envs @ [e]) (Wave e) (length envs)"
  by (auto simp: first_of_wave_def nth_append) (metis image_eqI nth_mem)

text \<open>The index after a prefix of the list.\<close>

definition index_ok :: "waveIndex \<Rightarrow> EnvironmentSpec list \<Rightarrow> bool" where
  "index_ok w envs \<longleftrightarrow>
     (\<forall>n. byWave w n = (if n > 0 \<and> names_of_wave envs n \<noteq> [] then Some (names_of_wave envs n) else None)) \<and>
     distinct (sorted_waves w) \<and> set (sorted_waves w) = {n. n > 0 \<and> n \<in> Wave ` set envs} \<and>
     (\<forall>n i. firstPos w n = Some i \<longrightarrow> first_of_wave envs n i) \<and>
     (\<forall>n. firstPos w n = None \<longleftrightarrow> byWave w n = None)"

lemma names_of_wave_Nil: "names_of_wave envs n = [] \<longleftrightarrow> n \<notin> Wave ` set envs"
  by (auto simp: names_of_wave_def filter_empty_conv)

lemma index_wave_ok:
  assumes "index_ok w envs"
  shows "index_ok (index_wave w (length envs, e)) (envs @ [e])"
proof (cases "Wave e \<le> 0")
  case True
  then show ?thesis
    using assms by (auto simp: index_ok_def index_wave_def names_of_wave_def intro: first_of_wave_snoc)
next
  case False
  have b: "byWave w (Wave e) = None \<longleftrightarrow> Wave e \<notin> Wave ` set envs"
    using assms False by (auto simp: index_ok_def names_of_wave_Nil)
  have n: "names_of_wave (envs @ [e]) m = names_of_wave envs m @ (if m = Wave e then [env_name e] else [])" for m
    by (simp add: names_of_wave_def)
  have "byWave (index_wave w (length envs, e)) m =
      (if m > 0 \<and> names_of_wave (envs @ [e]) m \<noteq> [] then Some (names_of_wave (envs @ [e]) m) else None)" for m
    using assms False by (auto simp: index_ok_def index_wave_def n Let_def)
  moreover have "distinct (sorted_waves (index_wave w (length envs, e)))"
    "set (sorted_waves (index_wave w (length envs, e))) = {m. m > 0 \<and> m \<in> Wave ` set (envs @ [e])}"
    using assms False b by (auto simp: index_ok_def index_wave_def Let_def)
  moreover have "\<forall>m i. firstPos (index_wave w (length envs, e)) m = Some i \<longrightarrow> first_of_wave (envs @ [e]) m i"
    using assms False b first_of_wave_snoc
    by (auto simp: index_ok_def index_wave_def Let_def split: if_splits)
  moreover have "\<forall>m. firstPos (index_wave w (length envs, e)) m = None \<longleftrightarrow>
      byWave (index_wave w (length envs, e)) m = None"
    using assms False by (auto simp: index_ok_def index_wave_def Let_def)
  ultimately show ?thesis unfolding index_ok_def by blast
qed

lemma index_fold_ok:
  "index_ok (foldl index_wave \<lparr>byWave = Map.empty, sorted_waves = [], firstPos = Map.empty\<rparr>
     (enumerate 0 envs)) envs"
proof (induction envs rule: rev_induct)
  case Nil
  then show ?case by (simp add: index_ok_def names_of_wave_def)
next
  case (snoc e envs)
  then show ?case using index_wave_ok by (simp add: enumerate_append_eq)
qed

lemma indexWaves_spec:
  "n > 0 \<Longrightarrow> set (wave_names (indexWaves envs) n) = env_name ` {e \<in> set envs. Wave e = n}"
  "sorted (sorted_waves (indexWaves envs)) \<and> distinct (sorted_waves (indexWaves envs))"
  "set (sorted_waves (indexWaves envs)) = {n. n > 0 \<and> n \<in> Wave ` set envs}"
  "firstPos (indexWaves envs) n = Some i \<Longrightarrow> first_of_wave envs n i"
  "n > 0 \<Longrightarrow> n \<in> Wave ` set envs \<Longrightarrow> firstPos (indexWaves envs) n \<noteq> None"
proof -
  let ?w = "foldl index_wave \<lparr>byWave = Map.empty, sorted_waves = [], firstPos = Map.empty\<rparr> (enumerate 0 envs)"
  have w: "wave_names (indexWaves envs) n = (case byWave ?w n of None \<Rightarrow> [] | Some ns \<Rightarrow> sort ns)" for n
    by (simp add: indexWaves_def wave_names_def Let_def split: option.split)
  have s: "sorted_waves (indexWaves envs) = sort (sorted_waves ?w)" "firstPos (indexWaves envs) = firstPos ?w"
    by (simp_all add: indexWaves_def Let_def)
  have ok: "index_ok ?w envs" by (rule index_fold_ok)
  show "set (wave_names (indexWaves envs) n) = env_name ` {e \<in> set envs. Wave e = n}" if "n > 0"
  proof -
    have "set (wave_names (indexWaves envs) n) = set (names_of_wave envs n)"
      using ok that unfolding w index_ok_def by auto
    then show ?thesis by (auto simp: names_of_wave_def)
  qed
  show "sorted (sorted_waves (indexWaves envs)) \<and> distinct (sorted_waves (indexWaves envs))"
    "set (sorted_waves (indexWaves envs)) = {n. n > 0 \<and> n \<in> Wave ` set envs}"
    "firstPos (indexWaves envs) n = Some i \<Longrightarrow> first_of_wave envs n i"
    "n > 0 \<Longrightarrow> n \<in> Wave ` set envs \<Longrightarrow> firstPos (indexWaves envs) n \<noteq> None"
    using ok unfolding s index_ok_def by (auto simp: names_of_wave_Nil)
qed


lemma wave_names_subset: "n > 0 \<Longrightarrow> set (wave_names (indexWaves envs) n) \<subseteq> env_name ` set envs"
  by (auto simp: indexWaves_spec(1))

lemma lower_scan_spec:
  "sorted_wrt (<) ns \<Longrightarrow> \<forall>n \<in> set ns. prev < n \<Longrightarrow>
   (\<forall>n \<in> set ns. n < b \<longrightarrow> n \<le> lower_scan b prev ns) \<and> prev \<le> lower_scan b prev ns \<and>
   (lower_scan b prev ns = prev \<or> lower_scan b prev ns \<in> set ns \<and> lower_scan b prev ns < b)"
proof (induction ns arbitrary: prev)
  case (Cons n ns)
  show ?case
  proof (cases "n \<ge> b")
    case True
    then show ?thesis using Cons.prems by force
  next
    case False
    then show ?thesis using Cons.IH [of n] Cons.prems by force
  qed
qed simp

text \<open>The wave below: the highest wave with a number under \<open>e\<close>'s, or 0.\<close>

lemma lowerWave_spec:
  assumes "Wave e > 0" "w = indexWaves envs"
  shows "f \<in> set envs \<Longrightarrow> 0 < Wave f \<Longrightarrow> Wave f < Wave e \<Longrightarrow> Wave f \<le> lowerWave w e"
    and "lowerWave w e = 0 \<or> 0 < lowerWave w e \<and> lowerWave w e < Wave e \<and> lowerWave w e \<in> Wave ` set envs"
proof -
  have "sorted_wrt (<) (sorted_waves w)" "\<forall>n \<in> set (sorted_waves w). 0 < n"
    using indexWaves_spec(2,3) [of envs] assms(2) by (auto simp: strict_sorted_iff)
  note l = lower_scan_spec [OF this, of "Wave e"]
  show "f \<in> set envs \<Longrightarrow> 0 < Wave f \<Longrightarrow> Wave f < Wave e \<Longrightarrow> Wave f \<le> lowerWave w e"
    "lowerWave w e = 0 \<or> 0 < lowerWave w e \<and> lowerWave w e < Wave e \<and> lowerWave w e \<in> Wave ` set envs"
    using l assms indexWaves_spec(3) [of envs] by (auto simp: lowerWave_def)
qed



section \<open>The edges of a Pipeline\<close>







lemma add_dep_fold: "fst ` set (foldl add_dep acc ds) = fst ` set acc \<union> fst ` set ds"
  by (induction ds arbitrary: acc) (auto simp: add_dep_def)

lemma env_edges_Inr:
  assumes "env_edges w envs i = Inr edges"
  shows "fst ` set edges = set (waveDeps w (envs ! i)) \<union> set (DependsOn (envs ! i)) \<union>
      (if DependsOn (envs ! i) = [] then set (defaultDeps w envs i) else {})"
    and "set (DependsOn (envs ! i)) \<subseteq> env_name ` set envs"
proof -
  let ?e = "envs ! i"
  let ?m0 = "foldl add_dep [] (map (\<lambda>d. (d, fromWave)) (waveDeps w ?e))"
  let ?m1 = "foldl add_dep ?m0 (map (\<lambda>d. (d, fromDependsOn)) (DependsOn ?e))"
  have f: "find (\<lambda>d. d \<notin> env_name ` set envs) (DependsOn ?e) = None"
    and e: "edges = (if DependsOn ?e = []
      then foldl add_dep ?m1 (map (\<lambda>d. (d, fromListOrder)) (defaultDeps w envs i)) else ?m1)"
    using assms by (auto simp: env_edges_def Let_def split: option.splits)
  show "fst ` set edges = set (waveDeps w ?e) \<union> set (DependsOn ?e) \<union>
      (if DependsOn ?e = [] then set (defaultDeps w envs i) else {})"
    unfolding e by (simp add: add_dep_fold image_image)
  show "set (DependsOn ?e) \<subseteq> env_name ` set envs" using f by (auto simp: find_None_iff)
qed

lemma env_edges_Inl:
  "env_edges w envs i = Inl err \<longleftrightarrow> (\<exists>d. find (\<lambda>d. d \<notin> env_name ` set envs) (DependsOn (envs ! i)) = Some d \<and>
     err = UnknownDependency (env_name (envs ! i)) d)"
  by (auto simp: env_edges_def Let_def split: option.splits)

lemma waveDeps_names: "set (waveDeps (indexWaves envs) e) \<subseteq> env_name ` set envs"
proof (cases "Wave e > 0")
  case True
  then show ?thesis
    using lowerWave_spec(2) [OF True refl, of envs] wave_names_subset [of _ envs]
    by (auto simp: waveDeps_def Let_def)
qed (simp add: waveDeps_def lowerWave_def)

lemma default_scan_names: "j \<le> length envs \<Longrightarrow> set (default_scan w envs e j) \<subseteq> env_name ` set envs"
  by (induction j) (auto simp: Let_def)

lemma defaultDeps_names:
  assumes "i < length envs"
  shows "set (defaultDeps (indexWaves envs) envs i) \<subseteq> env_name ` set envs"
proof -
  have "first_pos (indexWaves envs) n \<le> length envs" for n
    using indexWaves_spec(4) [of envs n] by (auto simp: first_pos_def first_of_wave_def split: option.splits)
  then show ?thesis
    using assms default_scan_names wave_names_subset [of _ envs] nth_mem [of "i - 1" envs]
    by (auto simp: defaultDeps_def Let_def split: if_splits)
qed

lemma env_edges_closed:
  assumes "i < length envs" "env_edges (indexWaves envs) envs i = Inr edges"
  shows "fst ` set edges \<subseteq> env_name ` set envs"
  using env_edges_Inr [OF assms(2)] waveDeps_names [of envs] defaultDeps_names [OF assms(1)]
  by (auto split: if_splits)

lemma collect_edges_Inr:
  assumes "collect_edges w envs is deps why = Inr (deps', why')" "distinct (map (\<lambda>i. env_name (envs ! i)) is)"
  shows "(\<forall>i \<in> set is. \<exists>edges. env_edges w envs i = Inr edges \<and>
       map_of deps' (env_name (envs ! i)) = Some (map fst edges)) \<and>
     (\<forall>n. n \<notin> (\<lambda>i. env_name (envs ! i)) ` set is \<longrightarrow> map_of deps' n = map_of deps n) \<and>
     (distinct (map fst deps) \<longrightarrow> distinct (map fst deps')) \<and>
     fst ` set deps' = fst ` set deps \<union> (\<lambda>i. env_name (envs ! i)) ` set is"
  using assms
proof (induction "is" arbitrary: deps why)
  case (Cons i "is")
  obtain edges where e: "env_edges w envs i = Inr edges"
    using Cons.prems(1) by (cases "env_edges w envs i") auto
  let ?n = "env_name (envs ! i)"
  let ?d = "AList.update ?n (map fst edges) deps"
  note IH = Cons.IH [of ?d "foldl (note_why ?n) why edges"]
  show ?case using IH Cons.prems e
    by (auto simp: Let_def update_conv' dom_update distinct_update image_iff)
qed simp

lemma collect_edges_Inl:
  "(\<exists>err. collect_edges w envs is deps why = Inl err) \<longleftrightarrow>
   (\<exists>i \<in> set is. \<not> set (DependsOn (envs ! i)) \<subseteq> env_name ` set envs)"
proof (induction "is" arbitrary: deps why)
  case (Cons i "is")
  show ?case
  proof (cases "env_edges w envs i")
    case (Inl err)
    then have "\<not> set (DependsOn (envs ! i)) \<subseteq> env_name ` set envs"
      by (auto simp: env_edges_Inl find_Some_iff) (meson nth_mem subsetD)
    then show ?thesis using Inl by auto
  next
    case (Inr edges)
    then show ?thesis using Cons.IH env_edges_Inr(2) [OF Inr] by (simp add: Let_def)
  qed
qed simp

lemma names_nth: "map (\<lambda>i. env_name (envs ! i)) [0..<length envs] = map env_name envs"
  by (rule nth_equalityI) simp_all

text \<open>What a successful resolution has done, for distinct environment names.\<close>

lemma resolve_Inr:
  assumes d: "distinct (map env_name envs)" and r: "resolveSpecOrdering envs = Inr (order, deps)"
  shows "topoSort (map env_name envs) deps = Inr order" "distinct (map fst deps)"
    "\<And>i. i < length envs \<Longrightarrow> \<exists>edges. env_edges (indexWaves envs) envs i = Inr edges \<and>
       lookup_list deps (env_name (envs ! i)) = map fst edges"
proof -
  obtain why where c: "collect_edges (indexWaves envs) envs [0..<length envs] [] (\<lambda>_. Map.empty) = Inr (deps, why)"
    and "topoSort (remdups (map env_name envs)) deps = Inr order"
    using r by (auto simp: resolveSpecOrdering_def orderEnvironments_def split: if_splits sum.splits prod.splits)
  then show "topoSort (map env_name envs) deps = Inr order" using distinct_remdups_id [OF d] by simp
  have di: "distinct (map (\<lambda>i. env_name (envs ! i)) [0..<length envs])" unfolding names_nth by (rule d)
  note ce = collect_edges_Inr [OF c di]
  show "distinct (map fst deps)" using ce by simp
  show "\<exists>edges. env_edges (indexWaves envs) envs i = Inr edges \<and>
      lookup_list deps (env_name (envs ! i)) = map fst edges" if "i < length envs" for i
  proof -
    have "i \<in> set [0..<length envs]" using that by simp
    then obtain edges where "env_edges (indexWaves envs) envs i = Inr edges"
        "map_of deps (env_name (envs ! i)) = Some (map fst edges)"
      using conjunct1 [OF ce] by blast
    then show ?thesis by (simp add: lookup_list_def)
  qed
qed

text \<open>\<open>before\<close>: \<open>d\<close> stands before \<open>n\<close> in the order.\<close>

definition before :: "string list \<Rightarrow> string \<Rightarrow> string \<Rightarrow> bool" where
  "before order d n \<longleftrightarrow> (\<exists>i j. i < j \<and> j < length order \<and> order ! i = d \<and> order ! j = n)"

lemma before_trans:
  assumes "distinct order" "before order a b" "before order b c"
  shows "before order a c"
proof -
  obtain i j j' k where "i < j" "j < length order" "order ! i = a" "order ! j = b"
      "j' < k" "k < length order" "order ! j' = b" "order ! k = c"
    using assms(2,3) unfolding before_def by blast
  moreover from this have "j = j'" using nth_eq_iff_index_eq [OF assms(1), of j j'] by simp
  ultimately have "i < k \<and> k < length order \<and> order ! i = a \<and> order ! k = c" by simp
  then show ?thesis unfolding before_def by blast
qed

lemma deps_first_before:
  assumes "deps_first nodes deps order" "mset order = mset nodes" "distinct (map fst deps)"
    and "n \<in> set nodes" "d \<in> set nodes" "d \<in> set (lookup_list deps n)"
  shows "before order d n"
proof -
  have "n \<in> set order" using assms(2,4) by (metis set_mset_mset)
  then obtain j where j: "j < length order" "order ! j = n" by (auto simp: in_set_conv_nth)
  have "d \<in> set (take j order)"
    using assms(1,5,6) j edges_lookup [OF assms(3), of n d] by (auto simp: deps_first_def)
  then obtain i where "i < j" "order ! i = d" using j by (auto simp: in_set_conv_nth)
  then show ?thesis using j by (auto simp: before_def)
qed

text \<open>Every edge of an environment is respected by the order.\<close>

lemma resolve_edges_before:
  assumes d: "distinct (map env_name envs)" and r: "resolveSpecOrdering envs = Inr (order, deps)"
    and i: "i < length envs" and e: "env_edges (indexWaves envs) envs i = Inr edges" "x \<in> fst ` set edges"
  shows "before order x (env_name (envs ! i))"
proof -
  note R = resolve_Inr [OF d r]
  have t: "mset order = mset (map env_name envs)" "deps_first (map env_name envs) deps order"
    using topoSort_facts [OF d R(1)] by auto
  show ?thesis
    by (rule deps_first_before [OF t(2,1) R(2)])
      (use i e env_edges_closed [OF i e(1)] R(3) [OF i] in auto)
qed

section \<open>Waves as barriers\<close>

lemma wave_step:
  assumes "distinct (map env_name envs)" "resolveSpecOrdering envs = Inr (order, deps)"
    and "f \<in> set envs" "g \<in> set envs" "0 < Wave f" "Wave g = lowerWave (indexWaves envs) f" "0 < Wave g"
  shows "before order (env_name g) (env_name f)"
proof -
  obtain i where i: "i < length envs" "envs ! i = f" using assms(3) by (auto simp: in_set_conv_nth)
  obtain edges where e: "env_edges (indexWaves envs) envs i = Inr edges"
    using resolve_Inr(3) [OF assms(1,2) i(1)] by blast
  have "env_name g \<in> set (waveDeps (indexWaves envs) f)"
    using assms(4,6,7) by (auto simp: waveDeps_def Let_def indexWaves_spec(1))
  then have "env_name g \<in> fst ` set edges" using env_edges_Inr(1) [OF e] i(2) by auto
  from resolve_edges_before [OF assms(1,2) i(1) e this] show ?thesis using i(2) by simp
qed

lemma wave_barrier_aux:
  assumes d: "distinct (map env_name envs)" and r: "resolveSpecOrdering envs = Inr (order, deps)"
  shows "e \<in> set envs \<Longrightarrow> f \<in> set envs \<Longrightarrow> 0 < Wave e \<Longrightarrow> Wave e < Wave f \<Longrightarrow>
    before order (env_name e) (env_name f)"
proof (induction "nat (Wave f)" arbitrary: f rule: less_induct)
  case less
  let ?p = "lowerWave (indexWaves envs) f"
  have f: "0 < Wave f" using less.prems by simp
  have le: "Wave e \<le> ?p" using lowerWave_spec(1) [OF f refl, of e envs] less.prems by simp
  then obtain g where g: "g \<in> set envs" "Wave g = ?p" and lt: "?p < Wave f"
    using lowerWave_spec(2) [OF f refl, of envs] less.prems(3) by auto
  have gf: "before order (env_name h) (env_name f)" if "h \<in> set envs" "Wave h = ?p" for h
    using wave_step [OF d r less.prems(2) that(1) f that(2)] that(2) le less.prems(3) by simp
  show ?case
  proof (cases "Wave e = ?p")
    case True
    then show ?thesis using gf less.prems(1) by simp
  next
    case False
    then have "before order (env_name e) (env_name g)"
      using less.hyps [of g] g lt le less.prems(1,3) f by simp
    moreover have "distinct order"
      using topoSort_facts(1) [OF d resolve_Inr(1) [OF d r]] d by (metis mset_eq_imp_distinct_iff)
    ultimately show ?thesis using before_trans gf g by blast
  qed
qed

section \<open>The refusals\<close>

text \<open>The edges of all environments, as one map.\<close>

definition edge_map :: "EnvironmentSpec list \<Rightarrow> deps_map" where
  "edge_map envs = map (\<lambda>i. (env_name (envs ! i),
     case env_edges (indexWaves envs) envs i of Inl _ \<Rightarrow> [] | Inr edges \<Rightarrow> map fst edges)) [0..<length envs]"

lemma edge_map_lookup:
  assumes "distinct (map env_name envs)" "i < length envs" "env_edges (indexWaves envs) envs i = Inr edges"
  shows "lookup_list (edge_map envs) (env_name (envs ! i)) = map fst edges" "distinct (map fst (edge_map envs))"
proof -
  show d: "distinct (map fst (edge_map envs))"
    using assms(1) names_nth [of envs] by (simp add: edge_map_def comp_def)
  have "(env_name (envs ! i), map fst edges) \<in> set (edge_map envs)"
    using assms(2,3) by (force simp: edge_map_def)
  then show "lookup_list (edge_map envs) (env_name (envs ! i)) = map fst edges"
    using d by (simp add: lookup_list_def map_of_is_SomeI)
qed

lemma collect_dep_rel:
  assumes d: "distinct (map env_name envs)"
    and c: "collect_edges (indexWaves envs) envs [0..<length envs] [] (\<lambda>_. Map.empty) = Inr (deps, why)"
  shows "dep_rel (map env_name envs) deps = dep_rel (map env_name envs) (edge_map envs)"
proof -
  have di: "distinct (map (\<lambda>i. env_name (envs ! i)) [0..<length envs])" unfolding names_nth by (rule d)
  note ce = collect_edges_Inr [OF c di]
  have "(n, x) \<in> set (edges_of deps) \<longleftrightarrow> (n, x) \<in> set (edges_of (edge_map envs))"
    if n: "n \<in> env_name ` set envs" for n x
  proof -
    obtain i where i: "i < length envs" "n = env_name (envs ! i)" using n by (auto simp: in_set_conv_nth)
    then have "i \<in> set [0..<length envs]" by simp
    then obtain edges where e: "env_edges (indexWaves envs) envs i = Inr edges"
        "map_of deps n = Some (map fst edges)"
      using conjunct1 [OF ce] i(2) by blast
    have "distinct (map fst deps)" using ce by simp
    then show ?thesis
      using edge_map_lookup [OF d i(1) e(1)] e(2) i(2) by (simp add: edges_lookup lookup_list_def)
  qed
  then show ?thesis by (auto simp: dep_rel_def)
qed

section \<open>Properties\<close>



text \<open>A wave is a barrier: in the resolved order every environment of a wave comes after every
  environment of every lower wave, whatever the numbering (gaps included) and the list order.\<close>

theorem wave_barrier:
  assumes "distinct (map env_name envs)" "resolveSpecOrdering envs = Inr (order, deps)"
    and "e \<in> set envs" "f \<in> set envs" "0 < Wave e" "Wave e < Wave f"
  shows "before order (env_name e) (env_name f)"
  by (rule wave_barrier_aux [OF assms])

theorem wave_barrier_witness:
  "before [''a'', ''b'', ''c''] ''a'' ''c''"
proof -
  let ?envs = "[\<lparr>env_name = ''a'', DependsOn = [], Wave = 10\<rparr>, \<lparr>env_name = ''b'', DependsOn = [], Wave = 20\<rparr>,
    \<lparr>env_name = ''c'', DependsOn = [], Wave = 30\<rparr>]"
  have "resolveSpecOrdering ?envs = Inr ([''a'', ''b'', ''c''], [(''a'', []), (''b'', [''a'']), (''c'', [''b''])])"
    by code_simp
  from wave_barrier [OF _ this, of "?envs ! 0" "?envs ! 2"] show ?thesis by simp
qed

text \<open>C6. \<open>resolveSpecOrdering\<close> refuses a Pipeline of distinct environment names for exactly three
  reasons: it has no environments, an environment depends on a name that is no environment, or the edges
  form a cycle. \<open>DetectCycle\<close> reports an error in exactly these cases.\<close>

theorem resolveSpecOrdering_refuses:
  assumes "distinct (map env_name envs)"
  shows "(DetectCycle envs \<noteq> None) \<longleftrightarrow>
    envs = [] \<or> (\<exists>e \<in> set envs. \<not> set (DependsOn e) \<subseteq> env_name ` set envs) \<or>
    \<not> acyclic (dep_rel (map env_name envs) (edge_map envs))"
proof (cases "collect_edges (indexWaves envs) envs [0..<length envs] [] (\<lambda>_. Map.empty)")
  case (Inl err)
  then have "\<exists>i < length envs. \<not> set (DependsOn (envs ! i)) \<subseteq> env_name ` set envs"
    using collect_edges_Inl [of "indexWaves envs" envs "[0..<length envs]" "[]" "\<lambda>_. Map.empty"] by auto
  then have "\<exists>e \<in> set envs. \<not> set (DependsOn e) \<subseteq> env_name ` set envs" by (meson nth_mem)
  then show ?thesis
    using Inl by (auto simp: DetectCycle_def resolveSpecOrdering_def orderEnvironments_def)
next
  case (Inr p)
  obtain deps why where p: "p = (deps, why)" by force
  have "\<not> (\<exists>e \<in> set envs. \<not> set (DependsOn e) \<subseteq> env_name ` set envs)"
    using collect_edges_Inl [of "indexWaves envs" envs "[0..<length envs]" "[]" "\<lambda>_. Map.empty"] Inr
    by (metis atLeastLessThan_iff in_set_conv_nth le0 set_upt sum.distinct(1))
  moreover have "dep_rel (map env_name envs) deps = dep_rel (map env_name envs) (edge_map envs)"
    using collect_dep_rel [OF assms] Inr p by simp
  moreover have "(\<exists>order. topoSort (map env_name envs) deps = Inr order) \<longleftrightarrow>
      acyclic (dep_rel (map env_name envs) deps)"
    by (rule topoSort_acyclic [OF assms])
  ultimately show ?thesis
    using Inr p
    by (cases "topoSort (map env_name envs) deps")
      (auto simp: distinct_remdups_id [OF assms] DetectCycle_def resolveSpecOrdering_def orderEnvironments_def)
qed

theorem resolveSpecOrdering_refuses_witness:
  "DetectCycle [\<lparr>env_name = ''a'', DependsOn = [''x''], Wave = 0\<rparr>] \<noteq> None"
  using resolveSpecOrdering_refuses [of "[\<lparr>env_name = ''a'', DependsOn = [''x''], Wave = 0\<rparr>]"] by simp

end
