(* ===== verification/Graph_Fleet.thy ===== *)
theory Graph_Fleet
  imports Graph_Ordering
begin

text \<open>
  Fleet environments, \<open>pkg/graph/fleet.go\<close>: an environment with a fleet stands for its targets, each an
  environment of its own. \<open>fleetMembers\<close> resolves the targets of every fleet, \<open>expandFleets\<close> replaces the
  fleets in the order and the dependencies, \<open>resolveOrdering\<close> (\<open>pkg/graph/builder.go\<close>) composes the two.

  The Kubernetes libraries the code calls are arguments: \<open>matches\<close> (the label selector of
  \<open>metav1.LabelSelectorAsSelector\<close>, \<open>None\<close> when it is invalid), \<open>is_dns_label\<close>
  (\<open>validation.IsDNS1123Label\<close> has no complaint) and \<open>scaled\<close> (\<open>intstr.GetScaledValueFromIntOrPercent\<close>
  rounding up, \<open>None\<close> on an error).
\<close>

section \<open>Data\<close>

type_synonym labels = "(string \<times> string) list"

record FleetTarget =
  ft_name :: string
  ft_path :: string
  ft_labels :: labels
  ft_health :: "string option"

record FleetSelector =
  sel_kind :: string
  sel_labels :: string

datatype IntOrString = IntVal int | StrVal string

record FleetSpec =
  Selector :: "FleetSelector option"
  Targets :: "FleetTarget list"
  MaxConcurrent :: int
  MaxUnavailable :: "IntOrString option"

record FleetEnv = EnvironmentSpec +
  Fleet :: "FleetSpec option"
  Path :: string
  Health :: string

record FleetStatus =
  fs_environment :: string
  fs_targets :: "FleetTarget list"
  fs_message :: string

record Pipeline =
  p_name :: string
  Environments :: "FleetEnv list"
  PausedFleets :: "string list"
  Fleets :: "FleetStatus list"
  Holds :: "(string \<times> string) list"

record fleetMember =
  fleet :: string
  index :: nat
  maxConcurrent :: int
  maxUnavailable :: int
  paused :: bool
  spec :: FleetEnv

datatype fleet_error =
    BadSelector string
  | SelectorFailed string string
  | SelectorUnresolved string
  | NoTargets string
  | BadMaxUnavailable string
  | NotDNSLabel string string
  | NameTaken string string
  | OrderingError build_error

section \<open>\<open>path.Join\<close>\<close>

text \<open>\<open>path.Clean\<close> on the elements of a path; \<open>rooted\<close> paths drop leading \<open>..\<close>.\<close>

fun clean_elems :: "bool \<Rightarrow> string list \<Rightarrow> string list \<Rightarrow> string list" where
  "clean_elems rooted out [] = out"
| "clean_elems rooted out (e # es) =
     (if e = '''' \<or> e = ''.'' then clean_elems rooted out es
      else if e = ''..''
      then if out \<noteq> [] \<and> last out \<noteq> ''..'' then clean_elems rooted (butlast out) es
           else if rooted then clean_elems rooted out es
           else clean_elems rooted (out @ [e]) es
      else clean_elems rooted (out @ [e]) es)"

definition path_clean :: "string \<Rightarrow> string" where
  "path_clean p =
     (if p = '''' then ''.''
      else let rooted = has_prefix p ''/'';
               body = join ''/'' (clean_elems rooted [] (split_on CHR ''/'' p))
           in if rooted then CHR ''/'' # body else if body = '''' then ''.'' else body)"

definition path_join :: "string list \<Rightarrow> string" where
  "path_join elems =
     (let es = filter (\<lambda>e. e \<noteq> '''') elems
      in if es = [] then '''' else path_clean (join ''/'' es))"

section \<open>Operations\<close>

definition FleetTargetName :: "string \<Rightarrow> string \<Rightarrow> string" where
  "FleetTargetName env target = env @ ''-'' @ target"

definition FleetSelectorTarget :: string where
  "FleetSelectorTarget = ''Target''"

definition fleetTargets ::
  "(string \<Rightarrow> (labels \<Rightarrow> bool) option) \<Rightarrow> Pipeline \<Rightarrow> FleetEnv \<Rightarrow> fleet_error + FleetTarget list" where
  "fleetTargets matches p env =
     (case Fleet env of
        None \<Rightarrow> Inr []
      | Some f \<Rightarrow>
          (case Selector f of
             None \<Rightarrow> Inr (Targets f)
           | Some sel \<Rightarrow>
               if sel_kind sel = FleetSelectorTarget
               then (case matches (sel_labels sel) of
                       None \<Rightarrow> Inl (BadSelector (env_name env))
                     | Some ls \<Rightarrow> Inr (filter (\<lambda>t. ls (ft_labels t)) (Targets f)))
               else (case find (\<lambda>s. fs_environment s = env_name env) (Fleets p) of
                       None \<Rightarrow> Inl (SelectorUnresolved (env_name env))
                     | Some s \<Rightarrow>
                         if fs_targets s = [] \<and> fs_message s \<noteq> ''''
                         then Inl (SelectorFailed (env_name env) (fs_message s))
                         else Inr (fs_targets s))))"

definition MaxUnavailableCount ::
  "(IntOrString \<Rightarrow> int \<Rightarrow> int option) \<Rightarrow> IntOrString option \<Rightarrow> int \<Rightarrow> int option" where
  "MaxUnavailableCount scaled v size_n =
     (case v of
        None \<Rightarrow> Some 0
      | Some x \<Rightarrow>
          (case scaled x size_n of
             None \<Rightarrow> None
           | Some n \<Rightarrow>
               (case x of
                  IntVal _ \<Rightarrow> if n < 1 then None else Some n
                | StrVal _ \<Rightarrow> if n < 1 then Some 1 else Some n)))"

text \<open>The entries of \<open>spec.pausedFleets\<close> that name no fleet; \<open>ValidatePausedFleets\<close> is an error exactly
  when there is one.\<close>

definition ValidatePausedFleets :: "Pipeline \<Rightarrow> string list" where
  "ValidatePausedFleets p =
     filter (\<lambda>f. f \<notin> env_name ` {e \<in> set (Environments p). Fleet e \<noteq> None}) (PausedFleets p)"

definition target_spec :: "FleetEnv \<Rightarrow> string \<Rightarrow> FleetTarget \<Rightarrow> FleetEnv" where
  "target_spec e name t =
     (let base = (if Path e = '''' then ''environments/'' @ env_name e else Path e)
      in e\<lparr>env_name := name, Fleet := None,
           Path := (if ft_path t = '''' then path_join [base, ft_name t] else ft_path t),
           Health := (case ft_health t of None \<Rightarrow> Health e | Some h \<Rightarrow> h)\<rparr>)"

text \<open>The state of the loops of \<open>fleetMembers\<close>: \<open>members\<close>, \<open>byFleet\<close> and the names in use.\<close>

type_synonym fleet_state = "(string \<times> fleetMember) list \<times> (string \<times> string list) list \<times> string list"

fun add_targets ::
  "(string \<Rightarrow> bool) \<Rightarrow> FleetEnv \<Rightarrow> int \<Rightarrow> int \<Rightarrow> bool \<Rightarrow> (nat \<times> FleetTarget) list \<Rightarrow> fleet_state \<Rightarrow>
   fleet_error + fleet_state" where
  "add_targets is_dns_label e mc mu ps [] st = Inr st"
| "add_targets is_dns_label e mc mu ps ((i, t) # ts) st =
     (let (members, byFleet, names) = st;
          name = FleetTargetName (env_name e) (ft_name t)
      in if \<not> is_dns_label name then Inl (NotDNSLabel (env_name e) (ft_name t))
         else if name \<in> set names then Inl (NameTaken (env_name e) (ft_name t))
         else add_targets is_dns_label e mc mu ps ts
           (AList.update name \<lparr>fleet = env_name e, index = i, maxConcurrent = mc, maxUnavailable = mu,
              paused = ps, spec = target_spec e name t\<rparr> members,
            AList.update (env_name e) (lookup_list byFleet (env_name e) @ [name]) byFleet,
            names @ [name]))"

fun add_fleets ::
  "(string \<Rightarrow> (labels \<Rightarrow> bool) option) \<Rightarrow> (string \<Rightarrow> bool) \<Rightarrow> (IntOrString \<Rightarrow> int \<Rightarrow> int option) \<Rightarrow>
   Pipeline \<Rightarrow> FleetEnv list \<Rightarrow> fleet_state \<Rightarrow> fleet_error + fleet_state" where
  "add_fleets matches is_dns_label scaled p [] st = Inr st"
| "add_fleets matches is_dns_label scaled p (e # es) st =
     (case Fleet e of
        None \<Rightarrow> add_fleets matches is_dns_label scaled p es st
      | Some f \<Rightarrow>
          (case fleetTargets matches p e of
             Inl err \<Rightarrow> Inl err
           | Inr ts \<Rightarrow>
               if ts = [] then Inl (NoTargets (env_name e))
               else (case MaxUnavailableCount scaled (MaxUnavailable f) (int (length ts)) of
                       None \<Rightarrow> Inl (BadMaxUnavailable (env_name e))
                     | Some mu \<Rightarrow>
                         let ps = (env_name e \<in> set (PausedFleets p) \<or> ValidatePausedFleets p \<noteq> [])
                         in (case add_targets is_dns_label e (MaxConcurrent f) mu ps (enumerate 0 ts) st of
                               Inl err \<Rightarrow> Inl err
                             | Inr st' \<Rightarrow> add_fleets matches is_dns_label scaled p es st'))))"

definition fleetMembers ::
  "(string \<Rightarrow> (labels \<Rightarrow> bool) option) \<Rightarrow> (string \<Rightarrow> bool) \<Rightarrow> (IntOrString \<Rightarrow> int \<Rightarrow> int option) \<Rightarrow>
   Pipeline \<Rightarrow> fleet_error + (string \<times> fleetMember) list \<times> (string \<times> string list) list" where
  "fleetMembers matches is_dns_label scaled p =
     (case add_fleets matches is_dns_label scaled p (Environments p)
             ([], [], map env_name (Environments p)) of
        Inl err \<Rightarrow> Inl err
      | Inr (members, byFleet, names) \<Rightarrow> Inr (members, byFleet))"

definition mapDeps :: "(string \<times> string list) list \<Rightarrow> string list \<Rightarrow> string list" where
  "mapDeps byFleet ds = concat (map (\<lambda>d. case map_of byFleet d of None \<Rightarrow> [d] | Some ts \<Rightarrow> ts) ds)"

definition expand_env ::
  "deps_map \<Rightarrow> (string \<times> string list) list \<Rightarrow> string list \<times> deps_map \<Rightarrow> string \<Rightarrow> string list \<times> deps_map" where
  "expand_env deps byFleet st env =
     (let ds = mapDeps byFleet (lookup_list deps env) in
      case map_of byFleet env of
        None \<Rightarrow> (fst st @ [env], AList.update env ds (snd st))
      | Some ts \<Rightarrow> (fst st @ ts, foldl (\<lambda>m t. AList.update t ds m) (snd st) ts))"

definition expandFleets ::
  "string list \<Rightarrow> deps_map \<Rightarrow> (string \<times> string list) list \<Rightarrow> string list \<times> deps_map" where
  "expandFleets ordered deps byFleet =
     (if byFleet = [] then (ordered, deps)
      else let (order, expanded) = foldl (expand_env deps byFleet) ([], []) ordered
           in (order, foldl (\<lambda>m (f, ts). AList.update f ts m) expanded byFleet))"

definition isFleetName :: "string list \<Rightarrow> deps_map \<Rightarrow> string \<Rightarrow> bool" where
  "isFleetName ordered deps name = (map_of deps name \<noteq> None \<and> name \<notin> set ordered)"

definition hasFleets :: "Pipeline \<Rightarrow> bool" where
  "hasFleets p = list_ex (\<lambda>e. Fleet e \<noteq> None) (Environments p)"

definition resolveOrdering ::
  "(string \<Rightarrow> (labels \<Rightarrow> bool) option) \<Rightarrow> (string \<Rightarrow> bool) \<Rightarrow> (IntOrString \<Rightarrow> int \<Rightarrow> int option) \<Rightarrow>
   Pipeline \<Rightarrow> fleet_error + string list \<times> deps_map" where
  "resolveOrdering matches is_dns_label scaled p =
     (case resolveSpecOrdering (map EnvironmentSpec.truncate (Environments p)) of
        Inl err \<Rightarrow> Inl (OrderingError err)
      | Inr (ordered, deps) \<Rightarrow>
          if \<not> hasFleets p then Inr (ordered, deps)
          else (case fleetMembers matches is_dns_label scaled p of
                  Inl err \<Rightarrow> Inl err
                | Inr (members, byFleet) \<Rightarrow> Inr (expandFleets ordered deps byFleet)))"

definition EnvironmentSpecFor ::
  "(string \<Rightarrow> (labels \<Rightarrow> bool) option) \<Rightarrow> (string \<Rightarrow> bool) \<Rightarrow> (IntOrString \<Rightarrow> int \<Rightarrow> int option) \<Rightarrow>
   Pipeline \<Rightarrow> string \<Rightarrow> FleetEnv option" where
  "EnvironmentSpecFor matches is_dns_label scaled p name =
     (case find (\<lambda>e. env_name e = name \<and> Fleet e = None) (Environments p) of
        Some e \<Rightarrow> Some e
      | None \<Rightarrow>
          (case fleetMembers matches is_dns_label scaled p of
             Inl _ \<Rightarrow> None
           | Inr (members, _) \<Rightarrow> map_option spec (map_of members name)))"

definition ExpandedEnvironments ::
  "(string \<Rightarrow> (labels \<Rightarrow> bool) option) \<Rightarrow> (string \<Rightarrow> bool) \<Rightarrow> (IntOrString \<Rightarrow> int \<Rightarrow> int option) \<Rightarrow>
   Pipeline \<Rightarrow> FleetEnv list" where
  "ExpandedEnvironments matches is_dns_label scaled p =
     concat (map (\<lambda>e.
       if Fleet e = None then [e]
       else (case fleetMembers matches is_dns_label scaled p of
               Inl _ \<Rightarrow> []
             | Inr (members, byFleet) \<Rightarrow>
                 map (\<lambda>n. spec (the (map_of members n))) (lookup_list byFleet (env_name e))))
       (Environments p))"

definition HasEnvironment ::
  "(string \<Rightarrow> (labels \<Rightarrow> bool) option) \<Rightarrow> (string \<Rightarrow> bool) \<Rightarrow> (IntOrString \<Rightarrow> int \<Rightarrow> int option) \<Rightarrow>
   Pipeline \<Rightarrow> string \<Rightarrow> bool" where
  "HasEnvironment matches is_dns_label scaled p name =
     (name \<in> env_name ` set (Environments p) \<or> EnvironmentSpecFor matches is_dns_label scaled p name \<noteq> None)"

definition FleetOf ::
  "(string \<Rightarrow> (labels \<Rightarrow> bool) option) \<Rightarrow> (string \<Rightarrow> bool) \<Rightarrow> (IntOrString \<Rightarrow> int \<Rightarrow> int option) \<Rightarrow>
   Pipeline \<Rightarrow> string \<Rightarrow> string" where
  "FleetOf matches is_dns_label scaled p target =
     (case fleetMembers matches is_dns_label scaled p of
        Inl _ \<Rightarrow> ''''
      | Inr (members, _) \<Rightarrow> (case map_of members target of None \<Rightarrow> '''' | Some m \<Rightarrow> fleet m))"

definition EnvironmentNames ::
  "(string \<Rightarrow> (labels \<Rightarrow> bool) option) \<Rightarrow> (string \<Rightarrow> bool) \<Rightarrow> (IntOrString \<Rightarrow> int \<Rightarrow> int option) \<Rightarrow>
   Pipeline \<Rightarrow> string list" where
  "EnvironmentNames matches is_dns_label scaled p =
     (let byFleet = (if \<not> hasFleets p then []
                     else case fleetMembers matches is_dns_label scaled p of Inl _ \<Rightarrow> [] | Inr (_, b) \<Rightarrow> b)
      in concat (map (\<lambda>e. env_name e # lookup_list byFleet (env_name e)) (Environments p)))"

text \<open>The Bundle an environment is held on: its own hold, else its fleet's.\<close>

definition heldBundle :: "Pipeline \<Rightarrow> string \<Rightarrow> string \<Rightarrow> string" where
  "heldBundle p env flt =
     (case map_of (Holds p) env of
        Some b \<Rightarrow> b
      | None \<Rightarrow> if flt \<noteq> '''' then (case map_of (Holds p) flt of Some b \<Rightarrow> b | None \<Rightarrow> '''') else '''')"

section \<open>The targets of the fleets\<close>

text \<open>What the loops maintain: the targets recorded so far are distinct and are none of the Pipeline's
  environments, and a member's fleet and index say where it stands.\<close>

definition fleet_ok :: "string set \<Rightarrow> fleet_state \<Rightarrow> bool" where
  "fleet_ok E st \<longleftrightarrow> (case st of (members, byFleet, names) \<Rightarrow>
     distinct (map fst byFleet) \<and> distinct (concat (map snd byFleet)) \<and>
     set names = E \<union> set (concat (map snd byFleet)) \<and> E \<inter> set (concat (map snd byFleet)) = {} \<and>
     fst ` set byFleet \<subseteq> E \<and> [] \<notin> snd ` set byFleet \<and>
     (\<forall>n. map_of members n \<noteq> None \<longleftrightarrow> n \<in> set (concat (map snd byFleet))) \<and>
     (\<forall>n m. map_of members n = Some m \<longrightarrow> index m < length (lookup_list byFleet (fleet m)) \<and>
        lookup_list byFleet (fleet m) ! index m = n))"

lemma update_concat:
  assumes "distinct (map fst b)"
  shows "mset (concat (map snd (AList.update k (lookup_list b k @ [x]) b))) = add_mset x (mset (concat (map snd b)))"
  using assms
proof (induction b)
  case (Cons kv b)
  obtain k' v where kv: "kv = (k', v)" by force
  show ?case
  proof (cases "k' = k")
    case True
    then show ?thesis by (simp add: kv lookup_list_def)
  next
    case False
    have "lookup_list (kv # b) k = lookup_list b k" using False by (simp add: kv lookup_list_def)
    then show ?thesis using Cons False by (simp add: kv)
  qed
qed (simp add: lookup_list_def)

lemma update_values: "snd ` set (AList.update k v b) \<subseteq> insert v (snd ` set b)"
  by (induction b) auto

lemma lookup_update: "lookup_list (AList.update k v b) k' = (if k' = k then v else lookup_list b k')"
  by (simp add: lookup_list_def update_conv')

lemma lookup_None: "map_of b k = None \<Longrightarrow> lookup_list b k = []"
  by (simp add: lookup_list_def)

lemma in_concat_lookup:
  "distinct (map fst b) \<Longrightarrow> x \<in> set (concat (map snd b)) \<longleftrightarrow> (\<exists>k. x \<in> set (lookup_list b k))"
  by (force simp: lookup_list_def split: option.splits dest: map_of_SomeD)

lemma add_target_ok:
  assumes ok: "fleet_ok E (members, byFleet, names)" and n: "name \<notin> set names" and f: "fl \<in> E"
    and i: "length (lookup_list byFleet fl) = i"
  shows "fleet_ok E (AList.update name \<lparr>fleet = fl, index = i, maxConcurrent = mc, maxUnavailable = mu,
      paused = ps, spec = sp\<rparr> members,
    AList.update fl (lookup_list byFleet fl @ [name]) byFleet, names @ [name])"
proof -
  let ?b = "AList.update fl (lookup_list byFleet fl @ [name]) byFleet"
  have d: "distinct (map fst byFleet)" "distinct (concat (map snd byFleet))"
    and nm: "name \<notin> E" "name \<notin> set (concat (map snd byFleet))" "set names = E \<union> set (concat (map snd byFleet))"
    using ok n by (auto simp: fleet_ok_def)
  note m = update_concat [OF d(1), of fl name]
  have sc: "set (concat (map snd ?b)) = insert name (set (concat (map snd byFleet)))"
    by (metis m set_mset_add_mset_insert set_mset_mset)
  have "distinct (concat (map snd ?b))"
    using d(2) nm(2) m by (metis distinct.simps(2) mset.simps(2) mset_eq_imp_distinct_iff)
  moreover have "fst ` set ?b \<subseteq> E" using ok f by (auto simp: fleet_ok_def dom_update)
  moreover have "[] \<notin> snd ` set ?b"
    using ok update_values [of fl "lookup_list byFleet fl @ [name]" byFleet] by (auto simp: fleet_ok_def)
  ultimately show ?thesis
    using ok nm sc i unfolding fleet_ok_def
    by (auto simp: update_conv' lookup_update nth_append distinct_update)
qed

lemma add_targets_ok:
  assumes "add_targets isd e mc mu ps (enumerate k ts) (members, byFleet, names) = Inr (members', byFleet', names')"
    and "fleet_ok E (members, byFleet, names)" "env_name e \<in> E"
    and "length (lookup_list byFleet (env_name e)) = k"
  shows "fleet_ok E (members', byFleet', names') \<and>
    fst ` set byFleet' = fst ` set byFleet \<union> (if ts = [] then {} else {env_name e})"
  using assms
proof (induction ts arbitrary: k members byFleet names)
  case (Cons t ts)
  let ?n = "FleetTargetName (env_name e) (ft_name t)"
  let ?m = "AList.update ?n \<lparr>fleet = env_name e, index = k, maxConcurrent = mc, maxUnavailable = mu,
    paused = ps, spec = target_spec e ?n t\<rparr> members"
  let ?b = "AList.update (env_name e) (lookup_list byFleet (env_name e) @ [?n]) byFleet"
  have r: "?n \<notin> set names" "add_targets isd e mc mu ps (enumerate (Suc k) ts) (?m, ?b, names @ [?n]) =
      Inr (members', byFleet', names')"
    using Cons.prems(1) by (auto simp: Let_def split: if_splits)
  have ok: "fleet_ok E (?m, ?b, names @ [?n])"
    by (rule add_target_ok [OF Cons.prems(2) r(1) Cons.prems(3,4)])
  show ?case
    using Cons.IH [OF r(2) ok Cons.prems(3)] Cons.prems(4) by (auto simp: lookup_update dom_update)
qed simp

lemma add_fleets_ok:
  assumes "add_fleets matches isd scaled p es (members, byFleet, names) = Inr (members', byFleet', names')"
    and "fleet_ok E (members, byFleet, names)" "env_name ` set es \<subseteq> E"
    and "distinct (map env_name es)" "env_name ` set es \<inter> fst ` set byFleet = {}"
  shows "fleet_ok E (members', byFleet', names') \<and>
    fst ` set byFleet' = fst ` set byFleet \<union> env_name ` {e \<in> set es. Fleet e \<noteq> None}"
  using assms
proof (induction es arbitrary: members byFleet names)
  case (Cons e es)
  show ?case
  proof (cases "Fleet e")
    case None
    have "{x \<in> set (e # es). Fleet x \<noteq> None} = {x \<in> set es. Fleet x \<noteq> None}" using None by auto
    then show ?thesis using Cons.IH [of members byFleet names] Cons.prems None by simp
  next
    case (Some f)
    obtain ts mu ps m1 b1 n1 where t: "ts \<noteq> []" "add_targets isd e (MaxConcurrent f) mu ps
        (enumerate 0 ts) (members, byFleet, names) = Inr (m1, b1, n1)"
        "add_fleets matches isd scaled p es (m1, b1, n1) = Inr (members', byFleet', names')"
      using Cons.prems(1) Some
      by (auto simp: Let_def split: sum.splits option.splits if_splits prod.splits)
    have "map_of byFleet (env_name e) = None" using Cons.prems(5) by (auto simp: map_of_eq_None_iff)
    then have l: "length (lookup_list byFleet (env_name e)) = 0" by (simp add: lookup_None)
    have e: "env_name e \<in> E" using Cons.prems(3) by simp
    note s = add_targets_ok [OF t(2) Cons.prems(2) e l]
    have "{x \<in> set (e # es). Fleet x \<noteq> None} = insert e {x \<in> set es. Fleet x \<noteq> None}" using Some by auto
    then show ?thesis
      using Cons.IH [OF t(3)] s t(1) Cons.prems(3-5) by (auto split: if_splits)
  qed
qed simp

lemma fleetMembers_ok:
  assumes "fleetMembers matches isd scaled p = Inr (members, byFleet)" "distinct (map env_name (Environments p))"
  shows "\<exists>names. fleet_ok (env_name ` set (Environments p)) (members, byFleet, names)"
    "fst ` set byFleet = env_name ` {e \<in> set (Environments p). Fleet e \<noteq> None}"
proof -
  obtain names where r: "add_fleets matches isd scaled p (Environments p) ([], [], map env_name (Environments p)) =
      Inr (members, byFleet, names)"
    using assms(1) by (auto simp: fleetMembers_def split: sum.splits)
  have "fleet_ok (env_name ` set (Environments p)) ([], [], map env_name (Environments p))"
    by (simp add: fleet_ok_def)
  from add_fleets_ok [OF r this _ assms(2)]
  show "\<exists>names. fleet_ok (env_name ` set (Environments p)) (members, byFleet, names)"
    "fst ` set byFleet = env_name ` {e \<in> set (Environments p). Fleet e \<noteq> None}" by auto
qed

section \<open>The expanded order\<close>

definition exp_env :: "(string \<times> string list) list \<Rightarrow> string \<Rightarrow> string list" where
  "exp_env byFleet env = (case map_of byFleet env of None \<Rightarrow> [env] | Some ts \<Rightarrow> ts)"

lemma mapDeps_exp: "mapDeps byFleet ds = concat (map (exp_env byFleet) ds)"
  by (simp add: mapDeps_def exp_env_def [abs_def])

lemma fold_update_map:
  "map_of (foldl (\<lambda>m t. AList.update t ds m) M ts) n = (if n \<in> set ts then Some ds else map_of M n)"
  by (induction ts arbitrary: M) (auto simp: update_conv')

lemma expand_fold:
  assumes "distinct (concat (map (exp_env byFleet) es))"
    and "\<forall>n \<in> set (concat (map (exp_env byFleet) es)). n \<notin> set o0"
  shows "fst (foldl (expand_env deps byFleet) (o0, M) es) = o0 @ concat (map (exp_env byFleet) es) \<and>
    (\<forall>env \<in> set es. \<forall>n \<in> set (exp_env byFleet env).
       map_of (snd (foldl (expand_env deps byFleet) (o0, M) es)) n = Some (mapDeps byFleet (lookup_list deps env))) \<and>
    (\<forall>n. n \<notin> set (concat (map (exp_env byFleet) es)) \<longrightarrow>
       map_of (snd (foldl (expand_env deps byFleet) (o0, M) es)) n = map_of M n)"
  using assms
proof (induction es arbitrary: o0 M)
  case (Cons e es)
  let ?st = "expand_env deps byFleet (o0, M) e"
  have f: "fst ?st = o0 @ exp_env byFleet e"
    by (simp add: expand_env_def exp_env_def Let_def split: option.split)
  have s: "map_of (snd ?st) n = (if n \<in> set (exp_env byFleet e) then Some (mapDeps byFleet (lookup_list deps e))
      else map_of M n)" for n
    by (simp add: expand_env_def exp_env_def Let_def update_conv' fold_update_map split: option.split)
  obtain o1 M1 where st: "?st = (o1, M1)" by force
  then have o1: "o1 = o0 @ exp_env byFleet e" and M1: "\<And>n. map_of M1 n =
      (if n \<in> set (exp_env byFleet e) then Some (mapDeps byFleet (lookup_list deps e)) else map_of M n)"
    using f s by auto
  have "\<forall>n \<in> set (concat (map (exp_env byFleet) es)). n \<notin> set o1"
    using Cons.prems o1 by auto
  from Cons.IH [OF _ this, of M1] Cons.prems(1) o1 M1 st
  show ?case by (auto simp: disjoint_iff)
qed simp

lemma fold_pairs_map:
  "n \<notin> fst ` set b \<Longrightarrow> map_of (foldl (\<lambda>m (f, ts). AList.update f ts m) M b) n = map_of M n"
  by (induction b arbitrary: M) (auto simp: update_conv')

lemma before_concat:
  assumes "before es d e" "x \<in> set (f d)" "y \<in> set (f e)"
  shows "before (concat (map f es)) x y"
proof -
  obtain i j where ij: "i < j" "j < length es" "es ! i = d" "es ! j = e" using assms(1) by (auto simp: before_def)
  let ?A = "concat (map f (take j es))"
  have "d \<in> set (take j es)" using ij by (auto simp: in_set_conv_nth)
  then obtain k where k: "k < length ?A" "?A ! k = x" using assms(2) by (metis UN_I image_eqI in_set_conv_nth set_concat set_map)
  obtain l where l: "l < length (f e)" "f e ! l = y" using assms(3) by (auto simp: in_set_conv_nth)
  have "es = take j es @ e # drop (Suc j) es" using ij id_take_nth_drop by blast
  then have c: "concat (map f es) = ?A @ f e @ concat (map f (drop (Suc j) es))"
    by (metis concat.simps(2) concat_append list.simps(9) map_append)
  show ?thesis
    unfolding before_def c
    by (rule exI [of _ k], rule exI [of _ "length ?A + l"]) (use k l in \<open>auto simp: nth_append\<close>)
qed

lemma values_concat: "map_of b k = Some v \<Longrightarrow> set v \<subseteq> set (concat (map snd b))"
  by (induction b) (auto split: if_splits)

lemma values_disjoint:
  assumes "distinct (map fst b)" "distinct (concat (map snd b))" "map_of b k = Some v"
  shows "map_of b k' = Some v' \<Longrightarrow> k \<noteq> k' \<Longrightarrow> set v \<inter> set v' = {}" "distinct v"
  using assms
proof (induction b)
  case (Cons kv b)
  obtain k0 v0 where kv: "kv = (k0, v0)" by force
  {
    case 1
    then show ?case using Cons values_concat [of b k v] values_concat [of b k' v']
      by (auto simp: kv split: if_splits)
  next
    case 2
    then show ?case using Cons by (auto simp: kv split: if_splits)
  }
qed simp_all

lemma distinct_concat_map:
  assumes "distinct es" "\<And>n m. n \<in> set es \<Longrightarrow> m \<in> set es \<Longrightarrow> n \<noteq> m \<Longrightarrow> set (f n) \<inter> set (f m) = {}"
    "\<And>n. n \<in> set es \<Longrightarrow> distinct (f n)"
  shows "distinct (concat (map f es))"
  using assms
proof (induction es)
  case (Cons e es)
  have "set (f e) \<inter> set (f m) = {}" if "m \<in> set es" for m
    using Cons.prems(2) [of e m] Cons.prems(1) that by auto
  moreover have "distinct (concat (map f es))" using Cons by auto
  ultimately show ?case using Cons.prems(3) by auto
qed simp

text \<open>Expansion keeps the order: every target comes after what its fleet depends on, and what depends on a
  fleet comes after every target.\<close>

lemma expandFleets_sound:
  assumes ord: "distinct ordered" "\<forall>n \<in> set ordered. \<forall>d \<in> set (lookup_list deps n). before ordered d n"
    and b: "distinct (map fst byFleet)" "distinct (concat (map snd byFleet))"
      "set ordered \<inter> set (concat (map snd byFleet)) = {}" "fst ` set byFleet \<subseteq> set ordered"
    and e: "expandFleets ordered deps byFleet = (order', deps')"
  shows "order' = concat (map (exp_env byFleet) ordered) \<and> distinct order' \<and>
    (\<forall>n \<in> set order'. \<forall>d \<in> set (lookup_list deps' n). before order' d n)"
proof (cases "byFleet = []")
  case True
  then have "exp_env byFleet = (\<lambda>x. [x])" by (auto simp: exp_env_def)
  then show ?thesis using True e ord by (simp add: expandFleets_def concat_map_singleton [of id, simplified])
next
  case False
  let ?x = "exp_env byFleet"
  have xs: "y \<in> set (?x n) \<Longrightarrow> (y = n \<and> map_of byFleet n = None) \<or> y \<in> set (concat (map snd byFleet))" for n y
    using values_concat [of byFleet n] by (auto simp: exp_env_def split: option.splits)
  have dx: "distinct (concat (map ?x ordered))"
  proof (rule distinct_concat_map [OF ord(1)])
    fix n m
    assume nm: "n \<in> set ordered" "m \<in> set ordered" "n \<noteq> m"
    have plain: "set (?x n) \<inter> set (?x m) = {}"
      if "map_of byFleet n = None" "n \<in> set ordered" "n \<noteq> m" for n m
    proof -
      have "?x n = [n]" "n \<notin> set (concat (map snd byFleet))" using that(1,2) b(3) by (auto simp: exp_env_def)
      then show ?thesis using xs [of n m] that(3) by auto
    qed
    show "set (?x n) \<inter> set (?x m) = {}"
    proof (cases "map_of byFleet n = None \<or> map_of byFleet m = None")
      case True
      then show ?thesis using plain [of n m] plain [of m n] nm by (metis Int_commute)
    next
      case False
      then show ?thesis
        using values_disjoint(1) [OF b(1,2) _ _ nm(3)] by (fastforce simp: exp_env_def)
    qed
  next
    show "distinct (?x n)" for n
      using values_disjoint(2) [OF b(1,2), of n] by (cases "map_of byFleet n") (simp_all add: exp_env_def)
  qed
  obtain o1 M1 where f: "foldl (expand_env deps byFleet) ([], []) ordered = (o1, M1)" by force
  note ef = expand_fold [OF dx, of "[]" deps "[]", unfolded f]
  have o: "order' = concat (map ?x ordered)"
    and d': "deps' = foldl (\<lambda>m (f, ts). AList.update f ts m) M1 byFleet"
    using e False f ef by (auto simp: expandFleets_def)
  have "before order' d n" if n: "n \<in> set order'" and d: "d \<in> set (lookup_list deps' n)" for n d
  proof -
    obtain env where env: "env \<in> set ordered" "n \<in> set (?x env)" using n o by auto
    have "n \<notin> fst ` set byFleet"
      using xs [OF env(2)] b(3,4) by (auto simp: map_of_eq_None_iff)
    then have "map_of deps' n = Some (mapDeps byFleet (lookup_list deps env))"
      using ef env fold_pairs_map [of n byFleet M1] d' by auto
    then obtain u where u: "u \<in> set (lookup_list deps env)" "d \<in> set (?x u)"
      using d by (auto simp: lookup_list_def mapDeps_exp)
    have "before ordered u env" using ord(2) env(1) u(1) by blast
    then show ?thesis unfolding o by (rule before_concat [OF _ u(2) env(2)])
  qed
  then show ?thesis using o dx by blast
qed

lemma exp_env_set:
  assumes "distinct (map fst b)" "fst ` set b \<subseteq> A"
  shows "(\<Union>n \<in> A. set (exp_env b n)) = {n \<in> A. n \<notin> fst ` set b} \<union> set (concat (map snd b))"
proof (intro equalityI subsetI)
  fix y
  assume "y \<in> (\<Union>n \<in> A. set (exp_env b n))"
  then obtain n where n: "n \<in> A" "y \<in> set (exp_env b n)" by blast
  then show "y \<in> {n \<in> A. n \<notin> fst ` set b} \<union> set (concat (map snd b))"
    using values_concat [of b n] map_of_eq_None_iff [of b n]
    by (cases "map_of b n") (auto simp: exp_env_def)
next
  fix y
  assume y: "y \<in> {n \<in> A. n \<notin> fst ` set b} \<union> set (concat (map snd b))"
  show "y \<in> (\<Union>n \<in> A. set (exp_env b n))"
  proof (cases "y \<in> set (concat (map snd b))")
    case True
    then obtain k v where kv: "(k, v) \<in> set b" "y \<in> set v" by auto
    then have "map_of b k = Some v" using assms(1) by simp
    then show ?thesis using kv assms(2) by (force simp: exp_env_def)
  next
    case False
    then have "map_of b y = None" using y by (simp add: map_of_eq_None_iff)
    then have "y \<in> set (exp_env b y)" by (simp add: exp_env_def)
    then show ?thesis using y False by blast
  qed
qed

lemma plain_names:
  assumes "distinct (map env_name es)" "K = env_name ` {e \<in> set es. Fleet e \<noteq> None}"
  shows "{n \<in> env_name ` set es. n \<notin> K} = env_name ` {e \<in> set es. Fleet e = None}"
proof (intro equalityI subsetI)
  fix n
  assume "n \<in> {n \<in> env_name ` set es. n \<notin> K}"
  then obtain e where "e \<in> set es" "n = env_name e" "n \<notin> K" by blast
  then show "n \<in> env_name ` {e \<in> set es. Fleet e = None}" using assms(2) by blast
next
  fix n
  assume "n \<in> env_name ` {e \<in> set es. Fleet e = None}"
  then show "n \<in> {n \<in> env_name ` set es. n \<notin> K}" using assms by (auto simp: distinct_map inj_on_def)
qed

lemma resolve_order_ok:
  assumes d: "distinct (map env_name envs)" and r: "resolveSpecOrdering envs = Inr (order, deps)"
  shows "distinct order" "set order = env_name ` set envs"
    "\<forall>n \<in> set order. \<forall>u \<in> set (lookup_list deps n). before order u n"
proof -
  have m: "mset order = mset (map env_name envs)" by (rule topoSort_facts(1) [OF d resolve_Inr(1) [OF d r]])
  show "distinct order" using m d by (metis mset_eq_imp_distinct_iff)
  show s: "set order = env_name ` set envs" using m by (metis set_map set_mset_mset)
  show "\<forall>n \<in> set order. \<forall>u \<in> set (lookup_list deps n). before order u n"
  proof (intro ballI)
    fix n u
    assume n: "n \<in> set order" and u: "u \<in> set (lookup_list deps n)"
    obtain i where i: "i < length envs" "n = env_name (envs ! i)" using n s by (auto simp: in_set_conv_nth)
    obtain edges where e: "env_edges (indexWaves envs) envs i = Inr edges" "lookup_list deps n = map fst edges"
      using resolve_Inr(3) [OF d r i(1)] i(2) by blast
    show "before order u n"
      using resolve_edges_before [OF d r i(1) e(1), of u] u e(2) i(2) by auto
  qed
qed

section \<open>Properties\<close>

text \<open>C7. The targets of a Pipeline's fleets, as \<open>fleetMembers\<close> resolves them: every fleet environment has at
  least one target, no two targets of any fleets share an environment name, none takes the name of an
  environment, and a member's \<open>fleet\<close> and \<open>index\<close> are its fleet and its position in it, which paces it.\<close>

theorem fleetMembers_sound:
  assumes "fleetMembers matches is_dns_label scaled p = Inr (members, byFleet)"
    and "distinct (map env_name (Environments p))"
  shows "fst ` set byFleet = env_name ` {e \<in> set (Environments p). Fleet e \<noteq> None} \<and> [] \<notin> snd ` set byFleet \<and>
    distinct (concat (map snd byFleet)) \<and>
    env_name ` set (Environments p) \<inter> set (concat (map snd byFleet)) = {} \<and>
    (\<forall>n. map_of members n \<noteq> None \<longleftrightarrow> n \<in> set (concat (map snd byFleet))) \<and>
    (\<forall>n m. map_of members n = Some m \<longrightarrow> index m < length (lookup_list byFleet (fleet m)) \<and>
       lookup_list byFleet (fleet m) ! index m = n)"
  using fleetMembers_ok [OF assms] by (auto simp: fleet_ok_def)

text \<open>A Pipeline of a plain environment and a fleet of two targets.\<close>

definition demo_pipeline :: Pipeline where
  "demo_pipeline = \<lparr>p_name = ''p'', Environments =
     [\<lparr>env_name = ''test'', DependsOn = [], Wave = 0, Fleet = None, Path = '''', Health = ''''\<rparr>,
      \<lparr>env_name = ''prod'', DependsOn = [], Wave = 0, Fleet = Some \<lparr>Selector = None, Targets =
         [\<lparr>ft_name = ''eu'', ft_path = '''', ft_labels = [], ft_health = None\<rparr>,
          \<lparr>ft_name = ''us'', ft_path = '''', ft_labels = [], ft_health = None\<rparr>],
         MaxConcurrent = 1, MaxUnavailable = None\<rparr>, Path = '''', Health = ''''\<rparr>],
     PausedFleets = [], Fleets = [], Holds = []\<rparr>"

theorem fleetMembers_sound_witness:
  "distinct (concat (map snd [(''prod'', [''prod-eu'', ''prod-us''])]))"
proof -
  obtain members where m: "fleetMembers (\<lambda>_. None) (\<lambda>_. True) (\<lambda>_ _. None) demo_pipeline =
      Inr (members, [(''prod'', [''prod-eu'', ''prod-us''])])"
    by (simp add: demo_pipeline_def fleetMembers_def fleetTargets_def MaxUnavailableCount_def
        FleetTargetName_def lookup_list_def Let_def)
  have "distinct (map env_name (Environments demo_pipeline))" by (simp add: demo_pipeline_def)
  from fleetMembers_sound [OF m this] show ?thesis by blast
qed

text \<open>\<open>resolveOrdering\<close>, on distinct environment names: the order has every plain environment and every
  fleet target exactly once, no fleet, and every environment stands after each of its upstreams in the map
  it returns, so a target waits for all its fleet waits for and what follows a fleet waits for every target.\<close>

theorem resolveOrdering_sound:
  assumes d: "distinct (map env_name (Environments p))"
    and r: "resolveOrdering matches is_dns_label scaled p = Inr (order, deps)"
  shows "distinct order \<and>
    set order = env_name ` {e \<in> set (Environments p). Fleet e = None} \<union>
      (case fleetMembers matches is_dns_label scaled p of Inl _ \<Rightarrow> {} | Inr (_, byFleet) \<Rightarrow>
         if hasFleets p then set (concat (map snd byFleet)) else {}) \<and>
    (\<forall>n \<in> set order. \<forall>u \<in> set (lookup_list deps n). before order u n)"
proof -
  obtain ordered deps0 where r0: "resolveSpecOrdering (map EnvironmentSpec.truncate (Environments p)) = Inr (ordered, deps0)"
    using r by (auto simp: resolveOrdering_def split: sum.splits)
  have o: "distinct ordered" "set ordered = env_name ` set (Environments p)"
      "\<forall>n \<in> set ordered. \<forall>u \<in> set (lookup_list deps0 n). before ordered u n"
    using resolve_order_ok [OF _ r0] d by (auto simp: EnvironmentSpec.truncate_def comp_def image_image)
  show ?thesis
  proof (cases "hasFleets p")
    case False
    then have "Fleet e = None" if "e \<in> set (Environments p)" for e
      using that by (auto simp: hasFleets_def list_ex_iff)
    then have "{e \<in> set (Environments p). Fleet e = None} = set (Environments p)" by blast
    then show ?thesis
      using r r0 False o by (auto simp: resolveOrdering_def split: sum.splits)
  next
    case True
    then obtain members byFleet where m: "fleetMembers matches is_dns_label scaled p = Inr (members, byFleet)"
      and e: "expandFleets ordered deps0 byFleet = (order, deps)"
      using r r0 by (auto simp: resolveOrdering_def split: sum.splits)
    obtain names where ok: "fleet_ok (env_name ` set (Environments p)) (members, byFleet, names)"
      and keys: "fst ` set byFleet = env_name ` {e \<in> set (Environments p). Fleet e \<noteq> None}"
      using fleetMembers_ok [OF m d] by blast
    have s: "order = concat (map (exp_env byFleet) ordered) \<and> distinct order \<and>
        (\<forall>n \<in> set order. \<forall>u \<in> set (lookup_list deps n). before order u n)"
      by (rule expandFleets_sound [OF o(1,3) _ _ _ _ e]) (use ok o(2) in \<open>auto simp: fleet_ok_def\<close>)
    have "set order = env_name ` {e \<in> set (Environments p). Fleet e = None} \<union> set (concat (map snd byFleet))"
      using s o(2) exp_env_set [of byFleet "set ordered"] plain_names [OF d keys] keys ok
      by (auto simp: fleet_ok_def)
    moreover have "distinct order" "\<forall>n \<in> set order. \<forall>u \<in> set (lookup_list deps n). before order u n"
      using s by blast+
    ultimately show ?thesis by (simp only: m sum.case prod.case True if_True simp_thms)
  qed
qed

theorem resolveOrdering_sound_witness:
  "set [''test'', ''prod-eu'', ''prod-us''] = {''test'', ''prod-eu'', ''prod-us''} \<and>
   before [''test'', ''prod-eu'', ''prod-us''] ''test'' ''prod-us''"
proof -
  let ?d = "[(''test'', []), (''prod-eu'', [''test'']), (''prod-us'', [''test'']), (''prod'', [''prod-eu'', ''prod-us''])]"
  have r: "resolveOrdering (\<lambda>_. None) (\<lambda>_. True) (\<lambda>_ _. None) demo_pipeline = Inr ([''test'', ''prod-eu'', ''prod-us''], ?d)"
    by code_simp
  have "distinct (map env_name (Environments demo_pipeline))" by (simp add: demo_pipeline_def)
  from resolveOrdering_sound [OF this r] show ?thesis by (auto simp: lookup_list_def)
qed

end
