(* ===== verification/Graph_Intent.thy ===== *)
theory Graph_Intent
  imports Graph_Fleet
begin

text \<open>
  What one Bundle promotes of a Pipeline: the intent filter (\<open>filterByIntent\<close>, \<open>envPathTo\<close>,
  \<open>CarriedEnvironments\<close>) and the bridging of the environments it leaves out (\<open>filteredDeps\<close>) of
  \<open>pkg/graph/builder.go\<close>, the upstreams and the state of a gate (\<open>pkg/graph/upstreams.go\<close>), and the skip
  permissions (\<open>pkg/graph/skip.go\<close>, \<open>validateSkipNames\<close> of \<open>validate.go\<close>).

  The recursive closures named \<open>walk\<close> in the code are one depth-first search, \<open>walk\<close>, on a stack of
  names: a name that was seen or is ignored is passed over, the others are noted in the order they are
  reached, and the dependencies of a name that is not a leaf are visited before the rest of the stack.
\<close>

section \<open>Data\<close>

record Intent =
  TargetEnvironment :: string
  SkipEnvironments :: "string list"
  TargetOnly :: bool

record UpstreamEvidence =
  ue_environment :: string
  ue_soak :: int

record EnvironmentStatus =
  es_name :: string
  es_phase :: string
  es_soak :: int

record Bundle =
  b_name :: string
  b_intent :: "Intent option"
  b_phase :: string
  b_environments :: "EnvironmentStatus list"
  b_evidence :: "UpstreamEvidence list"

record PolicyGate =
  g_namespace :: string
  g_name :: string
  g_labels :: labels
  SkipPermission :: bool
  g_ready :: bool
  LastEvaluatedAt :: "time option"

record PromotionStep =
  s_bundle :: string
  s_environment :: string
  s_state :: string
  RequiredGates :: "string list"

definition label :: "labels \<Rightarrow> string \<Rightarrow> string" where
  "label ls k = (case map_of ls k of None \<Rightarrow> '''' | Some v \<Rightarrow> v)"

datatype intent_error =
    UnknownTarget string
  | AllSkipped
  | NotPromoted string
  | IntentOrdering fleet_error
  | SkipsFleet string
  | UnknownSkips "string list"

section \<open>The search\<close>

function walk ::
  "deps_map \<Rightarrow> (string \<Rightarrow> bool) \<Rightarrow> (string \<Rightarrow> bool) \<Rightarrow> string list \<Rightarrow> string list \<Rightarrow> string list" where
  "walk deps ignored leaf seen [] = seen"
| "walk deps ignored leaf seen (d # ds) =
     (if d \<in> set seen \<or> ignored d then walk deps ignored leaf seen ds
      else walk deps ignored leaf (seen @ [d]) ((if leaf d then [] else lookup_list deps d) @ ds))"
  by pat_completeness auto
termination
proof (relation "measures [\<lambda>(deps, ignored, leaf, seen, stack).
      card ((set stack \<union> set (concat (map snd deps))) - set seen),
    \<lambda>(deps, ignored, leaf, seen, stack). length stack]")
  fix deps :: deps_map and ignored leaf :: "string \<Rightarrow> bool" and seen d ds
  let ?D = "set (concat (map snd deps))"
  show "((deps, ignored, leaf, seen, ds), deps, ignored, leaf, seen, d # ds) \<in> measures
      [\<lambda>(deps, ignored, leaf, seen, stack). card ((set stack \<union> set (concat (map snd deps))) - set seen),
       \<lambda>(deps, ignored, leaf, seen, stack). length stack]"
    using card_mono [of "set (d # ds) \<union> ?D - set seen" "set ds \<union> ?D - set seen"]
    by (auto simp del: set_concat simp: le_less Diff_mono)
  assume "\<not> (d \<in> set seen \<or> ignored d)"
  then have d: "d \<in> set (d # ds) \<union> ?D - set seen" by simp
  have "set (lookup_list deps d) \<subseteq> ?D"
    using values_concat [of deps d] by (cases "map_of deps d") (auto simp: lookup_list_def)
  then have "(set ((if leaf d then [] else lookup_list deps d) @ ds) \<union> ?D) - set (seen @ [d]) \<subset>
      set (d # ds) \<union> ?D - set seen"
    using d by auto
  then show "((deps, ignored, leaf, seen @ [d], (if leaf d then [] else lookup_list deps d) @ ds),
      deps, ignored, leaf, seen, d # ds) \<in> measures
      [\<lambda>(deps, ignored, leaf, seen, stack). card ((set stack \<union> set (concat (map snd deps))) - set seen),
       \<lambda>(deps, ignored, leaf, seen, stack). length stack]"
    using psubset_card_mono [of "set (d # ds) \<union> ?D - set seen"] by (simp del: set_concat)
qed simp

definition envPathTo :: "string list \<Rightarrow> deps_map \<Rightarrow> string \<Rightarrow> string list" where
  "envPathTo orderedEnvs deps target =
     (let ancestors = walk deps (\<lambda>_. False) (\<lambda>_. False) [] [target]
      in filter (\<lambda>e. e \<in> set ancestors) orderedEnvs)"

definition filteredDeps :: "string \<Rightarrow> deps_map \<Rightarrow> string list \<Rightarrow> string list" where
  "filteredDeps envName deps kept =
     filter (\<lambda>d. d \<in> set kept)
       (walk deps (\<lambda>_. False) (\<lambda>d. d \<in> set kept) [] (lookup_list deps envName))"

section \<open>The intent filter\<close>

definition CarriedEnvironments :: "Bundle \<Rightarrow> string list" where
  "CarriedEnvironments b =
     (case b_intent b of
        None \<Rightarrow> []
      | Some i \<Rightarrow> if TargetOnly i then map ue_environment (b_evidence b) else [])"

definition filterByIntent :: "string list \<Rightarrow> deps_map \<Rightarrow> Bundle \<Rightarrow> intent_error + string list" where
  "filterByIntent orderedEnvs deps b =
     (case b_intent b of
        None \<Rightarrow> Inr orderedEnvs
      | Some i \<Rightarrow>
          let target = TargetEnvironment i;
              r0 = (if target = '''' then Inr orderedEnvs
                    else if isFleetName orderedEnvs deps target \<or> target \<in> set orderedEnvs
                    then Inr (envPathTo orderedEnvs deps target)
                    else Inl (UnknownTarget target))
          in case r0 of
               Inl err \<Rightarrow> Inl err
             | Inr r \<Rightarrow>
                 let r1 = filter (\<lambda>e. e \<notin> set (SkipEnvironments i)) r;
                     r2 = filter (\<lambda>e. e \<notin> set (CarriedEnvironments b)) r1
                 in if r2 = [] then Inl AllSkipped else Inr r2)"

definition validateSkipNames :: "Pipeline \<Rightarrow> Bundle \<Rightarrow> intent_error option" where
  "validateSkipNames p b =
     (case b_intent b of
        None \<Rightarrow> None
      | Some i \<Rightarrow>
          let isfleet = (\<lambda>s. s \<in> env_name ` {e \<in> set (Environments p). Fleet e \<noteq> None});
              known = (\<lambda>s. s \<in> env_name ` set (Environments p))
          in case find isfleet (SkipEnvironments i) of
               Some s \<Rightarrow> Some (SkipsFleet s)
             | None \<Rightarrow>
                 let unknown = filter (\<lambda>s. \<not> known s) (SkipEnvironments i)
                 in if unknown = [] then None else Some (UnknownSkips (sort unknown)))"

section \<open>Upstreams\<close>

text \<open>The ordering is \<open>resolveOrdering\<close> of the Pipeline, a result the definitions below take as argument
  \<open>ro\<close>, so that they do not repeat its library parameters.\<close>

type_synonym ordering = "fleet_error + string list \<times> deps_map"

definition DirectUpstreams :: "ordering \<Rightarrow> Bundle \<Rightarrow> string \<Rightarrow> intent_error + string list" where
  "DirectUpstreams ro b envName =
     (case ro of
        Inl err \<Rightarrow> Inl (IntentOrdering err)
      | Inr (ordered, deps) \<Rightarrow>
          (case filterByIntent ordered deps b of
             Inl err \<Rightarrow> Inl err
           | Inr filtered \<Rightarrow>
               if envName \<notin> set filtered then Inl (NotPromoted envName)
               else Inr (filteredDeps envName deps filtered)))"

definition SoakUpstreams :: "ordering \<Rightarrow> Bundle \<Rightarrow> string \<Rightarrow> intent_error + string list" where
  "SoakUpstreams ro b envName =
     (if CarriedEnvironments b = [] then DirectUpstreams ro b envName
      else DirectUpstreams ro (b\<lparr>b_evidence := []\<rparr>) envName)"

definition UpstreamSoak :: "Bundle \<Rightarrow> string \<Rightarrow> int \<times> bool" where
  "UpstreamSoak b env =
     (case find (\<lambda>e. es_name e = env) (b_environments b) of
        Some e \<Rightarrow> if es_phase e = ''Verified'' then (es_soak e, True) else (0, False)
      | None \<Rightarrow>
          if env \<in> set (CarriedEnvironments b)
          then (case find (\<lambda>e. ue_environment e = env) (b_evidence b) of
                  Some e \<Rightarrow> (ue_soak e, True)
                | None \<Rightarrow> (0, False))
          else (0, False))"

definition own_step :: "Bundle \<Rightarrow> string \<Rightarrow> PromotionStep \<Rightarrow> bool" where
  "own_step b env s = (s_bundle s = b_name b \<and> s_environment s = env)"

definition upstreamsVerified :: "ordering \<Rightarrow> Bundle \<Rightarrow> string \<Rightarrow> PromotionStep list \<Rightarrow> bool" where
  "upstreamsVerified ro b envName steps =
     (case DirectUpstreams ro b envName of
        Inl _ \<Rightarrow> False
      | Inr ups \<Rightarrow>
          list_all (\<lambda>up. let own = filter (own_step b up) steps
                         in list_all (\<lambda>s. s_state s = ''Verified'') own \<and> own \<noteq> []) ups)"

definition gateHolds :: "ordering \<Rightarrow> Bundle \<Rightarrow> PolicyGate \<Rightarrow> PromotionStep list \<Rightarrow> bool" where
  "gateHolds ro b gate steps =
     (let env = label (g_labels gate) ''kardinal.io/environment'' in
      if g_ready gate \<or> env = '''' \<or> label (g_labels gate) ''kardinal.io/bundle'' \<noteq> b_name b then False
      else if b_phase b \<in> {''Failed'', ''Superseded'', ''Rejected''} then False
      else let own = filter (own_step b env) steps
           in if list_ex (\<lambda>s. (s_state s = '''' \<or> s_state s = ''Pending'') \<and>
                   g_name gate \<in> set (RequiredGates s)) own
              then True
              else own = [] \<and> upstreamsVerified ro b env steps)"

datatype gate_state = GatePass | GateBlock | GateSuperseded | GateRejected | GatePending | GateWaiting

definition GateState :: "ordering option \<Rightarrow> Bundle option \<Rightarrow> PolicyGate \<Rightarrow> PromotionStep list \<Rightarrow> gate_state" where
  "GateState p b gate steps =
     (if g_ready gate then GatePass
      else if (case (p, b) of (Some ro, Some bd) \<Rightarrow> gateHolds ro bd gate steps | _ \<Rightarrow> False) then GateBlock
      else if (case b of Some bd \<Rightarrow> b_phase bd = ''Superseded'' | None \<Rightarrow> False) then GateSuperseded
      else if (case b of Some bd \<Rightarrow> b_phase bd = ''Rejected'' | None \<Rightarrow> False) then GateRejected
      else if LastEvaluatedAt gate = None then GatePending
      else GateWaiting)"

section \<open>Skip permissions\<close>

definition isSkipPermissionGate :: "PolicyGate \<Rightarrow> bool" where
  "isSkipPermissionGate g = (label (g_labels g) ''kardinal.io/type'' = ''skip-permission'')"

definition policyNamespaceSet :: "string list \<Rightarrow> string list" where
  "policyNamespaceSet nss = (if nss = [] then [''platform-policies''] else nss)"

definition IsPolicyNamespace :: "string \<Rightarrow> string list \<Rightarrow> bool" where
  "IsPolicyNamespace ns nss = (ns \<noteq> '''' \<and> ns \<in> set (policyNamespaceSet nss))"

definition scopeOf :: "PolicyGate \<Rightarrow> string list \<Rightarrow> string" where
  "scopeOf g orgNS =
     (let s = label (g_labels g) ''kardinal.io/scope'' in
      if g_namespace g \<in> set orgNS \<or> s = ''org'' then ''org''
      else if s \<noteq> '''' then s else ''team'')"

definition GateScope :: "PolicyGate \<Rightarrow> string list \<Rightarrow> string" where
  "GateScope g nss = scopeOf g (policyNamespaceSet nss)"

definition isOrgGate :: "PolicyGate \<Rightarrow> string list \<Rightarrow> bool" where
  "isOrgGate g orgNS = (\<not> isSkipPermissionGate g \<and> scopeOf g orgNS = ''org'')"

definition appliesToEnv :: "PolicyGate \<Rightarrow> string \<Rightarrow> bool" where
  "appliesToEnv g envName =
     list_ex (\<lambda>e. trim_space e \<noteq> '''' \<and> trim_space e = envName)
       (split_on CHR '','' (label (g_labels g) ''kardinal.io/applies-to''))"

definition isSkipPermissionFor :: "PolicyGate \<Rightarrow> string \<Rightarrow> string list \<Rightarrow> bool" where
  "isSkipPermissionFor g envName orgNS =
     (isSkipPermissionGate g \<and> SkipPermission g \<and> g_namespace g \<in> set orgNS \<and> appliesToEnv g envName)"

definition gate_key :: "PolicyGate \<Rightarrow> string" where
  "gate_key g = g_namespace g @ ''/'' @ g_name g"

text \<open>The error: the environment whose skip is denied and the org gate that applies to it.\<close>

fun validate_skips :: "PolicyGate list \<Rightarrow> string list \<Rightarrow> string list \<Rightarrow> (string \<times> string) option" where
  "validate_skips gates orgNS [] = None"
| "validate_skips gates orgNS (skip # skips) =
     (case find (\<lambda>g. isOrgGate g orgNS \<and> appliesToEnv g skip) gates of
        None \<Rightarrow> validate_skips gates orgNS skips
      | Some g \<Rightarrow>
          if list_ex (\<lambda>g. isSkipPermissionFor g skip orgNS) gates then validate_skips gates orgNS skips
          else Some (skip, gate_key g))"

definition ValidateSkipPermissions ::
  "Bundle option \<Rightarrow> PolicyGate list \<Rightarrow> string list \<Rightarrow> (string \<times> string) option" where
  "ValidateSkipPermissions b gates nss =
     (case b of
        None \<Rightarrow> None
      | Some bd \<Rightarrow>
          (case b_intent bd of
             None \<Rightarrow> None
           | Some i \<Rightarrow> validate_skips gates (policyNamespaceSet nss) (SkipEnvironments i)))"

definition orgGated :: "PolicyGate list \<Rightarrow> string list \<Rightarrow> string \<Rightarrow> bool" where
  "orgGated gates orgNS env = list_ex (\<lambda>g. isOrgGate g orgNS \<and> appliesToEnv g env) gates"

record skipPermissionGate =
  sp_gate :: PolicyGate
  sp_skipped :: "string list"

text \<open>\<open>byGate\<close> is an association list in the order of the keys' first use, which is \<open>order\<close> in the code.\<close>

definition note_permission ::
  "(string \<times> skipPermissionGate) list \<Rightarrow> string \<times> PolicyGate \<Rightarrow> (string \<times> skipPermissionGate) list" where
  "note_permission byGate sg =
     (let (s, g) = sg; key = gate_key g
      in case map_of byGate key of
           None \<Rightarrow> byGate @ [(key, \<lparr>sp_gate = g, sp_skipped = [s]\<rparr>)]
         | Some pg \<Rightarrow> AList.update key (pg\<lparr>sp_skipped := sp_skipped pg @ [s]\<rparr>) byGate)"

definition crossed_skips :: "deps_map \<Rightarrow> string list \<Rightarrow> PolicyGate list \<Rightarrow> string list \<Rightarrow> string \<Rightarrow> string list" where
  "crossed_skips deps skips gates orgNS kept =
     sort (filter (orgGated gates orgNS)
       (walk deps (\<lambda>d. d \<notin> set skips) (\<lambda>_. False) [] (lookup_list deps kept)))"

definition skipPermissionGates ::
  "string list \<Rightarrow> deps_map \<Rightarrow> Bundle \<Rightarrow> PolicyGate list \<Rightarrow> string list \<Rightarrow> (string \<times> skipPermissionGate list) list" where
  "skipPermissionGates filteredEnvs deps b gates nss =
     (case b_intent b of
        None \<Rightarrow> []
      | Some i \<Rightarrow>
          if SkipEnvironments i = [] then []
          else let orgNS = policyNamespaceSet nss
               in List.map_filter (\<lambda>kept.
                    let crossed = crossed_skips deps (SkipEnvironments i) gates orgNS kept;
                        byGate = foldl note_permission []
                          [(s, g). s \<leftarrow> crossed, g \<leftarrow> gates, isSkipPermissionFor g s orgNS]
                    in if crossed = [] \<or> byGate = [] then None
                       else Some (kept, map (\<lambda>k. the (map_of byGate k)) (sort (map fst byGate))))
                  filteredEnvs)"

section \<open>Gates of an environment\<close>

definition targets_of :: "(string \<times> fleetMember) list \<Rightarrow> string list \<Rightarrow> string \<Rightarrow> string list" where
  "targets_of members envs f =
     filter (\<lambda>e. case map_of members e of None \<Rightarrow> False | Some m \<Rightarrow> fleet m = f) envs"

definition gate_envs :: "(string \<times> fleetMember) list \<Rightarrow> string list \<Rightarrow> PolicyGate \<Rightarrow> string list" where
  "gate_envs members envs g =
     concat (map (\<lambda>e. trim_space e # targets_of members envs (trim_space e))
       (split_on CHR '','' (label (g_labels g) ''kardinal.io/applies-to'')))"

definition matchGatesByEnv ::
  "string list \<Rightarrow> PolicyGate list \<Rightarrow> (string \<times> fleetMember) list \<Rightarrow> string \<Rightarrow> PolicyGate list" where
  "matchGatesByEnv envs gates members env =
     (if env \<in> set envs
      then filter (\<lambda>g. \<not> isSkipPermissionGate g \<and> env \<in> set (gate_envs members envs g)) gates
      else [])"

section \<open>What the search finds\<close>

definition walk_step :: "deps_map \<Rightarrow> (string \<Rightarrow> bool) \<Rightarrow> (string \<Rightarrow> bool) \<Rightarrow> (string \<times> string) set" where
  "walk_step deps ignored leaf = {(a, b). \<not> leaf a \<and> b \<in> set (lookup_list deps a) \<and> \<not> ignored b}"

lemma walk_sound:
  "x \<in> set (walk deps ignored leaf seen stack) \<Longrightarrow>
   x \<in> set seen \<or> (\<exists>s \<in> set stack. \<not> ignored s \<and> (s, x) \<in> (walk_step deps ignored leaf)\<^sup>*)"
proof (induction deps ignored leaf seen stack rule: walk.induct)
  case (2 deps ignored leaf seen d ds)
  show ?case
  proof (cases "d \<in> set seen \<or> ignored d")
    case True
    then show ?thesis using 2 by auto
  next
    case False
    then consider "x \<in> set seen" | "x = d" | s where "s \<in> set ((if leaf d then [] else lookup_list deps d) @ ds)"
        "\<not> ignored s" "(s, x) \<in> (walk_step deps ignored leaf)\<^sup>*"
      using 2 by auto
    then show ?thesis
    proof cases
      case (3 s)
      show ?thesis
      proof (cases "s \<in> set ds")
        case True
        then show ?thesis using 3 by auto
      next
        case no: False
        then have "(d, s) \<in> walk_step deps ignored leaf" using 3 by (auto simp: walk_step_def split: if_splits)
        then have "(d, x) \<in> (walk_step deps ignored leaf)\<^sup>*" using 3(3) by (rule converse_rtrancl_into_rtrancl)
        then show ?thesis using False by auto
      qed
    qed (use False in auto)
  qed
qed simp

lemma walk_closed:
  assumes "\<forall>a \<in> set seen. \<forall>b. (a, b) \<in> walk_step deps ignored leaf \<longrightarrow> b \<in> set seen \<union> set stack"
  shows "set seen \<union> {s \<in> set stack. \<not> ignored s} \<subseteq> set (walk deps ignored leaf seen stack) \<and>
    (\<forall>a \<in> set (walk deps ignored leaf seen stack). \<forall>b. (a, b) \<in> walk_step deps ignored leaf \<longrightarrow>
       b \<in> set (walk deps ignored leaf seen stack))"
  using assms
proof (induction deps ignored leaf seen stack rule: walk.induct)
  case (2 deps ignored leaf seen d ds)
  show ?case
  proof (cases "d \<in> set seen \<or> ignored d")
    case True
    have "\<forall>a \<in> set seen. \<forall>b. (a, b) \<in> walk_step deps ignored leaf \<longrightarrow> b \<in> set seen \<union> set ds"
      using 2(3) True by (auto simp: walk_step_def)
    from 2(1) [OF True this] show ?thesis using True by auto
  next
    case False
    let ?st = "(if leaf d then [] else lookup_list deps d) @ ds"
    have "\<forall>a \<in> set (seen @ [d]). \<forall>b. (a, b) \<in> walk_step deps ignored leaf \<longrightarrow> b \<in> set (seen @ [d]) \<union> set ?st"
      using 2(3) by (auto simp: walk_step_def)
    from 2(2) [OF False this] show ?thesis using False by auto
  qed
qed auto

lemma walk_set:
  "set (walk deps ignored leaf [] stack) = (walk_step deps ignored leaf)\<^sup>* `` {s \<in> set stack. \<not> ignored s}"
proof (intro equalityI subsetI)
  fix x
  assume "x \<in> set (walk deps ignored leaf [] stack)"
  from walk_sound [OF this] show "x \<in> (walk_step deps ignored leaf)\<^sup>* `` {s \<in> set stack. \<not> ignored s}" by auto
next
  fix x
  assume "x \<in> (walk_step deps ignored leaf)\<^sup>* `` {s \<in> set stack. \<not> ignored s}"
  then obtain s where s: "s \<in> set stack" "\<not> ignored s" "(s, x) \<in> (walk_step deps ignored leaf)\<^sup>*" by blast
  note c = walk_closed [of "[]" deps ignored leaf stack, simplified]
  from s(3) show "x \<in> set (walk deps ignored leaf [] stack)"
    by (induction rule: rtrancl_induct) (use c s(1,2) in auto)
qed

text \<open>The relation of the dependencies, and that of the bridged dependencies between kept environments.\<close>

definition up_rel :: "deps_map \<Rightarrow> (string \<times> string) set" where
  "up_rel deps = {(n, d). d \<in> set (lookup_list deps n)}"

definition bridge_rel :: "deps_map \<Rightarrow> string list \<Rightarrow> (string \<times> string) set" where
  "bridge_rel deps kept = {(n, d). n \<in> set kept \<and> d \<in> set (filteredDeps n deps kept)}"

lemma filteredDeps_set:
  "d \<in> set (filteredDeps n deps kept) \<longleftrightarrow> d \<in> set kept \<and>
     (\<exists>s \<in> set (lookup_list deps n). (s, d) \<in> (walk_step deps (\<lambda>_. False) (\<lambda>x. x \<in> set kept))\<^sup>*)"
  by (auto simp: filteredDeps_def walk_set)

lemma filteredDeps_direct: "d \<in> set (lookup_list deps n) \<Longrightarrow> d \<in> set kept \<Longrightarrow> d \<in> set (filteredDeps n deps kept)"
  by (auto simp: filteredDeps_set)

lemma filteredDeps_through:
  assumes "z \<in> set (lookup_list deps n)" "z \<notin> set kept" "d \<in> set (filteredDeps z deps kept)"
  shows "d \<in> set (filteredDeps n deps kept)"
proof -
  obtain s where s: "s \<in> set (lookup_list deps z)" "(s, d) \<in> (walk_step deps (\<lambda>_. False) (\<lambda>x. x \<in> set kept))\<^sup>*"
    using assms(3) by (auto simp: filteredDeps_set)
  have "(z, s) \<in> walk_step deps (\<lambda>_. False) (\<lambda>x. x \<in> set kept)" using s(1) assms(2) by (simp add: walk_step_def)
  then have "(z, d) \<in> (walk_step deps (\<lambda>_. False) (\<lambda>x. x \<in> set kept))\<^sup>*" using s(2) by simp
  then show ?thesis using assms(1,3) by (auto simp: filteredDeps_set)
qed

lemma bridge_sound: "bridge_rel deps kept \<subseteq> (up_rel deps)\<^sup>+"
proof clarify
  fix n d
  assume "(n, d) \<in> bridge_rel deps kept"
  then obtain s where s: "s \<in> set (lookup_list deps n)" "(s, d) \<in> (walk_step deps (\<lambda>_. False) (\<lambda>x. x \<in> set kept))\<^sup>*"
    by (auto simp: bridge_rel_def filteredDeps_set)
  have "(s, d) \<in> (up_rel deps)\<^sup>*"
    using s(2) rtrancl_mono [of "walk_step deps (\<lambda>_. False) (\<lambda>x. x \<in> set kept)" "up_rel deps"]
    by (auto simp: walk_step_def up_rel_def)
  then show "(n, d) \<in> (up_rel deps)\<^sup>+" using s(1) by (auto simp: up_rel_def intro: rtrancl_into_trancl2)
qed

lemma bridge_complete:
  assumes "(x, m) \<in> (up_rel deps)\<^sup>+" "m \<in> set kept"
  shows "\<exists>y \<in> set (filteredDeps x deps kept). y = m \<or> (y, m) \<in> (bridge_rel deps kept)\<^sup>+"
  using assms(1)
proof (induction rule: converse_trancl_induct)
  case (base x)
  then show ?case using filteredDeps_direct [of m deps x kept] assms(2) by (auto simp: up_rel_def)
next
  case (step x z)
  then obtain y where y: "y \<in> set (filteredDeps z deps kept)" "y = m \<or> (y, m) \<in> (bridge_rel deps kept)\<^sup>+" by blast
  have z: "z \<in> set (lookup_list deps x)" using step(1) by (simp add: up_rel_def)
  show ?case
  proof (cases "z \<in> set kept")
    case True
    then have "(z, y) \<in> bridge_rel deps kept" using y(1) by (simp add: bridge_rel_def)
    then have "(z, m) \<in> (bridge_rel deps kept)\<^sup>+" using y(2) by (auto intro: trancl_into_trancl2)
    then show ?thesis using filteredDeps_direct [OF z True] by blast
  next
    case False
    then show ?thesis using filteredDeps_through [OF z False y(1)] y(2) by blast
  qed
qed

lemma bridge_trancl:
  assumes "n \<in> set kept" "m \<in> set kept"
  shows "(n, m) \<in> (bridge_rel deps kept)\<^sup>+ \<longleftrightarrow> (n, m) \<in> (up_rel deps)\<^sup>+"
proof
  assume "(n, m) \<in> (bridge_rel deps kept)\<^sup>+"
  then have "(n, m) \<in> ((up_rel deps)\<^sup>+)\<^sup>+"
    using trancl_mono [OF _ bridge_sound [of deps kept]] by blast
  then show "(n, m) \<in> (up_rel deps)\<^sup>+" by simp
next
  assume "(n, m) \<in> (up_rel deps)\<^sup>+"
  from bridge_complete [OF this assms(2)] obtain y
    where "y \<in> set (filteredDeps n deps kept)" "y = m \<or> (y, m) \<in> (bridge_rel deps kept)\<^sup>+" by blast
  moreover from this have "(n, y) \<in> bridge_rel deps kept" using assms(1) by (simp add: bridge_rel_def)
  ultimately show "(n, m) \<in> (bridge_rel deps kept)\<^sup>+" by (auto intro: trancl_into_trancl2)
qed

lemma envPathTo_eq:
  "envPathTo ordered deps target = filter (\<lambda>e. (target, e) \<in> (up_rel deps)\<^sup>*) ordered"
proof -
  have "walk_step deps (\<lambda>_. False) (\<lambda>_. False) = up_rel deps" by (auto simp: walk_step_def up_rel_def)
  then have "set (walk deps (\<lambda>_. False) (\<lambda>_. False) [] [target]) = {e. (target, e) \<in> (up_rel deps)\<^sup>*}"
    by (simp only: walk_set) auto
  then show ?thesis by (simp only: envPathTo_def Let_def mem_Collect_eq)
qed

section \<open>Permissions\<close>

lemma note_permission_mono:
  assumes "map_of B k = Some pg"
  shows "\<exists>pg'. map_of (note_permission B sg) k = Some pg' \<and> sp_gate pg' = sp_gate pg \<and>
    set (sp_skipped pg) \<subseteq> set (sp_skipped pg')"
  using assms by (cases sg) (auto simp: note_permission_def Let_def update_conv' map_add_def split: option.splits)

lemma note_permission_fold_mono:
  assumes "map_of B k = Some pg"
  shows "\<exists>pg'. map_of (foldl note_permission B sgs) k = Some pg' \<and> sp_gate pg' = sp_gate pg \<and>
    set (sp_skipped pg) \<subseteq> set (sp_skipped pg')"
  using assms
proof (induction sgs arbitrary: B pg)
  case (Cons sg sgs)
  obtain p1 where "map_of (note_permission B sg) k = Some p1" "sp_gate p1 = sp_gate pg"
      "set (sp_skipped pg) \<subseteq> set (sp_skipped p1)"
    using note_permission_mono [OF Cons.prems] by blast
  then show ?case using Cons.IH [of "note_permission B sg" p1] by fastforce
qed auto

lemma note_permission_new:
  assumes "\<forall>k pg. map_of B k = Some pg \<longrightarrow> sp_gate pg \<in> G \<and> gate_key (sp_gate pg) = k" "g \<in> G"
    and "inj_on gate_key G"
  shows "\<exists>pg. map_of (note_permission B (s, g)) (gate_key g) = Some pg \<and> sp_gate pg = g \<and> s \<in> set (sp_skipped pg)"
    "\<forall>k pg. map_of (note_permission B (s, g)) k = Some pg \<longrightarrow> sp_gate pg \<in> G \<and> gate_key (sp_gate pg) = k"
  using assms
  by (auto simp: note_permission_def Let_def update_conv' map_add_def inj_on_def split: option.splits if_splits)

lemma note_permission_covers:
  assumes "inj_on gate_key G" "snd ` set sgs \<subseteq> G" "(s, g) \<in> set sgs"
    and "\<forall>k pg. map_of B k = Some pg \<longrightarrow> sp_gate pg \<in> G \<and> gate_key (sp_gate pg) = k"
  shows "\<exists>pg. map_of (foldl note_permission B sgs) (gate_key g) = Some pg \<and> sp_gate pg = g \<and> s \<in> set (sp_skipped pg)"
  using assms(2-)
proof (induction sgs arbitrary: B)
  case (Cons sg sgs)
  obtain s0 g0 where sg: "sg = (s0, g0)" by force
  have g0: "g0 \<in> G" using Cons.prems(1) sg by auto
  note n = note_permission_new [OF Cons.prems(3) g0 assms(1), of s0]
  show ?case
  proof (cases "sg = (s, g)")
    case True
    obtain pg where "map_of (note_permission B (s, g)) (gate_key g) = Some pg" "sp_gate pg = g" "s \<in> set (sp_skipped pg)"
      using n(1) True sg by auto
    then show ?thesis
      using note_permission_fold_mono [of "note_permission B (s, g)" "gate_key g" pg sgs] True by auto
  next
    case False
    then show ?thesis using Cons.IH [OF _ _ n(2)] Cons.prems(1,2) sg by auto
  qed
qed simp

lemma map_of_mem: "map_of B k = Some v \<Longrightarrow> B \<noteq> []" "map_of B k = Some v \<Longrightarrow> k \<in> set (map fst B)"
  by (auto dest: map_of_SomeD intro: rev_image_eqI)

lemma validate_skips_None:
  "validate_skips gates orgNS skips = None \<longleftrightarrow>
   (\<forall>s \<in> set skips. orgGated gates orgNS s \<longrightarrow> (\<exists>g \<in> set gates. isSkipPermissionFor g s orgNS))"
  by (induction skips) (auto simp: orgGated_def list_ex_iff find_None_iff find_Some_iff split: option.splits)

section \<open>Properties\<close>

text \<open>The intent filter keeps the order and exactly these environments: those the target depends on,
  directly or not, and the target itself (all, without a target), less the skipped ones and the ones a
  \<open>targetOnly\<close> Bundle carries the verification of. It is an error when the target is neither an environment
  nor a fleet, and when nothing is left.\<close>

theorem filterByIntent_spec:
  assumes "b_intent b = Some i"
  shows "filterByIntent ordered deps b =
    (let target = TargetEnvironment i;
         kept = filter (\<lambda>e. (target = '''' \<or> (target, e) \<in> (up_rel deps)\<^sup>*) \<and>
           e \<notin> set (SkipEnvironments i) \<and> e \<notin> set (CarriedEnvironments b)) ordered
     in if target \<noteq> '''' \<and> target \<notin> set ordered \<and> map_of deps target = None then Inl (UnknownTarget target)
        else if kept = [] then Inl AllSkipped else Inr kept)"
  using assms by (simp add: filterByIntent_def envPathTo_eq isFleetName_def Let_def conj_ac)

definition demo_deps :: deps_map where
  "demo_deps = [(''test'', []), (''uat'', [''test'']), (''prod'', [''uat''])]"

definition demo_bundle :: Bundle where
  "demo_bundle = \<lparr>b_name = ''b1'', b_intent = Some \<lparr>TargetEnvironment = '''', SkipEnvironments = [''uat''],
     TargetOnly = False\<rparr>, b_phase = ''Promoting'', b_environments = [], b_evidence = []\<rparr>"

theorem filterByIntent_spec_witness:
  "filterByIntent [''test'', ''uat'', ''prod''] demo_deps demo_bundle = Inr [''test'', ''prod'']"
  using filterByIntent_spec [of demo_bundle
      "\<lparr>TargetEnvironment = '''', SkipEnvironments = [''uat''], TargetOnly = False\<rparr>" "[''test'', ''uat'', ''prod'']" demo_deps]
  by (simp add: demo_bundle_def CarriedEnvironments_def Let_def)

text \<open>C8. Leaving environments out never weakens the order: between kept environments, the bridged
  dependencies of \<open>filteredDeps\<close> have the same transitive closure as the Pipeline's own dependencies. So a
  kept environment still waits, directly or through kept ones, for every kept environment upstream of it,
  and for nothing else.\<close>

theorem filteredDeps_bridges:
  assumes "n \<in> set kept" "m \<in> set kept"
  shows "(n, m) \<in> (bridge_rel deps kept)\<^sup>+ \<longleftrightarrow> (n, m) \<in> (up_rel deps)\<^sup>+"
  by (rule bridge_trancl [OF assms])

theorem filteredDeps_bridges_witness:
  "(''prod'', ''test'') \<in> (bridge_rel demo_deps [''test'', ''prod''])\<^sup>+"
proof -
  have "(''prod'', ''uat'') \<in> up_rel demo_deps" "(''uat'', ''test'') \<in> up_rel demo_deps"
    by (simp_all add: up_rel_def demo_deps_def lookup_list_def)
  then have "(''prod'', ''test'') \<in> (up_rel demo_deps)\<^sup>+" by (rule trancl.trancl_into_trancl [OF trancl.r_into_trancl])
  then show ?thesis using filteredDeps_bridges [of "''prod''" "[''test'', ''prod'']" "''test''"] by simp
qed

text \<open>C9. A skip cannot bypass the platform's gates. When \<open>ValidateSkipPermissions\<close> accepts a Bundle, every
  skipped environment an org gate applies to has a skip-permission gate, with \<open>spec.skipPermission\<close> set, in
  an org policy namespace; and for every kept environment whose upstreams are reached across such a skipped
  environment, an instance of each of its permission gates, listing it, is put in front of that kept
  environment.\<close>

theorem skip_needs_permission:
  assumes val: "ValidateSkipPermissions (Some b) gates nss = None" and i: "b_intent b = Some i"
    and uniq: "distinct gates" "inj_on gate_key (set gates)"
    and s: "s \<in> set (SkipEnvironments i)" "orgGated gates (policyNamespaceSet nss) s"
    and k: "kept \<in> set filtered" "distinct filtered"
      "s0 \<in> set (lookup_list deps kept)" "s0 \<in> set (SkipEnvironments i)"
      "(s0, s) \<in> (walk_step deps (\<lambda>d. d \<notin> set (SkipEnvironments i)) (\<lambda>_. False))\<^sup>*"
  shows "(\<exists>g \<in> set gates. isSkipPermissionFor g s (policyNamespaceSet nss)) \<and>
    (\<forall>g \<in> set gates. isSkipPermissionFor g s (policyNamespaceSet nss) \<longrightarrow>
       (\<exists>pgs. (kept, pgs) \<in> set (skipPermissionGates filtered deps b gates nss) \<and>
          (\<exists>pg \<in> set pgs. sp_gate pg = g \<and> s \<in> set (sp_skipped pg))))"
proof -
  let ?ns = "policyNamespaceSet nss" and ?sk = "SkipEnvironments i"
  have "\<exists>g \<in> set gates. isSkipPermissionFor g s ?ns"
    using val i s by (auto simp: ValidateSkipPermissions_def validate_skips_None)
  moreover have "\<exists>pgs. (kept, pgs) \<in> set (skipPermissionGates filtered deps b gates nss) \<and>
      (\<exists>pg \<in> set pgs. sp_gate pg = g \<and> s \<in> set (sp_skipped pg))"
    if g: "g \<in> set gates" "isSkipPermissionFor g s ?ns" for g
  proof -
    let ?cr = "crossed_skips deps ?sk gates ?ns kept"
    let ?sgs = "[(s, g). s \<leftarrow> ?cr, g \<leftarrow> gates, isSkipPermissionFor g s ?ns]"
    let ?B = "foldl note_permission [] ?sgs"
    have "s \<in> set ?cr" using k(3-5) s(2) by (auto simp: crossed_skips_def walk_set)
    then have sg: "(s, g) \<in> set ?sgs" and cr: "?cr \<noteq> []" using g by auto
    have "snd ` set ?sgs \<subseteq> set gates" by auto
    from note_permission_covers [OF uniq(2) this sg, of "[]"]
    obtain pg where pg: "map_of ?B (gate_key g) = Some pg" "sp_gate pg = g" "s \<in> set (sp_skipped pg)" by auto
    have B: "?B \<noteq> []" "gate_key g \<in> set (map fst ?B)"
      by (rule map_of_mem [OF pg(1)])+
    have "(kept, map (\<lambda>k. the (map_of ?B k)) (sort (map fst ?B))) \<in> set (skipPermissionGates filtered deps b gates nss)"
      using k(1) i s(1) cr B(1) by (force simp: skipPermissionGates_def map_filter_def Let_def)
    moreover have "pg \<in> set (map (\<lambda>k. the (map_of ?B k)) (sort (map fst ?B)))"
      using imageI [OF B(2), of "\<lambda>k. the (map_of ?B k)"] pg(1) by (simp only: set_map set_sort option.sel)
    ultimately show ?thesis using pg(2,3) by blast
  qed
  ultimately show ?thesis by blast
qed

definition demo_gates :: "PolicyGate list" where
  "demo_gates =
     [\<lparr>g_namespace = ''platform-policies'', g_name = ''freeze'', g_labels = [(''kardinal.io/applies-to'', ''uat'')],
        SkipPermission = False, g_ready = False, LastEvaluatedAt = None\<rparr>,
      \<lparr>g_namespace = ''platform-policies'', g_name = ''may-skip'', g_labels = [(''kardinal.io/applies-to'', ''uat''),
        (''kardinal.io/type'', ''skip-permission'')], SkipPermission = True, g_ready = False, LastEvaluatedAt = None\<rparr>]"

theorem skip_needs_permission_witness:
  "\<exists>g \<in> set demo_gates. isSkipPermissionFor g ''uat'' (policyNamespaceSet [])"
proof -
  let ?i = "\<lparr>TargetEnvironment = '''', SkipEnvironments = [''uat''], TargetOnly = False\<rparr>"
  have v: "ValidateSkipPermissions (Some demo_bundle) demo_gates [] = None" by code_simp
  have "b_intent demo_bundle = Some ?i" by (simp add: demo_bundle_def)
  moreover have "distinct demo_gates" "inj_on gate_key (set demo_gates)"
    by (simp_all add: demo_gates_def gate_key_def)
  moreover have "orgGated demo_gates (policyNamespaceSet []) ''uat''" by code_simp
  moreover have "''uat'' \<in> set (lookup_list demo_deps ''prod'')" by (simp add: demo_deps_def lookup_list_def)
  ultimately show ?thesis
    using skip_needs_permission [OF v, of ?i "''uat''" "''prod''" "[''prod'']" "''uat''" demo_deps] by simp
qed

text \<open>A gate blocks a Bundle exactly when it is not ready, is an instance for this Bundle and an
  environment, the Bundle is in flight, and either a Pending step of the Bundle in that environment requires
  the gate, or the Bundle has no step there and every direct upstream has steps of the Bundle, all Verified.\<close>

theorem GateState_spec:
  "GateState (Some (Inr (ordered, deps))) (Some b) gate steps = GateBlock \<longleftrightarrow>
     \<not> g_ready gate \<and> label (g_labels gate) ''kardinal.io/bundle'' = b_name b \<and>
     b_phase b \<notin> {''Failed'', ''Superseded'', ''Rejected''} \<and>
     (\<exists>env. env = label (g_labels gate) ''kardinal.io/environment'' \<and> env \<noteq> '''' \<and>
        ((\<exists>s \<in> set steps. own_step b env s \<and> s_state s \<in> {'''', ''Pending''} \<and> g_name gate \<in> set (RequiredGates s)) \<or>
         (\<not> (\<exists>s \<in> set steps. own_step b env s)) \<and>
         (\<exists>kept. filterByIntent ordered deps b = Inr kept \<and> env \<in> set kept \<and>
            (\<forall>up \<in> set (filteredDeps env deps kept). \<exists>s \<in> set steps. own_step b up s \<and>
               (\<forall>s' \<in> set steps. own_step b up s' \<longrightarrow> s_state s' = ''Verified'')))))"
proof -
  have ups: "upstreamsVerified (Inr (ordered, deps)) b env steps \<longleftrightarrow>
      (\<exists>kept. filterByIntent ordered deps b = Inr kept \<and> env \<in> set kept \<and>
         (\<forall>up \<in> set (filteredDeps env deps kept). \<exists>s \<in> set steps. own_step b up s \<and>
            (\<forall>s' \<in> set steps. own_step b up s' \<longrightarrow> s_state s' = ''Verified'')))" for env
    by (auto simp: upstreamsVerified_def DirectUpstreams_def list_all_iff filter_empty_conv Let_def
        split: sum.splits if_splits)
  show ?thesis
    by (auto simp: GateState_def gateHolds_def ups list_ex_iff filter_empty_conv Let_def)
qed

definition demo_instance :: PolicyGate where
  "demo_instance = \<lparr>g_namespace = ''team'', g_name = ''no-weekend'',
     g_labels = [(''kardinal.io/bundle'', ''b1''), (''kardinal.io/environment'', ''prod'')],
     SkipPermission = False, g_ready = False, LastEvaluatedAt = None\<rparr>"

definition demo_step :: "string \<Rightarrow> PromotionStep" where
  "demo_step st = \<lparr>s_bundle = ''b1'', s_environment = ''test'', s_state = st, RequiredGates = []\<rparr>"

text \<open>With \<open>uat\<close> skipped, the gate of \<open>prod\<close> starts to block once \<open>test\<close> is Verified, and not before.\<close>

theorem GateState_spec_witness:
  "GateState (Some (Inr ([''test'', ''uat'', ''prod''], demo_deps))) (Some demo_bundle) demo_instance [demo_step ''Verified''] = GateBlock \<and>
   GateState (Some (Inr ([''test'', ''uat'', ''prod''], demo_deps))) (Some demo_bundle) demo_instance [demo_step ''Promoting''] \<noteq> GateBlock"
proof -
  have kept: "filterByIntent [''test'', ''uat'', ''prod''] demo_deps demo_bundle = Inr [''test'', ''prod'']"
    "filteredDeps ''prod'' demo_deps [''test'', ''prod''] = [''test'']" by code_simp+
  note defs = demo_instance_def demo_step_def demo_bundle_def own_step_def label_def
  have l: "label (g_labels demo_instance) ''kardinal.io/environment'' = ''prod''"
      "label (g_labels demo_instance) ''kardinal.io/bundle'' = ''b1''" by (simp_all add: defs)
  show ?thesis
    using kept unfolding GateState_spec l by (simp add: defs)
qed

end
