(* ===== verification/Supersession.thy ===== *)
theory Supersession
  imports Graph_Intent "HOL-Library.Product_Lexorder" "HOL-Library.Option_ord"
begin

text \<open>
  Which Bundle gives way to which: \<open>pkg/lifecycle\<close>, the order of creation (\<open>lifecycle.go\<close>), what a rejection rejects
  (\<open>rejected.go\<close>, \<open>rejected_set.go\<close>), the holds of environments (\<open>hold.go\<close>) and supersession (\<open>supersede.go\<close>).

  A Bundle of the graph builder (\<open>Graph_Intent.Bundle\<close>) is extended with the fields these functions read. \<open>parse\<close> is
  \<open>time.Parse(time.RFC3339Nano, _)\<close>. The functions on fleets are those of \<open>Graph_Fleet\<close>, with its parameters (\<open>fleet_lib\<close>). The
  maps of a \<open>RejectedArtifacts\<close> are maps; Go's \<open>nil\<close> set, which no caller passes, is not modelled.
\<close>

section \<open>Data\<close>

record ImageRef =
  Repository :: string
  Tag :: string
  Digest :: string

record RejectedArtifactSet =
  rs_images :: "ImageRef list"
  rs_configCommitSHA :: string
  ComparedWith :: "string list"

record LifeBundle = Bundle +
  lb_namespace :: string
  lb_labels :: labels
  lb_annotations :: "(string \<times> string) list"
  lb_creationTimestamp :: time
  lb_pipeline :: string
  lb_type :: string
  lb_images :: "ImageRef list"
  lb_configRef :: "string option"
  lb_specRejected :: bool
  lb_rejectedArtifacts :: "RejectedArtifactSet option"

record LifeStep =
  ls_namespace :: string
  ls_bundleName :: string
  ls_environment :: string
  ls_state :: string
  ls_healthCheckExpiry :: "time option"
  ls_outputs :: "(string \<times> string) list"

record EnvironmentHold =
  eh_environment :: string
  eh_bundle :: string
  eh_reason :: string
  eh_createdBy :: string
  eh_expiresAt :: "time option"

record HeldPipeline =
  hp_name :: string
  hp_pipeline :: Pipeline
  hp_holds :: "EnvironmentHold list"

record fleet_lib =
  fl_matches :: "string \<Rightarrow> (labels \<Rightarrow> bool) option"
  fl_isDNSLabel :: "string \<Rightarrow> bool"
  fl_scaled :: "IntOrString \<Rightarrow> int \<Rightarrow> int option"

definition fleet_of :: "fleet_lib \<Rightarrow> Pipeline \<Rightarrow> string \<Rightarrow> string" where
  "fleet_of lib = FleetOf (fl_matches lib) (fl_isDNSLabel lib) (fl_scaled lib)"

section \<open>The order of creation\<close>

definition AnnotationCreatedAt :: string where "AnnotationCreatedAt = ''kardinal.io/created-at''"

definition createdAt :: "(string \<Rightarrow> time option) \<Rightarrow> LifeBundle \<Rightarrow> time option" where
  "createdAt parse b = (case map_of (lb_annotations b) AnnotationCreatedAt of None \<Rightarrow> None | Some s \<Rightarrow> parse s)"

definition compare :: "'a::linorder \<Rightarrow> 'a \<Rightarrow> int" where
  "compare a b = (if a < b then - 1 else if b < a then 1 else 0)"

definition CompareCreation :: "(string \<Rightarrow> time option) \<Rightarrow> LifeBundle \<Rightarrow> LifeBundle \<Rightarrow> int" where
  "CompareCreation parse a b =
     (let c = compare (lb_creationTimestamp a) (lb_creationTimestamp b) in
      if c \<noteq> 0 then c
      else case (createdAt parse a, createdAt parse b) of
             (Some _, None) \<Rightarrow> 1
           | (None, Some _) \<Rightarrow> - 1
           | (Some ta, Some tb) \<Rightarrow> (let c = compare ta tb in if c \<noteq> 0 then c else compare (b_name a) (b_name b))
           | (None, None) \<Rightarrow> compare (b_name a) (b_name b))"

section \<open>Rejected artifacts\<close>

definition Rejected :: "LifeBundle \<Rightarrow> bool" where
  "Rejected b = (lb_specRejected b \<or> b_phase b = ''Rejected'')"

definition Halted :: "LifeBundle \<Rightarrow> bool" where
  "Halted b = (b_phase b = ''Superseded'' \<or> Rejected b)"

record RejectedArtifacts =
  digests :: "string \<rightharpoonup> string"
  tags :: "string \<rightharpoonup> string"
  commits :: "string \<rightharpoonup> string"

definition digest_key :: "ImageRef \<Rightarrow> string" where "digest_key img = Repository img @ ''@'' @ Digest img"
definition tag_key :: "ImageRef \<Rightarrow> string" where "tag_key img = Repository img @ '':'' @ Tag img"

definition reject_image :: "string \<Rightarrow> ImageRef \<Rightarrow> RejectedArtifacts \<Rightarrow> RejectedArtifacts" where
  "reject_image name img r =
     (if Digest img \<noteq> '''' then r\<lparr>digests := (digests r)(digest_key img \<mapsto> name)\<rparr>
      else if Tag img \<noteq> '''' then r\<lparr>tags := (tags r)(tag_key img \<mapsto> name)\<rparr>
      else r)"

definition add_rejected :: "LifeBundle \<Rightarrow> RejectedArtifacts \<Rightarrow> RejectedArtifacts" where
  "add_rejected b r =
     (let (images, commit) =
            (case lb_rejectedArtifacts b of
               Some s \<Rightarrow> (rs_images s, rs_configCommitSHA s)
             | None \<Rightarrow> (lb_images b, case lb_configRef b of None \<Rightarrow> '''' | Some c \<Rightarrow> c));
          r1 = fold (reject_image (b_name b)) images r
      in if commit \<noteq> '''' then r1\<lparr>commits := (commits r1)(commit \<mapsto> b_name b)\<rparr> else r1)"

definition rejectedArtifactsOf :: "LifeBundle list \<Rightarrow> string \<Rightarrow> bool \<Rightarrow> RejectedArtifacts" where
  "rejectedArtifactsOf bundles pipeline recordedOnly =
     fold add_rejected
       (filter (\<lambda>b. lb_pipeline b = pipeline \<and> lb_specRejected b \<and> (\<not> recordedOnly \<or> lb_rejectedArtifacts b \<noteq> None)) bundles)
       \<lparr>digests = Map.empty, tags = Map.empty, commits = Map.empty\<rparr>"

definition RejectedArtifactsOf :: "LifeBundle list \<Rightarrow> string \<Rightarrow> RejectedArtifacts" where
  "RejectedArtifactsOf bundles pipeline = rejectedArtifactsOf bundles pipeline False"

definition RecordedRejectedArtifactsOf :: "LifeBundle list \<Rightarrow> string \<Rightarrow> RejectedArtifacts" where
  "RecordedRejectedArtifactsOf bundles pipeline = rejectedArtifactsOf bundles pipeline True"

definition carriesImage :: "RejectedArtifacts \<Rightarrow> ImageRef \<Rightarrow> string option" where
  "carriesImage r img =
     (case (if Digest img \<noteq> '''' then digests r (digest_key img) else None) of
        Some name \<Rightarrow> Some name
      | None \<Rightarrow> if Tag img \<noteq> '''' then tags r (tag_key img) else None)"

fun first_carried :: "RejectedArtifacts \<Rightarrow> ImageRef list \<Rightarrow> string option" where
  "first_carried r [] = None"
| "first_carried r (img # imgs) = (case carriesImage r img of Some name \<Rightarrow> Some name | None \<Rightarrow> first_carried r imgs)"

definition Carries :: "RejectedArtifacts \<Rightarrow> LifeBundle \<Rightarrow> string option" where
  "Carries r b =
     (if Rejected b then Some (b_name b)
      else case first_carried r (lb_images b) of
             Some name \<Rightarrow> Some name
           | None \<Rightarrow> (case lb_configRef b of None \<Rightarrow> None | Some c \<Rightarrow> if c \<noteq> '''' then commits r c else None))"

section \<open>What a rejection rejects\<close>

definition past_merge :: "string \<Rightarrow> bool" where
  "past_merge phase = (phase \<in> {''HealthChecking'', ''Verified'', ''AbortedByAlarm'', ''RollingBack''})"

definition deployedThere :: "LifeStep \<Rightarrow> bool" where
  "deployedThere s =
     (past_merge (ls_state s) \<or> ls_healthCheckExpiry s \<noteq> None \<or>
      label (ls_outputs s) ''mergeCommitSHA'' \<noteq> '''' \<or> label (ls_outputs s) ''commitSHA'' \<noteq> '''')"

definition reachedEnvironments :: "LifeBundle \<Rightarrow> LifeStep list \<Rightarrow> string list" where
  "reachedEnvironments b steps =
     (let reached = map es_name (filter (\<lambda>e. past_merge (es_phase e)) (b_environments b)) @
            map ls_environment (filter (\<lambda>s. ls_namespace s = lb_namespace b \<and> ls_bundleName s = b_name b \<and> deployedThere s) steps)
      in if reached = [] then sort (map es_name (b_environments b)) else sort (remdups reached))"

definition verifiedIn :: "LifeBundle \<Rightarrow> string \<Rightarrow> bool" where
  "verifiedIn b env = (case find (\<lambda>e. es_name e = env) (b_environments b) of None \<Rightarrow> False | Some e \<Rightarrow> es_phase e = ''Verified'')"

definition better :: "(string \<Rightarrow> time option) \<Rightarrow> LifeBundle \<Rightarrow> string \<Rightarrow> LifeBundle \<Rightarrow> LifeBundle option \<Rightarrow> LifeBundle option" where
  "better parse b env other best =
     (if b_name other = b_name b \<or> lb_namespace other \<noteq> lb_namespace b \<or> lb_pipeline other \<noteq> lb_pipeline b \<or>
         0 \<le> CompareCreation parse other b \<or> \<not> verifiedIn other env
      then best
      else case best of
             None \<Rightarrow> Some other
           | Some cur \<Rightarrow> if 0 < CompareCreation parse other cur then Some other else best)"

definition verifiedBefore :: "(string \<Rightarrow> time option) \<Rightarrow> LifeBundle \<Rightarrow> LifeBundle list \<Rightarrow> string \<Rightarrow> LifeBundle option" where
  "verifiedBefore parse b bundles env = fold (better parse b env) bundles None"

definition sameImage :: "ImageRef \<Rightarrow> ImageRef \<Rightarrow> bool" where
  "sameImage img other =
     (if Repository img \<noteq> Repository other then False
      else if Digest img \<noteq> '''' then Digest img = Digest other
      else Tag img \<noteq> '''' \<and> Tag img = Tag other)"

definition allCarryImage :: "LifeBundle list \<Rightarrow> ImageRef \<Rightarrow> bool" where
  "allCarryImage preds img = (preds \<noteq> [] \<and> list_all (\<lambda>p. list_ex (sameImage img) (lb_images p)) preds)"

definition allCarryCommit :: "LifeBundle list \<Rightarrow> string \<Rightarrow> bool" where
  "allCarryCommit preds sha = (preds \<noteq> [] \<and> list_all (\<lambda>p. lb_configRef p = Some sha) preds)"

text \<open>The predecessors in the compared environments: none when one of them has none.\<close>

definition predecessors :: "(string \<Rightarrow> time option) \<Rightarrow> LifeBundle \<Rightarrow> LifeBundle list \<Rightarrow> string list \<Rightarrow> (string \<times> LifeBundle) list" where
  "predecessors parse b bundles envs =
     (let found = map (\<lambda>env. (env, verifiedBefore parse b bundles env)) envs
      in if list_ex (\<lambda>(_, p). p = None) found then [] else map (\<lambda>(env, p). (env, the p)) found)"

definition RejectedSetOf :: "(string \<Rightarrow> time option) \<Rightarrow> LifeBundle \<Rightarrow> LifeBundle list \<Rightarrow> LifeStep list \<Rightarrow> RejectedArtifactSet" where
  "RejectedSetOf parse b bundles steps =
     (let found = predecessors parse b bundles (reachedEnvironments b steps);
          preds = map snd found
      in \<lparr>rs_images = filter (\<lambda>img. \<not> allCarryImage preds img) (lb_images b),
          rs_configCommitSHA = (case lb_configRef b of
             None \<Rightarrow> ''''
           | Some c \<Rightarrow> if c \<noteq> '''' \<and> \<not> allCarryCommit preds c then c else ''''),
          ComparedWith = map (\<lambda>(env, p). env @ ''='' @ b_name p) found\<rparr>)"

section \<open>Holds\<close>

definition Expired :: "time \<Rightarrow> EnvironmentHold \<Rightarrow> bool" where
  "Expired now h = (case eh_expiresAt h of None \<Rightarrow> False | Some t \<Rightarrow> t \<le> now)"

definition exactHold :: "time \<Rightarrow> HeldPipeline option \<Rightarrow> string \<Rightarrow> EnvironmentHold option" where
  "exactHold now p env =
     (case p of None \<Rightarrow> None | Some p \<Rightarrow> find (\<lambda>h. eh_environment h = env \<and> \<not> Expired now h) (hp_holds p))"

definition HoldOf :: "fleet_lib \<Rightarrow> time \<Rightarrow> HeldPipeline option \<Rightarrow> string \<Rightarrow> EnvironmentHold option" where
  "HoldOf lib now p env =
     (case exactHold now p env of
        Some h \<Rightarrow> Some h
      | None \<Rightarrow>
          (case p of
             None \<Rightarrow> None
           | Some q \<Rightarrow>
               if hp_holds q \<noteq> [] \<and> hasFleets (hp_pipeline q) \<and> fleet_of lib (hp_pipeline q) env \<noteq> ''''
               then exactHold now p (fleet_of lib (hp_pipeline q) env) else None))"

definition HoldNaming :: "time \<Rightarrow> HeldPipeline option \<Rightarrow> string \<Rightarrow> EnvironmentHold option" where
  "HoldNaming now p bundle =
     (case p of
        None \<Rightarrow> None
      | Some q \<Rightarrow> if bundle = '''' then None else find (\<lambda>h. eh_bundle h = bundle \<and> \<not> Expired now h) (hp_holds q))"

definition UntilExpiry :: "time \<Rightarrow> EnvironmentHold option \<Rightarrow> duration \<Rightarrow> duration" where
  "UntilExpiry now h fallback =
     (case h of
        None \<Rightarrow> fallback
      | Some h \<Rightarrow>
          (case eh_expiresAt h of
             None \<Rightarrow> fallback
           | Some t \<Rightarrow> if t - now < fallback then (if t - now < second then second else t - now) else fallback))"

definition HeldFrom :: "fleet_lib \<Rightarrow> time \<Rightarrow> HeldPipeline option \<Rightarrow> string \<Rightarrow> string \<Rightarrow> EnvironmentHold option" where
  "HeldFrom lib now p env bundle =
     (case HoldOf lib now p env of None \<Rightarrow> None | Some h \<Rightarrow> if eh_bundle h \<noteq> bundle then Some h else None)"

definition HeldOn :: "EnvironmentHold \<Rightarrow> bool \<Rightarrow> string" where
  "HeldOn h rollback = (if rollback then ''rollback '' @ eh_bundle h else eh_bundle h)"

definition HeldMessage :: "string \<Rightarrow> EnvironmentHold \<Rightarrow> bool \<Rightarrow> string" where
  "HeldMessage pipeline h rollback =
     ''environment '' @ eh_environment h @ '' is held on '' @ HeldOn h rollback @ '' ('' @ eh_reason h @ '') '' @ em_dash @
     '' release with: kardinal release-hold '' @ pipeline @ '' --env '' @ eh_environment h"

definition GateExemption :: "EnvironmentHold \<Rightarrow> string \<Rightarrow> string" where
  "GateExemption h gateReason =
     ''EXEMPT: rollback '' @ eh_bundle h @ '' holds '' @ eh_environment h @ '' (by '' @
     (if eh_createdBy h = '''' then ''unknown'' else eh_createdBy h) @ '': '' @ eh_reason h @ ''); without the hold: '' @ gateReason"

definition IsHoldExemption :: "string \<Rightarrow> bool" where
  "IsHoldExemption reason = has_prefix reason ''EXEMPT: rollback ''"

section \<open>Supersession\<close>

definition TargetRollback :: "fleet_lib \<Rightarrow> HeldPipeline option \<Rightarrow> LifeBundle \<Rightarrow> string" where
  "TargetRollback lib p b =
     (case (p, b_intent b) of
        (Some q, Some i) \<Rightarrow>
          if label (lb_labels b) ''kardinal.io/rollback'' = ''true'' \<and> hasFleets (hp_pipeline q) \<and>
             TargetEnvironment i \<noteq> '''' \<and> fleet_of lib (hp_pipeline q) (TargetEnvironment i) \<noteq> ''''
          then TargetEnvironment i else ''''
      | _ \<Rightarrow> '''')"

definition supersedes ::
  "fleet_lib \<Rightarrow> (string \<Rightarrow> time option) \<Rightarrow> HeldPipeline option \<Rightarrow> LifeBundle \<Rightarrow> RejectedArtifacts \<Rightarrow> bool \<Rightarrow> string \<Rightarrow> LifeBundle \<Rightarrow> bool" where
  "supersedes lib parse p b rejected countVerified env s =
     (\<not> (b_name s = b_name b \<or> lb_pipeline s \<noteq> lb_pipeline b \<or> lb_type s \<noteq> lb_type b) \<and>
      \<not> Rejected s \<and>
      Carries rejected s = None \<and>
      (let t = TargetRollback lib p s in
       t = '''' \<or> \<not> ((env = '''' \<and> t \<noteq> TargetRollback lib p b) \<or> (env \<noteq> '''' \<and> t \<noteq> env))) \<and>
      b_phase s \<notin> {''Superseded'', ''Failed'', ''Rejected''} \<and>
      (b_phase s = ''Verified'' \<longrightarrow> countVerified) \<and>
      0 < CompareCreation parse s b)"

definition SupersedingSiblings ::
  "fleet_lib \<Rightarrow> (string \<Rightarrow> time option) \<Rightarrow> time \<Rightarrow> HeldPipeline option \<Rightarrow> LifeBundle \<Rightarrow> LifeBundle list \<Rightarrow> RejectedArtifacts \<Rightarrow> bool \<Rightarrow> string \<Rightarrow>
   LifeBundle list" where
  "SupersedingSiblings lib parse now p b siblings rejected countVerified env =
     (if p \<noteq> None \<and> HoldNaming now p (b_name b) \<noteq> None then []
      else filter (supersedes lib parse p b rejected countVerified env) siblings)"

section \<open>The order of creation: lemmas\<close>

text \<open>The tuple that \<open>CompareCreation\<close> compares.\<close>

definition creation_key :: "(string \<Rightarrow> time option) \<Rightarrow> LifeBundle \<Rightarrow> time \<times> time option \<times> string" where
  "creation_key parse b = (lb_creationTimestamp b, createdAt parse b, b_name b)"

lemma compare_sign:
  "compare a b < 0 \<longleftrightarrow> a < b" "0 < compare a b \<longleftrightarrow> b < a" "compare a b = 0 \<longleftrightarrow> a = b" "0 \<le> compare a b \<longleftrightarrow> b \<le> a"
  by (auto simp: compare_def)

lemma compare_pair: "compare (a, b) (c, d) = (if a = c then compare b d else compare a c)"
  by (auto simp: compare_def)

lemma compare_option:
  "compare None None = 0" "compare (Some x) None = 1" "compare None (Some y) = - 1" "compare (Some x) (Some y) = compare x y"
  by (simp_all add: compare_def)

lemma CompareCreation_key: "CompareCreation parse a b = compare (creation_key parse a) (creation_key parse b)"
  by (cases "createdAt parse a"; cases "createdAt parse b")
    (simp_all add: CompareCreation_def creation_key_def compare_pair compare_option compare_sign(3) Let_def)

lemmas creation_sign = CompareCreation_key compare_sign

lemma creation_key_inj:
  "distinct (map b_name bs) \<Longrightarrow> a \<in> set bs \<Longrightarrow> b \<in> set bs \<Longrightarrow> creation_key parse a = creation_key parse b \<Longrightarrow> a = b"
  by (auto simp: creation_key_def dest: distinct_map [THEN iffD1] inj_onD)

section \<open>Supersession: lemmas\<close>

text \<open>A Bundle in flight: of the Pipeline and the type, with no rejected artifact, and not settled.\<close>

definition in_flight :: "RejectedArtifacts \<Rightarrow> string \<Rightarrow> string \<Rightarrow> LifeBundle \<Rightarrow> bool" where
  "in_flight rejected pipeline type s =
     (lb_pipeline s = pipeline \<and> lb_type s = type \<and> Carries rejected s = None \<and>
      b_phase s \<notin> {''Superseded'', ''Failed'', ''Verified'', ''Rejected''})"

text \<open>The rollback of one target of a fleet: it is labelled a rollback and its intent names that target. A Bundle stands in for
  another one when it is no such rollback, or both are rollbacks of the same target.\<close>

definition one_target :: "fleet_lib \<Rightarrow> HeldPipeline option \<Rightarrow> LifeBundle \<Rightarrow> string \<Rightarrow> bool" where
  "one_target lib p b e \<longleftrightarrow> e \<noteq> '''' \<and> label (lb_labels b) ''kardinal.io/rollback'' = ''true'' \<and>
     (\<exists>q i. p = Some q \<and> b_intent b = Some i \<and> TargetEnvironment i = e \<and> hasFleets (hp_pipeline q) \<and>
        fleet_of lib (hp_pipeline q) e \<noteq> '''')"

definition covers :: "fleet_lib \<Rightarrow> HeldPipeline option \<Rightarrow> LifeBundle \<Rightarrow> LifeBundle \<Rightarrow> bool" where
  "covers lib p s b \<longleftrightarrow> (\<forall>e. one_target lib p s e \<longrightarrow> one_target lib p b e)"

lemma TargetRollback_target: "TargetRollback lib p b = e \<and> e \<noteq> '''' \<longleftrightarrow> one_target lib p b e"
  by (auto simp: TargetRollback_def one_target_def split: option.splits)

lemma covers_target: "covers lib p s b \<longleftrightarrow> TargetRollback lib p s = '''' \<or> TargetRollback lib p s = TargetRollback lib p b"
  unfolding covers_def TargetRollback_target [symmetric] by auto

lemma Carries_rejected: "Carries r s = None \<Longrightarrow> \<not> Rejected s"
  by (auto simp: Carries_def split: if_splits)

lemma supersedes_newer: "supersedes lib parse p b rejected cv env s \<Longrightarrow> creation_key parse b < creation_key parse s"
  by (simp add: supersedes_def creation_sign)

lemma supersedes_iff:
  assumes "lb_pipeline b = pl" "lb_type b = t" "b_name s \<noteq> b_name b"
  shows "supersedes lib parse p b rejected False '''' s \<longleftrightarrow>
    in_flight rejected pl t s \<and> covers lib p s b \<and> creation_key parse b < creation_key parse s"
  using assms Carries_rejected [of rejected s]
  by (auto simp: supersedes_def in_flight_def covers_target creation_sign Let_def)

lemma superseding_acyclic:
  "acyclic {(b, s). s \<in> set (SupersedingSiblings lib parse now p b siblings rejected cv env)}"
proof -
  have "acyclic ({(b, s). s \<in> set (SupersedingSiblings lib parse now p b siblings rejected cv env)}\<inverse>)"
    by (rule acyclicI_order [where f = "creation_key parse"])
      (auto simp: SupersedingSiblings_def dest: supersedes_newer split: if_splits)
  then show ?thesis by (simp only: acyclic_converse)
qed

lemma superseding_iff:
  assumes b: "b \<in> set siblings" "lb_pipeline b = pl" "lb_type b = t" and names: "distinct (map b_name siblings)"
  shows "s \<in> set (SupersedingSiblings lib parse now p b siblings rejected False '''') \<longleftrightarrow>
    HoldNaming now p (b_name b) = None \<and> s \<in> set siblings \<and> in_flight rejected pl t s \<and> covers lib p s b \<and>
    creation_key parse b < creation_key parse s"
proof -
  have "supersedes lib parse p b rejected False '''' s \<longleftrightarrow>
      in_flight rejected pl t s \<and> covers lib p s b \<and> creation_key parse b < creation_key parse s" if "s \<in> set siblings"
  proof (cases "b_name s = b_name b")
    case True
    then have "s = b" using names b(1) that by (auto dest: distinct_map [THEN iffD1] inj_onD)
    then show ?thesis by (simp add: supersedes_def)
  next
    case False
    then show ?thesis by (rule supersedes_iff [OF b(2,3)])
  qed
  moreover have "HoldNaming now None (b_name b) = None" by (simp add: HoldNaming_def)
  ultimately show ?thesis by (auto simp: SupersedingSiblings_def)
qed

section \<open>Rejected artifacts: lemmas\<close>

text \<open>What a Bundle's rejection adds to the three maps.\<close>

definition rejected_of :: "LifeBundle \<Rightarrow> ImageRef list \<times> string" where
  "rejected_of b =
     (case lb_rejectedArtifacts b of
        Some s \<Rightarrow> (rs_images s, rs_configCommitSHA s)
      | None \<Rightarrow> (lb_images b, case lb_configRef b of None \<Rightarrow> '''' | Some c \<Rightarrow> c))"

lemma reject_images_dom:
  "dom (digests (fold (reject_image n) imgs r)) = dom (digests r) \<union> digest_key ` {i \<in> set imgs. Digest i \<noteq> ''''}"
  "dom (tags (fold (reject_image n) imgs r)) = dom (tags r) \<union> tag_key ` {i \<in> set imgs. Digest i = '''' \<and> Tag i \<noteq> ''''}"
  "commits (fold (reject_image n) imgs r) = commits r"
  by (induction imgs arbitrary: r) (auto simp: reject_image_def)

lemma add_rejected_dom:
  "dom (digests (add_rejected b r)) = dom (digests r) \<union> digest_key ` {i \<in> set (fst (rejected_of b)). Digest i \<noteq> ''''}"
  "dom (tags (add_rejected b r)) = dom (tags r) \<union> tag_key ` {i \<in> set (fst (rejected_of b)). Digest i = '''' \<and> Tag i \<noteq> ''''}"
  "dom (commits (add_rejected b r)) = dom (commits r) \<union> (if snd (rejected_of b) = '''' then {} else {snd (rejected_of b)})"
  unfolding add_rejected_def rejected_of_def
  by (simp_all add: Let_def case_prod_beta reject_images_dom)

lemma fold_rejected_dom:
  "dom (digests (fold add_rejected bs r)) = dom (digests r) \<union> (\<Union>b\<in>set bs. digest_key ` {i \<in> set (fst (rejected_of b)). Digest i \<noteq> ''''})"
  "dom (tags (fold add_rejected bs r)) =
     dom (tags r) \<union> (\<Union>b\<in>set bs. tag_key ` {i \<in> set (fst (rejected_of b)). Digest i = '''' \<and> Tag i \<noteq> ''''})"
  "dom (commits (fold add_rejected bs r)) =
     dom (commits r) \<union> (\<Union>b\<in>set bs. if snd (rejected_of b) = '''' then {} else {snd (rejected_of b)})"
  by (induction bs arbitrary: r) (auto simp: add_rejected_dom)

lemma RejectedArtifactsOf_dom:
  "dom (digests (RejectedArtifactsOf bs pl)) =
     (\<Union>b\<in>{b \<in> set bs. lb_pipeline b = pl \<and> lb_specRejected b}. digest_key ` {i \<in> set (fst (rejected_of b)). Digest i \<noteq> ''''})"
  "dom (tags (RejectedArtifactsOf bs pl)) =
     (\<Union>b\<in>{b \<in> set bs. lb_pipeline b = pl \<and> lb_specRejected b}. tag_key ` {i \<in> set (fst (rejected_of b)). Digest i = '''' \<and> Tag i \<noteq> ''''})"
  "dom (commits (RejectedArtifactsOf bs pl)) =
     (\<Union>b\<in>{b \<in> set bs. lb_pipeline b = pl \<and> lb_specRejected b}. if snd (rejected_of b) = '''' then {} else {snd (rejected_of b)})"
  by (simp_all add: RejectedArtifactsOf_def rejectedArtifactsOf_def fold_rejected_dom)

lemma RejectedArtifactsOf_insert:
  assumes "lb_pipeline b = pl" "lb_specRejected b"
  shows "dom (digests (RejectedArtifactsOf (xs @ b # ys) pl)) =
      dom (digests (RejectedArtifactsOf (xs @ ys) pl)) \<union> digest_key ` {i \<in> set (fst (rejected_of b)). Digest i \<noteq> ''''}"
    "dom (tags (RejectedArtifactsOf (xs @ b # ys) pl)) =
      dom (tags (RejectedArtifactsOf (xs @ ys) pl)) \<union> tag_key ` {i \<in> set (fst (rejected_of b)). Digest i = '''' \<and> Tag i \<noteq> ''''}"
    "dom (commits (RejectedArtifactsOf (xs @ b # ys) pl)) =
      dom (commits (RejectedArtifactsOf (xs @ ys) pl)) \<union> (if snd (rejected_of b) = '''' then {} else {snd (rejected_of b)})"
proof -
  have "{x \<in> set (xs @ b # ys). lb_pipeline x = pl \<and> lb_specRejected x} = insert b {x \<in> set (xs @ ys). lb_pipeline x = pl \<and> lb_specRejected x}"
    using assms by auto
  then show "dom (digests (RejectedArtifactsOf (xs @ b # ys) pl)) =
      dom (digests (RejectedArtifactsOf (xs @ ys) pl)) \<union> digest_key ` {i \<in> set (fst (rejected_of b)). Digest i \<noteq> ''''}"
    "dom (tags (RejectedArtifactsOf (xs @ b # ys) pl)) =
      dom (tags (RejectedArtifactsOf (xs @ ys) pl)) \<union> tag_key ` {i \<in> set (fst (rejected_of b)). Digest i = '''' \<and> Tag i \<noteq> ''''}"
    "dom (commits (RejectedArtifactsOf (xs @ b # ys) pl)) =
      dom (commits (RejectedArtifactsOf (xs @ ys) pl)) \<union> (if snd (rejected_of b) = '''' then {} else {snd (rejected_of b)})"
    unfolding RejectedArtifactsOf_dom by (simp_all only: UN_insert Un_commute)
qed

lemma carriesImage_None:
  "carriesImage r img = None \<longleftrightarrow>
   (Digest img \<noteq> '''' \<longrightarrow> digest_key img \<notin> dom (digests r)) \<and> (Tag img \<noteq> '''' \<longrightarrow> tag_key img \<notin> dom (tags r))"
  by (auto simp: carriesImage_def split: option.splits if_splits)

lemma first_carried_None: "first_carried r imgs = None \<longleftrightarrow> (\<forall>i\<in>set imgs. carriesImage r i = None)"
  by (induction imgs) (auto split: option.splits)

lemma Carries_None:
  "Carries r b = None \<longleftrightarrow>
   \<not> Rejected b \<and> (\<forall>i\<in>set (lb_images b). carriesImage r i = None) \<and>
   (\<forall>c. lb_configRef b = Some c \<longrightarrow> c \<noteq> '''' \<longrightarrow> c \<notin> dom (commits r))"
  by (auto simp: Carries_def first_carried_None [symmetric] split: option.splits if_splits)

text \<open>References whose parts can be read back from the keys: no \<open>@\<close> in a repository, no \<open>:\<close> in a tag.\<close>

definition well_formed :: "ImageRef \<Rightarrow> bool" where
  "well_formed img = (CHR ''@'' \<notin> set (Repository img) \<and> CHR '':'' \<notin> set (Tag img))"

lemma split_unique:
  assumes "x \<notin> set a" "x \<notin> set b"
  shows "a @ x # c = b @ x # d \<longleftrightarrow> a = b \<and> c = d"
proof
  assume e: "a @ x # c = b @ x # d"
  have "takeWhile (\<lambda>y. y \<noteq> x) (xs @ x # ys) = xs" if "x \<notin> set xs" for xs ys
    using that by (subst takeWhile_append2) auto
  with assms e show "a = b \<and> c = d" by (metis same_append_eq list.inject)
qed simp

lemma digest_key_inj:
  "well_formed a \<Longrightarrow> well_formed b \<Longrightarrow> digest_key a = digest_key b \<longleftrightarrow> Repository a = Repository b \<and> Digest a = Digest b"
  by (simp add: digest_key_def well_formed_def split_unique)

lemma tag_key_inj:
  assumes "well_formed a" "well_formed b"
  shows "tag_key a = tag_key b \<longleftrightarrow> Repository a = Repository b \<and> Tag a = Tag b"
proof -
  have "tag_key a = tag_key b \<longleftrightarrow> rev (tag_key a) = rev (tag_key b)" by simp
  also have "\<dots> \<longleftrightarrow> rev (Tag a) = rev (Tag b) \<and> rev (Repository a) = rev (Repository b)"
    using assms by (simp add: tag_key_def well_formed_def split_unique del: rev_is_rev_conv)
  finally show ?thesis by auto
qed

text \<open>With one predecessor \<open>q\<close> in every compared environment, the rejected set is what \<open>q\<close> does not have.\<close>

lemma predecessors_same:
  assumes "envs \<noteq> []" "\<And>env. env \<in> set envs \<Longrightarrow> verifiedBefore parse b bundles env = Some q"
  shows "set (map snd (predecessors parse b bundles envs)) = {q}"
proof -
  have "\<not> list_ex (\<lambda>(_, p). p = None) (map (\<lambda>env. (env, verifiedBefore parse b bundles env)) envs)"
    using assms(2) by (auto simp: list_ex_iff)
  then have "map snd (predecessors parse b bundles envs) = map (\<lambda>env. the (verifiedBefore parse b bundles env)) envs"
    by (simp add: predecessors_def Let_def comp_def)
  then show ?thesis using assms by (cases envs) (auto simp: image_iff)
qed

lemma RejectedSetOf_same:
  assumes "reachedEnvironments b steps \<noteq> []"
    "\<And>env. env \<in> set (reachedEnvironments b steps) \<Longrightarrow> verifiedBefore parse b bundles env = Some q"
  shows "set (rs_images (RejectedSetOf parse b bundles steps)) = {i \<in> set (lb_images b). \<not> list_ex (sameImage i) (lb_images q)}"
    "rs_configCommitSHA (RejectedSetOf parse b bundles steps) =
       (case lb_configRef b of None \<Rightarrow> '''' | Some c \<Rightarrow> if lb_configRef q = Some c then '''' else c)"
proof -
  note preds = predecessors_same [OF assms, simplified set_map]
  have "allCarryImage (map snd (predecessors parse b bundles (reachedEnvironments b steps))) i \<longleftrightarrow> list_ex (sameImage i) (lb_images q)"
    "allCarryCommit (map snd (predecessors parse b bundles (reachedEnvironments b steps))) c \<longleftrightarrow> lb_configRef q = Some c" for i c
    using preds by (auto simp: allCarryImage_def allCarryCommit_def list_all_iff simp flip: set_map)
  then show "set (rs_images (RejectedSetOf parse b bundles steps)) = {i \<in> set (lb_images b). \<not> list_ex (sameImage i) (lb_images q)}"
    "rs_configCommitSHA (RejectedSetOf parse b bundles steps) =
       (case lb_configRef b of None \<Rightarrow> '''' | Some c \<Rightarrow> if lb_configRef q = Some c then '''' else c)"
    by (simp_all add: RejectedSetOf_def Let_def split: option.splits)
qed

lemma sameImage_key:
  assumes "well_formed i" "well_formed j"
  shows "Digest i \<noteq> '''' \<Longrightarrow> digest_key i = digest_key j \<Longrightarrow> sameImage i j"
    "Digest i = '''' \<Longrightarrow> Tag i \<noteq> '''' \<Longrightarrow> tag_key i = tag_key j \<Longrightarrow> sameImage i j"
  using assms by (auto simp: digest_key_inj tag_key_inj sameImage_def)

section \<open>Theorems\<close>

text \<open>C30. Which Bundle goes on. What supersedes a Bundle is in flight (with no rejected artifact, not settled), of its Pipeline and type,
  newer by creation, and no rollback of a single fleet target unless the Bundle rolls back the same one. For every Bundle in
  flight, the newest in flight that stands in for it (itself included) is not superseded; every other one is older than
  that, and is superseded unless an environment is held on it. So the newest Bundle that is no rollback of a target goes on,
  and next to it, for each target, its newest rollback if that is newer still. The order of the list does not matter.\<close>

theorem newest_goes_on:
  assumes names: "distinct (map b_name siblings)"
    and b: "b \<in> set siblings" "lb_pipeline b = pl" "lb_type b = t"
  shows "(\<forall>s \<in> set (SupersedingSiblings lib parse now p b siblings rejected False []).
      s \<in> set siblings \<and> in_flight rejected pl t s \<and> covers lib p s b \<and> 0 < CompareCreation parse s b) \<and>
    (in_flight rejected pl t b \<longrightarrow>
      (\<exists>n \<in> set siblings. in_flight rejected pl t n \<and> covers lib p n b \<and>
         (\<forall>s \<in> set siblings. in_flight rejected pl t s \<and> covers lib p s b \<longrightarrow> CompareCreation parse s n \<le> 0) \<and>
         SupersedingSiblings lib parse now p n siblings rejected False [] = [] \<and>
         (b = n \<or> CompareCreation parse b n < 0 \<and>
           (SupersedingSiblings lib parse now p b siblings rejected False [] = [] \<longleftrightarrow> HoldNaming now p (b_name b) \<noteq> None))))"
proof -
  note super = superseding_iff [OF _ _ _ names, where pl = pl and t = t]
  have empty: "xs = [] \<longleftrightarrow> (\<forall>x. x \<notin> set xs)" for xs :: "LifeBundle list" by (cases xs) auto
  let ?group = "{s \<in> set siblings. in_flight rejected pl t s \<and> covers lib p s b}"
  have "\<exists>n \<in> ?group. (\<forall>s \<in> ?group. CompareCreation parse s n \<le> 0) \<and> SupersedingSiblings lib parse now p n siblings rejected False [] = [] \<and>
      (b = n \<or> CompareCreation parse b n < 0 \<and>
        (SupersedingSiblings lib parse now p b siblings rejected False [] = [] \<longleftrightarrow> HoldNaming now p (b_name b) \<noteq> None))"
    if live: "in_flight rejected pl t b"
  proof -
    have bg: "b \<in> ?group" using b(1) live by (simp add: covers_def)
    then have "Max (creation_key parse ` ?group) \<in> creation_key parse ` ?group" by (intro Max_in) auto
    then obtain n where n: "n \<in> ?group" "creation_key parse n = Max (creation_key parse ` ?group)" by auto
    have newest: "creation_key parse s \<le> creation_key parse n" if "s \<in> ?group" for s
      unfolding n(2) using that by (intro Max_ge) auto
    have "covers lib p s b" if "covers lib p s n" for s using that n(1) by (simp add: covers_def)
    then have "SupersedingSiblings lib parse now p n siblings rejected False [] = []"
      unfolding empty using n(1) newest super [of n] by (auto simp: in_flight_def not_le [symmetric])
    moreover have "b = n \<or> creation_key parse b < creation_key parse n"
      using newest [OF bg] creation_key_inj [OF names b(1), of n parse] n(1) by (auto simp: le_less)
    moreover have "SupersedingSiblings lib parse now p b siblings rejected False [] = [] \<longleftrightarrow> HoldNaming now p (b_name b) \<noteq> None"
      if "creation_key parse b < creation_key parse n"
      unfolding empty using super [OF b] n(1) that by auto
    ultimately show ?thesis using n(1) newest by (intro bexI [of _ n]) (auto simp: creation_sign not_less simp flip: not_less)
  qed
  moreover have "s \<in> set siblings \<and> in_flight rejected pl t s \<and> covers lib p s b \<and> 0 < CompareCreation parse s b"
    if "s \<in> set (SupersedingSiblings lib parse now p b siblings rejected False [])" for s
    using that super [OF b] by (simp add: creation_sign)
  ultimately show ?thesis by blast
qed

text \<open>Three image Bundles of a Pipeline: an environment is held on the first.\<close>

definition demo_bundle :: "string \<Rightarrow> time \<Rightarrow> ImageRef list \<Rightarrow> LifeBundle" where
  "demo_bundle name at images =
     \<lparr>b_name = name, b_intent = None, b_phase = ''Promoting'', b_environments = [], b_evidence = [], lb_namespace = ''team'', lb_labels = [],
      lb_annotations = [], lb_creationTimestamp = at, lb_pipeline = ''app'', lb_type = ''image'', lb_images = images, lb_configRef = None,
      lb_specRejected = False, lb_rejectedArtifacts = None\<rparr>"

definition demo_siblings :: "LifeBundle list" where
  "demo_siblings = [demo_bundle ''v1'' 10 [], demo_bundle ''v3'' 30 [], demo_bundle ''v2'' 20 []]"

definition demo_lib :: fleet_lib where
  "demo_lib = \<lparr>fl_matches = (\<lambda>_. None), fl_isDNSLabel = (\<lambda>_. True), fl_scaled = (\<lambda>_ _. None)\<rparr>"

definition held_on_v1 :: HeldPipeline where
  "held_on_v1 =
     \<lparr>hp_name = ''app'', hp_pipeline = \<lparr>p_name = ''app'', Environments = [], PausedFleets = [], Fleets = [], Holds = []\<rparr>,
      hp_holds = [\<lparr>eh_environment = ''prod'', eh_bundle = ''v1'', eh_reason = ''incident'', eh_createdBy = ''ada'', eh_expiresAt = Some 100\<rparr>]\<rparr>"

definition nothing_rejected :: RejectedArtifacts where
  "nothing_rejected = \<lparr>digests = Map.empty, tags = Map.empty, commits = Map.empty\<rparr>"

lemma demo_in_flight:
  "distinct (map b_name demo_siblings)" "list_all (in_flight nothing_rejected ''app'' ''image'') demo_siblings"
  "CompareCreation (\<lambda>_. None) (demo_siblings ! 1) (demo_siblings ! 0) > 0"
  "CompareCreation (\<lambda>_. None) (demo_siblings ! 1) (demo_siblings ! 2) > 0"
  by code_simp+

theorem newest_goes_on_witness:
  "SupersedingSiblings demo_lib (\<lambda>_. None) 50 (Some held_on_v1) (demo_siblings ! 1) demo_siblings nothing_rejected False [] = [] \<and>
   b_name (demo_siblings ! 1) = ''v3''"
proof -
  let ?v3 = "demo_siblings ! 1"
  have sibs: "set demo_siblings = {demo_siblings ! 0, ?v3, demo_siblings ! 2}" "b_name ?v3 = ''v3''" "lb_pipeline ?v3 = ''app''"
      "lb_type ?v3 = ''image''"
    by (simp_all add: demo_siblings_def demo_bundle_def)
  have v3: "?v3 \<in> set demo_siblings" "in_flight nothing_rejected ''app'' ''image'' ?v3" using demo_in_flight(2) sibs(1) by (auto simp: list_all_iff)
  from newest_goes_on [OF demo_in_flight(1) v3(1) sibs(3,4), where lib = demo_lib and p = "Some held_on_v1" and
      rejected = nothing_rejected and parse = "\<lambda>_. None" and now = 50] v3(2)
  obtain n where n: "n \<in> set demo_siblings" "?v3 = n \<or> CompareCreation (\<lambda>_. None) ?v3 n < 0"
      "SupersedingSiblings demo_lib (\<lambda>_. None) 50 (Some held_on_v1) n demo_siblings nothing_rejected False [] = []" by blast
  have "?v3 = n" using n(1,2) demo_in_flight(3,4) sibs(1) by (auto simp: creation_sign)
  with n(3) sibs(2) show ?thesis by simp
qed

text \<open>A rollback of the fleet target \<open>prod-eu\<close>, newer than a Bundle that goes everywhere: that Bundle is not superseded by it, and of two
  rollbacks of the target the older is.\<close>

definition fleet_held :: HeldPipeline where
  "fleet_held = held_on_v1\<lparr>hp_pipeline := Graph_Fleet.demo_pipeline, hp_holds := []\<rparr>"

definition target_rollback :: "string \<Rightarrow> time \<Rightarrow> LifeBundle" where
  "target_rollback name at = (demo_bundle name at [])\<lparr>lb_labels := [(''kardinal.io/rollback'', ''true'')],
     b_intent := Some \<lparr>TargetEnvironment = ''prod-eu'', SkipEnvironments = [], TargetOnly = True\<rparr>\<rparr>"

lemma target_rollback_goes_beside:
  "let all = [demo_bundle ''v1'' 10 [], target_rollback ''r1'' 20, target_rollback ''r2'' 30] in
   map (\<lambda>b. map b_name (SupersedingSiblings demo_lib (\<lambda>_. None) 50 (Some fleet_held) b all nothing_rejected False [])) all =
     [[], [''r2''], []]"
  by code_simp

text \<open>C31. Rejecting a Bundle spares the Bundle it replaced: when \<open>q\<close> is the newest one verified before \<open>b\<close> in every environment \<open>b\<close>
  reached and the rejection of \<open>b\<close> is recorded, then that rejection takes no artifact of \<open>q\<close> (\<open>q\<close> carries a rejected artifact with it
  exactly when it does without it), while every image of \<open>b\<close> that \<open>q\<close> does not have is rejected, in whatever Bundle it comes back.\<close>

theorem rejection_spares_predecessor:
  assumes rejected: "lb_pipeline b = pl" "lb_specRejected b"
      "lb_rejectedArtifacts b = Some (RejectedSetOf parse b bundles steps)"
    and reached: "reachedEnvironments b steps \<noteq> []"
      "\<And>env. env \<in> set (reachedEnvironments b steps) \<Longrightarrow> verifiedBefore parse b bundles env = Some q"
    and refs: "\<And>i. i \<in> set (lb_images b) \<union> set (lb_images q) \<Longrightarrow> well_formed i"
  shows "(Carries (RejectedArtifactsOf (xs @ b # ys) pl) q = None \<longleftrightarrow> Carries (RejectedArtifactsOf (xs @ ys) pl) q = None) \<and>
    (\<forall>i \<in> set (lb_images b). (Digest i \<noteq> [] \<or> Tag i \<noteq> []) \<longrightarrow> \<not> list_ex (sameImage i) (lb_images q) \<longrightarrow>
       (\<forall>s. i \<in> set (lb_images s) \<longrightarrow> Carries (RejectedArtifactsOf (xs @ b # ys) pl) s \<noteq> None))"
proof -
  have of_b: "set (fst (rejected_of b)) = {i \<in> set (lb_images b). \<not> list_ex (sameImage i) (lb_images q)}"
    "snd (rejected_of b) = (case lb_configRef b of None \<Rightarrow> [] | Some c \<Rightarrow> if lb_configRef q = Some c then [] else c)"
    using RejectedSetOf_same [OF reached] rejected(3) by (simp_all add: rejected_of_def)
  have dig: "digest_key i \<notin> digest_key ` {i \<in> set (fst (rejected_of b)). Digest i \<noteq> []}"
    and tag: "tag_key i \<notin> tag_key ` {i \<in> set (fst (rejected_of b)). Digest i = [] \<and> Tag i \<noteq> []}" if "i \<in> set (lb_images q)" for i
    using that refs sameImage_key by (auto simp: of_b list_ex_iff)
  note more = RejectedArtifactsOf_insert [OF rejected(1,2), of xs ys]
  have "carriesImage (RejectedArtifactsOf (xs @ b # ys) pl) i = None \<longleftrightarrow> carriesImage (RejectedArtifactsOf (xs @ ys) pl) i = None"
    if "i \<in> set (lb_images q)" for i
    using dig [OF that] tag [OF that] by (simp add: carriesImage_None more)
  moreover have "c \<in> dom (commits (RejectedArtifactsOf (xs @ b # ys) pl)) \<longleftrightarrow> c \<in> dom (commits (RejectedArtifactsOf (xs @ ys) pl))"
    if "lb_configRef q = Some c" "c \<noteq> []" for c
    using that unfolding more of_b(2) by (simp split: option.splits)
  ultimately have "Carries (RejectedArtifactsOf (xs @ b # ys) pl) q = None \<longleftrightarrow> Carries (RejectedArtifactsOf (xs @ ys) pl) q = None"
    by (simp add: Carries_None)
  moreover have "Carries (RejectedArtifactsOf (xs @ b # ys) pl) s \<noteq> None"
    if "i \<in> set (lb_images b)" "Digest i \<noteq> [] \<or> Tag i \<noteq> []" "\<not> list_ex (sameImage i) (lb_images q)" "i \<in> set (lb_images s)" for i s
  proof -
    have "carriesImage (RejectedArtifactsOf (xs @ b # ys) pl) i \<noteq> None"
      using that(1-3) by (auto simp: carriesImage_None more of_b(1))
    with that(4) show ?thesis by (auto simp: Carries_None)
  qed
  ultimately show ?thesis by blast
qed

text \<open>\<open>v2\<close> changed the image of the application and kept its sidecar.\<close>

definition spare_old :: LifeBundle where
  "spare_old = (demo_bundle ''v1'' 10 [\<lparr>Repository = ''r/app'', Tag = ''1'', Digest = ''''\<rparr>, \<lparr>Repository = ''r/side'', Tag = ''7'', Digest = ''''\<rparr>])
     \<lparr>b_environments := [\<lparr>es_name = ''prod'', es_phase = ''Verified'', es_soak = 0\<rparr>]\<rparr>"

definition spare_new :: LifeBundle where
  "spare_new =
     (let b = (demo_bundle ''v2'' 20 [\<lparr>Repository = ''r/app'', Tag = ''2'', Digest = ''''\<rparr>, \<lparr>Repository = ''r/side'', Tag = ''7'', Digest = ''''\<rparr>])
        \<lparr>b_environments := [\<lparr>es_name = ''prod'', es_phase = ''HealthChecking'', es_soak = 0\<rparr>], lb_specRejected := True\<rparr>
      in b\<lparr>lb_rejectedArtifacts := Some (RejectedSetOf (\<lambda>_. None) b [spare_old] [])\<rparr>)"

lemma spare_facts:
  "lb_pipeline spare_new = ''app'' \<and> lb_specRejected spare_new \<and>
   lb_rejectedArtifacts spare_new = Some (RejectedSetOf (\<lambda>_. None) spare_new [spare_old] []) \<and>
   reachedEnvironments spare_new [] = [''prod''] \<and> verifiedBefore (\<lambda>_. None) spare_new [spare_old] ''prod'' = Some spare_old \<and>
   list_all well_formed (lb_images spare_new @ lb_images spare_old) \<and>
   Carries (RejectedArtifactsOf [spare_old] ''app'') spare_old = None"
  by code_simp

theorem rejection_spares_predecessor_witness:
  "Carries (RejectedArtifactsOf [spare_old, spare_new] ''app'') spare_old = None"
  using rejection_spares_predecessor [where b = spare_new and q = spare_old and pl = "''app''" and parse = "\<lambda>_. None" and
      bundles = "[spare_old]" and steps = "[]" and xs = "[spare_old]" and ys = "[]"] spare_facts
  by (auto simp: list_all_iff)

end
