(* ===== verification/Policy_Gate.thy ===== *)
theory Policy_Gate
  imports Gate_Overrides Supersession
begin

text \<open>
  The evaluation of a PolicyGate instance (\<open>pkg/reconciler/policygate\<close>: \<open>reconciler.go\<close>, \<open>approvals.go\<close>, \<open>verdicts.go\<close>, \<open>actor_context.go\<close>): the
  override in effect, else the CEL expression, the approval policy and the verify policy, else the exemption of a held rollback;
  and the patch that stores the result with its audit record.

  What a reconcile reads is the argument \<open>gate_reads\<close>: the clock, the Bundle, the Pipeline, the steps that wait, the context of the
  expression (\<open>buildContext\<close>) and the CEL evaluator, and \<open>VerifyHeldRollback\<close>, which reads the history of an environment. The texts of the
  audit records of decisions and verdicts are arguments too. The code reads its clock in \<open>recordOverrides\<close>, in the evaluation and in
  \<open>patchStatus\<close>; here they share the one time of the reads. Events, metrics and log lines are left out.

  \<open>gate_opens\<close> is the safety of the whole: whenever a reconcile stores a gate as ready that was not, one of the three reasons holds
  at that time. It rests on the quorum of \<open>Approvals\<close>, the votes of \<open>Verdicts\<close> and the cap of \<open>Gate_Overrides\<close>.
\<close>

section \<open>Reasons\<close>

definition WithVersion :: "string \<Rightarrow> string \<Rightarrow> string" where
  "WithVersion reason version = (if version = '''' then reason else reason @ '' (version '' @ version @ '')'')"

definition BlockedReason :: "string \<Rightarrow> string \<Rightarrow> string \<Rightarrow> string" where
  "BlockedReason message detail version =
     (if message = '''' then WithVersion detail version
      else message @ '' ('' @ detail @ (if version \<noteq> '''' then ''; version '' @ version else '''') @ '')'')"

definition ApprovalPolicyHeld :: "GateApprovalPolicy option \<Rightarrow> nat \<Rightarrow> Actor \<Rightarrow> string \<Rightarrow> string" where
  "ApprovalPolicyHeld p n author env =
     (case approvalPolicyBlock p n author of
        ApprovalTooMany \<Rightarrow> ''more than '' @ nat_str MaxGateApprovals @ '' Approvals for this Bundle in '' @ env @
          ''; delete the stale ones (kubectl get approvals)''
      | ApprovalNoCreator \<Rightarrow> ''excludeAuthor cannot be enforced: the Bundle has no verified creator (annotation kardinal.io/created-by)''
      | ApprovalComponentCreator \<Rightarrow> ''excludeAuthor cannot be enforced: the Bundle was created by the kardinal component '' @
          quote (Principal author) @ '', not a person; create it as yourself (kardinal create bundle, or the Bundle API with your own token)''
      | _ \<Rightarrow> '''')"

section \<open>Approvals\<close>

definition approval_gate :: "GateInstance \<Rightarrow> ApprovalGate" where
  "approval_gate g =
     \<lparr>gt_policy = pg_approval g, gt_bundle = gate_label g labelBundle, gt_environment = gate_label g labelEnvironment,
      gt_approvals = pg_approvals g, gt_required = ApprovalRequired (pg_status g)\<rparr>"

definition tallyApprovals :: "field_lib \<Rightarrow> GateInstance \<Rightarrow> Actor \<Rightarrow> ApprovalTally" where
  "tallyApprovals fl g author = TallyApprovals fl (approval_gate g) author"

text \<open>\<open>approvals.*\<close> of the expression.\<close>

record approvals_ctx =
  ac_count :: nat
  ac_required :: int
  ac_users :: "string list"
  ac_rejected :: bool
  ac_met :: bool
  ac_fields :: "(string \<times> string list) list"

definition tally_context :: "ApprovalTally \<Rightarrow> bool \<Rightarrow> approvals_ctx" where
  "tally_context t met =
     \<lparr>ac_count = length (Approvers t), ac_required = t_required t, ac_users = Approvers t, ac_rejected = (Rejecters t \<noteq> []),
      ac_met = met, ac_fields = t_fields t\<rparr>"

definition rejected_part :: "ApprovalTally \<Rightarrow> string \<Rightarrow> string" where
  "rejected_part t u = (let c = assoc_str (Comments t) u in if c \<noteq> '''' then u @ '' ('' @ c @ '')'' else u)"

definition tally_blocked :: "GateInstance \<Rightarrow> Actor \<Rightarrow> ApprovalTally \<Rightarrow> string" where
  "tally_blocked g author t =
     (if t_required t = 0 then ''''
      else if t_held t \<noteq> ApprovalOpen then ApprovalPolicyHeld (pg_approval g) (length (pg_approvals g)) author (gate_label g labelEnvironment)
      else if Rejecters t \<noteq> [] then ''rejected by '' @ join '', '' (map (rejected_part t) (Rejecters t))
      else if int (length (Approvers t)) < t_required t
      then ''waiting for approvals: '' @ nat_str (length (Approvers t)) @ '' of '' @ int_str (t_required t) @
           (if Approvers t \<noteq> [] then '' ('' @ join '', '' (Approvers t) @ '')'' else '''')
      else '''')"

definition tally_met :: "ApprovalTally \<Rightarrow> string" where
  "tally_met t =
     (if t_required t = 0 then ''''
      else ''approved by '' @ join '', '' (Approvers t) @ '' ('' @ nat_str (length (Approvers t)) @ '' of '' @ int_str (t_required t) @ '')'')"

definition sameDecision :: "GateApprovalStatus \<Rightarrow> GateApprovalStatus \<Rightarrow> bool" where
  "sameDecision a b = (st_user a = st_user b \<and> st_decision a = st_decision b \<and> st_fields a = st_fields b)"

definition hasDecision :: "(GateApprovalStatus \<times> time option) list \<Rightarrow> GateApprovalStatus \<Rightarrow> bool" where
  "hasDecision ds r = list_ex (\<lambda>d. sameDecision (fst d) r) ds"

definition seen_since :: "(GateApprovalStatus \<times> time option) list \<Rightarrow> time \<Rightarrow> GateApprovalStatus \<Rightarrow> time option" where
  "seen_since old now r =
     (case find (\<lambda>d. sameDecision (fst d) r \<and> snd d \<noteq> None) old of Some d \<Rightarrow> snd d | None \<Rightarrow> Some now)"

section \<open>What a reconcile reads\<close>

text \<open>\<open>actor.*\<close> and \<open>approvals.*\<close> of the context; the rest is not looked into.\<close>

record 'x cel_ctx =
  cx_actor :: Actor
  cx_approvals :: approvals_ctx
  cx_rest :: 'x

record verify_bundle =
  vb_actor :: "Actor option"
  vb_createdBy :: string
  vb_uid :: string
  vb_environments :: "(string \<times> time option) list"

record waiting_step =
  ws_state :: string
  ws_gates :: "string list"
  ws_created :: time

record 'x gate_reads =
  rd_now :: time
  rd_heartbeat :: duration
  rd_maxOverride :: duration
  rd_policyActive :: bool
  rd_phase :: "(string \<times> bool) option"
  rd_context :: "string + 'x cel_ctx \<times> string"
  rd_bundle :: "verify_bundle option"
  rd_evaluate :: "string \<Rightarrow> 'x cel_ctx \<Rightarrow> (bool \<times> string) \<times> string option"
  rd_staleNotes :: "string \<Rightarrow> 'x cel_ctx \<Rightarrow> string"
  rd_changeNotes :: "string \<Rightarrow> 'x cel_ctx \<Rightarrow> string"
  rd_pipeline :: "HeldPipeline option"
  rd_verifyHeld :: "HeldPipeline \<Rightarrow> EnvironmentHold \<Rightarrow> string"
  rd_steps :: "waiting_step list option"
  rd_parseDuration :: "string \<Rightarrow> duration option"
  rd_fields :: field_lib
  rd_approvalEntry :: "GateInstance \<Rightarrow> GateApprovalStatus \<times> time option \<Rightarrow> string \<Rightarrow> PendingAuditEvent option"
  rd_verdictEntry :: "GateInstance \<Rightarrow> GateVerdictStatus \<Rightarrow> string \<Rightarrow> PendingAuditEvent option"

definition authorFrom :: "'x cel_ctx \<Rightarrow> Actor" where
  "authorFrom ctx = (cx_actor ctx)\<lparr>Asserted := None\<rparr>"

definition bundleSettled :: "(string \<times> bool) option \<Rightarrow> bool" where
  "bundleSettled b =
     (case b of
        None \<Rightarrow> False
      | Some (phase, graphReady) \<Rightarrow> if phase = ''Superseded'' \<or> phase = ''Rejected'' then True else if phase = ''Verified'' then graphReady else False)"

definition defaultRecheckInterval :: duration where "defaultRecheckInterval = 5 * minute"
definition minRecheckInterval :: duration where "minRecheckInterval = 10 * second"
definition conflictRetryDelay :: duration where "conflictRetryDelay = 200000000"
definition auditRetryDelay :: duration where "auditRetryDelay = 5 * second"

definition parseRecheckInterval :: "(string \<Rightarrow> duration option) \<Rightarrow> string \<Rightarrow> duration" where
  "parseRecheckInterval parse s =
     (if s = '''' then defaultRecheckInterval
      else (case parse s of
              None \<Rightarrow> defaultRecheckInterval
            | Some d \<Rightarrow> if d \<le> 0 then defaultRecheckInterval else if d < minRecheckInterval then minRecheckInterval else d))"

definition approvalRequired :: "'x gate_reads \<Rightarrow> GateInstance \<Rightarrow> 'x cel_ctx \<Rightarrow> bool \<times> string option" where
  "approvalRequired rd g ctx =
     (if pg_approval g = None \<or> RequiredWhen g = '''' then (True, None)
      else (case rd_evaluate rd (RequiredWhen g) ctx of
              (_, Some e) \<Rightarrow> (True, Some e)
            | ((required, _), None) \<Rightarrow> (required, None)))"

section \<open>Verdicts\<close>

definition bundleAuthor :: "verify_bundle \<Rightarrow> Actor" where
  "bundleAuthor b = OrUnknown (vb_actor b) (vb_createdBy b)"

definition healthCheckedAt :: "verify_bundle \<Rightarrow> string \<Rightarrow> time option" where
  "healthCheckedAt b env = (case find (\<lambda>e. fst e = env \<and> snd e \<noteq> None) (vb_environments b) of Some e \<Rightarrow> snd e | None \<Rightarrow> None)"

definition verify_gate :: "GateInstance \<Rightarrow> VerifyGate" where
  "verify_gate g =
     \<lparr>vg_name = pg_name g, vg_bundle = gate_label g labelBundle, vg_verify = pg_verify g, vg_verdicts = pg_verdicts g\<rparr>"

definition verify_deadline :: "'x gate_reads \<Rightarrow> GateInstance \<Rightarrow> verify_bundle \<Rightarrow> time option" where
  "verify_deadline rd g b =
     (case VerifyPolicyOf (verify_gate g) of
        None \<Rightarrow> None
      | Some p \<Rightarrow> VerifyDeadline (rd_parseDuration rd) (Some p) (healthCheckedAt b (v_environment p)))"

definition tallyVerdicts :: "'x gate_reads \<Rightarrow> GateInstance \<Rightarrow> verify_bundle \<Rightarrow> VerdictTally" where
  "tallyVerdicts rd g b = TallyVerdicts (verify_gate g) (bundleAuthor b) (vb_uid b) (verify_deadline rd g b) (rd_now rd)"

definition untilDeadline :: "VerdictTally \<Rightarrow> time \<Rightarrow> duration" where
  "untilDeadline t now =
     (case vt_deadline t of None \<Rightarrow> 0 | Some d \<Rightarrow> if Outcome t \<noteq> VerifyWaiting \<or> d \<le> now then 0 else d - now + second)"

section \<open>Recording decisions and verdicts\<close>

definition enqueue_records :: "gate_lib \<Rightarrow> PendingAuditEvent option list \<Rightarrow> GateStatus \<Rightarrow> GateStatus" where
  "enqueue_records lib es st = st\<lparr>gs_pending := foldl (gate_enqueue lib) (gs_pending st) (List.map_filter (\<lambda>x. x) es)\<rparr>"

text \<open>A patch of the status after which the outbox is flushed; when it fails the copy is as it was.\<close>

definition patch_or_undo :: "'w gate_api \<Rightarrow> (GateStatus \<Rightarrow> GateStatus) \<Rightarrow> 'w gate_run \<Rightarrow> patch_out \<times> 'w gate_run" where
  "patch_or_undo api f s =
     (case patch_status api (set_status f s) of
        (PatchOK, s1) \<Rightarrow> (PatchOK, snd (gate_flushAudit api s1))
      | (e, s1) \<Rightarrow> (e, s1\<lparr>run_gate := run_gate s\<rparr>))"

definition recordApprovals :: "'w gate_api \<Rightarrow> gate_lib \<Rightarrow> 'x gate_reads \<Rightarrow> ApprovalTally \<Rightarrow> 'w gate_run \<Rightarrow> patch_out \<times> 'w gate_run" where
  "recordApprovals api lib rd t s =
     (let g = run_gate s; old = gs_approvals (pg_status g);
          new = map (\<lambda>r. (r, seen_since old (rd_now rd) r)) (Records t);
          es = map (\<lambda>d. rd_approvalEntry rd g d ''ApprovalRecorded'') (filter (\<lambda>d. \<not> hasDecision old (fst d)) new) @
               map (\<lambda>d. rd_approvalEntry rd g d ''ApprovalRevoked'') (filter (\<lambda>d. \<not> hasDecision new (fst d)) old)
      in if new = old then (PatchOK, s) else patch_or_undo api (\<lambda>st. enqueue_records lib es (st\<lparr>gs_approvals := new\<rparr>)) s)"

definition recordVerdicts :: "'w gate_api \<Rightarrow> gate_lib \<Rightarrow> 'x gate_reads \<Rightarrow> VerdictTally \<Rightarrow> 'w gate_run \<Rightarrow> patch_out \<times> 'w gate_run" where
  "recordVerdicts api lib rd t s =
     (let g = run_gate s; old = gs_verdicts (pg_status g); new = vt_records t;
          es = map (\<lambda>r. rd_verdictEntry rd g r ''VerdictRecorded'') (filter (\<lambda>r. vs_name r \<notin> vs_name ` set old) new) @
               map (\<lambda>r. rd_verdictEntry rd g r ''VerdictRevoked'') (filter (\<lambda>r. vs_name r \<notin> vs_name ` set new) old)
      in if new = old then (PatchOK, s) else patch_or_undo api (\<lambda>st. enqueue_records lib es (st\<lparr>gs_verdicts := new\<rparr>)) s)"

section \<open>Storing a result\<close>

definition conditionReady :: string where "conditionReady = ''Ready''"
definition conditionReasonUnblocked :: string where "conditionReasonUnblocked = ''Unblocked''"

definition freshResultWanted :: "GateInstance \<Rightarrow> time \<Rightarrow> waiting_step list \<Rightarrow> bool" where
  "freshResultWanted g lastEval steps =
     list_ex (\<lambda>ps. (ws_state ps = '''' \<or> ws_state ps = ''Pending'') \<and> pg_name g \<in> set (ws_gates ps) \<and> lastEval < ws_created ps) steps"

definition unchangedResult :: "gate_lib \<Rightarrow> 'x gate_reads \<Rightarrow> GateInstance \<Rightarrow> bool \<Rightarrow> string \<Rightarrow> bool" where
  "unchangedResult lib rd g ready reason =
     (case gs_lastEvaluatedAt (pg_status g) of
        None \<Rightarrow> False
      | Some t \<Rightarrow>
          if rd_heartbeat rd \<le> 0 \<or> Ready (pg_status g) \<noteq> ready \<or> gs_reason (pg_status g) \<noteq> reason then False
          else if rd_heartbeat rd \<le> rd_now rd - t then False
          else (case gl_find lib (gs_conditions (pg_status g)) conditionReady of
                  None \<Rightarrow> False
                | Some c \<Rightarrow>
                    if gc_generation c \<noteq> pg_generation g then False
                    else (case rd_steps rd of None \<Rightarrow> False | Some steps \<Rightarrow> \<not> freshResultWanted g t steps)))"

definition ready_condition :: "gate_lib \<Rightarrow> GateInstance \<Rightarrow> time \<Rightarrow> bool \<Rightarrow> string \<Rightarrow> GateCondition" where
  "ready_condition lib g now ready reason =
     (let unblocked = (case gl_find lib (gs_conditions (pg_status g)) conditionReady of
                         None \<Rightarrow> False | Some c \<Rightarrow> \<not> gc_status c \<or> gc_reason c = conditionReasonUnblocked)
      in \<lparr>gc_type = conditionReady, gc_status = ready,
          gc_reason = (if \<not> ready then ''Blocked'' else if unblocked then conditionReasonUnblocked else ''Allowed''),
          gc_message = truncateMessage reason, gc_generation = pg_generation g, gc_transition = now\<rparr>)"

definition result_status :: "gate_lib \<Rightarrow> GateInstance \<Rightarrow> time \<Rightarrow> bool \<Rightarrow> string \<Rightarrow> string \<Rightarrow> bool option \<Rightarrow> GateStatus \<Rightarrow> GateStatus" where
  "result_status lib g now ready reason version ar st =
     (let st1 = stampVerifiedSince now (st\<lparr>Ready := ready, gs_reason := reason, BundleVersion := version, gs_lastEvaluatedAt := Some now,
                  ApprovalRequired := ar\<rparr>);
          st2 = st1\<lparr>gs_conditions := gl_set lib (gs_conditions st) (ready_condition lib g now ready reason)\<rparr>
      in if ready \<noteq> Ready st \<or> gs_lastEvaluatedAt st = None
         then enqueue_records lib [gateAuditEntry lib g (if ready then ''Success'' else ''Failure'') reason now] st2 else st2)"

definition patchStatusWith ::
  "'w gate_api \<Rightarrow> gate_lib \<Rightarrow> 'x gate_reads \<Rightarrow> bool \<Rightarrow> string \<Rightarrow> string \<Rightarrow> bool option \<Rightarrow> 'w gate_run \<Rightarrow> patch_out \<times> 'w gate_run" where
  "patchStatusWith api lib rd ready reason version ar s =
     (let g = run_gate s in
      if BundleVersion (pg_status g) = version \<and> ApprovalRequired (pg_status g) = ar \<and> unchangedResult lib rd g ready reason
      then (PatchOK, s)
      else (case patch_status api (set_status (result_status lib g (rd_now rd) ready reason version ar) s) of
              (PatchOK, s1) \<Rightarrow> (PatchOK, snd (gate_flushAudit api s1))
            | (e, s1) \<Rightarrow> (e, s1)))"

definition patchStatus :: "'w gate_api \<Rightarrow> gate_lib \<Rightarrow> 'x gate_reads \<Rightarrow> bool \<Rightarrow> string \<Rightarrow> string \<Rightarrow> 'w gate_run \<Rightarrow> patch_out \<times> 'w gate_run" where
  "patchStatus api lib rd ready reason version s =
     patchStatusWith api lib rd ready reason version (ApprovalRequired (pg_status (run_gate s))) s"

section \<open>The exemption of a held rollback\<close>

definition LabelFreeze :: string where "LabelFreeze = ''kardinal.io/freeze''"

definition contains :: "string \<Rightarrow> string \<Rightarrow> bool" where
  "contains s pat = (after_last pat s \<noteq> None)"

definition approvalGate :: "GateInstance \<Rightarrow> bool" where
  "approvalGate g = (pg_approval g \<noteq> None \<or> contains (pg_expression g) ''approvals.'')"

definition HoldExemptible :: "GateInstance \<Rightarrow> string \<Rightarrow> bool" where
  "HoldExemptible g env =
     (gate_label g labelBundle \<noteq> '''' \<and> gate_label g labelEnvironment = env \<and> gate_label g LabelFreeze \<noteq> ''true'' \<and> \<not> approvalGate g)"

definition holdExemption :: "'x gate_reads \<Rightarrow> GateInstance \<Rightarrow> string \<Rightarrow> EnvironmentHold option \<times> string" where
  "holdExemption rd g bundleName =
     (if gate_label g labelPipeline = '''' then (None, '''')
      else (case rd_pipeline rd of
              None \<Rightarrow> (None, '''')
            | Some p \<Rightarrow>
                (case HoldNaming (rd_now rd) (Some p) bundleName of
                   None \<Rightarrow> (None, '''')
                 | Some h \<Rightarrow>
                     if \<not> HoldExemptible g (eh_environment h) then (None, '''')
                     else if rd_verifyHeld rd p h \<noteq> '''' then (None, rd_verifyHeld rd p h)
                     else (Some h, ''''))))"

section \<open>The evaluation\<close>

record gate_verdict =
  gv_pass :: bool
  gv_reason :: string
  gv_err :: bool
  gv_exprFalse :: bool
  gv_approvalReq :: "bool option"

text \<open>The expression, then the approval and the verify policy.\<close>

definition evaluate_gate :: "'x gate_reads \<Rightarrow> GateInstance \<Rightarrow> 'x cel_ctx \<Rightarrow> ApprovalTally \<Rightarrow> VerdictTally \<Rightarrow> gate_verdict" where
  "evaluate_gate rd g ctx0 t vt =
     (let (required, reqErr) = approvalRequired rd g ctx0;
          ctx = ctx0\<lparr>cx_approvals := tally_context t (\<not> required \<or> Met t)\<rparr>;
          ((pass0, reason0), err0) = rd_evaluate rd (pg_expression g) ctx;
          overruled = (reqErr \<noteq> None \<and> (err0 = None \<or> pass0));
          pass1 = (if overruled then False else pass0);
          reason1 = (if overruled then ''approval.requiredWhen: '' @ the reqErr else reason0);
          err1 = (overruled \<or> err0 \<noteq> None);
          held = (if required \<and> tally_blocked g (authorFrom ctx0) t \<noteq> '''' then tally_blocked g (authorFrom ctx0) t else Tally_Blocked vt);
          passes = (pass1 \<and> \<not> err1);
          met = (if \<not> required then ''; approval not required (approval.requiredWhen is false)''
                 else if tally_met t \<noteq> '''' then ''; '' @ tally_met t else '''') @
                (if Tally_Met vt \<noteq> '''' then ''; '' @ Tally_Met vt else '''');
          pass = (if passes then held = '''' else pass1);
          reason2 = (if passes then (if held \<noteq> '''' then held else reason1 @ met) else reason1);
          stale = rd_staleNotes rd (pg_expression g) ctx; change = rd_changeNotes rd (pg_expression g) ctx;
          reason = (if pass then reason2
                    else reason2 @ (if stale \<noteq> '''' then ''; '' @ stale else '''') @ (if change \<noteq> '''' then ''; '' @ change else ''''))
      in \<lparr>gv_pass = pass, gv_reason = reason, gv_err = err1, gv_exprFalse = (\<not> pass1 \<and> \<not> err1),
          gv_approvalReq = (if pg_approval g \<noteq> None \<and> reqErr = None then Some required else ApprovalRequired (pg_status g))\<rparr>)"

datatype gate_result = GateDone "duration option" | GateConflict | GateGone | GateError

definition failed_patch :: "patch_out \<Rightarrow> gate_result" where
  "failed_patch out = (case out of PatchConflict \<Rightarrow> GateConflict | PatchNotFound \<Rightarrow> GateGone | _ \<Rightarrow> GateError)"

definition after_patch :: "patch_out \<times> 'w gate_run \<Rightarrow> duration \<Rightarrow> gate_result \<times> 'w gate_run" where
  "after_patch p d = (case p of (PatchOK, s) \<Rightarrow> (GateDone (Some d), s) | (e, s) \<Rightarrow> (failed_patch e, s))"

text \<open>The end of a reconcile, once the verdict is known.\<close>

definition store_verdict ::
  "'w gate_api \<Rightarrow> gate_lib \<Rightarrow> 'x gate_reads \<Rightarrow> string \<Rightarrow> string \<Rightarrow> duration \<Rightarrow> VerdictTally \<Rightarrow> gate_verdict \<Rightarrow> 'w gate_run \<Rightarrow>
   gate_result \<times> 'w gate_run" where
  "store_verdict api lib rd bundleName version recheck vt v s =
     (let g = run_gate s;
          (hold, refused) = (if gv_pass v then (None, '''') else holdExemption rd g bundleName);
          reason = gv_reason v @ (if refused \<noteq> '''' then '' (hold exemption refused: '' @ refused @ '')'' else '''')
      in case hold of
           Some h \<Rightarrow>
             after_patch (patchStatusWith api lib rd True (GateExemption h (WithVersion reason version)) version (gv_approvalReq v) s)
               (UntilExpiry (rd_now rd) (Some h) recheck)
         | None \<Rightarrow>
             if gv_err v then after_patch (patchStatusWith api lib rd False (WithVersion reason version) version (gv_approvalReq v) s) recheck
             else after_patch (patchStatusWith api lib rd (gv_pass v)
                    (if gv_exprFalse v then BlockedReason (pg_message g) reason version else WithVersion reason version) version (gv_approvalReq v) s)
                    (if 0 < untilDeadline vt (rd_now rd) \<and> untilDeadline vt (rd_now rd) < recheck then untilDeadline vt (rd_now rd) else recheck))"

text \<open>The evaluation of a gate that no override passes: the context, the recorded decisions and verdicts, the verdict.\<close>

definition no_verdicts :: VerdictTally where "no_verdicts = empty_tally None None"

definition judge_gate ::
  "'w gate_api \<Rightarrow> gate_lib \<Rightarrow> 'x gate_reads \<Rightarrow> string \<Rightarrow> duration \<Rightarrow> 'w gate_run \<Rightarrow> gate_result \<times> 'w gate_run" where
  "judge_gate api lib rd bundleName recheck s =
     (case rd_context rd of
        Inl e \<Rightarrow> after_patch (patchStatus api lib rd False (''context error: '' @ e) '''' s) recheck
      | Inr (ctx, version) \<Rightarrow>
          let t = tallyApprovals (rd_fields rd) (run_gate s) (authorFrom ctx) in
          (case recordApprovals api lib rd t s of
             (PatchConflict, s1) \<Rightarrow> (GateConflict, s1)
           | (_, s1) \<Rightarrow>
               if pg_verify (run_gate s1) = None
               then store_verdict api lib rd bundleName version recheck no_verdicts (evaluate_gate rd (run_gate s1) ctx t no_verdicts) s1
               else (case rd_bundle rd of
                       None \<Rightarrow> (GateError, s1)
                     | Some b \<Rightarrow>
                         let vt = tallyVerdicts rd (run_gate s1) b in
                         (case recordVerdicts api lib rd vt s1 of
                            (PatchConflict, s2) \<Rightarrow> (GateConflict, s2)
                          | (_, s2) \<Rightarrow>
                              store_verdict api lib rd bundleName version recheck vt (evaluate_gate rd (run_gate s2) ctx t vt) s2))))"

definition retryAudit :: "gate_result \<Rightarrow> bool \<Rightarrow> nat \<Rightarrow> gate_result" where
  "retryAudit res auditErr pending =
     (case res of
        GateDone d \<Rightarrow>
          if \<not> auditErr \<and> pending = 0 then res
          else (case d of None \<Rightarrow> GateDone (Some auditRetryDelay)
                | Some t \<Rightarrow> GateDone (Some (if t = 0 \<or> auditRetryDelay < t then auditRetryDelay else t)))
      | _ \<Rightarrow> res)"

text \<open>The instance branch of \<open>reconcile\<close>: a gate with a \<open>kardinal.io/bundle\<close> label, after \<open>markGenerated\<close>.\<close>

definition reconcile_gate :: "'w gate_api \<Rightarrow> gate_lib \<Rightarrow> 'x gate_reads \<Rightarrow> 'w gate_run \<Rightarrow> gate_result \<times> 'w gate_run" where
  "reconcile_gate api lib rd s0 =
     (let bundleName = gate_label (run_gate s0) labelBundle; (auditErr, s) = gate_flushAudit api s0;
          (res, s') =
            (case recordOverrides api lib (rd_maxOverride rd) (rd_policyActive rd) (rd_now rd) s of
               (PatchOK, s1) \<Rightarrow>
                 if bundleSettled (rd_phase rd) then (GateDone None, s1)
                 else
                   let recheck = parseRecheckInterval (rd_parseDuration rd) (RecheckInterval (run_gate s1)) in
                   (case findActiveOverride lib (run_gate s1) (gate_label (run_gate s1) labelEnvironment) (rd_now rd) (maxOverride (rd_maxOverride rd)) of
                      Some a \<Rightarrow>
                        after_patch (patchStatus api lib rd True (override_reason lib a) (BundleVersion (pg_status (run_gate s1))) s1)
                          (min recheck (ao_end a - rd_now rd + second))
                    | None \<Rightarrow> judge_gate api lib rd bundleName recheck s1)
             | (e, s1) \<Rightarrow> (failed_patch e, s1))
      in (retryAudit res auditErr (length (gs_pending (pg_status (run_gate s')))), s'))"

text \<open>\<open>Reconcile\<close>: a conflict is retried, a deleted gate ends it.\<close>

definition Reconcile_gate :: "'w gate_api \<Rightarrow> gate_lib \<Rightarrow> 'x gate_reads \<Rightarrow> 'w gate_run \<Rightarrow> duration option option \<times> 'w gate_run" where
  "Reconcile_gate api lib rd s =
     (case reconcile_gate api lib rd s of
        (GateDone d, s') \<Rightarrow> (Some d, s')
      | (GateConflict, s') \<Rightarrow> (Some (Some conflictRetryDelay), s')
      | (GateGone, s') \<Rightarrow> (Some None, s')
      | (GateError, s') \<Rightarrow> (None, s'))"

section \<open>What opens a gate\<close>

text \<open>The three reasons, of the gate \<open>g\<close> that was read and the gate \<open>g'\<close> that was stored.\<close>

definition by_override :: "gate_lib \<Rightarrow> 'x gate_reads \<Rightarrow> GateInstance \<Rightarrow> GateInstance \<Rightarrow> bool" where
  "by_override lib rd g g' =
     (\<exists>ov \<in> set (pg_overrides g). \<exists>t. recorded (overrideKey lib ov) t g' \<and> rd_now rd < t + maxOverride (rd_maxOverride rd) \<and>
        rd_now rd < ov_expiresAt ov \<and> \<not> agentOverride ov \<and> \<not> futureDated ov t \<and> ov_stage ov \<in> {'''', gate_label g labelEnvironment})"

definition by_policies :: "'x gate_reads \<Rightarrow> GateInstance \<Rightarrow> bool" where
  "by_policies rd g =
     (\<exists>ctx version. rd_context rd = Inr (ctx, version) \<and>
        (let t = tallyApprovals (rd_fields rd) g (authorFrom ctx) in
         (\<exists>met reason. rd_evaluate rd (pg_expression g) (ctx\<lparr>cx_approvals := tally_context t met\<rparr>) = ((True, reason), None)) \<and>
         (approvalRequired rd g ctx = (False, None) \<or> approvalRequired rd g ctx = (True, None) \<and> Met t) \<and>
         (pg_verify g = None \<or> (\<exists>b. rd_bundle rd = Some b \<and> Tally_Blocked (tallyVerdicts rd g b) = ''''))))"

definition by_hold :: "'x gate_reads \<Rightarrow> GateInstance \<Rightarrow> bool" where
  "by_hold rd g =
     (\<exists>p h. rd_pipeline rd = Some p \<and> HoldNaming (rd_now rd) (Some p) (gate_label g labelBundle) = Some h \<and>
        rd_verifyHeld rd p h = '''' \<and> HoldExemptible g (eh_environment h))"

text \<open>The gate \<open>g\<close> with another status, not ready.\<close>

definition quiet :: "GateInstance \<Rightarrow> GateInstance \<Rightarrow> bool" where
  "quiet g g' = (\<exists>st. g' = g\<lparr>pg_status := st\<rparr> \<and> \<not> Ready st)"

interpretation quiet: gate_property "quiet g" now for g now
  by unfold_locales (auto simp: quiet_def)

section \<open>Lemmas\<close>

lemma enqueue_records_fields [simp]:
  "gs_overrides (enqueue_records lib es st) = gs_overrides st" "Ready (enqueue_records lib es st) = Ready st"
  by (simp_all add: enqueue_records_def)

lemma result_status_fields [simp]:
  "gs_overrides (result_status lib g now ready reason version ar st) = gs_overrides st"
  "Ready (result_status lib g now ready reason version ar st) = ready"
  by (simp_all add: result_status_def Let_def stampVerifiedSince_def)

context gate_property
begin

lemma undone:
  assumes "everywhere s" "\<And>st. gs_overrides (f st) = gs_overrides st" "\<And>st. Ready (f st) = Ready st"
  shows "everywhere (snd (patch_or_undo api f s))"
proof -
  obtain out s1 where p: "patch_status api (set_status f s) = (out, s1)" by fastforce
  have "everywhere (snd (patch_status api (set_status f s)))"
    using assms by (intro patched set_other) simp_all
  then have s1: "everywhere s1" by (simp add: p)
  then have "everywhere (s1\<lparr>run_gate := run_gate s\<rparr>)" using assms(1) by (simp add: everywhere_def)
  with s1 flushed [OF s1] p show ?thesis by (cases out) (simp_all add: patch_or_undo_def)
qed

lemma approvals_recorded: "everywhere s \<Longrightarrow> everywhere (snd (recordApprovals api lib rd t s))"
  unfolding recordApprovals_def Let_def by (intro either undone) simp_all

lemma verdicts_recorded: "everywhere s \<Longrightarrow> everywhere (snd (recordVerdicts api lib rd t s))"
  unfolding recordVerdicts_def Let_def by (intro either undone) simp_all

lemma result_stored:
  assumes "everywhere s"
    and "P ((run_gate s)\<lparr>pg_status := result_status lib (run_gate s) (rd_now rd) ready reason version ar (pg_status (run_gate s))\<rparr>)"
  shows "everywhere (snd (patchStatusWith api lib rd ready reason version ar s))"
proof -
  have "everywhere (snd (patch_status api (set_status (result_status lib (run_gate s) (rd_now rd) ready reason version ar) s)))"
    using assms by (intro patched set_to)
  then have "everywhere (snd (case patch_status api (set_status (result_status lib (run_gate s) (rd_now rd) ready reason version ar) s) of
      (PatchOK, s1) \<Rightarrow> (PatchOK, snd (gate_flushAudit api s1)) | (e, s1) \<Rightarrow> (e, s1)))"
    by (rule when_patched) (simp add: flushed)
  with assms(1) show ?thesis
    unfolding patchStatusWith_def Let_def by (intro either) simp_all
qed

end

lemma held_text: "approvalPolicyBlock p n author \<noteq> ApprovalOpen \<Longrightarrow> ApprovalPolicyHeld p n author env \<noteq> ''''"
  by (auto simp: approvalPolicyBlock_def ApprovalPolicyHeld_def split: option.splits if_splits)

lemma not_blocked_met: "tally_blocked g author (tallyApprovals fl g author) = '''' \<Longrightarrow> Met (tallyApprovals fl g author)"
  using held_text [of "pg_approval g" "length (pg_approvals g)" author "gate_label g labelEnvironment"]
  by (auto simp: tally_blocked_def Met_def tallyApprovals_def TallyApprovals_def approval_gate_def Let_def split: if_splits)

lemma tally_one_required: "tally_one lib (gt\<lparr>gt_required := x\<rparr>) author = tally_one lib gt author"
  by (intro ext) (simp add: tally_one_def)

lemma tallyApprovals_status [simp]: "tallyApprovals fl (g\<lparr>pg_status := st\<rparr>) author = tallyApprovals fl g author"
proof -
  have "approval_gate (g\<lparr>pg_status := st\<rparr>) = (approval_gate g)\<lparr>gt_required := ApprovalRequired st\<rparr>"
    by (simp add: approval_gate_def gate_label_def)
  then show ?thesis
    by (simp add: tallyApprovals_def TallyApprovals_def tally_one_required)
qed

lemma spec_status [simp]:
  "tallyVerdicts rd (g\<lparr>pg_status := st\<rparr>) b = tallyVerdicts rd g b" "gate_label (g\<lparr>pg_status := st\<rparr>) k = gate_label g k"
  "approvalRequired rd (g\<lparr>pg_status := st\<rparr>) ctx = approvalRequired rd g ctx" "tally_blocked (g\<lparr>pg_status := st\<rparr>) author t = tally_blocked g author t"
  "HoldExemptible (g\<lparr>pg_status := st\<rparr>) env = HoldExemptible g env"
  by (simp_all add: tallyVerdicts_def verify_deadline_def verify_gate_def gate_label_def approvalRequired_def tally_blocked_def
      HoldExemptible_def approvalGate_def)

lemma holdExemption_opens: "fst (holdExemption rd g (gate_label g labelBundle)) = Some h \<Longrightarrow> by_hold rd g"
  by (auto simp: holdExemption_def by_hold_def split: option.splits if_splits)

text \<open>A verdict that passes: the expression, and the policies.\<close>

lemma evaluate_gate_pass:
  assumes "gv_pass (evaluate_gate rd g ctx t vt)" "\<not> gv_err (evaluate_gate rd g ctx t vt)" "t = tallyApprovals (rd_fields rd) g (authorFrom ctx)"
  shows "(\<exists>met reason. rd_evaluate rd (pg_expression g) (ctx\<lparr>cx_approvals := tally_context t met\<rparr>) = ((True, reason), None)) \<and>
     (approvalRequired rd g ctx = (False, None) \<or> approvalRequired rd g ctx = (True, None) \<and> Met t) \<and> Tally_Blocked vt = ''''"
proof -
  obtain required reqErr where ar: "approvalRequired rd g ctx = (required, reqErr)" by fastforce
  obtain pass0 reason0 err0 where ev:
    "rd_evaluate rd (pg_expression g) (ctx\<lparr>cx_approvals := tally_context t (\<not> required \<or> Met t)\<rparr>) = ((pass0, reason0), err0)"
    by (metis surj_pair)
  let ?tb = "tally_blocked g (authorFrom ctx) t"
  have err: "gv_err (evaluate_gate rd g ctx t vt) = (reqErr \<noteq> None \<and> (err0 = None \<or> pass0) \<or> err0 \<noteq> None)"
    unfolding evaluate_gate_def Let_def ar prod.case ev by (simp split del: if_split)
  then have ok: "err0 = None" "reqErr = None"
    using assms(2) by auto
  have "gv_pass (evaluate_gate rd g ctx t vt) = (pass0 \<and> (if required \<and> ?tb \<noteq> '''' then ?tb else Tally_Blocked vt) = '''')"
    unfolding evaluate_gate_def Let_def ar prod.case ev using ok by (cases pass0) (simp_all split del: if_split)
  then have "pass0" and held: "(if required \<and> ?tb \<noteq> '''' then False else Tally_Blocked vt = '''')"
    using assms(1) by (auto split: if_splits)
  moreover have "required \<longrightarrow> Met t"
    using held not_blocked_met [of g "authorFrom ctx" "rd_fields rd"] assms(3) by (auto split: if_splits)
  ultimately show ?thesis
    using ar ev ok by (cases required) (auto split: if_splits)
qed

abbreviation not_ready :: "GateInstance \<Rightarrow> 'w gate_run \<Rightarrow> bool" where
  "not_ready g s \<equiv> gate_property.everywhere (quiet g) s"

lemma not_ready_gate: "not_ready g s \<Longrightarrow> \<exists>st. run_gate s = g\<lparr>pg_status := st\<rparr>"
  by (auto simp: quiet.everywhere_def quiet_def)

lemma not_ready_stored: "not_ready g s \<Longrightarrow> \<not> Ready (pg_status (run_stored s))"
  by (auto simp: quiet.everywhere_def quiet_def)

lemma patch_not_ready: "not_ready g s \<Longrightarrow> not_ready g (snd (patchStatusWith api lib rd False reason version ar s))"
  by (rule quiet.result_stored) (auto simp: quiet.everywhere_def quiet_def)

lemma after_patch_run [simp]: "snd (after_patch p d) = snd p"
  by (cases p; cases "fst p") (simp_all add: after_patch_def)

lemma store_verdict_opens:
  assumes "not_ready g s" "bundleName = gate_label g labelBundle"
    and "Ready (pg_status (run_stored (snd (store_verdict api lib rd bundleName version recheck vt v s))))"
  shows "gv_pass v \<and> \<not> gv_err v \<or> by_hold rd g"
proof (rule ccontr)
  assume no: "\<not> (gv_pass v \<and> \<not> gv_err v \<or> by_hold rd g)"
  obtain st where g: "run_gate s = g\<lparr>pg_status := st\<rparr>" using not_ready_gate [OF assms(1)] by blast
  obtain hold refused where h: "(if gv_pass v then (None, '''') else holdExemption rd (run_gate s) bundleName) = (hold, refused)" by fastforce
  have "by_hold rd (run_gate s) = by_hold rd g" by (simp add: by_hold_def g)
  then have "hold = None"
    using h no holdExemption_opens [of rd "run_gate s"] assms(2) by (cases hold) (auto simp: g split: if_splits)
  moreover have "\<not> Ready (pg_status (run_stored (snd (patchStatusWith api lib rd False reason version (gv_approvalReq v) s))))" for reason
    by (rule not_ready_stored [OF patch_not_ready [OF assms(1)]])
  ultimately show False
    using assms(3) no by (simp add: store_verdict_def Let_def h split: if_splits)
qed

lemma verdict_opens:
  assumes "not_ready g s" "bundleName = gate_label g labelBundle" "rd_context rd = Inr (ctx, version)" "t = tallyApprovals (rd_fields rd) g (authorFrom ctx)"
    and "Ready (pg_status (run_stored (snd (store_verdict api lib rd bundleName version recheck vt (evaluate_gate rd (run_gate s) ctx t vt) s))))"
    and "Tally_Blocked vt = '''' \<Longrightarrow> pg_verify g = None \<or> (\<exists>b. rd_bundle rd = Some b \<and> Tally_Blocked (tallyVerdicts rd g b) = '''')"
  shows "by_policies rd g \<or> by_hold rd g"
proof -
  obtain st where g: "run_gate s = g\<lparr>pg_status := st\<rparr>" using not_ready_gate [OF assms(1)] by blast
  let ?v = "evaluate_gate rd (run_gate s) ctx t vt"
  have "gv_pass ?v \<and> \<not> gv_err ?v \<or> by_hold rd g" by (rule store_verdict_opens [OF assms(1,2,5)])
  moreover have "by_policies rd g" if "gv_pass ?v" "\<not> gv_err ?v"
  proof -
    have "t = tallyApprovals (rd_fields rd) (run_gate s) (authorFrom ctx)" by (simp add: g assms(4))
    note * = evaluate_gate_pass [OF that this]
    have "\<exists>met reason. rd_evaluate rd (pg_expression g) (ctx\<lparr>cx_approvals := tally_context t met\<rparr>) = ((True, reason), None)"
      using conjunct1 [OF *] by (simp add: g)
    moreover have "approvalRequired rd g ctx = (False, None) \<or> approvalRequired rd g ctx = (True, None) \<and> Met t"
      using conjunct1 [OF conjunct2 [OF *]] by (simp add: g)
    moreover note assms(6) [OF conjunct2 [OF conjunct2 [OF *]]]
    ultimately show ?thesis
      unfolding by_policies_def Let_def using assms(3,4) by blast
  qed
  ultimately show ?thesis by blast
qed

text \<open>\<open>judge_gate\<close> with what it reads of the gate that was read.\<close>

lemma judge_gate_eq:
  assumes "rd_context rd = Inr (ctx, version)" "t = tallyApprovals (rd_fields rd) g (authorFrom ctx)"
    and "run_gate s = g\<lparr>pg_status := st\<rparr>" "recordApprovals api lib rd t s = (out1, s1)" "run_gate s1 = g\<lparr>pg_status := st1\<rparr>"
  shows "judge_gate api lib rd bundleName recheck s =
     (if out1 = PatchConflict then (GateConflict, s1)
      else if pg_verify g = None
      then store_verdict api lib rd bundleName version recheck no_verdicts (evaluate_gate rd (run_gate s1) ctx t no_verdicts) s1
      else (case rd_bundle rd of
              None \<Rightarrow> (GateError, s1)
            | Some b \<Rightarrow>
                (case recordVerdicts api lib rd (tallyVerdicts rd g b) s1 of
                   (PatchConflict, s2) \<Rightarrow> (GateConflict, s2)
                 | (_, s2) \<Rightarrow> store_verdict api lib rd bundleName version recheck (tallyVerdicts rd g b)
                     (evaluate_gate rd (run_gate s2) ctx t (tallyVerdicts rd g b)) s2)))"
proof -
  have t: "tallyApprovals (rd_fields rd) (g\<lparr>pg_status := st\<rparr>) (authorFrom ctx) = t" by (simp add: assms(2))
  show ?thesis
    unfolding judge_gate_def assms(1) sum.case prod.case Let_def assms(3) t assms(4,5) spec_status
    by (cases out1) (simp_all split: option.split)
qed

lemma judge_gate_opens:
  assumes "not_ready g s" "bundleName = gate_label g labelBundle" "Ready (pg_status (run_stored (snd (judge_gate api lib rd bundleName recheck s))))"
  shows "by_policies rd g \<or> by_hold rd g"
proof (cases "rd_context rd")
  case (Inl e)
  then show ?thesis
    using assms(3) by (simp add: judge_gate_def patchStatus_def not_ready_stored [OF patch_not_ready [OF assms(1)]])
next
  case (Inr c)
  obtain ctx version where c: "rd_context rd = Inr (ctx, version)" using Inr by (cases c) auto
  define t where "t = tallyApprovals (rd_fields rd) g (authorFrom ctx)"
  obtain out1 s1 where ra: "recordApprovals api lib rd t s = (out1, s1)" by fastforce
  have q1: "not_ready g s1" using quiet.approvals_recorded [OF assms(1), of api lib rd t] by (simp add: ra)
  then obtain st st1 where "run_gate s = g\<lparr>pg_status := st\<rparr>" "run_gate s1 = g\<lparr>pg_status := st1\<rparr>"
    using not_ready_gate assms(1) by metis
  note jg = judge_gate_eq [OF c t_def this(1) ra this(2), of bundleName recheck]
  show ?thesis
  proof (cases "out1 = PatchConflict \<or> pg_verify g = None \<or> rd_bundle rd = None")
    case True
    then show ?thesis
      using assms(3) not_ready_stored [OF q1] verdict_opens [OF q1 assms(2) c t_def, of api lib recheck no_verdicts]
      by (auto simp: jg split: if_splits)
  next
    case False
    then obtain b where b: "rd_bundle rd = Some b" by auto
    let ?vt = "tallyVerdicts rd g b"
    obtain out2 s2 where rv: "recordVerdicts api lib rd ?vt s1 = (out2, s2)" by fastforce
    have q2: "not_ready g s2" using quiet.verdicts_recorded [OF q1, of api lib rd ?vt] by (simp add: rv)
    show ?thesis
      using assms(3) False b not_ready_stored [OF q2] verdict_opens [OF q2 assms(2) c t_def, of api lib recheck ?vt]
      by (cases out2) (auto simp: jg rv)
  qed
qed

text \<open>The records of the copy and of the stored gate agree after a recording that succeeds.\<close>

abbreviation synced :: "'w gate_run \<Rightarrow> bool" where
  "synced s \<equiv> gs_overrides (pg_status (run_stored s)) = gs_overrides (pg_status (run_gate s))"

lemma flush_synced: "synced s \<Longrightarrow> synced (snd (gate_flushAudit api s))"
  by (auto simp: gate_flushAudit_def patch_status_def set_status_def Let_def split: prod.splits)

lemma audit_synced: "synced s \<Longrightarrow> fst (auditRecordedOverrides api lib configured s) = PatchOK \<Longrightarrow> synced (snd (auditRecordedOverrides api lib configured s))"
  unfolding auditRecordedOverrides_def Let_def
  by (auto simp: patch_status_def set_status_def split: prod.splits if_splits patch_out.splits intro!: flush_synced)

lemma if_eqE: "(if c then a else b) = r \<Longrightarrow> (a = r \<Longrightarrow> thesis) \<Longrightarrow> (b = r \<Longrightarrow> thesis) \<Longrightarrow> thesis"
  by (auto split: if_splits)

lemma record_synced:
  assumes "synced s" "recordOverrides api lib configured policyActive now s = (PatchOK, s')"
  shows "synced s'"
proof -
  have fin: "synced s'" if "synced s1" "auditRecordedOverrides api lib configured s1 = (PatchOK, s')" for s1
    using audit_synced [of s1 api lib configured] that by simp
  have step: "synced s'" if h: "(case patch_status api s1 of (PatchOK, s2) \<Rightarrow> auditRecordedOverrides api lib configured s2 | (e, s2) \<Rightarrow> (e, s2)) = (PatchOK, s')" for s1
  proof -
    obtain w where "auditRecordedOverrides api lib configured (s1\<lparr>run_stored := run_gate s1, run_world := w\<rparr>) = (PatchOK, s')"
      using h by (auto simp: patch_status_def split: prod.splits patch_out.splits if_splits)
    then show ?thesis by (rule fin [rotated]) simp
  qed
  from assms(2) show ?thesis
    unfolding recordOverrides_def Let_def by (rule if_eqE) (erule step, erule fin [OF assms(1)])
qed

lemma override_opens:
  assumes "not_ready g s" "synced s"
    and "findActiveOverride lib (run_gate s) (gate_label (run_gate s) labelEnvironment) (rd_now rd) (maxOverride (rd_maxOverride rd)) = Some a"
  shows "by_override lib rd g (run_stored (snd (patchStatusWith api lib rd ready reason version ar s)))"
proof -
  obtain st where g: "run_gate s = g\<lparr>pg_status := st\<rparr>" using not_ready_gate [OF assms(1)] by blast
  note spec = active_among_spec [OF assms(3) [unfolded findActiveOverride_def]]
  let ?ov = "ao_override a" and ?t = "FirstSeen (ao_record a)"
  have "recorded (overrideKey lib ?ov) ?t (run_gate s)" "recorded (overrideKey lib ?ov) ?t (run_stored s)"
    using spec(2) assms(2) by (simp_all add: recorded_def)
  then have "gate_property.everywhere (recorded (overrideKey lib ?ov) ?t) (snd (patchStatusWith api lib rd ready reason version ar s))"
    by (intro keeps.result_stored) (simp_all add: keeps.everywhere_def recorded_iff)
  moreover have "0 < maxOverride (rd_maxOverride rd)"
    by (simp add: maxOverride_def DefaultMaxOverride_def minute_def second_def)
  ultimately show ?thesis
    using spec overrideEnd_le [of "maxOverride (rd_maxOverride rd)" ?ov ?t]
    unfolding by_override_def keeps.everywhere_def by (intro bexI [of _ ?ov] exI [of _ ?t]) (auto simp: g)
qed

text \<open>A reconcile up to the recorded overrides, and what it stores after them.\<close>

lemma reconcile_start:
  assumes "\<not> Ready (pg_status g)" "gate_flushAudit api (read_gate g w) = (auditErr, s)"
    and "recordOverrides api lib configured policyActive now s = (out, s1)"
  shows "not_ready g s1" "out = PatchOK \<Longrightarrow> synced s1"
proof -
  have "not_ready g (read_gate g w)"
    using assms(1) by (auto simp: quiet.everywhere_def quiet_def read_gate_def intro: exI [of _ "pg_status g"])
  then have "not_ready g s" using quiet.flushed [of g "read_gate g w" api] by (simp add: assms(2))
  then show "not_ready g s1"
    using quiet.recording [where g = g and s = s and now = now and api = api and lib = lib and configured = configured and policyActive = policyActive]
    by (simp add: assms(3))
  have "synced (read_gate g w)" by (simp add: read_gate_def)
  then have "synced s" using flush_synced [of "read_gate g w" api] by (simp add: assms(2))
  then show "out = PatchOK \<Longrightarrow> synced s1" using record_synced assms(3) by blast
qed

lemma reconcile_gate_stored:
  assumes "gate_flushAudit api (read_gate g w) = (auditErr, s)"
    and "recordOverrides api lib (rd_maxOverride rd) (rd_policyActive rd) (rd_now rd) s = (out, s1)"
  shows "run_stored (snd (reconcile_gate api lib rd (read_gate g w))) =
     run_stored (if out \<noteq> PatchOK \<or> bundleSettled (rd_phase rd) then s1
       else (case findActiveOverride lib (run_gate s1) (gate_label (run_gate s1) labelEnvironment) (rd_now rd) (maxOverride (rd_maxOverride rd)) of
               Some a \<Rightarrow> snd (patchStatus api lib rd True (override_reason lib a) (BundleVersion (pg_status (run_gate s1))) s1)
             | None \<Rightarrow> snd (judge_gate api lib rd (gate_label g labelBundle)
                 (parseRecheckInterval (rd_parseDuration rd) (RecheckInterval (run_gate s1))) s1)))"
  unfolding reconcile_gate_def Let_def assms(1) prod.case assms(2)
  by (cases out) (simp_all add: split_beta read_gate_def split: option.split)

section \<open>Properties\<close>

text \<open>C39. A gate that a reconcile stores as ready, and that was not, has a Bundle that is not settled and one of three reasons: an override of
  this environment, recorded, in effect within the cap and not by an agent; or an expression that passes, with the quorum of
  approvals unless \<open>requiredWhen\<close> waives it, and no verify policy that blocks; or a hold of this environment on the gate's own
  Bundle, verified as a rollback, on a gate that needs no approvals. A read that fails, an expression that errs and a patch that
  fails never open it.\<close>

theorem gate_opens:
  assumes "\<not> Ready (pg_status g)" "g' = run_stored (snd (reconcile_gate api lib rd (read_gate g w)))" "Ready (pg_status g')"
  shows "\<not> bundleSettled (rd_phase rd) \<and> (by_override lib rd g g' \<or> by_policies rd g \<or> by_hold rd g)"
proof -
  obtain auditErr s where fl: "gate_flushAudit api (read_gate g w) = (auditErr, s)" by fastforce
  obtain out s1 where ro: "recordOverrides api lib (rd_maxOverride rd) (rd_policyActive rd) (rd_now rd) s = (out, s1)" by fastforce
  note q1 = reconcile_start(1) [OF assms(1) fl ro] and sy = reconcile_start(2) [OF assms(1) fl ro]
  note g' = reconcile_gate_stored [OF fl ro, folded assms(2)]
  let ?active = "findActiveOverride lib (run_gate s1) (gate_label (run_gate s1) labelEnvironment) (rd_now rd) (maxOverride (rd_maxOverride rd))"
  have ok: "out = PatchOK" and ns: "\<not> bundleSettled (rd_phase rd)"
    using assms(3) not_ready_stored [OF q1] by (auto simp: g' split: if_splits)
  show ?thesis
  proof (cases ?active)
    case None
    then have "Ready (pg_status (run_stored (snd (judge_gate api lib rd (gate_label g labelBundle)
        (parseRecheckInterval (rd_parseDuration rd) (RecheckInterval (run_gate s1))) s1))))"
      using assms(3) ok ns by (simp add: g')
    from judge_gate_opens [OF q1 refl this] ns show ?thesis by blast
  next
    case (Some a)
    with override_opens [OF q1 sy [OF ok] Some, where api = api] ok ns show ?thesis
      by (simp add: g' patchStatus_def)
  qed
qed

text \<open>A gate without overrides, approvals or verify policy whose expression passes.\<close>

definition ex_ctx :: "unit cel_ctx" where
  "ex_ctx =
     \<lparr>cx_actor = plain_actor ActorHuman ''ann'',
      cx_approvals = \<lparr>ac_count = 0, ac_required = 0, ac_users = [], ac_rejected = False, ac_met = True, ac_fields = []\<rparr>, cx_rest = ()\<rparr>"

definition ex_reads :: "unit gate_reads" where
  "ex_reads =
     \<lparr>rd_now = 900 * minute, rd_heartbeat = 10 * minute, rd_maxOverride = 0, rd_policyActive = True, rd_phase = Some (''Promoting'', False),
      rd_context = Inr (ex_ctx, ''1.0''), rd_bundle = None, rd_evaluate = (\<lambda>_ _. ((True, ''ok''), None)), rd_staleNotes = (\<lambda>_ _. ''''),
      rd_changeNotes = (\<lambda>_ _. ''''), rd_pipeline = None, rd_verifyHeld = (\<lambda>_ _. ''no''), rd_steps = Some [], rd_parseDuration = (\<lambda>_. None),
      rd_fields = Approvals.demo_lib, rd_approvalEntry = (\<lambda>_ _ _. None), rd_verdictEntry = (\<lambda>_ _ _. None)\<rparr>"

definition ex_api :: "unit gate_api" where
  "ex_api = \<lparr>api_patch = (\<lambda>_ w. (PatchOK, w)), api_create = (\<lambda>w _. (w, Created))\<rparr>"

definition ex_plain :: GateInstance where
  "ex_plain = (ex_gate [] 1)\<lparr>pg_labels := [(labelBundle, ''v1'')]\<rparr>"

theorem gate_opens_witness:
  "\<not> bundleSettled (rd_phase ex_reads) \<and>
   (by_override ex_lib ex_reads ex_plain (run_stored (snd (reconcile_gate ex_api ex_lib ex_reads (read_gate ex_plain ())))) \<or>
    by_policies ex_reads ex_plain \<or> by_hold ex_reads ex_plain)"
proof (rule gate_opens [OF _ refl])
  show "\<not> Ready (pg_status ex_plain)" by code_simp
  show "Ready (pg_status (run_stored (snd (reconcile_gate ex_api ex_lib ex_reads (read_gate ex_plain ())))))" by code_simp
qed

end
