(* ===== verification/SCM_Circuit.thy ===== *)
theory SCM_Circuit
  imports Prelude "HOL-Library.AList"
begin

text \<open>
  The circuit breakers in front of the SCM APIs (\<open>pkg/scm/circuit_breaker.go\<close>, \<open>pkg/scm/circuit_registry.go\<close>): one per repository owner and one
  for the token's quota.

  A method that takes the lock is a function of the breaker and of the time it reads; the zero time is \<open>0\<close>. The conversion of a
  floating-point number to a duration is the argument \<open>cvt\<close>: Go defines it for values that fit 64 bits (\<open>cvt_ok\<close>) and leaves
  the others to the implementation. The product it is applied to, \<open>BaseBackoff\<close> times a power of two, is exact in floating point. The
  parsing of numbers and dates in headers is an argument too. A method of the registry is one event, although the code takes the lock of
  the owner's circuit and then that of the quota circuit.

  \<open>breaker_inv\<close> and \<open>registry_inv\<close> are the invariants of the reachable breakers and registries. The lemmas on a breaker
  give the schedule of the probes during an outage, that one probe at a time is out, and that a circuit closes again; those on the
  registry, that the failures of an owner stop no other owner, and that a dropped circuit is one that held no state.
\<close>

section \<open>The breaker\<close>

datatype CircuitState = CircuitClosed | CircuitOpen | CircuitHalfOpen

fun CircuitState_String :: "CircuitState \<Rightarrow> string" where
  "CircuitState_String CircuitClosed = ''closed''"
| "CircuitState_String CircuitOpen = ''open''"
| "CircuitState_String CircuitHalfOpen = ''half-open''"

record CircuitBreaker =
  FailureThreshold :: nat
  BaseBackoff :: duration
  MaxBackoff :: duration
  HalfOpenTimeout :: duration
  cb_state :: CircuitState
  consecutiveFails :: nat
  openings :: nat
  openUntil :: time
  probeStarted :: time
  openedAt :: time

definition providerHTTPTimeout :: duration where "providerHTTPTimeout = 30 * second"
definition defaultFailureThreshold :: nat where "defaultFailureThreshold = 5"
definition defaultBaseBackoff :: duration where "defaultBaseBackoff = 5 * second"
definition defaultMaxBackoff :: duration where "defaultMaxBackoff = 2 * minute"
definition defaultHalfOpenTimeout :: duration where "defaultHalfOpenTimeout = providerHTTPTimeout + 15 * second"
definition halfOpenRecheck :: duration where "halfOpenRecheck = 2 * second"

definition NewCircuitBreaker :: CircuitBreaker where
  "NewCircuitBreaker =
     \<lparr>FailureThreshold = defaultFailureThreshold, BaseBackoff = defaultBaseBackoff, MaxBackoff = defaultMaxBackoff,
      HalfOpenTimeout = defaultHalfOpenTimeout, cb_state = CircuitClosed, consecutiveFails = 0, openings = 0, openUntil = 0,
      probeStarted = 0, openedAt = 0\<rparr>"

definition currentState :: "time \<Rightarrow> CircuitBreaker \<Rightarrow> CircuitBreaker" where
  "currentState now cb = (if cb_state cb = CircuitOpen \<and> openUntil cb < now then cb\<lparr>cb_state := CircuitHalfOpen\<rparr> else cb)"

definition State :: "time \<Rightarrow> CircuitBreaker \<Rightarrow> CircuitState \<times> CircuitBreaker" where
  "State now cb = (cb_state (currentState now cb), currentState now cb)"

text \<open>\<open>Allow\<close>: \<^const>\<open>None\<close> for a call that may proceed, or the \<open>RetryAfter\<close> of \<open>ErrCircuitOpen\<close>.\<close>

definition Allow :: "time \<Rightarrow> CircuitBreaker \<Rightarrow> time option \<times> CircuitBreaker" where
  "Allow now cb0 =
     (let cb = currentState now cb0 in
      case cb_state cb of
        CircuitOpen \<Rightarrow> (Some (openUntil cb), cb)
      | CircuitHalfOpen \<Rightarrow>
          if probeStarted cb \<noteq> 0 \<and> now - probeStarted cb < HalfOpenTimeout cb then (Some (now + halfOpenRecheck), cb)
          else (None, cb\<lparr>probeStarted := now\<rparr>)
      | CircuitClosed \<Rightarrow> (None, cb))"

definition RecordSuccessFrom :: "time \<Rightarrow> time \<Rightarrow> CircuitBreaker \<Rightarrow> CircuitBreaker" where
  "RecordSuccessFrom now started cb0 =
     (let cb = currentState now cb0 in
      if cb_state cb \<noteq> CircuitClosed \<and> started < openedAt cb then cb
      else cb\<lparr>consecutiveFails := 0, openings := 0, cb_state := CircuitClosed, probeStarted := 0\<rparr>)"

definition RecordSuccess :: "time \<Rightarrow> CircuitBreaker \<Rightarrow> CircuitBreaker" where
  "RecordSuccess now cb = RecordSuccessFrom now now cb"

definition cancelProbe :: "CircuitBreaker \<Rightarrow> CircuitBreaker" where
  "cancelProbe cb = cb\<lparr>probeStarted := 0\<rparr>"

definition pristine :: "CircuitBreaker \<Rightarrow> bool" where
  "pristine cb = (cb_state cb = CircuitClosed \<and> consecutiveFails cb = 0 \<and> probeStarted cb = 0)"

definition latestTime :: "time \<Rightarrow> time \<Rightarrow> time" where
  "latestTime a b = (if b < a then a else b)"

definition backoffDuration :: "(int \<Rightarrow> int) \<Rightarrow> CircuitBreaker \<Rightarrow> nat \<Rightarrow> duration" where
  "backoffDuration cvt cb step =
     (let d = cvt (BaseBackoff cb * 2 ^ step) in if MaxBackoff cb < d then MaxBackoff cb else d)"

definition openLocked :: "(int \<Rightarrow> int) \<Rightarrow> time \<Rightarrow> time \<Rightarrow> CircuitBreaker \<Rightarrow> CircuitBreaker" where
  "openLocked cvt now retryAfter cb =
     cb\<lparr>openUntil := latestTime retryAfter (now + backoffDuration cvt cb (openings cb)), cb_state := CircuitOpen, openedAt := now,
        probeStarted := 0\<rparr>"

definition RecordFailureFrom :: "(int \<Rightarrow> int) \<Rightarrow> time \<Rightarrow> time \<Rightarrow> time \<Rightarrow> CircuitBreaker \<Rightarrow> CircuitBreaker" where
  "RecordFailureFrom cvt now started retryAfter cb0 =
     (let cb = currentState now cb0 in
      case cb_state cb of
        CircuitOpen \<Rightarrow> cb\<lparr>openUntil := latestTime retryAfter (openUntil cb)\<rparr>
      | CircuitHalfOpen \<Rightarrow>
          if probeStarted cb = 0 \<or> started < probeStarted cb then cb\<lparr>openUntil := latestTime retryAfter (openUntil cb)\<rparr>
          else openLocked cvt now retryAfter (cb\<lparr>openings := openings cb + 1\<rparr>)
      | CircuitClosed \<Rightarrow>
          let cb1 = cb\<lparr>consecutiveFails := consecutiveFails cb + 1\<rparr> in
          if FailureThreshold cb1 \<le> consecutiveFails cb1 then openLocked cvt now retryAfter (cb1\<lparr>openings := 0\<rparr>) else cb1)"

definition RecordFailure :: "(int \<Rightarrow> int) \<Rightarrow> time \<Rightarrow> time \<Rightarrow> CircuitBreaker \<Rightarrow> CircuitBreaker" where
  "RecordFailure cvt now retryAfter cb = RecordFailureFrom cvt now now retryAfter cb"

section \<open>Responses\<close>

record http_resp =
  StatusCode :: int
  Header :: "string \<Rightarrow> string"

text \<open>A product of 64-bit integers.\<close>

definition wrap64 :: "int \<Rightarrow> int" where
  "wrap64 x = (x + 2 ^ 63) mod 2 ^ 64 - 2 ^ 63"

record header_lib =
  ParseInt :: "string \<Rightarrow> int option"
  ParseTime :: "string \<Rightarrow> time option"
  unix_time :: "int \<Rightarrow> time"

definition IsTransientResponse :: "http_resp option \<Rightarrow> bool" where
  "IsTransientResponse r =
     (case r of
        None \<Rightarrow> False
      | Some resp \<Rightarrow>
          if StatusCode resp = 429 then True
          else if 500 \<le> StatusCode resp \<and> StatusCode resp < 600 then True
          else if StatusCode resp = 403 then Header resp ''X-RateLimit-Remaining'' = ''0'' \<or> Header resp ''Retry-After'' \<noteq> ''''
          else False)"

definition IsQuotaExhausted :: "http_resp option \<Rightarrow> bool" where
  "IsQuotaExhausted r =
     (case r of
        None \<Rightarrow> False
      | Some resp \<Rightarrow>
          if StatusCode resp < 400 then False
          else if StatusCode resp = 429 then True
          else if Header resp ''X-RateLimit-Remaining'' = ''0'' \<or> Header resp ''RateLimit-Remaining'' = ''0'' then True
          else if StatusCode resp = 403 then Header resp ''Retry-After'' \<noteq> ''''
          else False)"

definition reset_time :: "header_lib \<Rightarrow> http_resp \<Rightarrow> string \<Rightarrow> time option" where
  "reset_time lib resp prefix =
     (if Header resp (prefix @ ''Remaining'') \<noteq> ''0'' then None
      else if Header resp (prefix @ ''Reset'') = '''' then None
      else case ParseInt lib (Header resp (prefix @ ''Reset'')) of Some u \<Rightarrow> if 0 < u then Some (unix_time lib u) else None | None \<Rightarrow> None)"

definition RetryAfterFromResponse :: "header_lib \<Rightarrow> time \<Rightarrow> http_resp option \<Rightarrow> time" where
  "RetryAfterFromResponse lib now r =
     (case r of
        None \<Rightarrow> 0
      | Some resp \<Rightarrow>
          (case (reset_time lib resp ''X-RateLimit-'', reset_time lib resp ''RateLimit-'') of
             (Some t, _) \<Rightarrow> t
           | (None, Some t) \<Rightarrow> t
           | (None, None) \<Rightarrow>
               let v = Header resp ''Retry-After'' in
               if v = '''' then 0
               else (case ParseInt lib v of
                       Some secs \<Rightarrow> if 0 < secs then now + wrap64 (secs * second) else (case ParseTime lib v of Some t \<Rightarrow> t | None \<Rightarrow> 0)
                     | None \<Rightarrow> (case ParseTime lib v of Some t \<Rightarrow> t | None \<Rightarrow> 0))))"

definition RecordResponse :: "(int \<Rightarrow> int) \<Rightarrow> header_lib \<Rightarrow> time \<Rightarrow> http_resp option \<Rightarrow> CircuitBreaker \<Rightarrow> CircuitBreaker" where
  "RecordResponse cvt lib now resp cb =
     (if IsTransientResponse resp then RecordFailure cvt now (RetryAfterFromResponse lib now resp) cb
      else RecordSuccess now cb)"

section \<open>The registry\<close>

record CircuitRegistry =
  owners :: "(string \<times> CircuitBreaker) list"
  quota :: CircuitBreaker

definition maxIdleOwners :: nat where "maxIdleOwners = 256"

definition NewCircuitRegistry :: CircuitRegistry where
  "NewCircuitRegistry = \<lparr>owners = [], quota = NewCircuitBreaker\<lparr>FailureThreshold := 1\<rparr>\<rparr>"

definition pruneLocked :: "CircuitRegistry \<Rightarrow> CircuitRegistry" where
  "pruneLocked r = r\<lparr>owners := filter (\<lambda>(_, cb). \<not> pristine cb) (owners r)\<rparr>"

text \<open>\<open>owner\<close>: the circuit of an owner, and the registry that has it.\<close>

definition owner_circuit :: "string \<Rightarrow> CircuitRegistry \<Rightarrow> CircuitBreaker \<times> CircuitRegistry" where
  "owner_circuit name r =
     (case map_of (owners r) (to_lower name) of
        Some cb \<Rightarrow> (cb, r)
      | None \<Rightarrow>
          let r1 = (if maxIdleOwners \<le> length (owners r) then pruneLocked r else r)
          in (NewCircuitBreaker, r1\<lparr>owners := AList.update (to_lower name) NewCircuitBreaker (owners r1)\<rparr>))"

definition Owners :: "CircuitRegistry \<Rightarrow> nat" where
  "Owners r = length (owners r)"

definition set_owner :: "string \<Rightarrow> CircuitBreaker \<Rightarrow> CircuitRegistry \<Rightarrow> CircuitRegistry" where
  "set_owner name cb r = r\<lparr>owners := AList.update (to_lower name) cb (owners r)\<rparr>"

definition reg_Allow :: "time \<Rightarrow> string \<Rightarrow> CircuitRegistry \<Rightarrow> time option \<times> CircuitRegistry" where
  "reg_Allow now name r0 =
     (let (ob, r) = owner_circuit name r0 in
      case Allow now ob of
        (Some t, ob') \<Rightarrow> (Some t, set_owner name ob' r)
      | (None, ob') \<Rightarrow>
          (case Allow now (quota r) of
             (Some t, q') \<Rightarrow> (Some t, set_owner name (cancelProbe ob') (r\<lparr>quota := q'\<rparr>))
           | (None, q') \<Rightarrow> (None, set_owner name ob' (r\<lparr>quota := q'\<rparr>))))"

definition reg_Record ::
  "(int \<Rightarrow> int) \<Rightarrow> header_lib \<Rightarrow> time \<Rightarrow> string \<Rightarrow> time \<Rightarrow> http_resp option \<Rightarrow> bool \<Rightarrow> CircuitRegistry \<Rightarrow> CircuitRegistry" where
  "reg_Record cvt lib now name started resp callErr r0 =
     (let (ob, r) = owner_circuit name r0 in
      if callErr \<or> resp = None
      then set_owner name (RecordFailureFrom cvt now started 0 ob) (r\<lparr>quota := cancelProbe (quota r)\<rparr>)
      else if IsQuotaExhausted resp
      then set_owner name (cancelProbe ob) (r\<lparr>quota := RecordFailureFrom cvt now started (RetryAfterFromResponse lib now resp) (quota r)\<rparr>)
      else if IsTransientResponse resp
      then set_owner name (RecordFailureFrom cvt now started (RetryAfterFromResponse lib now resp) ob)
             (r\<lparr>quota := RecordSuccessFrom now started (quota r)\<rparr>)
      else set_owner name (RecordSuccessFrom now started ob) (r\<lparr>quota := RecordSuccessFrom now started (quota r)\<rparr>))"

definition RecordAPIError ::
  "(int \<Rightarrow> int) \<Rightarrow> header_lib \<Rightarrow> time \<Rightarrow> string \<Rightarrow> time \<Rightarrow> http_resp option \<Rightarrow> bool \<Rightarrow> CircuitRegistry \<Rightarrow> CircuitRegistry" where
  "RecordAPIError cvt lib now name started resp apiTransient r =
     (if (case resp of None \<Rightarrow> False | Some x \<Rightarrow> StatusCode x = 403) \<and> apiTransient \<and> \<not> IsTransientResponse resp \<and> \<not> IsQuotaExhausted resp
      then let r1 = r\<lparr>quota := RecordFailureFrom cvt now started 0 (quota r)\<rparr>;
               (ob, r2) = owner_circuit name r1
           in set_owner name (cancelProbe ob) r2
      else reg_Record cvt lib now name started resp False r)"

definition cut_at_any :: "string \<Rightarrow> string \<Rightarrow> string" where
  "cut_at_any cs s = takeWhile (\<lambda>c. c \<notin> set cs) s"

definition ownerFromPath :: "(string \<Rightarrow> string option) \<Rightarrow> string \<Rightarrow> string \<Rightarrow> string" where
  "ownerFromPath unescape path prefix =
     (if \<not> has_prefix path prefix then ''''
      else let rest = cut_at_any ''/?'' (drop (length prefix) path);
               rest' = (case unescape rest of Some u \<Rightarrow> u | None \<Rightarrow> rest)
           in takeWhile (\<lambda>c. c \<noteq> CHR ''/'') rest')"

definition states :: "time \<Rightarrow> string \<Rightarrow> CircuitRegistry \<Rightarrow> (CircuitState \<times> CircuitState) \<times> CircuitRegistry" where
  "states now name r0 =
     (let (ob, r) = owner_circuit name r0; (s, ob') = State now ob; (q, quota') = State now (quota r)
      in ((s, q), set_owner name ob' (r\<lparr>quota := quota'\<rparr>)))"

section \<open>Invariant\<close>

text \<open>A closed circuit has room for a failure and no probe; an open one has no probe. All but the threshold is the default.\<close>

definition cb_inv :: "CircuitBreaker \<Rightarrow> bool" where
  "cb_inv cb =
     (0 < FailureThreshold cb \<and> BaseBackoff cb = defaultBaseBackoff \<and> MaxBackoff cb = defaultMaxBackoff \<and>
      HalfOpenTimeout cb = defaultHalfOpenTimeout \<and>
      (cb_state cb = CircuitClosed \<longrightarrow> consecutiveFails cb < FailureThreshold cb \<and> probeStarted cb = 0 \<and> openings cb = 0) \<and>
      (cb_state cb = CircuitOpen \<longrightarrow> probeStarted cb = 0))"

datatype cb_event = EvAllow time | EvSuccess time time | EvFailure time time time | EvCancel | EvState time

fun cb_act :: "(int \<Rightarrow> int) \<Rightarrow> CircuitBreaker \<Rightarrow> cb_event \<Rightarrow> CircuitBreaker" where
  "cb_act cvt cb (EvAllow now) = snd (Allow now cb)"
| "cb_act cvt cb (EvSuccess now started) = RecordSuccessFrom now started cb"
| "cb_act cvt cb (EvFailure now started retryAfter) = RecordFailureFrom cvt now started retryAfter cb"
| "cb_act cvt cb EvCancel = cancelProbe cb"
| "cb_act cvt cb (EvState now) = snd (State now cb)"

text \<open>The registry with distinct owners and sound circuits, and the calls on it.\<close>

definition reg_inv :: "CircuitRegistry \<Rightarrow> bool" where
  "reg_inv r = (distinct (map fst (owners r)) \<and> (\<forall>p \<in> set (owners r). cb_inv (snd p)) \<and> cb_inv (quota r))"

datatype reg_event =
    RegAllow time string
  | RegRecord time string time "http_resp option" bool
  | RegAPIError time string time "http_resp option" bool
  | RegStates time string

fun reg_act :: "(int \<Rightarrow> int) \<Rightarrow> header_lib \<Rightarrow> CircuitRegistry \<Rightarrow> reg_event \<Rightarrow> CircuitRegistry" where
  "reg_act cvt lib r (RegAllow now name) = snd (reg_Allow now name r)"
| "reg_act cvt lib r (RegRecord now name started resp callErr) = reg_Record cvt lib now name started resp callErr r"
| "reg_act cvt lib r (RegAPIError now name started resp apiTransient) = RecordAPIError cvt lib now name started resp apiTransient r"
| "reg_act cvt lib r (RegStates now name) = snd (states now name r)"

text \<open>What Go promises of a conversion, and what the two usual processors do beyond it.\<close>

definition cvt_ok :: "(int \<Rightarrow> int) \<Rightarrow> bool" where
  "cvt_ok cvt = (\<forall>x. - (2 ^ 63) \<le> x \<and> x < 2 ^ 63 \<longrightarrow> cvt x = x)"

definition cvt_amd64 :: "int \<Rightarrow> int" where
  "cvt_amd64 x = (if - (2 ^ 63) \<le> x \<and> x < 2 ^ 63 then x else - (2 ^ 63))"

definition cvt_arm64 :: "int \<Rightarrow> int" where
  "cvt_arm64 x = max (- (2 ^ 63)) (min (2 ^ 63 - 1) x)"

text \<open>A probe admitted at \<open>fst p\<close> that fails at \<open>snd p\<close>, and an outage in which each probe is admitted and fails.\<close>

definition failed_probe :: "(int \<Rightarrow> int) \<Rightarrow> CircuitBreaker \<Rightarrow> time \<times> time \<Rightarrow> CircuitBreaker" where
  "failed_probe cvt cb p = RecordFailureFrom cvt (snd p) (fst p) 0 (snd (Allow (fst p) cb))"

fun probes_fail :: "(int \<Rightarrow> int) \<Rightarrow> CircuitBreaker \<Rightarrow> (time \<times> time) list \<Rightarrow> bool" where
  "probes_fail cvt cb [] = True"
| "probes_fail cvt cb (p # ps) = (0 < fst p \<and> fst p \<le> snd p \<and> fst (Allow (fst p) cb) = None \<and> probes_fail cvt (failed_probe cvt cb p) ps)"

text \<open>An event that leaves the slot of a probe taken: of a call other than the probe out since \<open>p\<close>, on a circuit that opened at \<open>opened\<close>.\<close>

fun late_event :: "time \<Rightarrow> time \<Rightarrow> cb_event \<Rightarrow> bool" where
  "late_event p opened (EvAllow now) = (now - p < defaultHalfOpenTimeout)"
| "late_event p opened (EvSuccess now started) = (started < opened)"
| "late_event p opened (EvFailure now started retryAfter) = (started < p)"
| "late_event p opened EvCancel = False"
| "late_event p opened (EvState now) = True"

text \<open>The outcome, up to \<open>now\<close>, of a call for another owner than \<open>b\<close> that does not exhaust the quota.\<close>

fun other_owner_outcome :: "time \<Rightarrow> string \<Rightarrow> reg_event \<Rightarrow> bool" where
  "other_owner_outcome now b (RegRecord t name started resp callErr) =
     (to_lower name \<noteq> to_lower b \<and> t \<le> now \<and> (callErr \<or> \<not> IsQuotaExhausted resp))"
| "other_owner_outcome now b _ = False"

text \<open>Two breakers that no call can tell apart: the window of a circuit is not read while it is closed.\<close>

definition same_circuit :: "CircuitBreaker \<Rightarrow> CircuitBreaker \<Rightarrow> bool" where
  "same_circuit c d =
     (FailureThreshold c = FailureThreshold d \<and> BaseBackoff c = BaseBackoff d \<and> MaxBackoff c = MaxBackoff d \<and>
      HalfOpenTimeout c = HalfOpenTimeout d \<and> cb_state c = cb_state d \<and> consecutiveFails c = consecutiveFails d \<and>
      openings c = openings d \<and> probeStarted c = probeStarted d \<and>
      (cb_state c \<noteq> CircuitClosed \<longrightarrow> openUntil c = openUntil d \<and> openedAt c = openedAt d))"

text \<open>For the examples: five calls that fail together at ten seconds, and headers without numbers or dates.\<close>

definition ex_outage :: "cb_event list" where
  "ex_outage = replicate 5 (EvFailure (10 * second) (9 * second) 0)"

definition ex_lib :: header_lib where
  "ex_lib = \<lparr>ParseInt = (\<lambda>_. None), ParseTime = (\<lambda>_. None), unix_time = (\<lambda>u. u * second)\<rparr>"

definition ex_probes :: "(time \<times> time) list" where
  "ex_probes = map (\<lambda>i. (200 * second * int i, 200 * second * int i + second)) [1..<32]"

section \<open>Lemmas on a breaker\<close>

lemmas cb_defs = currentState_def State_def Allow_def RecordSuccessFrom_def RecordFailureFrom_def cancelProbe_def openLocked_def Let_def

lemma cb_act_inv: "cb_inv cb \<Longrightarrow> cb_inv (cb_act cvt cb e)"
  by (cases e) (auto simp: cb_inv_def cb_defs split: CircuitState.splits)

lemma new_inv: "cb_inv NewCircuitBreaker"
  by (simp add: cb_inv_def NewCircuitBreaker_def defaultFailureThreshold_def)

interpretation breaker: run_system NewCircuitBreaker "cb_act cvt" cb_inv for cvt
  by unfold_locales (auto simp: cb_act_inv new_inv)

lemma failed_probe_spec:
  assumes "cb_inv cb" "cb_state cb \<noteq> CircuitClosed" "fst (Allow t cb) = None" "0 < t"
  shows "cb_inv (failed_probe cvt cb (t, u))" "cb_state (failed_probe cvt cb (t, u)) = CircuitOpen"
    and "openings (failed_probe cvt cb (t, u)) = Suc (openings cb)"
    and "openUntil (failed_probe cvt cb (t, u)) = latestTime 0 (u + backoffDuration cvt NewCircuitBreaker (Suc (openings cb)))"
  using assms by (auto simp: failed_probe_def cb_inv_def cb_defs backoffDuration_def NewCircuitBreaker_def split: CircuitState.splits if_splits)

lemma probes_fail_run:
  assumes "probes_fail cvt cb ps" "cb_inv cb" "cb_state cb \<noteq> CircuitClosed"
  shows "cb_inv (foldl (failed_probe cvt) cb ps) \<and> cb_state (foldl (failed_probe cvt) cb ps) \<noteq> CircuitClosed \<and>
         openings (foldl (failed_probe cvt) cb ps) = openings cb + length ps"
  using assms
proof (induction ps arbitrary: cb)
  case (Cons p ps)
  show ?case
    using Cons.IH [of "failed_probe cvt cb p"] Cons.prems failed_probe_spec [of cb "fst p" cvt "snd p"] by simp
qed simp

lemma probes_fail_snoc:
  "probes_fail cvt cb (ps @ [p]) \<longleftrightarrow>
     probes_fail cvt cb ps \<and> 0 < fst p \<and> fst p \<le> snd p \<and> fst (Allow (fst p) (foldl (failed_probe cvt) cb ps)) = None"
  by (induction ps arbitrary: cb) auto

lemma probes_fail_last:
  assumes "probes_fail cvt cb ps" "ps \<noteq> []" "cb_inv cb" "cb_state cb \<noteq> CircuitClosed"
  shows "cb_state (foldl (failed_probe cvt) cb ps) = CircuitOpen"
    and "openUntil (foldl (failed_probe cvt) cb ps) =
           latestTime 0 (snd (last ps) + backoffDuration cvt NewCircuitBreaker (openings cb + length ps))"
proof -
  obtain qs t u where ps: "ps = qs @ [(t, u)]"
    using assms(2) by (metis rev_exhaust surj_pair)
  let ?cb = "foldl (failed_probe cvt) cb qs"
  have "probes_fail cvt cb qs" "0 < t" "fst (Allow t ?cb) = None"
    using assms(1) by (simp_all add: ps probes_fail_snoc)
  with probes_fail_run [OF this(1) assms(3,4)] failed_probe_spec [of ?cb t cvt u]
  show "cb_state (foldl (failed_probe cvt) cb ps) = CircuitOpen"
    and "openUntil (foldl (failed_probe cvt) cb ps) =
           latestTime 0 (snd (last ps) + backoffDuration cvt NewCircuitBreaker (openings cb + length ps))"
    by (simp_all add: ps)
qed

lemma backoff_exact:
  assumes "cvt_ok cvt" "k \<le> 30"
  shows "backoffDuration cvt NewCircuitBreaker k = min (2 * minute) (5 * second * 2 ^ k)"
proof -
  have "(2 :: int) ^ k \<le> 2 ^ 30" using power_increasing [OF assms(2), of "2 :: int"] by simp
  then have "5 * second * 2 ^ k < 2 ^ 63" "0 \<le> 5 * second * (2 :: int) ^ k"
    by (simp_all add: second_def)
  then have "cvt (5 * second * 2 ^ k) = 5 * second * 2 ^ k"
    using assms(1) by (simp add: cvt_ok_def)
  then show ?thesis
    by (simp add: backoffDuration_def NewCircuitBreaker_def defaultBaseBackoff_def defaultMaxBackoff_def Let_def min_def)
qed

lemma backoff_amd64:
  assumes "31 \<le> k"
  shows "backoffDuration cvt_amd64 NewCircuitBreaker k = - (2 ^ 63)"
proof -
  have "(2 :: int) ^ 31 \<le> 2 ^ k" using power_increasing [OF assms, of "2 :: int"] by simp
  then have "2 ^ 63 \<le> 5 * second * (2 :: int) ^ k"
    by (simp add: second_def)
  then show ?thesis
    by (simp add: backoffDuration_def NewCircuitBreaker_def defaultBaseBackoff_def defaultMaxBackoff_def cvt_amd64_def minute_def second_def)
qed

lemma one_probe_state:
  assumes "cb_inv cb" "cb_state cb = CircuitHalfOpen" "probeStarted cb = p" "p \<noteq> 0" "list_all (late_event p (openedAt cb)) es"
  shows "foldl (cb_act cvt) cb es = cb\<lparr>openUntil := openUntil (foldl (cb_act cvt) cb es)\<rparr>"
  using assms
proof (induction es arbitrary: cb)
  case (Cons e es)
  have late: "late_event p (openedAt cb) e" "list_all (late_event p (openedAt cb)) es"
    using Cons.prems(5) by simp_all
  have step: "cb_act cvt cb e = cb\<lparr>openUntil := openUntil (cb_act cvt cb e)\<rparr>"
    using Cons.prems(1-4) late(1) by (cases e) (auto simp: cb_defs cb_inv_def)
  let ?cb = "cb_act cvt cb e"
  have eq: "cb_state ?cb = cb_state cb" "probeStarted ?cb = probeStarted cb" "openedAt ?cb = openedAt cb"
    by (subst step, simp)+
  have "foldl (cb_act cvt) ?cb es = ?cb\<lparr>openUntil := openUntil (foldl (cb_act cvt) ?cb es)\<rparr>"
    by (rule Cons.IH) (use Cons.prems(1-4) late(2) eq cb_act_inv in simp_all)
  also have "\<dots> = cb\<lparr>openUntil := openUntil (foldl (cb_act cvt) ?cb es)\<rparr>"
    by (subst step) simp
  finally show ?case by simp
qed simp

lemma probe_out_blocks:
  "cb_state cb = CircuitHalfOpen \<Longrightarrow> probeStarted cb \<noteq> 0 \<Longrightarrow> now - probeStarted cb < HalfOpenTimeout cb \<Longrightarrow>
     fst (Allow now cb) = Some (now + halfOpenRecheck)"
  by (simp add: cb_defs)

lemma same_circuit_act: "same_circuit c d \<Longrightarrow> same_circuit (cb_act cvt c e) (cb_act cvt d e)"
  by (cases e) (auto simp: same_circuit_def cb_defs backoffDuration_def split: CircuitState.splits)

lemma same_circuit_run: "same_circuit c d \<Longrightarrow> same_circuit (foldl (cb_act cvt) c es) (foldl (cb_act cvt) d es)"
  by (induction es arbitrary: c d) (auto simp: same_circuit_act)

lemma same_circuit_Allow: "same_circuit c d \<Longrightarrow> fst (Allow now c) = fst (Allow now d)"
  by (auto simp: same_circuit_def cb_defs split: CircuitState.splits)

lemma pristine_same: "cb_inv cb \<Longrightarrow> pristine cb \<Longrightarrow> FailureThreshold cb = defaultFailureThreshold \<Longrightarrow> same_circuit cb NewCircuitBreaker"
  by (simp add: same_circuit_def pristine_def cb_inv_def NewCircuitBreaker_def)

lemma cb_act_threshold: "FailureThreshold (cb_act cvt cb e) = FailureThreshold cb"
  by (cases e) (auto simp: cb_defs split: CircuitState.splits)

lemma run_threshold: "FailureThreshold (foldl (cb_act cvt) cb es) = FailureThreshold cb"
  by (induction es arbitrary: cb) (auto simp: cb_act_threshold)

section \<open>Lemmas on the registry\<close>

lemma admits_iff:
  "fst (Allow now cb) = None \<longleftrightarrow>
     cb_state cb = CircuitClosed \<or>
     ((cb_state cb = CircuitHalfOpen \<or> openUntil cb < now) \<and> (probeStarted cb = 0 \<or> HalfOpenTimeout cb \<le> now - probeStarted cb))"
  by (auto simp: cb_defs split: CircuitState.splits)

lemma admits_new [simp]: "fst (Allow now NewCircuitBreaker) = None"
  by (simp add: admits_iff NewCircuitBreaker_def)

lemma admits_cancelProbe: "fst (Allow now cb) = None \<Longrightarrow> fst (Allow now (cancelProbe cb)) = None"
  by (auto simp: admits_iff cancelProbe_def)

lemma admits_RecordSuccessFrom: "fst (Allow now cb) = None \<Longrightarrow> t \<le> now \<Longrightarrow> fst (Allow now (RecordSuccessFrom t started cb)) = None"
  by (auto simp: admits_iff RecordSuccessFrom_def currentState_def Let_def)

lemma map_of_filter_distinct:
  "distinct (map fst xs) \<Longrightarrow> map_of (filter (\<lambda>(_, v). P v) xs) k = (case map_of xs k of Some v \<Rightarrow> if P v then Some v else None | None \<Rightarrow> None)"
proof (induction xs)
  case (Cons a xs)
  have "k = fst a \<Longrightarrow> map_of xs k = None"
    using Cons.prems by (auto simp: map_of_eq_None_iff)
  then show ?case
    using Cons by (cases a) (auto split: option.splits)
qed simp

lemma owner_circuit_cases:
  obtains cb where "map_of (owners r) (to_lower name) = Some cb" "owner_circuit name r = (cb, r)"
  | r1 where "map_of (owners r) (to_lower name) = None" "r1 = r \<or> r1 = pruneLocked r"
      "owner_circuit name r = (NewCircuitBreaker, set_owner name NewCircuitBreaker r1)"
proof (cases "map_of (owners r) (to_lower name)")
  case None
  then show ?thesis
    using that(2) [of "if maxIdleOwners \<le> length (owners r) then pruneLocked r else r"]
    by (simp add: owner_circuit_def set_owner_def Let_def)
qed (simp add: that(1) owner_circuit_def)

lemma set_owner_lookup [simp]:
  "map_of (owners (set_owner name cb r)) k = (if k = to_lower name then Some cb else map_of (owners r) k)"
  by (simp add: set_owner_def update_conv')

lemma set_owner_quota [simp]: "quota (set_owner name cb r) = quota r"
  by (simp add: set_owner_def)

lemma pruneLocked_quota [simp]: "quota (pruneLocked r) = quota r"
  by (simp add: pruneLocked_def)

lemma reg_inv_iff:
  "reg_inv r \<longleftrightarrow> distinct (map fst (owners r)) \<and> (\<forall>k cb. map_of (owners r) k = Some cb \<longrightarrow> cb_inv cb) \<and> cb_inv (quota r)"
  by (fastforce simp: reg_inv_def dest: map_of_SomeD)

lemma set_owner_inv: "reg_inv r \<Longrightarrow> cb_inv cb \<Longrightarrow> reg_inv (set_owner name cb r)"
  by (auto simp: reg_inv_iff) (simp add: set_owner_def distinct_update)

lemma quota_inv: "reg_inv r \<Longrightarrow> cb_inv q \<Longrightarrow> reg_inv (r\<lparr>quota := q\<rparr>)"
  by (simp add: reg_inv_def)

lemma prune_lookup:
  "reg_inv r \<Longrightarrow> map_of (owners (pruneLocked r)) k = (case map_of (owners r) k of Some cb \<Rightarrow> if pristine cb then None else Some cb | None \<Rightarrow> None)"
  by (auto simp: pruneLocked_def reg_inv_iff map_of_filter_distinct split: option.splits)

lemma prune_inv: "reg_inv r \<Longrightarrow> reg_inv (pruneLocked r)"
  by (auto simp: reg_inv_def pruneLocked_def intro: distinct_map_filter)

lemma owner_circuit_inv:
  assumes "reg_inv r" "owner_circuit name r = (cb, r')"
  shows "cb_inv cb" "reg_inv r'" "quota r' = quota r" "map_of (owners r') (to_lower name) = Some cb"
proof -
  have "cb_inv cb \<and> reg_inv r' \<and> quota r' = quota r \<and> map_of (owners r') (to_lower name) = Some cb"
  proof (rule owner_circuit_cases [of r name])
    fix c assume "map_of (owners r) (to_lower name) = Some c" "owner_circuit name r = (c, r)"
    then show ?thesis using assms by (auto simp: reg_inv_iff)
  next
    fix r1
    assume "r1 = r \<or> r1 = pruneLocked r" "owner_circuit name r = (NewCircuitBreaker, set_owner name NewCircuitBreaker r1)"
    then show ?thesis using assms by (auto simp: new_inv intro: set_owner_inv prune_inv)
  qed
  then show "cb_inv cb" "reg_inv r'" "quota r' = quota r" "map_of (owners r') (to_lower name) = Some cb" by simp_all
qed

lemma owner_circuit_other:
  assumes "reg_inv r" "owner_circuit name r = (cb, r')" "k \<noteq> to_lower name" "map_of (owners r') k = Some c"
  shows "map_of (owners r) k = Some c"
proof (rule owner_circuit_cases [of r name])
  fix r1
  assume "r1 = r \<or> r1 = pruneLocked r" "owner_circuit name r = (NewCircuitBreaker, set_owner name NewCircuitBreaker r1)"
  then show ?thesis
    using assms by (auto simp: prune_lookup split: option.splits if_splits)
qed (use assms in simp)

lemma Allow_inv: "cb_inv cb \<Longrightarrow> Allow now cb = (e, cb') \<Longrightarrow> cb_inv cb'"
  using cb_act_inv [of cb _ "EvAllow now"] by simp

lemmas recorded_inv =
  cb_act_inv [where e = "EvSuccess t s" for t s, simplified] cb_act_inv [where e = "EvFailure t s a" for t s a, simplified]
  cb_act_inv [where e = EvCancel, simplified] cb_act_inv [where e = "EvState t" for t, simplified]

lemma owner_circuit_sound:
  assumes "reg_inv r"
  obtains ob r' where "owner_circuit name r = (ob, r')" "cb_inv ob" "reg_inv r'" "cb_inv (quota r')" "quota r' = quota r"
proof (cases "owner_circuit name r")
  case (Pair ob r')
  then show ?thesis
    using that owner_circuit_inv [OF assms Pair] by (simp add: reg_inv_def)
qed

lemma reg_Record_inv:
  assumes "reg_inv r"
  shows "reg_inv (reg_Record cvt lib now name started resp callErr r)"
proof (rule owner_circuit_sound [OF assms, of name])
  fix ob r'
  assume "owner_circuit name r = (ob, r')" "cb_inv ob" "reg_inv r'" "cb_inv (quota r')"
  then show ?thesis
    by (auto simp: reg_Record_def intro!: set_owner_inv quota_inv recorded_inv)
qed

lemma reg_Allow_inv:
  assumes "reg_inv r"
  shows "reg_inv (snd (reg_Allow now name r))"
proof (rule owner_circuit_sound [OF assms, of name])
  fix ob r'
  assume "owner_circuit name r = (ob, r')" "cb_inv ob" "reg_inv r'" "cb_inv (quota r')"
  then show ?thesis
    by (auto simp: reg_Allow_def intro!: set_owner_inv quota_inv recorded_inv dest: Allow_inv split: prod.splits option.splits)
qed

lemma RecordAPIError_inv:
  assumes "reg_inv r"
  shows "reg_inv (RecordAPIError cvt lib now name started resp apiTransient r)"
proof -
  have "reg_inv (r\<lparr>quota := RecordFailureFrom cvt now started 0 (quota r)\<rparr>)"
    using assms by (intro quota_inv recorded_inv) (auto simp: reg_inv_def)
  then obtain ob r' where
    "owner_circuit name (r\<lparr>quota := RecordFailureFrom cvt now started 0 (quota r)\<rparr>) = (ob, r')" "cb_inv ob" "reg_inv r'"
    by (rule owner_circuit_sound)
  then show ?thesis
    using reg_Record_inv [OF assms] by (auto simp: RecordAPIError_def intro!: set_owner_inv recorded_inv)
qed

lemma states_inv:
  assumes "reg_inv r"
  shows "reg_inv (snd (states now name r))"
proof (rule owner_circuit_sound [OF assms, of name])
  fix ob r'
  assume "owner_circuit name r = (ob, r')" "cb_inv ob" "reg_inv r'" "cb_inv (quota r')"
  then show ?thesis
    using recorded_inv(4) by (auto simp: states_def split_beta intro!: set_owner_inv quota_inv)
qed

interpretation registry: run_system NewCircuitRegistry "reg_act cvt lib" reg_inv for cvt lib
proof unfold_locales
  show "reg_inv NewCircuitRegistry"
    using new_inv by (simp add: reg_inv_def NewCircuitRegistry_def cb_inv_def NewCircuitBreaker_def)
  show "reg_inv r \<Longrightarrow> reg_inv (reg_act cvt lib r e)" for r e
    by (cases e) (simp_all add: reg_Allow_inv reg_Record_inv RecordAPIError_inv states_inv)
qed

lemma reg_admits:
  assumes "reg_inv r"
  shows "fst (reg_Allow now b r) = None \<longleftrightarrow>
    (\<forall>cb. map_of (owners r) (to_lower b) = Some cb \<longrightarrow> fst (Allow now cb) = None) \<and> fst (Allow now (quota r)) = None"
proof (rule owner_circuit_cases [of r b])
  fix cb assume "map_of (owners r) (to_lower b) = Some cb" "owner_circuit b r = (cb, r)"
  then show ?thesis by (auto simp: reg_Allow_def split: prod.splits option.splits)
next
  fix r1
  assume *: "map_of (owners r) (to_lower b) = None" "r1 = r \<or> r1 = pruneLocked r"
    "owner_circuit b r = (NewCircuitBreaker, set_owner b NewCircuitBreaker r1)"
  obtain c where new: "Allow now NewCircuitBreaker = (None, c)"
    using admits_new [of now] by (metis prod.collapse)
  have "quota r1 = quota r" using *(2) by auto
  with * new show ?thesis by (auto simp: reg_Allow_def split: prod.splits option.splits)
qed

lemma other_outcome_admits:
  assumes "reg_inv r" "fst (reg_Allow now b r) = None" "other_owner_outcome now b e"
  shows "fst (reg_Allow now b (reg_act cvt lib r e)) = None"
proof -
  obtain t name started resp callErr where e: "e = RegRecord t name started resp callErr"
    and other: "to_lower b \<noteq> to_lower name" "t \<le> now" "callErr \<or> \<not> IsQuotaExhausted resp"
    using assms(3) by (cases e) auto
  obtain ob r' where oc: "owner_circuit name r = (ob, r')" "quota r' = quota r"
    using owner_circuit_sound [OF assms(1)] by metis
  let ?r = "reg_act cvt lib r e"
  have q: "fst (Allow now (quota r)) = None"
    using assms(2) reg_admits [OF assms(1)] by simp
  have "fst (Allow now (quota ?r)) = None"
    using other(2,3) q oc by (auto simp: e reg_Record_def intro: admits_cancelProbe admits_RecordSuccessFrom)
  moreover have "map_of (owners ?r) (to_lower b) = map_of (owners r') (to_lower b)"
    using other(1) oc by (simp add: e reg_Record_def)
  then have "fst (Allow now cb) = None" if "map_of (owners ?r) (to_lower b) = Some cb" for cb
    using owner_circuit_other [OF assms(1) oc(1) other(1), of cb] that assms(2) reg_admits [OF assms(1), of now b] by metis
  moreover have "reg_inv ?r"
    by (rule registry.inv_act [OF assms(1)])
  ultimately show ?thesis
    by (simp add: reg_admits)
qed

section \<open>Properties\<close>

lemma cvt_arm64_ok: "cvt_ok cvt_arm64"
  by (simp add: cvt_ok_def cvt_arm64_def)

text \<open>However calls are admitted, answered late or given up, a breaker that has fewer failures than its threshold, no probe and no
  failed opening is what a closed one is; an open one has no probe out.\<close>

theorem breaker_inv: "cb_inv (foldl (cb_act cvt) NewCircuitBreaker es)"
  by (rule breaker.inv_run)

text \<open>C38. Every circuit of a registry is such a breaker and every owner, in lower case, has one circuit at most.\<close>

theorem registry_inv: "reg_inv (foldl (reg_act cvt lib) NewCircuitRegistry es)"
  by (rule registry.inv_run)

text \<open>C36. During an outage, the cooldown after the \<open>n\<close>-th failed probe is five seconds doubled \<open>n\<close> times, two minutes at most, for the
  thirty first probes. The failures carry no \<open>Retry-After\<close>: with one, the circuit stays open until the later of the two times.\<close>

theorem breaker_backoff:
  assumes "cvt_ok cvt" "cb = foldl (cb_act cvt) NewCircuitBreaker es" "cb_state cb = CircuitOpen" "openings cb = 0"
    and "probes_fail cvt cb ps" "ps \<noteq> []" "length ps \<le> 30"
  shows "openUntil (foldl (failed_probe cvt) cb ps) = snd (last ps) + min (2 * minute) (5 * second * 2 ^ length ps)"
proof -
  have inv: "cb_inv cb" by (simp add: assms(2) breaker.inv_run)
  obtain qs p where ps: "ps = qs @ [p]" using assms(6) by (metis rev_exhaust)
  then have "0 < snd (last ps)" using assms(5) by (simp add: probes_fail_snoc)
  moreover have "0 \<le> min (2 * minute) (5 * second * 2 ^ length ps)"
    by (simp add: minute_def second_def)
  ultimately have "\<not> snd (last ps) + min (2 * minute) (5 * second * 2 ^ length ps) < 0" by linarith
  then show ?thesis
    using probes_fail_last(2) [OF assms(5,6) inv] assms(3,4) backoff_exact [OF assms(1,7)] by (simp add: latestTime_def)
qed

theorem breaker_backoff_witness:
  "openUntil (foldl (failed_probe cvt_arm64) (foldl (cb_act cvt_arm64) NewCircuitBreaker ex_outage)
     [(16 * second, 17 * second), (28 * second, 29 * second)]) = 29 * second + min (2 * minute) (5 * second * 2 ^ 2)"
proof -
  have "cb_state (foldl (cb_act cvt_arm64) NewCircuitBreaker ex_outage) = CircuitOpen"
    and "openings (foldl (cb_act cvt_arm64) NewCircuitBreaker ex_outage) = 0"
    and "probes_fail cvt_arm64 (foldl (cb_act cvt_arm64) NewCircuitBreaker ex_outage) [(16 * second, 17 * second), (28 * second, 29 * second)]"
    by code_simp+
  from breaker_backoff [OF cvt_arm64_ok refl this] show ?thesis by simp
qed

text \<open>C37. The thirty-first failed probe in a row ends the backoff where an out-of-range conversion gives the least integer: the window it
  opens has passed already, and the next call is admitted at once.\<close>

theorem backoff_overflow_amd64:
  assumes "cb = foldl (cb_act cvt_amd64) NewCircuitBreaker es" "cb_state cb = CircuitOpen"
    and "probes_fail cvt_amd64 cb ps" "31 \<le> length ps" "snd (last ps) \<le> now"
  shows "fst (Allow now (foldl (failed_probe cvt_amd64) cb ps)) = None"
proof -
  have inv: "cb_inv cb" by (simp add: assms(1) breaker.inv_run)
  have ne: "ps \<noteq> []" using assms(4) by auto
  obtain qs p where ps: "ps = qs @ [p]" using ne by (metis rev_exhaust)
  then have "0 < snd (last ps)" using assms(3) by (simp add: probes_fail_snoc)
  then have "openUntil (foldl (failed_probe cvt_amd64) cb ps) < now"
    using probes_fail_last(2) [OF assms(3) ne inv] assms(2,4,5) backoff_amd64 [of "openings cb + length ps"] by (simp add: latestTime_def)
  moreover have "cb_state (foldl (failed_probe cvt_amd64) cb ps) = CircuitOpen"
    using probes_fail_last(1) [OF assms(3) ne inv] assms(2) by simp
  moreover from this have "probeStarted (foldl (failed_probe cvt_amd64) cb ps) = 0"
    using probes_fail_run [OF assms(3) inv] assms(2) by (simp add: cb_inv_def)
  ultimately show ?thesis by (simp add: admits_iff)
qed

theorem backoff_overflow_amd64_witness:
  "fst (Allow (7000 * second) (foldl (failed_probe cvt_amd64) (foldl (cb_act cvt_amd64) NewCircuitBreaker ex_outage) ex_probes)) = None"
proof -
  have "cb_state (foldl (cb_act cvt_amd64) NewCircuitBreaker ex_outage) = CircuitOpen"
    and "probes_fail cvt_amd64 (foldl (cb_act cvt_amd64) NewCircuitBreaker ex_outage) ex_probes"
    and "31 \<le> length ex_probes" and "snd (last ex_probes) \<le> 7000 * second"
    by code_simp+
  from backoff_overflow_amd64 [OF refl this] show ?thesis .
qed

text \<open>C35. While a probe is out, and until it times out, no call is admitted, whatever happens to the circuit in between, except after
  one of three things: the success of a call that started once the circuit had opened (the probe itself, or an earlier one that
  timed out), the failure of a call that started with the probe or later, or the probe's slot being given back (\<open>cancelProbe\<close>).
  So outcomes of calls that started before the circuit opened admit none, nor do failures of calls that started before the probe.
  The slot is given back for any call without a response, not for the probe's alone: \<open>cancel_admits_another\<close>.\<close>

theorem one_probe:
  assumes "cb = foldl (cb_act cvt) NewCircuitBreaker es0" "cb_state (currentState p cb) = CircuitHalfOpen" "fst (Allow p cb) = None" "p \<noteq> 0"
    and "\<forall>t. EvAllow t \<in> set es \<longrightarrow> t - p < defaultHalfOpenTimeout" "now - p < defaultHalfOpenTimeout"
  shows "fst (Allow now (foldl (cb_act cvt) (snd (Allow p cb)) es)) = Some (now + halfOpenRecheck) \<or>
    EvCancel \<in> set es \<or> (\<exists>t st. EvSuccess t st \<in> set es \<and> openedAt cb \<le> st) \<or>
    (\<exists>t st retryAfter. EvFailure t st retryAfter \<in> set es \<and> p \<le> st)"
proof (cases "list_all (late_event p (openedAt cb)) es")
  case False
  then obtain e where e: "e \<in> set es" "\<not> late_event p (openedAt cb) e" by (metis list.pred_set)
  show ?thesis
  proof (cases e)
    case (EvAllow t)
    then show ?thesis using e assms(5) by auto
  next
    case (EvFailure t st ra)
    then have "p \<le> st" using e by simp
    then show ?thesis using e(1) EvFailure by blast
  qed (use e in \<open>auto simp: not_less\<close>)
next
  case late: True
  let ?cb = "snd (Allow p cb)"
  have inv: "cb_inv cb" by (simp add: assms(1) breaker.inv_run)
  have cb: "?cb = (currentState p cb)\<lparr>probeStarted := p\<rparr>"
    using assms(2,3) by (auto simp: Allow_def Let_def split: if_splits)
  have "openedAt ?cb = openedAt cb" "cb_state ?cb = CircuitHalfOpen" "probeStarted ?cb = p" "HalfOpenTimeout ?cb = defaultHalfOpenTimeout"
    using assms(2) inv by (simp_all add: cb cb_inv_def) (simp_all add: currentState_def)
  moreover have "cb_inv ?cb" using cb_act_inv [OF inv, of _ "EvAllow p"] by simp
  ultimately have "foldl (cb_act cvt) ?cb es = ?cb\<lparr>openUntil := openUntil (foldl (cb_act cvt) ?cb es)\<rparr>"
    using one_probe_state [of ?cb p es cvt] assms(4) late by simp
  then obtain w where w: "foldl (cb_act cvt) ?cb es = ?cb\<lparr>openUntil := w\<rparr>" ..
  have "fst (Allow now (foldl (cb_act cvt) ?cb es)) = Some (now + halfOpenRecheck)"
    unfolding w using assms(4,6) \<open>cb_state ?cb = CircuitHalfOpen\<close> \<open>probeStarted ?cb = p\<close> \<open>HalfOpenTimeout ?cb = defaultHalfOpenTimeout\<close>
    by (intro probe_out_blocks) simp_all
  then show ?thesis by simp
qed

text \<open>The slot given back while the probe is out: another call is admitted.\<close>

lemma cancel_admits_another:
  "fst (Allow (30 * second) (foldl (cb_act cvt_arm64)
     (snd (Allow (16 * second) (foldl (cb_act cvt_arm64) NewCircuitBreaker ex_outage))) [EvCancel])) = None"
  by code_simp

theorem one_probe_witness:
  "fst (Allow (30 * second)
     (foldl (cb_act cvt_arm64) (snd (Allow (16 * second) (foldl (cb_act cvt_arm64) NewCircuitBreaker ex_outage)))
        [EvFailure (20 * second) (9 * second) 0, EvSuccess (21 * second) (9 * second), EvAllow (22 * second)])) =
     Some (30 * second + halfOpenRecheck)"
proof -
  let ?cb = "foldl (cb_act cvt_arm64) NewCircuitBreaker ex_outage"
  have "cb_state (currentState (16 * second) ?cb) = CircuitHalfOpen" and "fst (Allow (16 * second) ?cb) = None" and "16 * second \<noteq> 0"
    and "22 * second - 16 * second < defaultHalfOpenTimeout" "30 * second - 16 * second < defaultHalfOpenTimeout"
    and "\<not> openedAt ?cb \<le> 9 * second" "\<not> 16 * second \<le> 9 * second"
    by code_simp+
  then show ?thesis
    using one_probe [where es = "[EvFailure (20 * second) (9 * second) 0, EvSuccess (21 * second) (9 * second), EvAllow (22 * second)]",
        OF refl, of "16 * second" cvt_arm64 ex_outage "30 * second"] by auto
qed

text \<open>A circuit whose window has passed and whose probe, if any, has timed out admits a call, and the success of that call leaves a
  closed circuit with no failure counted.\<close>

theorem circuit_recovers:
  assumes "cb = foldl (cb_act cvt) NewCircuitBreaker es" "openUntil cb < now" "openedAt cb \<le> now"
    and "probeStarted cb + defaultHalfOpenTimeout \<le> now"
  shows "fst (Allow now cb) = None \<and> pristine (RecordSuccessFrom later now (snd (Allow now cb)))"
proof -
  have "cb_inv cb" by (simp add: assms(1) breaker.inv_run)
  with assms(2-4) show ?thesis
    by (auto simp: cb_inv_def cb_defs pristine_def split: CircuitState.splits)
qed

text \<open>A circuit of an owner that holds no state and is dropped answers every later call as a new one does.\<close>

theorem prune_loses_nothing:
  assumes "cb = foldl (cb_act cvt) NewCircuitBreaker es" "pristine cb"
  shows "fst (Allow now (foldl (cb_act cvt) cb es')) = fst (Allow now (foldl (cb_act cvt) NewCircuitBreaker es'))"
proof -
  have "cb_inv cb" by (simp add: assms(1) breaker.inv_run)
  moreover have "FailureThreshold cb = defaultFailureThreshold"
    by (simp add: assms(1) run_threshold) (simp add: NewCircuitBreaker_def)
  ultimately show ?thesis
    using assms(2) by (intro same_circuit_Allow same_circuit_run pristine_same)
qed

text \<open>C34. A call that would be admitted for an owner is admitted still after any outcomes of calls for other owners, network errors and
  server errors included, that do not exhaust the token's quota.\<close>

theorem owner_isolation:
  assumes "r = foldl (reg_act cvt lib) NewCircuitRegistry es" "fst (reg_Allow now b r) = None" "list_all (other_owner_outcome now b) fs"
  shows "fst (reg_Allow now b (foldl (reg_act cvt lib) r fs)) = None"
proof -
  have "reg_inv r" by (simp add: assms(1) registry.inv_run)
  then show ?thesis
    using assms(2,3)
    by (induction fs arbitrary: r) (simp_all add: other_outcome_admits registry.inv_act)
qed

theorem owner_isolation_witness:
  "fst (reg_Allow (20 * second) ''beta'' (foldl (reg_act cvt_arm64 ex_lib) (foldl (reg_act cvt_arm64 ex_lib) NewCircuitRegistry [RegAllow second ''acme''])
     (replicate 5 (RegRecord (10 * second) ''Acme'' second None True)))) = None"
proof -
  have "fst (reg_Allow (20 * second) ''beta'' (foldl (reg_act cvt_arm64 ex_lib) NewCircuitRegistry [RegAllow second ''acme''])) = None"
    and "list_all (other_owner_outcome (20 * second) ''beta'') (replicate 5 (RegRecord (10 * second) ''Acme'' second None True))"
    by code_simp+
  from owner_isolation [OF refl this] show ?thesis .
qed

text \<open>A network error of any call gives the quota's probe slot away: a second call is admitted while the probe is out.\<close>

theorem quota_second_probe:
  assumes "cb_state (quota r) = CircuitHalfOpen" "reg_inv r"
  shows "fst (Allow now (quota (reg_Record cvt lib t name started resp True r))) = None"
proof -
  obtain ob r' where "owner_circuit name r = (ob, r')" "quota r' = quota r"
    using owner_circuit_sound [OF assms(2)] by metis
  then show ?thesis
    using assms(1) by (simp add: reg_Record_def admits_iff cancelProbe_def)
qed

end
