(* ===== verification/Step_Engine.thy ===== *)
theory Step_Engine
  imports Step_Transition
begin

text \<open>
  The step engine, \<open>pkg/steps\<close> (\<open>engine.go\<close>, \<open>defaults.go\<close>, \<open>registry.go\<close>, \<open>permanent.go\<close>), and what the PromotionStep
  reconciler makes of one run of it: \<open>initStepStatuses\<close>, \<open>recordedSequence\<close> and \<open>updateStepStatuses\<close> of
  \<open>pkg/reconciler/promotionstep/reconciler.go\<close>.

  What a step does is code of its own (git, the SCM, the cluster): \<open>eg_exec\<close> stands for the registered steps, on a world of any
  type. \<open>ExecuteFrom\<close> is a total function: its termination proof is the bound on the restarts.
\<close>

section \<open>Steps and their results\<close>

datatype StepOutcome = StepSuccess | StepFailed | StepPending | StepRestart | StepOther string

record StepResult =
  res_status :: StepOutcome
  res_message :: string
  res_outputs :: "string \<rightharpoonup> string"
  res_requeueAfter :: duration

text \<open>\<open>ForeignPRHeadError\<close>, the branch someone else pushed to, and its text.\<close>

record ForeignPRHeadError =
  fh_PR :: int
  fh_URL :: string
  fh_Branch :: string
  fh_Head :: string
  fh_Pushed :: string
  fh_Push :: bool

definition foreign_text :: "ForeignPRHeadError \<Rightarrow> string" where
  "foreign_text e =
     (let what =
            (if fh_PR e \<noteq> 0
             then ''PR #'' @ int_str (fh_PR e) @ '' ('' @ fh_URL e @ '') is open from kardinal's branch '' @ fh_Branch e @
                  '', but its head '' @ fh_Head e @ '' does not contain '' @ fh_Pushed e @
                  '', the commit kardinal pushed: someone else committed to the branch, and kardinal does not adopt the PR''
             else if fh_Push e \<and> fh_Pushed e = ''''
             then ''kardinal's branch '' @ fh_Branch e @ '' has head '' @ fh_Head e @
                  '', which this promotion never pushed: someone else pushed to it, and kardinal does not push over it''
             else if fh_Push e
             then ''kardinal's branch '' @ fh_Branch e @ '' has head '' @ fh_Head e @
                  '', which is not one of the commits this promotion pushed (last '' @ fh_Pushed e @
                  ''): someone else pushed to it, and kardinal does not push over it''
             else ''kardinal's branch '' @ fh_Branch e @ '' has head '' @ fh_Head e @ '', which does not contain '' @ fh_Pushed e @
                  '', the commit kardinal pushed: someone else pushed to it, and kardinal opens no PR from it'');
          way =
            (if fh_Pushed e = '''' then ''delete the branch (git push origin :refs/heads/'' @ fh_Branch e @ '')''
             else ''reset the branch to kardinal's commit (git push --force origin '' @ fh_Pushed e @ '':refs/heads/'' @ fh_Branch e @ '')'');
          rest = '': the step retries for about 4.5 minutes (its retry budget), and once it has failed, promote again '' @
                 ''(kardinal promote <pipeline> <environment>, or ship a new version)''
      in if fh_Push e then what @ ''. To go on, '' @ way @ rest
         else what @ '' or push over their commit. To go on, '' @ way @ rest)"

text \<open>An error a step returns: its text and what \<open>errors.Is\<close> and \<open>errors.As\<close> find in its chain.\<close>

record StepErr =
  err_text :: string
  ErrPermanent :: bool
  ErrContended :: bool
  ErrStalePush :: bool
  ErrNewerPushed :: bool
  ForeignPRHead :: "ForeignPRHeadError option"
  ErrCircuitOpen :: "time option"

definition plain_error :: "string \<Rightarrow> StepErr" where
  "plain_error s = \<lparr>err_text = s, ErrPermanent = False, ErrContended = False, ErrStalePush = False, ErrNewerPushed = False,
     ForeignPRHead = None, ErrCircuitOpen = None\<rparr>"

definition Permanent :: "StepErr \<Rightarrow> StepErr" where
  "Permanent e = e\<lparr>ErrPermanent := True\<rparr>"

definition Lookup :: "string set \<Rightarrow> string \<Rightarrow> StepErr + string" where
  "Lookup registry name =
     (if name = '''' then Inl (Permanent (plain_error ''empty step name''))
      else if name \<in> registry then Inr name
      else Inl (Permanent (plain_error (''unknown step '' @ quote name))))"

datatype engine_error =
    LookupError nat StepErr
  | StepError string StepErr
  | StepReported string string
  | StepContended string string
  | UnknownStatus string string

section \<open>The sequences\<close>

definition RenderJobSequence :: "string \<Rightarrow> string \<Rightarrow> string list" where
  "RenderJobSequence bundleType updateStrategy =
     [''git-clone''] @
     (if bundleType \<noteq> ''config''
      then (if updateStrategy = ''helm'' then [''helm-set-image'']
            else if updateStrategy = ''yaml'' then [''yaml-update'']
            else [''kustomize-set-image''])
      else []) @
     [''render-manifests'', ''git-commit'', ''git-push'']"

definition DefaultSequenceForBundle :: "string \<Rightarrow> string \<Rightarrow> string \<Rightarrow> string \<Rightarrow> string list" where
  "DefaultSequenceForBundle approvalMode bundleType updateStrategy layout =
     (if updateStrategy = ''argocd'' then [''argocd-set-image'', ''health-check'']
      else let review = (if approvalMode = ''pr-review'' then [''open-pr'', ''wait-for-merge''] else [])
           in if layout = ''branch'' then [''render''] @ review @ [''health-check'']
              else let updateSteps =
                       (if bundleType = ''config'' \<or> bundleType = ''mixed'' then [''config-merge''] else []) @
                       (if bundleType = ''config'' then []
                        else if updateStrategy = ''helm'' \<or> bundleType = ''chart'' then [''helm-set-image'']
                        else if updateStrategy = ''yaml'' then [''yaml-update'']
                        else [''kustomize-set-image''])
                   in [''git-clone''] @ updateSteps @ [''git-commit'', ''git-push''] @ review @ [''health-check''])"

definition OpensPR :: "string list \<Rightarrow> bool" where
  "OpensPR sequence = (''open-pr'' \<in> set sequence)"

section \<open>The engine\<close>

record StepTiming =
  Started :: time
  Finished :: time

record 'w engine_env =
  eg_registry :: "string set"
  eg_exec :: "duration option \<Rightarrow> string \<Rightarrow> (string \<rightharpoonup> string) \<Rightarrow> 'w \<Rightarrow>
              StepResult \<times> StepErr option \<times> (string \<rightharpoonup> string) \<times> 'w"
  OnStepDone :: "nat \<Rightarrow> string \<Rightarrow> 'w \<Rightarrow> 'w"
  NowFn :: "nat \<Rightarrow> time"
  StepTimeoutSeconds :: int

text \<open>What a run keeps: the outputs so far, the world, the timings, and how often the clock was read.\<close>

record 'w engine_state =
  en_outputs :: "string \<rightharpoonup> string"
  en_world :: 'w
  en_timings :: "nat \<rightharpoonup> StepTiming"
  en_reads :: nat

definition MaxSequenceRestarts :: nat where
  "MaxSequenceRestarts = 3"

definition executeStep ::
  "'w engine_env \<Rightarrow> string \<Rightarrow> (string \<rightharpoonup> string) \<Rightarrow> 'w \<Rightarrow> StepResult \<times> StepErr option \<times> (string \<rightharpoonup> string) \<times> 'w" where
  "executeStep env =
     eg_exec env (if StepTimeoutSeconds env \<le> 0 then None else Some (StepTimeoutSeconds env * second))"

text \<open>One iteration up to the \<open>switch\<close>: the step runs between two readings of the clock; its outputs are merged unless it returned an error.\<close>

definition exec_one :: "'w engine_env \<Rightarrow> nat \<Rightarrow> string \<Rightarrow> 'w engine_state \<Rightarrow> StepResult \<times> StepErr option \<times> 'w engine_state" where
  "exec_one env i name st =
     (let started = NowFn env (en_reads st);
          (result, err, outs, w) = executeStep env name (en_outputs st) (en_world st);
          st' = st\<lparr>en_outputs := outs, en_world := w,
                   en_timings := (en_timings st)(i \<mapsto> \<lparr>Started = started, Finished = NowFn env (en_reads st + 1)\<rparr>),
                   en_reads := en_reads st + 2\<rparr>
      in (result, err, if err = None then st'\<lparr>en_outputs := outs ++ res_outputs result\<rparr> else st'))"

definition restarted_msg :: "string \<Rightarrow> nat \<Rightarrow> string" where
  "restarted_msg m n = m @ '' (gave up after '' @ nat_str n @ '' restarts in this reconcile)''"

function run_steps ::
  "'w engine_env \<Rightarrow> string list \<Rightarrow> nat \<Rightarrow> nat \<Rightarrow> 'w engine_state \<Rightarrow> nat \<times> StepResult \<times> engine_error option \<times> 'w engine_state" where
  "run_steps env names restarts i st =
     (if length names \<le> i
      then (length names,
            \<lparr>res_status = StepSuccess, res_message = ''all steps complete'', res_outputs = Map.empty, res_requeueAfter = 0\<rparr>, None, st)
      else let name = names ! i in
        (case Lookup (eg_registry env) name of
           Inl e \<Rightarrow> (i, \<lparr>res_status = StepFailed, res_message = err_text e, res_outputs = Map.empty, res_requeueAfter = 0\<rparr>,
                     Some (LookupError i e), st)
         | Inr _ \<Rightarrow>
             (case exec_one env i name st of
                (result, Some e, st1) \<Rightarrow> (i, result, Some (StepError name e), st1)
              | (result, None, st1) \<Rightarrow>
                  (case res_status result of
                     StepPending \<Rightarrow> (i, result, None, st1)
                   | StepFailed \<Rightarrow> (i, result, Some (StepReported name (res_message result)), st1)
                   | StepRestart \<Rightarrow>
                       if MaxSequenceRestarts \<le> restarts
                       then let m = restarted_msg (res_message result) restarts
                            in (i, result\<lparr>res_status := StepFailed, res_message := m\<rparr>, Some (StepContended name m), st1)
                       else run_steps env names (restarts + 1) 0 st1
                   | StepSuccess \<Rightarrow> run_steps env names restarts (i + 1) (st1\<lparr>en_world := OnStepDone env i name (en_world st1)\<rparr>)
                   | StepOther s \<Rightarrow> (i, result, Some (UnknownStatus name s), st1)))))"
  by pat_completeness auto
termination
  by (relation "measures [\<lambda>(env, names, r, i, st). MaxSequenceRestarts - r, \<lambda>(env, names, r, i, st). length names - i]") auto

declare run_steps.simps [simp del]

definition ExecuteFrom ::
  "'w engine_env \<Rightarrow> string list \<Rightarrow> (string \<rightharpoonup> string) \<Rightarrow> 'w \<Rightarrow> nat \<Rightarrow>
   nat \<times> StepResult \<times> engine_error option \<times> 'w engine_state" where
  "ExecuteFrom env names outputs w startIndex =
     run_steps env names 0 startIndex \<lparr>en_outputs = outputs, en_world = w, en_timings = Map.empty, en_reads = 0\<rparr>"

section \<open>The entries of \<open>status.steps\<close>\<close>

definition initStepStatuses :: "string list \<Rightarrow> StepStatus list" where
  "initStepStatuses seq =
     map (\<lambda>name. \<lparr>ss_name = name, ss_state = StepExecutionPending, ss_startedAt = None, ss_completedAt = None,
                    ss_durationMs = 0, ss_message = ''''\<rparr>) seq"

definition recordedSequence :: "StepStatus list \<Rightarrow> string list" where
  "recordedSequence ss = map ss_name ss"

definition finish_step ::
  "time \<Rightarrow> (nat \<rightharpoonup> StepTiming) \<Rightarrow> nat \<Rightarrow> StepStatus \<Rightarrow> StepExecutionState \<Rightarrow> StepStatus \<times> stepObservations" where
  "finish_step now timings i s state =
     (case timings i of
        Some t \<Rightarrow> closeStep s state (Started t) (Finished t) (ss_name s \<noteq> healthCheckStep)
      | None \<Rightarrow> closeStep s state 0 (case ss_completedAt s of Some c \<Rightarrow> c | None \<Rightarrow> now) (ss_name s \<noteq> healthCheckStep))"

definition update_entry ::
  "time \<Rightarrow> (nat \<rightharpoonup> StepTiming) \<Rightarrow> nat \<Rightarrow> bool \<Rightarrow> string \<Rightarrow> nat \<Rightarrow> StepStatus \<Rightarrow> StepStatus \<times> stepObservations" where
  "update_entry now timings currentIdx failed failMessage i s =
     (if i < currentIdx
      then if ss_state s \<noteq> StepExecutionCompleted then finish_step now timings i s StepExecutionCompleted else (s, [])
      else if i = currentIdx \<and> failed
      then if ss_state s \<noteq> StepExecutionFailed
           then let (s', obs) = finish_step now timings i s StepExecutionFailed in (s'\<lparr>ss_message := failMessage\<rparr>, obs)
           else (s, [])
      else if i = currentIdx \<and> ss_state s = StepExecutionPending
      then (s\<lparr>ss_state := StepExecutionInProgress,
              ss_startedAt := Some (case timings i of Some t \<Rightarrow> if Started t = 0 then now else Started t | None \<Rightarrow> now)\<rparr>, [])
      else (s, []))"

fun update_entries ::
  "time \<Rightarrow> (nat \<rightharpoonup> StepTiming) \<Rightarrow> nat \<Rightarrow> bool \<Rightarrow> string \<Rightarrow> nat \<Rightarrow> StepStatus list \<Rightarrow> StepStatus list \<times> stepObservations" where
  "update_entries now timings cur failed msg i [] = ([], [])"
| "update_entries now timings cur failed msg i (s # ss) =
     (let (s', o1) = update_entry now timings cur failed msg i s;
          (ss', o2) = update_entries now timings cur failed msg (i + 1) ss
      in (s' # ss', o1 @ o2))"

definition updateStepStatuses ::
  "time \<Rightarrow> StepStatus list \<Rightarrow> string list \<Rightarrow> nat \<Rightarrow> bool \<Rightarrow> string \<Rightarrow> (nat \<rightharpoonup> StepTiming) \<Rightarrow> StepStatus list \<times> stepObservations" where
  "updateStepStatuses now ss stepNames currentIdx failed failMessage timings =
     update_entries now timings currentIdx failed failMessage 0 (if ss = [] then initStepStatuses stepNames else ss)"

section \<open>One pass of the engine\<close>

text \<open>A pass without interruption: every step of \<open>names\<close>, numbered from \<open>i\<close>, is registered, runs once, in order, on the
  outputs of the ones before it, and succeeds.\<close>

fun pass :: "'w engine_env \<Rightarrow> nat \<Rightarrow> string list \<Rightarrow> 'w engine_state \<Rightarrow> 'w engine_state option" where
  "pass env i [] st = Some st"
| "pass env i (name # names) st =
     (if name = '''' \<or> name \<notin> eg_registry env then None
      else case exec_one env i name st of
             (result, None, st1) \<Rightarrow>
               if res_status result = StepSuccess
               then pass env (i + 1) names (st1\<lparr>en_world := OnStepDone env i name (en_world st1)\<rparr>)
               else None
           | (result, Some e, st1) \<Rightarrow> None)"

lemma exec_one_reads: "exec_one env i name st = (res, e, st1) \<Longrightarrow> en_reads st1 = en_reads st + 2"
  by (auto simp: exec_one_def Let_def split: prod.splits if_splits)

lemma Lookup_Inr: "Lookup reg name = Inr x \<longleftrightarrow> x = name \<and> name \<noteq> '''' \<and> name \<in> reg"
  by (auto simp: Lookup_def)

lemma Lookup_permanent: "Lookup reg name = Inl e \<Longrightarrow> ErrPermanent e"
  by (auto simp: Lookup_def Permanent_def split: if_splits)

text \<open>What can be asked of a result: where the run stopped and why.\<close>

definition stopped_as_told :: "string list \<Rightarrow> nat \<Rightarrow> StepResult \<Rightarrow> engine_error option \<Rightarrow> bool" where
  "stopped_as_told names n res e =
     (case e of
        None \<Rightarrow> (res_status res = StepSuccess \<and> n = length names) \<or> (res_status res = StepPending \<and> n < length names)
      | Some (LookupError i x) \<Rightarrow> i = n \<and> n < length names \<and> ErrPermanent x \<and> res_status res = StepFailed \<and> res_message res = err_text x
      | Some (StepError s x) \<Rightarrow> n < length names \<and> s = names ! n
      | Some (StepReported s m) \<Rightarrow> n < length names \<and> s = names ! n \<and> res_status res = StepFailed \<and> m = res_message res
      | Some (StepContended s m) \<Rightarrow> n < length names \<and> s = names ! n \<and> res_status res = StepFailed \<and> m = res_message res
      | Some (UnknownStatus s x) \<Rightarrow> n < length names \<and> s = names ! n \<and> res_status res = StepOther x)"

text \<open>The branches of one iteration, in the order of the code.\<close>

lemma run_steps_cases:
  assumes "run_steps env names r i st = (n, res, e, st')"
  obtains (finished) "length names \<le> i" "n = length names" "res_status res = StepSuccess" "e = None" "st' = st"
  | (unknown) x where "i < length names" "Lookup (eg_registry env) (names ! i) = Inl x" "n = i" "e = Some (LookupError i x)"
      "res_status res = StepFailed" "res_message res = err_text x" "st' = st"
  | (error) x where "i < length names" "exec_one env i (names ! i) st = (res, Some x, st')" "n = i" "e = Some (StepError (names ! i) x)"
  | (pending) "i < length names" "exec_one env i (names ! i) st = (res, None, st')" "n = i" "e = None" "res_status res = StepPending"
  | (failed) "i < length names" "exec_one env i (names ! i) st = (res, None, st')" "n = i"
      "e = Some (StepReported (names ! i) (res_message res))" "res_status res = StepFailed"
  | (gaveup) res0 where "i < length names" "exec_one env i (names ! i) st = (res0, None, st')" "n = i"
      "res_status res0 = StepRestart" "MaxSequenceRestarts \<le> r" "res_status res = StepFailed"
      "e = Some (StepContended (names ! i) (res_message res))"
  | (restart) res0 st1 where "i < length names" "exec_one env i (names ! i) st = (res0, None, st1)" "res_status res0 = StepRestart"
      "r < MaxSequenceRestarts" "run_steps env names (r + 1) 0 st1 = (n, res, e, st')"
  | (success) res0 st1 where "i < length names" "names ! i \<noteq> ''''" "names ! i \<in> eg_registry env"
      "exec_one env i (names ! i) st = (res0, None, st1)" "res_status res0 = StepSuccess"
      "run_steps env names r (i + 1) (st1\<lparr>en_world := OnStepDone env i (names ! i) (en_world st1)\<rparr>) = (n, res, e, st')"
  | (other) x where "i < length names" "exec_one env i (names ! i) st = (res, None, st')" "n = i"
      "e = Some (UnknownStatus (names ! i) x)" "res_status res = StepOther x"
proof (cases "length names \<le> i")
  case True
  from assms have "(length names, \<lparr>res_status = StepSuccess, res_message = ''all steps complete'', res_outputs = Map.empty,
      res_requeueAfter = 0\<rparr>, None, st) = (n, res, e, st')"
    by (subst (asm) run_steps.simps) (simp add: True)
  with True show thesis by (intro finished) auto
next
  case False
  then have i: "i < length names" by simp
  obtain r1 e1 st1 where one: "exec_one env i (names ! i) st = (r1, e1, st1)" by (metis prod_cases3)
  show thesis
  proof (cases "Lookup (eg_registry env) (names ! i)")
    case (Inl x)
    from assms have "(i, \<lparr>res_status = StepFailed, res_message = err_text x, res_outputs = Map.empty, res_requeueAfter = 0\<rparr>,
        Some (LookupError i x), st) = (n, res, e, st')"
      by (subst (asm) run_steps.simps) (auto simp: False Inl)
    with i Inl show thesis by (intro unknown [of x]) auto
  next
    case (Inr y)
    note s = assms [unfolded run_steps.simps [of env names r i st] if_not_P [OF False]]
    show thesis
    proof (cases e1)
      case (Some x)
      have "(i, r1, Some (StepError (names ! i) x), st1) = (n, res, e, st')"
        using s by (auto simp: Inr one Some)
      with i one Some show thesis by (intro error [of x]) auto
    next
      case None
      have s': "(case res_status r1 of
          StepPending \<Rightarrow> (i, r1, None, st1)
        | StepFailed \<Rightarrow> (i, r1, Some (StepReported (names ! i) (res_message r1)), st1)
        | StepRestart \<Rightarrow>
            if MaxSequenceRestarts \<le> r
            then let m = restarted_msg (res_message r1) r
                 in (i, r1\<lparr>res_status := StepFailed, res_message := m\<rparr>, Some (StepContended (names ! i) m), st1)
            else run_steps env names (r + 1) 0 st1
        | StepSuccess \<Rightarrow> run_steps env names r (i + 1) (st1\<lparr>en_world := OnStepDone env i (names ! i) (en_world st1)\<rparr>)
        | StepOther s \<Rightarrow> (i, r1, Some (UnknownStatus (names ! i) s), st1)) = (n, res, e, st')"
        using s unfolding Let_def Inr one None prod.case option.case sum.case by assumption
      from Inr have reg: "names ! i \<noteq> ''''" "names ! i \<in> eg_registry env" by (simp_all add: Lookup_Inr)
      show thesis
      proof (cases "res_status r1")
        case StepSuccess
        show thesis by (rule success [OF i reg one [unfolded None] StepSuccess]) (use s' i StepSuccess in simp)
      next
        case StepFailed
        show thesis by (rule failed) (use s' i StepFailed one None in auto)
      next
        case StepPending
        show thesis by (rule pending) (use s' i StepPending one None in auto)
      next
        case StepRestart
        show thesis
        proof (cases "MaxSequenceRestarts \<le> r")
          case True
          show thesis
            by (rule gaveup [OF i _ _ StepRestart True]) (use s' i StepRestart True one None in \<open>auto simp: Let_def\<close>)
        next
          case False
          show thesis by (rule restart [OF i one [unfolded None] StepRestart]) (use s' i StepRestart False in auto)
        qed
      next
        case (StepOther x)
        show thesis by (rule other [of x]) (use s' i StepOther one None in auto)
      qed
    qed
  qed
qed

text \<open>Induction over a run: an iteration that goes on restarts the sequence, or moves to the next index.\<close>

lemma run_steps_induct [consumes 1, case_names stop restart success]:
  assumes "run_steps env names r i st = (n, res, e, st')"
    and stop: "\<And>r i st. run_steps env names r i st = (n, res, e, st') \<Longrightarrow>
        (st' = st \<or> i < length names \<and> en_reads st' = en_reads st + 2) \<Longrightarrow> (i \<le> length names \<longrightarrow> n = i) \<Longrightarrow>
        stopped_as_told names n res e \<Longrightarrow> (e = None \<Longrightarrow> res_status res = StepSuccess \<Longrightarrow> length names \<le> i \<and> st' = st) \<Longrightarrow> P r i st"
    and restart: "\<And>r i st st1. i < length names \<Longrightarrow> en_reads st1 = en_reads st + 2 \<Longrightarrow> r < MaxSequenceRestarts \<Longrightarrow>
        P (r + 1) 0 st1 \<Longrightarrow> P r i st"
    and success: "\<And>r i st res0 st1. i < length names \<Longrightarrow> en_reads st1 = en_reads st + 2 \<Longrightarrow> names ! i \<noteq> '''' \<Longrightarrow>
        names ! i \<in> eg_registry env \<Longrightarrow> exec_one env i (names ! i) st = (res0, None, st1) \<Longrightarrow> res_status res0 = StepSuccess \<Longrightarrow>
        P r (i + 1) (st1\<lparr>en_world := OnStepDone env i (names ! i) (en_world st1)\<rparr>) \<Longrightarrow> P r i st"
  shows "P r i st"
  using assms(1)
proof (induction "MaxSequenceRestarts - r" arbitrary: r i st rule: less_induct)
  case outer: less
  note outer_IH = outer.hyps
  from outer.prems show ?case
  proof (induction "length names - i" arbitrary: i st rule: less_induct)
    case inner: less
    from inner.prems show ?case
    proof (cases rule: run_steps_cases)
      case (restart res0 st1)
      then have "P (r + 1) 0 st1" by (intro outer_IH) auto
      with restart exec_one_reads show ?thesis by (intro assms(3) [of i st1 st r]) auto
    next
      case (success res0 st1)
      then have "P r (i + 1) (st1\<lparr>en_world := OnStepDone env i (names ! i) (en_world st1)\<rparr>)" by (intro inner.hyps) auto
      with success exec_one_reads show ?thesis by (intro assms(4) [of i st1 st res0 r]) auto
    qed (use inner.prems in \<open>auto intro!: stop simp: stopped_as_told_def dest: exec_one_reads Lookup_permanent\<close>)
  qed
qed

lemma run_steps_reads:
  "run_steps env names r i st = (n, res, e, st') \<Longrightarrow>
   en_reads st' \<le> en_reads st + 2 * ((length names - i) + (MaxSequenceRestarts - r) * length names)"
proof (induction rule: run_steps_induct)
  case (restart r i st st1)
  have "(MaxSequenceRestarts - r) * length names = length names + (MaxSequenceRestarts - (r + 1)) * length names"
    using restart(3) by (simp add: Suc_diff_Suc flip: mult_Suc)
  with restart show ?case by simp
qed auto

lemma run_steps_stopped:
  "run_steps env names r i st = (n, res, e, st') \<Longrightarrow> stopped_as_told names n res e"
  by (induction rule: run_steps_induct)

text \<open>The abstract engine: passes over the list. A pass that a step interrupts by asking for a restart is followed by one from
  the first step, \<open>k\<close> times at most; anything else that is not a success ends it without one.\<close>

fun interrupted :: "'w engine_env \<Rightarrow> nat \<Rightarrow> string list \<Rightarrow> 'w engine_state \<Rightarrow> 'w engine_state option" where
  "interrupted env i [] st = None"
| "interrupted env i (name # names) st =
     (if name = '''' \<or> name \<notin> eg_registry env then None
      else case exec_one env i name st of
             (result, None, st1) \<Rightarrow>
               if res_status result = StepRestart then Some st1
               else if res_status result = StepSuccess
               then interrupted env (i + 1) names (st1\<lparr>en_world := OnStepDone env i name (en_world st1)\<rparr>)
               else None
           | (result, Some e, st1) \<Rightarrow> None)"

fun attempts :: "'w engine_env \<Rightarrow> string list \<Rightarrow> nat \<Rightarrow> nat \<Rightarrow> 'w engine_state \<Rightarrow> 'w engine_state option" where
  "attempts env names 0 i st = pass env i (drop i names) st"
| "attempts env names (Suc k) i st =
     (case pass env i (drop i names) st of
        Some st' \<Rightarrow> Some st'
      | None \<Rightarrow> (case interrupted env i (drop i names) st of Some st1 \<Rightarrow> attempts env names k 0 st1 | None \<Rightarrow> None))"

lemma attempts_end: "length names \<le> i \<Longrightarrow> attempts env names k i st = Some st"
  by (cases k) simp_all

lemma attempts_at:
  assumes "i < length names"
  shows "attempts env names k i st =
     (if names ! i = '''' \<or> names ! i \<notin> eg_registry env then None
      else case exec_one env i (names ! i) st of
             (res, None, st1) \<Rightarrow>
               if res_status res = StepSuccess then attempts env names k (i + 1) (st1\<lparr>en_world := OnStepDone env i (names ! i) (en_world st1)\<rparr>)
               else if res_status res = StepRestart \<and> 0 < k then attempts env names (k - 1) 0 st1 else None
           | (res, Some x, st1) \<Rightarrow> None)"
proof -
  have "drop i names = names ! i # drop (i + 1) names" using assms by (simp add: Cons_nth_drop_Suc)
  then show ?thesis by (cases k) (auto split: prod.splits option.splits)
qed

lemma run_steps_attempts:
  "(case run_steps env names r i st of (n, res, e, st') \<Rightarrow> if e = None \<and> res_status res = StepSuccess then Some st' else None) =
   attempts env names (MaxSequenceRestarts - r) i st"
proof (induction env names r i st rule: run_steps.induct)
  case (1 env names r i st)
  show ?case
  proof (cases "length names \<le> i")
    case True
    then show ?thesis by (subst run_steps.simps) (simp add: attempts_end)
  next
    case False
    then have i: "i < length names" by simp
    obtain res x st1 where one: "exec_one env i (names ! i) st = (res, x, st1)" by (metis prod_cases3)
    show ?thesis
      using 1 [OF False refl] one
      by (subst run_steps.simps, subst attempts_at [OF i])
        (auto simp: False Let_def Lookup_def split: StepOutcome.splits option.splits)
  qed
qed

section \<open>Lemmas on the entries\<close>

lemma finish_step_fields [simp]:
  "ss_name (fst (finish_step now tm i s state)) = ss_name s" "ss_state (fst (finish_step now tm i s state)) = state"
  by (simp_all add: finish_step_def split: option.splits)

lemma update_entry_name [simp]: "ss_name (fst (update_entry now tm cur failed msg i s)) = ss_name s"
  by (simp add: update_entry_def Let_def case_prod_beta)

lemma update_entry_done: "i < cur \<Longrightarrow> ss_state (fst (update_entry now tm cur failed msg i s)) = StepExecutionCompleted"
  by (simp add: update_entry_def)

lemma update_entry_failed: "ss_state (fst (update_entry now tm cur True msg cur s)) = StepExecutionFailed"
  by (simp add: update_entry_def Let_def case_prod_beta)

lemma update_entry_current: "ss_state (fst (update_entry now tm cur False msg cur s)) \<noteq> StepExecutionPending"
  by (simp add: update_entry_def)

lemma update_entry_twice:
  "update_entry now2 tm2 cur failed msg2 i (fst (update_entry now tm cur failed msg i s)) =
   (fst (update_entry now tm cur failed msg i s), [])"
  using update_entry_done [of i cur now tm failed msg s] update_entry_failed [of now tm cur msg s]
    update_entry_current [of now tm cur msg s]
  by (cases "i < cur"; cases "i = cur"; cases failed) (simp_all add: update_entry_def [of now2])

lemma update_entry_later: "cur < i \<Longrightarrow> update_entry now tm cur failed msg i s = (s, [])"
  by (simp add: update_entry_def)

lemma update_entries_names: "map ss_name (fst (update_entries now tm cur failed msg i ss)) = map ss_name ss"
  by (induction ss arbitrary: i) (simp_all add: Let_def case_prod_beta)

lemma update_entries_length [simp]: "length (fst (update_entries now tm cur failed msg i ss)) = length ss"
  using arg_cong [OF update_entries_names, of length] by simp

lemma update_entries_nth:
  "j < length ss \<Longrightarrow>
   fst (update_entries now tm cur failed msg i ss) ! j = fst (update_entry now tm cur failed msg (i + j) (ss ! j))"
  by (induction ss arbitrary: i j) (auto simp: Let_def case_prod_beta nth_Cons split: nat.splits)

lemma update_entries_twice:
  "update_entries now2 tm2 cur failed msg2 i (fst (update_entries now tm cur failed msg i ss)) =
   (fst (update_entries now tm cur failed msg i ss), [])"
  by (induction ss arbitrary: i) (simp_all add: Let_def case_prod_beta update_entry_twice)

lemma recordedSequence_init: "recordedSequence (initStepStatuses seq) = seq"
  by (simp add: recordedSequence_def initStepStatuses_def o_def)

section \<open>Theorems\<close>

text \<open>C25. One call of \<open>ExecuteFrom\<close> ends, whatever the steps answer: with at most three restarts it executes no more than the
  remaining steps plus three times the sequence (each execution reads the clock twice). It returns where it stopped and
  why: at the end of the list with success, or at a step of the list that is pending, unregistered, returned an error,
  failed, or gave up restarting; without an error the status is never \<open>Restart\<close>.\<close>

theorem engine_bounded:
  "case ExecuteFrom env names outputs w start of (n, res, e, st) \<Rightarrow>
     stopped_as_told names n res e \<and> en_reads st \<le> 2 * ((length names - start) + 3 * length names)"
proof -
  obtain n res e st where r: "ExecuteFrom env names outputs w start = (n, res, e, st)" by (metis prod_cases4)
  from run_steps_stopped run_steps_reads r [unfolded ExecuteFrom_def] show ?thesis
    unfolding r prod.case by (fastforce simp: MaxSequenceRestarts_def)
qed

text \<open>C26. \<open>ExecuteFrom\<close> refines the abstract engine: it reports success exactly when one of at most four passes goes through (the
  first from the start index, the later ones from the first step, each after a pass that a step interrupted by asking for a
  restart), every step of that pass being registered, run once, in order, on the outputs of the steps before it, and
  successful; then it is at the end of the list, and the outputs, the world and the timings are those of that pass.\<close>

theorem engine_success:
  "case ExecuteFrom env names outputs w start of (n, res, e, st) \<Rightarrow>
     (if e = None \<and> res_status res = StepSuccess then n = length names \<and>
        attempts env names 3 start \<lparr>en_outputs = outputs, en_world = w, en_timings = Map.empty, en_reads = 0\<rparr> = Some st
      else attempts env names 3 start \<lparr>en_outputs = outputs, en_world = w, en_timings = Map.empty, en_reads = 0\<rparr> = None)"
proof -
  let ?st0 = "\<lparr>en_outputs = outputs, en_world = w, en_timings = Map.empty, en_reads = 0\<rparr>"
  obtain n res e st where r: "ExecuteFrom env names outputs w start = (n, res, e, st)" by (metis prod_cases4)
  note run = r [unfolded ExecuteFrom_def]
  have "n = length names" if "e = None" "res_status res = StepSuccess"
    using run_steps_stopped [OF run] that by (auto simp: stopped_as_told_def)
  moreover have "attempts env names 3 start ?st0 = (if e = None \<and> res_status res = StepSuccess then Some st else None)"
    using run_steps_attempts [of env names 0 start ?st0] run by (simp add: MaxSequenceRestarts_def)
  ultimately show ?thesis unfolding r prod.case by auto
qed

text \<open>A push that is rejected twice: the sequence restarts from the clone each time.\<close>

definition two_rejections :: "nat engine_env" where
  "two_rejections =
     \<lparr>eg_registry = {''git-clone'', ''git-push''},
      eg_exec = (\<lambda>_ name outs w.
        let res = (\<lambda>s m. \<lparr>res_status = s, res_message = m, res_outputs = [''last'' \<mapsto> name], res_requeueAfter = 0\<rparr>) in
        if name = ''git-push'' \<and> w < 2 then (res StepRestart ''rejected'', None, outs, w + 1) else (res StepSuccess ''ok'', None, outs, w)),
      OnStepDone = (\<lambda>i name w. if name = ''git-push'' then w + 10 else w), NowFn = int, StepTimeoutSeconds = 0\<rparr>"

lemma two_rejections_run:
  "case ExecuteFrom two_rejections [''git-clone'', ''git-push''] Map.empty 0 0 of (n, res, e, st) \<Rightarrow>
     n = 2 \<and> res_status res = StepSuccess \<and> e = None \<and> en_reads st = 12 \<and> en_world st = 12 \<and> en_outputs st ''last'' = Some ''git-push''"
  by code_simp

text \<open>The entries of \<open>status.steps\<close> follow a run of the engine: the list of names the step recorded is kept; the entries
  before the returned index are Completed, the one at the index is Failed after a failure and otherwise no longer Pending, the
  later ones are untouched; and applying the same outcome again (a repeated reconcile) changes nothing and observes no duration twice.\<close>

theorem step_entries_follow_run:
  "let ss0 = (if ss = [] then initStepStatuses names else ss);
       ss' = fst (updateStepStatuses now ss names cur failed msg tm)
   in recordedSequence ss' = recordedSequence ss0 \<and> length ss' = length ss0 \<and>
      (\<forall>j < length ss0.
         (j < cur \<longrightarrow> ss_state (ss' ! j) = StepExecutionCompleted) \<and>
         (j = cur \<longrightarrow> (if failed then ss_state (ss' ! j) = StepExecutionFailed else ss_state (ss' ! j) \<noteq> StepExecutionPending)) \<and>
         (cur < j \<longrightarrow> ss' ! j = ss0 ! j)) \<and>
      updateStepStatuses now' ss' names cur failed msg' tm' = (ss', [])"
proof -
  define ss0 where "ss0 = (if ss = [] then initStepStatuses names else ss)"
  define ss' where "ss' = fst (update_entries now tm cur failed msg 0 ss0)"
  have "recordedSequence ss' = recordedSequence ss0" by (simp add: ss'_def recordedSequence_def update_entries_names)
  moreover have "length ss' = length ss0" by (simp add: ss'_def)
  moreover have "ss' ! j = fst (update_entry now tm cur failed msg j (ss0 ! j))" if "j < length ss0" for j
    using update_entries_nth [OF that, of now tm cur failed msg 0] by (simp add: ss'_def)
  moreover have "updateStepStatuses now' ss' names cur failed msg' tm' = (ss', [])"
  proof (cases "ss' = []")
    case True
    then have "ss0 = []" using \<open>length ss' = length ss0\<close> by simp
    then have "initStepStatuses names = []" by (simp add: ss0_def split: if_splits)
    with True show ?thesis by (simp add: updateStepStatuses_def)
  next
    case False
    then show ?thesis by (simp add: updateStepStatuses_def ss'_def update_entries_twice)
  qed
  ultimately show ?thesis
    unfolding updateStepStatuses_def [of now] ss0_def [symmetric] ss'_def [symmetric] Let_def
    by (auto simp: update_entry_done update_entry_failed update_entry_current update_entry_later)
qed

definition failed_push :: "StepStatus list \<times> stepObservations" where
  "failed_push = updateStepStatuses 50 [] [''git-clone'', ''git-push'', ''health-check''] 1 True ''no'' [0 \<mapsto> \<lparr>Started = 10, Finished = 20\<rparr>]"

lemma failed_push_states:
  "map ss_state (fst failed_push) = [StepExecutionCompleted, StepExecutionFailed, StepExecutionPending]"
  "snd failed_push = [(''git-clone'', 10)]"
  by code_simp+

theorem step_entries_follow_run_witness:
  "recordedSequence (fst failed_push) = [''git-clone'', ''git-push'', ''health-check''] \<and>
   updateStepStatuses 90 (fst failed_push) [''git-clone'', ''git-push'', ''health-check''] 1 True ''again'' Map.empty = (fst failed_push, []) \<and>
   map ss_state (fst failed_push) = [StepExecutionCompleted, StepExecutionFailed, StepExecutionPending]"
  using step_entries_follow_run [where ss = "[]" and names = "[''git-clone'', ''git-push'', ''health-check'']" and now = 50 and cur = 1 and
      failed = True and msg = "''no''" and tm = "[0 \<mapsto> \<lparr>Started = 10, Finished = 20\<rparr>]" and now' = 90 and msg' = "''again''" and tm' = Map.empty,
      folded failed_push_def, unfolded Let_def]
    failed_push_states(1)
  by (simp only: if_True simp_thms recordedSequence_init)

text \<open>The step list of a promotion has no step twice and ends with the health check; it opens a pull request exactly when the
  environment asks for review and is not updated through Argo CD, then waits for its merge right after opening it, and only
  after the change was pushed (or rendered); every list that pushes has cloned and committed first.\<close>

theorem default_sequence_shape:
  "let seq = DefaultSequenceForBundle mode type strategy layout;
       before = (\<lambda>s. takeWhile (\<lambda>x. x \<noteq> s) seq)
   in distinct seq \<and> last seq = ''health-check'' \<and>
      (OpensPR seq \<longleftrightarrow> mode = ''pr-review'' \<and> strategy \<noteq> ''argocd'') \<and>
      (OpensPR seq \<longrightarrow> (''git-push'' \<in> set (before ''open-pr'') \<or> ''render'' \<in> set (before ''open-pr'')) \<and>
         drop (length (before ''open-pr'')) seq = [''open-pr'', ''wait-for-merge'', ''health-check'']) \<and>
      (''git-push'' \<in> set seq \<longrightarrow> hd seq = ''git-clone'' \<and> last (before ''git-push'') = ''git-commit'')"
proof (cases "strategy = ''argocd'' \<or> layout = ''branch''")
  case True
  then show ?thesis by (cases "mode = ''pr-review''") (auto simp: DefaultSequenceForBundle_def OpensPR_def Let_def)
next
  case False
  define upd where "upd = (if type = ''config'' \<or> type = ''mixed'' then [''config-merge''] else []) @
    (if type = ''config'' then [] else if strategy = ''helm'' \<or> type = ''chart'' then [''helm-set-image'']
     else if strategy = ''yaml'' then [''yaml-update''] else [''kustomize-set-image''])"
  have upd: "upd \<in> {[''config-merge''], [''config-merge'', ''helm-set-image''], [''config-merge'', ''yaml-update''],
      [''config-merge'', ''kustomize-set-image''], [''helm-set-image''], [''yaml-update''], [''kustomize-set-image'']}"
    by (simp add: upd_def)
  have seq: "DefaultSequenceForBundle mode type strategy layout =
      [''git-clone''] @ upd @ [''git-commit'', ''git-push''] @ (if mode = ''pr-review'' then [''open-pr'', ''wait-for-merge''] else []) @ [''health-check'']"
    using False by (simp add: DefaultSequenceForBundle_def Let_def upd_def)
  from False have "strategy \<noteq> ''argocd''" by simp
  with upd show ?thesis unfolding seq by (cases "mode = ''pr-review''") (auto simp: OpensPR_def Let_def)
qed

theorem default_sequence_shape_witness:
  "OpensPR (DefaultSequenceForBundle ''pr-review'' ''mixed'' ''helm'' '''')"
  "DefaultSequenceForBundle ''pr-review'' ''mixed'' ''helm'' '''' =
     [''git-clone'', ''config-merge'', ''helm-set-image'', ''git-commit'', ''git-push'', ''open-pr'', ''wait-for-merge'', ''health-check'']"
  using default_sequence_shape [of "''pr-review''" "''mixed''" "''helm''" "''''"]
  by (simp_all add: Let_def) (simp add: DefaultSequenceForBundle_def)

end
