(* ===== verification/Step_Retry.thy ===== *)
theory Step_Retry
  imports Step_Engine
begin

text \<open>
  What a failed run of the step engine means for the PromotionStep: \<open>handleStepError\<close> and \<open>retryDelay\<close> of
  \<open>pkg/reconciler/promotionstep/reconciler.go\<close>, the waits for an SCM that is down (\<open>scm_wait.go\<close>) and the missing git
  credentials (\<open>git_credential.go\<close>).

  Arguments: the conditions library of apimachinery (\<open>step_conds\<close>), the clock, the random numbers of the jitters, go-git's
  authentication errors (\<open>rt_gitAuth\<close>), the formats of times and durations, and the outcome of closing the pull request.
\<close>

section \<open>Errors of the engine\<close>

text \<open>\<open>errors.Unwrap\<close>: the engine wraps an error a step returned, and formats a failure a step reported.\<close>

definition wraps :: "engine_error \<Rightarrow> bool" where
  "wraps e = (case e of LookupError _ _ \<Rightarrow> True | StepError _ _ \<Rightarrow> True | StepContended _ _ \<Rightarrow> True
     | StepReported _ _ \<Rightarrow> False | UnknownStatus _ _ \<Rightarrow> False)"

definition error_chain :: "engine_error \<Rightarrow> StepErr" where
  "error_chain e = (case e of LookupError _ x \<Rightarrow> x | StepError _ x \<Rightarrow> x
     | StepContended _ _ \<Rightarrow> (plain_error ''contended'')\<lparr>ErrContended := True\<rparr>
     | StepReported _ _ \<Rightarrow> plain_error '''' | UnknownStatus _ _ \<Rightarrow> plain_error '''')"

definition engine_text :: "engine_error \<Rightarrow> string" where
  "engine_text e =
     (case e of
        LookupError i x \<Rightarrow> ''step '' @ nat_str i @ '' lookup: '' @ err_text x
      | StepError name x \<Rightarrow> ''step '' @ name @ '': '' @ err_text x
      | StepReported name m \<Rightarrow> ''step '' @ name @ '': '' @ m
      | StepContended name m \<Rightarrow> ''step '' @ name @ '': '' @ m @ '': contended''
      | UnknownStatus name s \<Rightarrow> ''step '' @ name @ '': unknown status '' @ quote s)"

section \<open>Delays\<close>

definition maxStepRetries :: nat where "maxStepRetries = 5"
definition retryBaseDelay :: duration where "retryBaseDelay = 10 * second"
definition retryMaxDelay :: duration where "retryMaxDelay = 2 * minute"

fun double_until :: "nat \<Rightarrow> duration \<Rightarrow> duration" where
  "double_until 0 d = d"
| "double_until (Suc k) d = (if d < retryMaxDelay then double_until k (2 * d) else d)"

definition retryDelay :: "nat \<Rightarrow> duration" where
  "retryDelay n = min (double_until (n - 1) retryBaseDelay) retryMaxDelay"

definition contendedDelay :: "(duration \<Rightarrow> duration) \<Rightarrow> duration \<Rightarrow> duration" where
  "contendedDelay rnd d = (if d \<le> 0 then d else min (d div 2 + rnd d) retryMaxDelay)"

section \<open>Conditions\<close>

record step_conds =
  SetStatusCondition :: "StepCondition list \<Rightarrow> StepCondition \<Rightarrow> StepCondition list"
  IsStatusConditionTrue :: "StepCondition list \<Rightarrow> string \<Rightarrow> bool"
  RemoveStatusCondition :: "StepCondition list \<Rightarrow> string \<Rightarrow> StepCondition list"

text \<open>What the documentation of these functions promises.\<close>

definition conds_ok :: "step_conds \<Rightarrow> bool" where
  "conds_ok lib =
     ((\<forall>cs c t. IsStatusConditionTrue lib (SetStatusCondition lib cs c) t =
        (if t = sc_type c then sc_status c else IsStatusConditionTrue lib cs t)) \<and>
      (\<forall>cs t t'. IsStatusConditionTrue lib (RemoveStatusCondition lib cs t) t' = (t' \<noteq> t \<and> IsStatusConditionTrue lib cs t')))"

record retry_env =
  rt_now :: time
  rt_wall :: time
  rt_conds :: step_conds
  rt_rand :: "duration \<Rightarrow> duration"
  rt_gitAuth :: "engine_error \<Rightarrow> bool"
  rt_fmtTime :: "time \<Rightarrow> string"
  rt_fmtDur :: "duration \<Rightarrow> string"
  rt_roundDur :: "duration \<Rightarrow> string"
  SCMWaitTimeout :: duration
  rt_generation :: int

definition set_cond :: "retry_env \<Rightarrow> time \<Rightarrow> string \<Rightarrow> bool \<Rightarrow> string \<Rightarrow> string \<Rightarrow> PromotionStepStatus \<Rightarrow> PromotionStepStatus" where
  "set_cond env at type status reason msg st =
     st\<lparr>ps_conditions := SetStatusCondition (rt_conds env) (ps_conditions st)
          \<lparr>sc_type = type, sc_status = status, sc_reason = reason, sc_message = msg, sc_generation = rt_generation env, sc_time = at\<rparr>\<rparr>"

section \<open>Waiting for the SCM\<close>

definition ConditionSCMUnavailable :: string where "ConditionSCMUnavailable = ''SCMUnavailable''"
definition DefaultSCMWaitTimeout :: duration where "DefaultSCMWaitTimeout = 30 * minute"

definition circuitJitter :: "(duration \<Rightarrow> duration) \<Rightarrow> duration \<Rightarrow> duration" where
  "circuitJitter rnd d = d + rnd (d div 5 + 1)"

definition circuitWait :: "retry_env \<Rightarrow> StepErr \<Rightarrow> duration option" where
  "circuitWait env e =
     (case ErrCircuitOpen e of
        None \<Rightarrow> None
      | Some retryAfter \<Rightarrow> Some (circuitJitter (rt_rand env) (min (max (retryAfter - rt_now env) second) retryMaxDelay)))"

definition scmWaitBound :: "retry_env \<Rightarrow> int \<Rightarrow> duration" where
  "scmWaitBound env stepTimeoutSeconds =
     (if 0 < stepTimeoutSeconds then stepTimeoutSeconds * second
      else if 0 < SCMWaitTimeout env then SCMWaitTimeout env
      else DefaultSCMWaitTimeout)"

definition startSCMWait :: "retry_env \<Rightarrow> string \<Rightarrow> PromotionStepStatus \<Rightarrow> duration \<times> bool \<times> PromotionStepStatus" where
  "startSCMWait env err st =
     (let started = (SCMWaitSince st = None);
          since = (case SCMWaitSince st of None \<Rightarrow> rt_now env | Some t \<Rightarrow> t);
          st' = set_cond env (rt_now env) ConditionSCMUnavailable True ''CircuitOpen''
                  (''waiting for the SCM since '' @ rt_fmtTime env since @ '': '' @ err) (st\<lparr>SCMWaitSince := Some since\<rparr>)
      in (rt_now env - since, started, st'))"

definition clearSCMWait :: "retry_env \<Rightarrow> PromotionStepStatus \<Rightarrow> PromotionStepStatus" where
  "clearSCMWait env st =
     (case SCMWaitSince st of
        None \<Rightarrow> st
      | Some _ \<Rightarrow> set_cond env (rt_now env) ConditionSCMUnavailable False ''Reachable'' ''the SCM answered'' (st\<lparr>SCMWaitSince := None\<rparr>))"

definition endSCMWaitTimedOut :: "retry_env \<Rightarrow> PromotionStepStatus \<Rightarrow> PromotionStepStatus" where
  "endSCMWaitTimedOut env st =
     (case SCMWaitSince st of
        None \<Rightarrow> st
      | Some since \<Rightarrow> set_cond env (rt_now env) ConditionSCMUnavailable False ''TimedOut''
          (''the SCM was unavailable for '' @ rt_roundDur env (rt_now env - since) @ '', the most this step waits; the step failed'')
          (st\<lparr>SCMWaitSince := None\<rparr>))"

definition emitSCMUnavailable :: "retry_env \<Rightarrow> string \<Rightarrow> duration \<Rightarrow> string \<Rightarrow> emitted_event" where
  "emitSCMUnavailable env environment bound err =
     \<lparr>em_warning = True, em_reason = ConditionSCMUnavailable, em_action = ''Promote'',
      em_note = ''env '' @ environment @ '': the SCM circuit is open; the step waits for it, for '' @ rt_fmtDur env bound @ '' at most: '' @ err\<rparr>"

section \<open>Git credentials\<close>

definition ConditionGitCredentialMissing :: string where "ConditionGitCredentialMissing = ''GitCredentialMissing''"

datatype credential_reason = CredentialFound | SecretRefNotSet | SecretNotFound | SecretHasNoToken | SecretUnreadable
  | GitHubAppTokenFailed | SecretNotReferenceable

definition reason_str :: "credential_reason \<Rightarrow> string" where
  "reason_str r = (case r of CredentialFound \<Rightarrow> '''' | SecretRefNotSet \<Rightarrow> ''SecretRefNotSet'' | SecretNotFound \<Rightarrow> ''SecretNotFound''
     | SecretHasNoToken \<Rightarrow> ''SecretHasNoToken'' | SecretUnreadable \<Rightarrow> ''SecretUnreadable''
     | GitHubAppTokenFailed \<Rightarrow> ''GitHubAppTokenFailed'' | SecretNotReferenceable \<Rightarrow> ''SecretNotReferenceable'')"

record gitCredential =
  cr_token :: string
  cr_sshKey :: string
  cr_knownHosts :: string
  cr_reason :: credential_reason
  cr_secret :: string
  cr_readErr :: string
  cr_refused :: "string option"

definition no_credential :: gitCredential where
  "no_credential = \<lparr>cr_token = '''', cr_sshKey = '''', cr_knownHosts = '''', cr_reason = CredentialFound, cr_secret = '''',
     cr_readErr = '''', cr_refused = None\<rparr>"

record git_secret =
  gs_labels :: "(string \<times> string) list"
  gs_data :: "(string \<times> string) list"

datatype secret_read = SecretRead git_secret | SecretMissing string | SecretReadFailed string

text \<open>\<open>refuses\<close> is what the controller's own Secret refuses, \<open>needsToken\<close> whether the remote takes a token, \<open>appToken\<close> what the
  GitHub App credentials of a Secret give: nothing when it has none, a minted token, or why there is none.\<close>

definition resolveGitCredential ::
  "string option \<Rightarrow> bool \<Rightarrow> string \<Rightarrow> string \<Rightarrow> secret_read \<Rightarrow> ((string \<times> string) list \<Rightarrow> (string + string) option) \<Rightarrow> gitCredential" where
  "resolveGitCredential refuses needsToken namespace ref rd appToken =
     (case refuses of
        Some err \<Rightarrow> no_credential\<lparr>cr_refused := Some err\<rparr>
      | None \<Rightarrow>
          if ref = '''' then (if needsToken then no_credential\<lparr>cr_reason := SecretRefNotSet\<rparr> else no_credential)
          else let cred = no_credential\<lparr>cr_secret := namespace @ ''/'' @ ref\<rparr> in
            (case rd of
               SecretMissing err \<Rightarrow> if needsToken then cred\<lparr>cr_reason := SecretNotFound, cr_readErr := err\<rparr> else cred
             | SecretReadFailed err \<Rightarrow> if needsToken then cred\<lparr>cr_reason := SecretUnreadable, cr_readErr := err\<rparr> else cred
             | SecretRead s \<Rightarrow>
                 if assoc_str (gs_labels s) ''kardinal.io/referenceable'' \<noteq> ''true'' then cred\<lparr>cr_reason := SecretNotReferenceable\<rparr>
                 else let cred1 = cred\<lparr>cr_sshKey := assoc_str (gs_data s) ''sshPrivateKey'',
                                       cr_knownHosts := assoc_str (gs_data s) ''knownHosts''\<rparr> in
                   if needsToken \<and> appToken (gs_data s) \<noteq> None
                   then (case the (appToken (gs_data s)) of
                           Inl err \<Rightarrow> cred1\<lparr>cr_reason := GitHubAppTokenFailed, cr_readErr := err\<rparr>
                         | Inr token \<Rightarrow> cred1\<lparr>cr_token := token\<rparr>)
                   else let token = trim_space (assoc_str (gs_data s) ''token'')
                        in cred1\<lparr>cr_token := token, cr_reason := (if token = '''' \<and> needsToken then SecretHasNoToken else CredentialFound)\<rparr>))"

definition notReferenceable :: "gitCredential \<Rightarrow> string" where
  "notReferenceable c =
     (let (ns, name) = (case cut (CHR ''/'') (cr_secret c) of None \<Rightarrow> (cr_secret c, '''') | Some p \<Rightarrow> p)
      in ''git Secret '' @ cr_secret c @ '' is not labeled kardinal.io/referenceable=true, so git does not use it; label it: '' @
         ''kubectl label secret '' @ name @ '' -n '' @ ns @ '' kardinal.io/referenceable=true'')"

definition git_step_op :: "string \<Rightarrow> string option" where
  "git_step_op step = (if step = ''git-clone'' then Some ''clone'' else if step = ''git-push'' then Some ''push'' else None)"

definition credential_note :: "gitCredential \<Rightarrow> string \<Rightarrow> string" where
  "credential_note c step =
     (case git_step_op step of
        None \<Rightarrow> ''''
      | Some op \<Rightarrow>
          (case cr_reason c of
             SecretRefNotSet \<Rightarrow> ''spec.git.secretRef is not set, so the '' @ op @ '' has no credentials''
           | SecretNotFound \<Rightarrow> ''git Secret '' @ cr_secret c @ '' not found''
           | SecretHasNoToken \<Rightarrow> ''git Secret '' @ cr_secret c @ '' has no token key''
           | SecretUnreadable \<Rightarrow> ''git Secret '' @ cr_secret c @ '' could not be read: '' @ cr_readErr c
           | GitHubAppTokenFailed \<Rightarrow>
               ''git Secret '' @ cr_secret c @ '' has GitHub App credentials, and no installation token could be minted: '' @ cr_readErr c
           | SecretNotReferenceable \<Rightarrow> notReferenceable c
           | CredentialFound \<Rightarrow> ''''))"

definition waitsForSecret :: "gitCredential \<Rightarrow> bool" where
  "waitsForSecret c = (case cr_reason c of SecretRefNotSet \<Rightarrow> True | SecretNotFound \<Rightarrow> True | SecretHasNoToken \<Rightarrow> True
     | SecretNotReferenceable \<Rightarrow> True | _ \<Rightarrow> False)"

definition markGitCredentialMissing :: "retry_env \<Rightarrow> credential_reason \<Rightarrow> string \<Rightarrow> PromotionStepStatus \<Rightarrow> PromotionStepStatus \<times> bool" where
  "markGitCredentialMissing env reason note st =
     (set_cond env (rt_wall env) ConditionGitCredentialMissing True (reason_str reason) note st,
      \<not> IsStatusConditionTrue (rt_conds env) (ps_conditions st) ConditionGitCredentialMissing)"

definition clearGitCredentialMissing :: "retry_env \<Rightarrow> gitCredential \<Rightarrow> PromotionStepStatus \<Rightarrow> PromotionStepStatus" where
  "clearGitCredentialMissing env cred st =
     (if cr_reason cred \<noteq> CredentialFound \<or> \<not> IsStatusConditionTrue (rt_conds env) (ps_conditions st) ConditionGitCredentialMissing
      then st
      else set_cond env (rt_wall env) ConditionGitCredentialMissing False ''CredentialFound'' ''git has a token'' (st\<lparr>GitCredentialRetries := 0\<rparr>))"

definition emitGitCredentialMissing :: "string \<Rightarrow> string \<Rightarrow> string \<Rightarrow> emitted_event" where
  "emitGitCredentialMissing environment step note =
     \<lparr>em_warning = True, em_reason = ConditionGitCredentialMissing, em_action = ''Promote'',
      em_note = ''env '' @ environment @ '': step '' @ step @ '' failed and git has no credentials: '' @ note\<rparr>"

section \<open>The error of a run\<close>

record close_error =
  ce_text :: string
  ce_branch :: "string option"
  ce_circuit :: "time option"

definition closeByHand :: "close_error \<Rightarrow> string" where
  "closeByHand e = (case ce_branch e of Some b \<Rightarrow> ''delete branch '' @ b @ '' by hand'' | None \<Rightarrow> ''close it by hand'')"

definition stale_text :: string where "stale_text = ''stale promotion: refusing to push''"

definition staleReason :: "string \<Rightarrow> string" where
  "staleReason msg = (case after_last (stale_text @ '': '') msg of Some r \<Rightarrow> r | None \<Rightarrow> msg)"

definition set_output :: "string \<Rightarrow> string \<Rightarrow> (string \<times> string) list \<Rightarrow> (string \<times> string) list" where
  "set_output k v m = (k, v) # filter (\<lambda>(k', _). k' \<noteq> k) m"

text \<open>What is to be written: a wait for the SCM, a retry (a locked patch), or the failure of the step, with the Events due after
  the write.\<close>

datatype step_error_outcome =
    WaitForSCM duration PromotionStepStatus "emitted_event list"
  | RetryLater duration PromotionStepStatus "emitted_event list"
  | FailStep string PromotionStepStatus "emitted_event list"

definition note_foreign :: "StepErr \<Rightarrow> PromotionStepStatus \<Rightarrow> PromotionStepStatus \<times> emitted_event list" where
  "note_foreign x st =
     (case ForeignPRHead x of
        None \<Rightarrow> (st, [])
      | Some f \<Rightarrow> (st\<lparr>Outputs := set_output ''prForeignHead'' (fh_Head f) (Outputs st)\<rparr>,
          [\<lparr>em_warning = True, em_reason = ''PRBranchForeignCommit'', em_action = ''Promote'', em_note = foreign_text f\<rparr>]))"

text \<open>The counters of a retry: a missing Secret and a contended branch have no limit and do not use up \<open>RetryCount\<close>.\<close>

definition count_retry :: "bool \<Rightarrow> bool \<Rightarrow> PromotionStepStatus \<Rightarrow> PromotionStepStatus \<times> string" where
  "count_retry waitForSecret contended st =
     (if waitForSecret
      then (st\<lparr>GitCredentialRetries := GitCredentialRetries st + 1\<rparr>,
            nat_str (GitCredentialRetries st + 1) @ '', no limit while git has no credentials'')
      else if contended
      then (st\<lparr>ContendedRetries := ContendedRetries st + 1\<rparr>,
            nat_str (ContendedRetries st + 1) @ '', no limit while other writers keep moving the branch'')
      else (st\<lparr>RetryCount := RetryCount st + 1\<rparr>, nat_str (RetryCount st + 1) @ ''/'' @ nat_str maxStepRetries))"

definition retry_step ::
  "retry_env \<Rightarrow> bool \<Rightarrow> bool \<Rightarrow> string \<Rightarrow> PromotionStepStatus \<Rightarrow> duration \<times> PromotionStepStatus" where
  "retry_step env waitForSecret contended err st =
     (let (st1, count) = count_retry waitForSecret contended st;
          delay0 = retryDelay (RetryCount st1 + GitCredentialRetries st1 + ContendedRetries st1);
          delay = (if contended then contendedDelay (rt_rand env) delay0 else delay0)
      in (delay, st1\<lparr>NextRetryAt := Some (rt_now env + delay),
                     ps_message := ''retrying in '' @ rt_fmtDur env delay @ '' ('' @ count @ '') after error: '' @ err\<rparr>))"

text \<open>What one call of \<open>handleStepError\<close> has fixed before it decides: its arguments, the chain of the error, the Events so far.\<close>

record error_run =
  er_env :: retry_env
  er_closePR :: "PromotionStepStatus \<Rightarrow> string \<Rightarrow> close_error option"
  er_names :: "string list"
  er_timings :: "nat \<rightharpoonup> StepTiming"
  er_idx :: nat
  er_closed :: stepObservations
  er_chain :: StepErr
  er_retryable :: bool
  er_waitForSecret :: bool
  er_credEvents :: "emitted_event list"
  er_foreign :: "emitted_event list"

definition update_run :: "error_run \<Rightarrow> bool \<Rightarrow> string \<Rightarrow> PromotionStepStatus \<Rightarrow> PromotionStepStatus \<times> stepObservations" where
  "update_run er failed msg st =
     (let (ss, obs) = updateStepStatuses (rt_wall (er_env er)) (ps_steps st) (er_names er) (er_idx er) failed msg (er_timings er)
      in (st\<lparr>ps_steps := ss\<rparr>, er_closed er @ obs))"

definition fail_run :: "error_run \<Rightarrow> bool \<Rightarrow> string \<Rightarrow> PromotionStepStatus \<Rightarrow> step_error_outcome \<times> stepObservations \<times> emitted_event list" where
  "fail_run er retryable err st =
     (let msg0 = (if retryable then err @ '' (gave up after '' @ nat_str maxStepRetries @ '' retries)'' else err);
          msg1 = (if ErrStalePush (er_chain er) then staleReason err else msg0);
          (st', obs) = update_run er True msg1 st;
          msg2 = (case er_closePR er st' (''the promotion failed: '' @ msg1) of
                    None \<Rightarrow> msg1
                  | Some ce \<Rightarrow> msg1 @ ''; closing the PR it opened failed ('' @ ce_text ce @ '') '' @ em_dash @ '' '' @ closeByHand ce)
      in (FailStep msg2 st' (er_credEvents er), obs, er_foreign er))"

definition retry_run :: "error_run \<Rightarrow> string \<Rightarrow> PromotionStepStatus \<Rightarrow> step_error_outcome \<times> stepObservations \<times> emitted_event list" where
  "retry_run er err st =
     (let contended = ErrContended (er_chain er) in
      if er_retryable er \<and> (er_waitForSecret er \<or> contended \<or> RetryCount st < maxStepRetries)
      then let (delay, st') = retry_step (er_env er) (er_waitForSecret er) contended err st;
               (st'', obs) = update_run er False '''' st'
           in (RetryLater delay st'' (er_credEvents er), obs, er_foreign er)
      else fail_run er (er_retryable er) err st)"

definition scm_run ::
  "error_run \<Rightarrow> string \<Rightarrow> int \<Rightarrow> duration \<Rightarrow> string \<Rightarrow> PromotionStepStatus \<Rightarrow> step_error_outcome \<times> stepObservations \<times> emitted_event list" where
  "scm_run er environment stepTimeoutSeconds wait err st =
     (let env = er_env er;
          bound = scmWaitBound env stepTimeoutSeconds;
          (waited, started, st3) = startSCMWait env err st
      in if waited < bound
         then let st4 = st3\<lparr>NextRetryAt := Some (rt_now env + wait),
                    ps_message := ''waiting '' @ rt_roundDur env wait @ '' for the SCM (not counted as a retry; '' @
                      nat_str (RetryCount st3) @ ''/'' @ nat_str maxStepRetries @ '' used; waiting since '' @
                      rt_fmtTime env (the (SCMWaitSince st3)) @ '', for '' @ rt_fmtDur env bound @ '' at most): '' @ err\<rparr>;
                  (st5, obs) = update_run er False '''' st4
              in (WaitForSCM wait st5 (if started then [emitSCMUnavailable env environment bound err] else []), obs, er_foreign er)
         else fail_run er False (''the SCM was unavailable for '' @ rt_roundDur env waited @ '', the most this step waits: '' @ err)
                (endSCMWaitTimedOut env st3))"

definition handleStepError ::
  "retry_env \<Rightarrow> string \<Rightarrow> (PromotionStepStatus \<Rightarrow> string \<Rightarrow> close_error option) \<Rightarrow> string list \<Rightarrow> (nat \<rightharpoonup> StepTiming) \<Rightarrow>
   engine_error \<Rightarrow> stepObservations \<Rightarrow> gitCredential \<Rightarrow> int \<Rightarrow> PromotionStepStatus \<Rightarrow>
   step_error_outcome \<times> stepObservations \<times> emitted_event list" where
  "handleStepError env environment closePR stepNames timings e closed cred stepTimeoutSeconds st0 =
     (let x = error_chain e;
          idx = CurrentStepIndex st0;
          retryable = (wraps e \<and> \<not> ErrPermanent x);
          (st1, foreign) = note_foreign x st0;
          step = (if idx < length stepNames then stepNames ! idx else '''');
          note = (if idx < length stepNames \<and> retryable \<and> rt_gitAuth env e then credential_note cred step else '''');
          err = (if note \<noteq> '''' then engine_text e @ '' ('' @ note @ '')'' else engine_text e);
          (st2, emitCredential) = (if note \<noteq> '''' then markGitCredentialMissing env (cr_reason cred) note st1 else (st1, False));
          er = \<lparr>er_env = env, er_closePR = closePR, er_names = stepNames, er_timings = timings, er_idx = idx, er_closed = closed,
                er_chain = x, er_retryable = retryable, er_waitForSecret = (note \<noteq> '''' \<and> waitsForSecret cred),
                er_credEvents = (if emitCredential then [emitGitCredentialMissing environment step note] else []),
                er_foreign = foreign\<rparr>
      in case circuitWait env x of
           Some wait \<Rightarrow> if retryable then scm_run er environment stepTimeoutSeconds wait err st2 else retry_run er err st2
         | None \<Rightarrow> retry_run er err st2)"

text \<open>The write of that outcome. \<open>fail\<close> is the transition to Failed (\<open>transitionClosing\<close>), whose credential Event follows it.\<close>

datatype ctrl_result = ResultDone | ResultRequeue | ResultAfter duration | ResultError string

definition transition_text :: "transition_error \<Rightarrow> string" where
  "transition_text e = (case e of EntriesError s \<Rightarrow> s | ReceiptReadError s \<Rightarrow> s | StepChanged \<Rightarrow> ''step changed since it was read''
     | StatusPatchError s \<Rightarrow> s)"

definition write_step_error ::
  "(string \<Rightarrow> PromotionStepStatus \<Rightarrow> (transition_error + bool) \<times> PromotionStepStatus option) \<Rightarrow> patch_result \<Rightarrow> step_error_outcome \<Rightarrow>
   ctrl_result \<times> PromotionStepStatus option \<times> emitted_event list" where
  "write_step_error fail result out =
     (case out of
        WaitForSCM wait st evs \<Rightarrow>
          (case result of
             PatchOK \<Rightarrow> (ResultAfter wait, Some st, evs)
           | PatchNotFound \<Rightarrow> (ResultDone, None, [])
           | PatchConflict \<Rightarrow> (ResultError ''patch step circuit wait: conflict'', None, [])
           | PatchFailed err \<Rightarrow> (ResultError (''patch step circuit wait: '' @ err), None, []))
      | RetryLater delay st evs \<Rightarrow>
          (case result of
             PatchOK \<Rightarrow> (ResultAfter delay, Some st, evs)
           | PatchNotFound \<Rightarrow> (ResultDone, None, [])
           | PatchConflict \<Rightarrow> (ResultRequeue, None, [])
           | PatchFailed err \<Rightarrow> (ResultError (''patch step retry: '' @ err), None, []))
      | FailStep msg st evs \<Rightarrow>
          (case fail msg st of
             (Inl err, stored) \<Rightarrow> (ResultError (transition_text err), stored, [])
           | (Inr _, stored) \<Rightarrow> (ResultDone, stored, evs)))"

section \<open>Lemmas\<close>

lemma min_double_until: "0 < d \<Longrightarrow> min (double_until k d) retryMaxDelay = min (d * 2 ^ k) retryMaxDelay"
proof (induction k d rule: double_until.induct)
  case (2 k d)
  show ?case
  proof (cases "d < retryMaxDelay")
    case True
    with 2 show ?thesis by (simp add: mult.assoc mult.left_commute)
  next
    case False
    have "d * 1 \<le> d * 2 ^ Suc k" by (intro mult_left_mono one_le_power) (use 2 in auto)
    with False show ?thesis by simp
  qed
qed simp

lemma retryDelay_eq: "retryDelay (Suc n) = min (retryBaseDelay * 2 ^ n) retryMaxDelay"
  using min_double_until [of retryBaseDelay n] by (simp add: retryDelay_def retryBaseDelay_def second_def)

lemma retryDelay_bounds: "retryBaseDelay \<le> retryDelay n" "retryDelay n \<le> retryMaxDelay"
proof -
  have "retryBaseDelay * 1 \<le> retryBaseDelay * 2 ^ (n - 1)"
    by (intro mult_left_mono one_le_power) (simp_all add: retryBaseDelay_def second_def)
  then show "retryBaseDelay \<le> retryDelay n"
    using min_double_until [of retryBaseDelay "n - 1"]
    by (simp add: retryDelay_def retryBaseDelay_def retryMaxDelay_def second_def minute_def)
qed (simp add: retryDelay_def)

lemma set_cond_fields [simp]:
  "ps_state (set_cond env at ty s r m st) = ps_state st" "RetryCount (set_cond env at ty s r m st) = RetryCount st"
  "GitCredentialRetries (set_cond env at ty s r m st) = GitCredentialRetries st"
  "ContendedRetries (set_cond env at ty s r m st) = ContendedRetries st"
  "ps_steps (set_cond env at ty s r m st) = ps_steps st" "SCMWaitSince (set_cond env at ty s r m st) = SCMWaitSince st"
  "CurrentStepIndex (set_cond env at ty s r m st) = CurrentStepIndex st" "NextRetryAt (set_cond env at ty s r m st) = NextRetryAt st"
  by (simp_all add: set_cond_def)

lemma note_foreign_fields [simp]:
  "ps_state (fst (note_foreign x st)) = ps_state st" "RetryCount (fst (note_foreign x st)) = RetryCount st"
  "GitCredentialRetries (fst (note_foreign x st)) = GitCredentialRetries st"
  "ContendedRetries (fst (note_foreign x st)) = ContendedRetries st"
  "ps_steps (fst (note_foreign x st)) = ps_steps st" "SCMWaitSince (fst (note_foreign x st)) = SCMWaitSince st"
  by (simp_all add: note_foreign_def split: option.splits)

lemma mark_fields [simp]:
  "ps_state (fst (markGitCredentialMissing env r n st)) = ps_state st"
  "RetryCount (fst (markGitCredentialMissing env r n st)) = RetryCount st"
  "GitCredentialRetries (fst (markGitCredentialMissing env r n st)) = GitCredentialRetries st"
  "ContendedRetries (fst (markGitCredentialMissing env r n st)) = ContendedRetries st"
  "ps_steps (fst (markGitCredentialMissing env r n st)) = ps_steps st"
  "SCMWaitSince (fst (markGitCredentialMissing env r n st)) = SCMWaitSince st"
  by (simp_all add: markGitCredentialMissing_def)

lemma startSCMWait_fields:
  "startSCMWait env err st = (waited, started, st') \<Longrightarrow>
   waited = rt_now env - (case SCMWaitSince st of None \<Rightarrow> rt_now env | Some t \<Rightarrow> t) \<and> started = (SCMWaitSince st = None) \<and>
   SCMWaitSince st' = Some (case SCMWaitSince st of None \<Rightarrow> rt_now env | Some t \<Rightarrow> t) \<and>
   ps_state st' = ps_state st \<and> RetryCount st' = RetryCount st \<and> ps_steps st' = ps_steps st"
  by (auto simp: startSCMWait_def Let_def)

lemma endSCMWait_fields [simp]:
  "ps_state (endSCMWaitTimedOut env st) = ps_state st" "ps_steps (endSCMWaitTimedOut env st) = ps_steps st"
  by (simp_all add: endSCMWaitTimedOut_def split: option.splits)

lemma count_retry_fields [simp]:
  "ps_state (fst (count_retry ws co st)) = ps_state st" "ps_steps (fst (count_retry ws co st)) = ps_steps st"
  "RetryCount (fst (count_retry ws co st)) = (if ws \<or> co then RetryCount st else RetryCount st + 1)"
  "RetryCount (fst (count_retry ws co st)) + GitCredentialRetries (fst (count_retry ws co st)) + ContendedRetries (fst (count_retry ws co st)) =
   Suc (RetryCount st + GitCredentialRetries st + ContendedRetries st)"
  by (simp_all add: count_retry_def)

lemma retry_step_fields [simp]:
  "NextRetryAt (snd (retry_step env ws co err st)) = Some (rt_now env + fst (retry_step env ws co err st))"
  "ps_state (snd (retry_step env ws co err st)) = ps_state st" "ps_steps (snd (retry_step env ws co err st)) = ps_steps st"
  "RetryCount (snd (retry_step env ws co err st)) = (if ws \<or> co then RetryCount st else RetryCount st + 1)"
  by (simp_all add: retry_step_def Let_def case_prod_beta)

lemma retry_step_delay:
  "\<not> co \<Longrightarrow> fst (retry_step env ws co err st) = retryDelay (Suc (RetryCount st + GitCredentialRetries st + ContendedRetries st))"
  by (simp add: retry_step_def count_retry_def Let_def case_prod_beta)

definition outcome_status :: "step_error_outcome \<Rightarrow> PromotionStepStatus" where
  "outcome_status out = (case out of WaitForSCM _ st _ \<Rightarrow> st | RetryLater _ st _ \<Rightarrow> st | FailStep _ st _ \<Rightarrow> st)"

lemma updateStepStatuses_names: "ss \<noteq> [] \<Longrightarrow> map ss_name (fst (updateStepStatuses now ss names cur f m tm)) = map ss_name ss"
  by (simp add: updateStepStatuses_def update_entries_names)

lemma update_run_fields [simp]:
  "ps_state (fst (update_run er f m st)) = ps_state st" "RetryCount (fst (update_run er f m st)) = RetryCount st"
  "NextRetryAt (fst (update_run er f m st)) = NextRetryAt st" "SCMWaitSince (fst (update_run er f m st)) = SCMWaitSince st"
  "ps_steps st \<noteq> [] \<Longrightarrow> map ss_name (ps_steps (fst (update_run er f m st))) = map ss_name (ps_steps st)"
  by (simp_all add: update_run_def case_prod_beta Let_def updateStepStatuses_names)

definition keeps :: "PromotionStepStatus \<Rightarrow> step_error_outcome \<Rightarrow> bool" where
  "keeps st out = (ps_state (outcome_status out) = ps_state st \<and>
     recordedSequence (ps_steps (outcome_status out)) = recordedSequence (ps_steps st))"

lemma fail_run_out:
  assumes "ps_steps st \<noteq> []"
  shows "(\<exists>m st' ev. fst (fail_run er b err st) = FailStep m st' ev) \<and> keeps st (fst (fail_run er b err st))"
  using assms by (simp add: fail_run_def Let_def case_prod_beta keeps_def outcome_status_def recordedSequence_def)

lemma retry_run_out:
  assumes "ps_steps st \<noteq> []"
  shows "keeps st (fst (retry_run er err st)) \<and>
    (if er_retryable er \<and> (er_waitForSecret er \<or> ErrContended (er_chain er) \<or> RetryCount st < maxStepRetries)
     then \<exists>d st' ev. fst (retry_run er err st) = RetryLater d st' ev \<and> NextRetryAt st' = Some (rt_now (er_env er) + d) \<and>
       RetryCount st' = (if er_waitForSecret er \<or> ErrContended (er_chain er) then RetryCount st else RetryCount st + 1) \<and>
       (\<not> ErrContended (er_chain er) \<longrightarrow> d = retryDelay (Suc (RetryCount st + GitCredentialRetries st + ContendedRetries st)))
     else \<exists>m st' ev. fst (retry_run er err st) = FailStep m st' ev)"
proof (cases "er_retryable er \<and> (er_waitForSecret er \<or> ErrContended (er_chain er) \<or> RetryCount st < maxStepRetries)")
  case True
  then show ?thesis
    using assms by (simp add: retry_run_def Let_def case_prod_beta keeps_def outcome_status_def recordedSequence_def retry_step_delay)
next
  case False
  then have "retry_run er err st = fail_run er (er_retryable er) err st" by (simp only: retry_run_def Let_def if_False)
  with False fail_run_out [OF assms] show ?thesis by (metis (no_types, lifting))
qed

lemma scm_run_out:
  assumes "ps_steps st \<noteq> []"
  shows "let env = er_env er; since = (case SCMWaitSince st of None \<Rightarrow> rt_now env | Some t \<Rightarrow> t);
             out = fst (scm_run er environment timeout wait err st) in
    keeps st out \<and>
    (if rt_now env - since < scmWaitBound env timeout
     then \<exists>st' ev. out = WaitForSCM wait st' ev \<and> RetryCount st' = RetryCount st \<and> NextRetryAt st' = Some (rt_now env + wait) \<and>
                    SCMWaitSince st' = Some since
     else \<exists>m st' ev. out = FailStep m st' ev)"
proof -
  obtain waited started st3 where w: "startSCMWait (er_env er) err st = (waited, started, st3)" by (metis prod_cases3)
  note f = startSCMWait_fields [OF w]
  show ?thesis
  proof (cases "waited < scmWaitBound (er_env er) timeout")
    case True
    then show ?thesis
      using f assms by (simp add: scm_run_def w Let_def case_prod_beta keeps_def outcome_status_def recordedSequence_def)
  next
    case False
    have "ps_steps (endSCMWaitTimedOut (er_env er) st3) \<noteq> []" using f assms by simp
    from False f fail_run_out [OF this] show ?thesis
      unfolding scm_run_def Let_def w prod.case by (simp add: keeps_def)
  qed
qed

section \<open>Theorems\<close>

text \<open>The backoff of the n-th retry is ten seconds, doubled each time, and at most two minutes; the five retries of a step
  take four and a half minutes in all.\<close>

theorem retry_schedule:
  "retryDelay (Suc n) = min (10 * second * 2 ^ n) (2 * minute) \<and> sum_list (map retryDelay [1..<Suc maxStepRetries]) = 270 * second"
proof -
  have u: "[1..<Suc maxStepRetries] = [Suc 0, Suc 1, Suc 2, Suc 3, Suc 4]"
    by (simp add: maxStepRetries_def upt_rec)
  show ?thesis unfolding u list.map retryDelay_eq
    by (simp add: retryBaseDelay_def retryMaxDelay_def second_def minute_def)
qed

text \<open>C27. What a failed run means. An error that retrying cannot fix (a reported failure, an unknown status, a permanent error)
  fails the step at once. With the SCM's circuit open the step waits, without spending a retry, until it has waited for its
  bound since the first such error, and then fails. A missing git Secret and a contended branch are retried without a
  limit and without spending a retry. Any other error spends one of five retries, after the backoff, and fails the step
  once they are used. The state itself and the recorded step list are not changed by it.\<close>

theorem step_error_decision:
  assumes "ps_steps st \<noteq> []"
  shows
   "let x = error_chain e; idx = CurrentStepIndex st;
        out = fst (handleStepError env environment closePR names tm e closed cred timeout st);
        noSecret = (idx < length names \<and> rt_gitAuth env e \<and> credential_note cred (names ! idx) \<noteq> '''' \<and> waitsForSecret cred);
        since = (case SCMWaitSince st of None \<Rightarrow> rt_now env | Some t \<Rightarrow> t);
        fails = (\<exists>m st' ev. out = FailStep m st' ev);
        retries = (\<lambda>n. \<exists>d st' ev. out = RetryLater d st' ev \<and> RetryCount st' = n \<and> NextRetryAt st' = Some (rt_now env + d) \<and>
                      (\<not> ErrContended x \<longrightarrow> d = retryDelay (RetryCount st + GitCredentialRetries st + ContendedRetries st + 1)))
    in ps_state (outcome_status out) = ps_state st \<and>
       recordedSequence (ps_steps (outcome_status out)) = recordedSequence (ps_steps st) \<and>
       (if \<not> wraps e \<or> ErrPermanent x then fails
        else if ErrCircuitOpen x \<noteq> None
        then (if rt_now env - since < scmWaitBound env timeout
              then \<exists>d st' ev. out = WaitForSCM d st' ev \<and> RetryCount st' = RetryCount st \<and> NextRetryAt st' = Some (rt_now env + d) \<and>
                              SCMWaitSince st' = Some since
              else fails)
        else if noSecret \<or> ErrContended x then retries (RetryCount st)
        else if RetryCount st < maxStepRetries then retries (RetryCount st + 1)
        else fails)"
proof -
  define x where "x = error_chain e"
  define nt where "nt = (if CurrentStepIndex st < length names \<and> (wraps e \<and> \<not> ErrPermanent x) \<and> rt_gitAuth env e
    then credential_note cred (if CurrentStepIndex st < length names then names ! CurrentStepIndex st else '''') else '''')"
  define err where "err = (if nt \<noteq> '''' then engine_text e @ '' ('' @ nt @ '')'' else engine_text e)"
  define pr where "pr = (if nt \<noteq> '''' then markGitCredentialMissing env (cr_reason cred) nt (fst (note_foreign x st))
    else (fst (note_foreign x st), False))"
  define st2 where "st2 = fst pr"
  define er where "er = \<lparr>er_env = env, er_closePR = closePR, er_names = names, er_timings = tm, er_idx = CurrentStepIndex st, er_closed = closed,
     er_chain = x, er_retryable = (wraps e \<and> \<not> ErrPermanent x), er_waitForSecret = (nt \<noteq> '''' \<and> waitsForSecret cred),
     er_credEvents = (if snd pr then [emitGitCredentialMissing environment
       (if CurrentStepIndex st < length names then names ! CurrentStepIndex st else '''') nt] else []),
     er_foreign = snd (note_foreign x st)\<rparr>"
  have run: "handleStepError env environment closePR names tm e closed cred timeout st =
    (case circuitWait env x of
       Some wait \<Rightarrow> if wraps e \<and> \<not> ErrPermanent x then scm_run er environment timeout wait err st2 else retry_run er err st2
     | None \<Rightarrow> retry_run er err st2)"
    unfolding handleStepError_def Let_def case_prod_beta er_def st2_def pr_def err_def nt_def x_def by (rule refl)
  have er: "er_env er = env" "er_chain er = x" "er_retryable er = (wraps e \<and> \<not> ErrPermanent x)"
    "er_waitForSecret er = (nt \<noteq> '''' \<and> waitsForSecret cred)"
    by (simp_all add: er_def)
  have st2: "ps_state st2 = ps_state st" "ps_steps st2 = ps_steps st" "RetryCount st2 = RetryCount st"
    "GitCredentialRetries st2 = GitCredentialRetries st" "ContendedRetries st2 = ContendedRetries st" "SCMWaitSince st2 = SCMWaitSince st"
    by (simp_all add: st2_def pr_def)
  have ne: "ps_steps st2 \<noteq> []" using assms by (simp add: st2)
  note table = retry_run_out [OF ne, of er err, unfolded er st2 keeps_def] scm_run_out [OF ne, of er environment timeout _ err, unfolded er st2 keeps_def Let_def]
  show ?thesis
  proof (cases "\<not> wraps e \<or> ErrPermanent x")
    case True
    then have c: "\<not> (wraps e \<and> \<not> ErrPermanent x)" by simp
    have "handleStepError env environment closePR names tm e closed cred timeout st = retry_run er err st2"
      unfolding run using c by (auto split: option.splits)
    with table(1) c True show ?thesis unfolding Let_def x_def [symmetric] by (simp cong: if_cong)
  next
    case False
    then have nt: "nt \<noteq> '''' \<and> waitsForSecret cred \<longleftrightarrow> CurrentStepIndex st < length names \<and> rt_gitAuth env e \<and>
        credential_note cred (names ! CurrentStepIndex st) \<noteq> '''' \<and> waitsForSecret cred"
      by (auto simp: nt_def)
    show ?thesis
    proof (cases "circuitWait env x")
      case None
      then have "ErrCircuitOpen x = None" by (simp add: circuitWait_def split: option.splits)
      moreover have "handleStepError env environment closePR names tm e closed cred timeout st = retry_run er err st2"
        unfolding run using None by simp
      moreover define ns where "ns = (nt \<noteq> '''' \<and> waitsForSecret cred)"
      ultimately show ?thesis using table(1) False unfolding Let_def x_def [symmetric] nt [symmetric] ns_def [symmetric]
        by (cases "ns \<or> ErrContended x"; cases "RetryCount st < maxStepRetries") fastforce+
    next
      case (Some w)
      then have "ErrCircuitOpen x \<noteq> None" by (auto simp: circuitWait_def split: option.splits)
      moreover have "handleStepError env environment closePR names tm e closed cred timeout st = scm_run er environment timeout w err st2"
        unfolding run using Some False by simp
      ultimately show ?thesis using table(2) [of w] False unfolding Let_def x_def [symmetric] by (simp split: if_splits) blast
    qed
  qed
qed

text \<open>A concrete conditions library, and a step whose push failed once before.\<close>

definition list_conds :: step_conds where
  "list_conds =
     \<lparr>SetStatusCondition = (\<lambda>cs c. c # filter (\<lambda>d. sc_type d \<noteq> sc_type c) cs),
      IsStatusConditionTrue = (\<lambda>cs t. case find (\<lambda>d. sc_type d = t) cs of None \<Rightarrow> False | Some c \<Rightarrow> sc_status c),
      RemoveStatusCondition = (\<lambda>cs t. filter (\<lambda>d. sc_type d \<noteq> t) cs)\<rparr>"

lemma find_filter_type: "find (\<lambda>d. sc_type d = t) (filter (\<lambda>d. sc_type d \<noteq> u) cs) = (if t = u then None else find (\<lambda>d. sc_type d = t) cs)"
  by (induction cs) auto

lemma list_conds_ok: "conds_ok list_conds"
  unfolding conds_ok_def by (auto simp: list_conds_def find_filter_type)

definition plain_retry :: retry_env where
  "plain_retry = \<lparr>rt_now = 1000 * second, rt_wall = 1000 * second, rt_conds = list_conds, rt_rand = (\<lambda>_. 0), rt_gitAuth = (\<lambda>_. False),
     rt_fmtTime = int_str, rt_fmtDur = int_str, rt_roundDur = int_str, SCMWaitTimeout = 0, rt_generation = 1\<rparr>"

definition pushing_status :: PromotionStepStatus where
  "pushing_status = (demo_status StatePromoting)\<lparr>ps_steps := initStepStatuses [''git-clone'', ''git-push''], CurrentStepIndex := 1, RetryCount := 1\<rparr>"

theorem step_error_decision_witness:
  "\<exists>st' ev. fst (handleStepError plain_retry ''prod'' (\<lambda>_ _. None) [''git-clone'', ''git-push''] Map.empty
       (StepError ''git-push'' (plain_error ''timeout'')) [] no_credential 0 pushing_status) = RetryLater (20 * second) st' ev \<and>
     RetryCount st' = 2 \<and> NextRetryAt st' = Some (1020 * second)"
proof -
  have d: "retryDelay 2 = 20 * second" by code_simp
  have s: "ps_steps pushing_status \<noteq> []" "RetryCount pushing_status = 1" "GitCredentialRetries pushing_status = 0"
    "ContendedRetries pushing_status = 0" "CurrentStepIndex pushing_status = 1"
    by (simp_all add: pushing_status_def demo_status_def initStepStatuses_def)
  show ?thesis
    using step_error_decision [OF s(1), of "StepError ''git-push'' (plain_error ''timeout'')" plain_retry "''prod''" "\<lambda>_ _. None"
        "[''git-clone'', ''git-push'']" Map.empty "[]" no_credential 0]
    by (simp add: s d Let_def error_chain_def wraps_def plain_error_def plain_retry_def maxStepRetries_def numeral_2_eq_2 [symmetric] second_def)
qed

end
