(* ===== verification/Step_Health.thy ===== *)
theory Step_Health
  imports Step_Retry
begin

text \<open>
  The health check of a PromotionStep: \<open>handleHealthChecking\<close>, \<open>handleBake\<close>, \<open>applyHealthFailurePolicy\<close>, \<open>expectedRevision\<close>,
  \<open>clusterUnreachable\<close> and their helpers of \<open>pkg/reconciler/promotionstep/reconciler.go\<close>, \<open>passHealth\<close> of \<open>verifying.go\<close> and the
  refresh decision of \<open>refresh.go\<close>.

  \<open>HealthState\<close> holds the fields of the status that the health check reads and writes. One reconcile is a function of that
  state and of what it reads (\<open>health_reads\<close>): the clock, the objects, the adapter's verdict, the Bundles that pushed, the
  outcome of the rollback it may create. \<open>parse\<close> is \<open>time.ParseDuration\<close>. The minutes of a window are counted exactly; the code
  counts them in floating point, which agrees for windows under a hundred days.
\<close>

section \<open>State and inputs\<close>

record HealthState =
  HealthCheckExpiry :: "time option"
  LastHealthCheckAt :: "time option"
  ConsecutiveHealthFailures :: nat
  BakeStartedAt :: "time option"
  BakeFirstStartedAt :: "time option"
  BakeElapsedMinutes :: int
  BakeResets :: nat
  TargetUpdatedAt :: "time option"
  VerificationStartedAt :: "time option"
  RefreshRequestedAt :: "time option"
  hs_message :: string
  hs_outputs :: "(string \<times> string) list"

record HealthStatus =
  Healthy :: bool
  Progressing :: bool
  Terminal :: bool
  NotFound :: bool
  Reason :: string
  TargetUpdated :: bool

record BakeSpec =
  bk_minutes :: int
  bk_policy :: string
  bk_maxDuration :: string

record PRStatusRead =
  pr_describes :: bool
  pr_merged :: bool
  pr_mergeCommit :: string
  pr_commitUnavailable :: bool

datatype pr_read = PRFound PRStatusRead | PRMissing | PRUnreadable

datatype cluster_read = ClusterRefused string | ClusterUnreachable string | ClusterReady

datatype rollback_result = RollbackError string | RollbackRefused string | RollbackCreated string

record health_reads =
  hc_now :: time
  hc_wall :: time
  hc_loadError :: "string option"
  hc_refused :: "string option"
  hc_detector :: bool
  hc_timeout :: string
  hc_parse :: "string \<Rightarrow> duration option"
  hc_bake :: "BakeSpec option"
  hc_onHealthFailure :: string
  hc_effectiveType :: string
  hc_postHooks :: "string list"
  hc_analyses :: "string list"
  hc_opensPR :: bool
  hc_prStatusRef :: bool
  hc_prs :: pr_read
  hc_cluster :: cluster_read
  hc_remote :: bool
  hc_select :: "string + string"
  hc_refreshOn :: bool
  hc_refreshSupported :: bool
  hc_patch :: "nat \<Rightarrow> string option"
  hc_check :: "string \<Rightarrow> string + HealthStatus"
  hc_classify :: "string \<Rightarrow> string"
  hc_newer :: "bool \<Rightarrow> string + string"
  hc_moved :: string
  hc_isRollback :: "string + bool"
  hc_rollback :: rollback_result
  hc_environment :: string
  hc_bundleName :: string
  hc_fmtDur :: "duration \<Rightarrow> string"

text \<open>How a reconcile ends: a transition (with its audit action), a written status and the next check, no write, or an error; the
  state is the one stored (for a transition, the one it stores).\<close>

datatype health_outcome =
    Settle step_state string string HealthState
  | CheckAgain duration HealthState
  | WaitFor duration HealthState
  | HealthError string HealthState

definition requeueHealthCheck :: duration where "requeueHealthCheck = 10 * second"

section \<open>Passing and failing\<close>

definition verifies :: "health_reads \<Rightarrow> bool" where
  "verifies hc = (hc_postHooks hc \<noteq> [] \<or> hc_analyses hc \<noteq> [])"

definition passHealth :: "health_reads \<Rightarrow> string \<Rightarrow> HealthState \<Rightarrow> health_outcome" where
  "passHealth hc message st =
     (if \<not> verifies hc then Settle StateVerified message '''' st
      else let running =
                 (if hc_postHooks hc \<noteq> []
                  then [nat_str (length (hc_postHooks hc)) @ '' post-deploy hook(s): '' @ join '', '' (hc_postHooks hc)] else []) @
                 (if hc_analyses hc \<noteq> []
                  then [nat_str (length (hc_analyses hc)) @ '' analysis(es): '' @ join '', '' (hc_analyses hc)] else [])
           in Settle StateVerifying (message @ ''; running '' @ join '' and '' running) ''''
                (st\<lparr>VerificationStartedAt := (case VerificationStartedAt st of None \<Rightarrow> Some (hc_now hc) | Some t \<Rightarrow> Some t)\<rparr>))"

definition applyHealthFailurePolicy :: "health_reads \<Rightarrow> string \<Rightarrow> string \<Rightarrow> HealthState \<Rightarrow> HealthState \<Rightarrow> health_outcome" where
  "applyHealthFailurePolicy hc adapterName reason base st =
     (let alarm = (\<lambda>p. ''health alarm via '' @ adapterName @ '' (onHealthFailure='' @ p @ ''): '' @ reason) in
      if hc_onHealthFailure hc = ''abort''
      then Settle StateAbortedByAlarm (alarm ''abort'' @ '' '' @ em_dash @ '' human intervention required'') '''' st
      else if hc_onHealthFailure hc = ''rollback''
      then (case hc_isRollback hc of
              Inl err \<Rightarrow> HealthError err base
            | Inr True \<Rightarrow> Settle StateAbortedByAlarm (alarm ''rollback'' @ '' '' @ em_dash @ '' Bundle '' @ hc_bundleName hc @
                '' is a rollback and is not rolled back again; human intervention required'') '''' st
            | Inr False \<Rightarrow>
                (case hc_rollback hc of
                   RollbackError err \<Rightarrow> HealthError err base
                 | RollbackRefused why \<Rightarrow> Settle StateAbortedByAlarm (alarm ''rollback'' @ '' '' @ em_dash @ '' no automatic rollback ('' @ why @
                     ''); human intervention required'') '''' st
                 | RollbackCreated name \<Rightarrow> Settle StateRollingBack (alarm ''rollback'' @ '' '' @ em_dash @ '' rollback Bundle '' @ name @
                     '' created'') '''' st))
      else Settle StateFailed (alarm ''none'') '''' st)"

section \<open>The bake window\<close>

definition bakeMaxDuration :: "health_reads \<Rightarrow> BakeSpec \<Rightarrow> duration \<Rightarrow> duration" where
  "bakeMaxDuration hc b timeout =
     (let window = bk_minutes b * minute in
      case hc_parse hc (bk_maxDuration b) of
        Some d \<Rightarrow> if bk_maxDuration b \<noteq> '''' \<and> 0 < d then max d window else window + timeout
      | None \<Rightarrow> window + timeout)"

definition bakeDeadline :: "health_reads \<Rightarrow> duration \<Rightarrow> HealthState \<Rightarrow> time option" where
  "bakeDeadline hc timeout st =
     (case hc_bake hc of
        None \<Rightarrow> None
      | Some b \<Rightarrow>
          (case (case BakeFirstStartedAt st of Some t \<Rightarrow> Some t | None \<Rightarrow> BakeStartedAt st) of
             None \<Rightarrow> None
           | Some first \<Rightarrow> Some (first + bakeMaxDuration hc b timeout)))"

definition pastBakeDeadline :: "health_reads \<Rightarrow> duration \<Rightarrow> time \<Rightarrow> HealthState \<Rightarrow> bool" where
  "pastBakeDeadline hc timeout now st = (case bakeDeadline hc timeout st of None \<Rightarrow> False | Some d \<Rightarrow> d \<le> now)"

definition bakeDeadlineMessage :: "health_reads \<Rightarrow> BakeSpec \<Rightarrow> duration \<Rightarrow> HealthState \<Rightarrow> string" where
  "bakeDeadlineMessage hc b timeout st =
     ''bake: no '' @ int_str (bk_minutes b) @ ''m contiguous healthy window within '' @ hc_fmtDur hc (bakeMaxDuration hc b timeout) @
     '' of the first healthy check ('' @ (if bk_maxDuration b \<noteq> '''' then ''bake.maxDuration'' else ''bake.minutes + health.timeout'') @
     ''; resets='' @ nat_str (BakeResets st) @ '')''"

definition elapsed_minutes :: "duration \<Rightarrow> int" where
  "elapsed_minutes d = (if 0 \<le> d then d div minute else - ((- d) div minute))"

definition stopWindow :: "health_reads \<Rightarrow> duration \<Rightarrow> HealthState \<Rightarrow> HealthState" where
  "stopWindow hc timeout st =
     (let expiry = hc_wall hc + timeout;
          expiry' = (case bakeDeadline hc timeout st of None \<Rightarrow> expiry | Some d \<Rightarrow> if d < expiry then d else expiry)
      in st\<lparr>HealthCheckExpiry := Some expiry', BakeStartedAt := None, BakeElapsedMinutes := 0\<rparr>)"

definition write_or_fail :: "health_reads \<Rightarrow> nat \<Rightarrow> string \<Rightarrow> duration \<Rightarrow> HealthState \<Rightarrow> HealthState \<Rightarrow> health_outcome" where
  "write_or_fail hc k what d base st =
     (case hc_patch hc k of None \<Rightarrow> CheckAgain d st | Some err \<Rightarrow> HealthError (what @ '': '' @ err) base)"

text \<open>The messages of the bake.\<close>

definition bake_waiting_msg :: "string \<Rightarrow> HealthStatus \<Rightarrow> HealthState \<Rightarrow> string" where
  "bake_waiting_msg adapterName result st =
     (let verdict = (if Progressing result then ''waiting for'' else ''unhealthy via'') in
      if 0 < BakeResets st \<or> BakeFirstStartedAt st \<noteq> None
      then ''bake: waiting for a healthy check to restart the window (resets='' @ nat_str (BakeResets st) @ '', '' @
           verdict @ '' '' @ adapterName @ ''): '' @ Reason result
      else ''bake: waiting for the first healthy check ('' @ verdict @ '' '' @ adapterName @ ''): '' @ Reason result)"

definition bake_stopped_msg :: "BakeSpec \<Rightarrow> string \<Rightarrow> HealthStatus \<Rightarrow> HealthState \<Rightarrow> string" where
  "bake_stopped_msg b adapterName result st =
     ''bake: window stopped, waiting for '' @ adapterName @ '': '' @ Reason result @ ''; the '' @ int_str (bk_minutes b) @
     ''m window restarts at the next healthy check (resets='' @ nat_str (BakeResets st) @ '')''"

definition bake_alarm_msg :: "BakeSpec \<Rightarrow> string \<Rightarrow> HealthStatus \<Rightarrow> nat \<Rightarrow> string" where
  "bake_alarm_msg b adapterName result resets =
     ''bake: health alarm via '' @ adapterName @ '' '' @ em_dash @ '' timer reset (resets='' @ nat_str resets @ '', need '' @
     int_str (bk_minutes b) @ ''m contiguous): '' @ Reason result"

definition bake_done_msg :: "BakeSpec \<Rightarrow> string \<Rightarrow> HealthState \<Rightarrow> string" where
  "bake_done_msg b adapterName st =
     ''bake complete: '' @ int_str (bk_minutes b) @ ''m contiguous healthy via '' @ adapterName @ '' (resets='' @ nat_str (BakeResets st) @ '')''"

definition bake_progress_msg :: "BakeSpec \<Rightarrow> string \<Rightarrow> HealthState \<Rightarrow> string" where
  "bake_progress_msg b adapterName st =
     ''bake: '' @ int_str (BakeElapsedMinutes st) @ ''m/'' @ int_str (bk_minutes b) @ ''m contiguous healthy via '' @ adapterName @
     '' (~'' @ int_str (bk_minutes b - BakeElapsedMinutes st) @ ''m remaining, resets='' @ nat_str (BakeResets st) @ '')''"

definition deadline_msg :: "health_reads \<Rightarrow> BakeSpec \<Rightarrow> duration \<Rightarrow> HealthStatus \<Rightarrow> HealthState \<Rightarrow> string" where
  "deadline_msg hc b timeout result st = bakeDeadlineMessage hc b timeout st @ ''; last result: '' @ Reason result"

text \<open>The head of \<open>handleBake\<close>: the failure is counted, and a window from before \<open>bakeFirstStartedAt\<close> existed is the first one.\<close>

definition bake_entry :: "HealthStatus \<Rightarrow> HealthState \<Rightarrow> HealthState" where
  "bake_entry result st0 =
     (let st1 = (if \<not> Progressing result \<and> \<not> Healthy result
                 then st0\<lparr>ConsecutiveHealthFailures := ConsecutiveHealthFailures st0 + 1\<rparr> else st0)
      in if BakeFirstStartedAt st1 = None \<and> BakeStartedAt st1 \<noteq> None then st1\<lparr>BakeFirstStartedAt := BakeStartedAt st1\<rparr> else st1)"

definition bake_healthy :: "health_reads \<Rightarrow> HealthState \<Rightarrow> HealthState" where
  "bake_healthy hc st =
     (let s0 = st\<lparr>ConsecutiveHealthFailures := 0\<rparr>; now = hc_wall hc in
      case BakeStartedAt s0 of
        None \<Rightarrow> s0\<lparr>BakeStartedAt := Some now, BakeElapsedMinutes := 0,
                   BakeFirstStartedAt := (case BakeFirstStartedAt s0 of None \<Rightarrow> Some now | Some t \<Rightarrow> Some t)\<rparr>
      | Some t \<Rightarrow> s0\<lparr>BakeElapsedMinutes := elapsed_minutes (now - t)\<rparr>)"

definition handleBake :: "health_reads \<Rightarrow> BakeSpec \<Rightarrow> duration \<Rightarrow> string \<Rightarrow> HealthStatus \<Rightarrow> HealthState \<Rightarrow> HealthState \<Rightarrow> health_outcome" where
  "handleBake hc b timeout adapterName result base st0 =
     (let now = hc_wall hc;
          st = bake_entry result st0;
          policy = (if bk_policy b = '''' then ''reset-on-alarm'' else bk_policy b);
          write = write_or_fail hc 2 ''patch bake progress'' requeueHealthCheck base
      in if \<not> Healthy result \<and> \<not> Progressing result \<and> BakeStartedAt st = None \<and> policy = ''fail-on-alarm'' \<and>
            (\<not> NotFound result \<or> BakeFirstStartedAt st \<noteq> None)
         then applyHealthFailurePolicy hc adapterName (Reason result) base st
         else if \<not> Healthy result \<and> BakeStartedAt st = None
         then write (st\<lparr>hs_message := bake_waiting_msg adapterName result st\<rparr>)
         else if Progressing result
         then let s = (stopWindow hc timeout st)\<lparr>hs_message := bake_stopped_msg b adapterName result st\<rparr>
              in if pastBakeDeadline hc timeout now s
                 then applyHealthFailurePolicy hc adapterName (deadline_msg hc b timeout result s) base
                        (s\<lparr>ConsecutiveHealthFailures := ConsecutiveHealthFailures s + 1\<rparr>)
                 else write s
         else if \<not> Healthy result
         then if policy \<noteq> ''reset-on-alarm'' then applyHealthFailurePolicy hc adapterName (Reason result) base st
              else let s0 = stopWindow hc timeout st;
                       s = s0\<lparr>BakeResets := BakeResets s0 + 1, hs_message := bake_alarm_msg b adapterName result (BakeResets s0 + 1)\<rparr>
                   in if pastBakeDeadline hc timeout now s
                      then applyHealthFailurePolicy hc adapterName (deadline_msg hc b timeout result s) base s
                      else write s
         else let s = bake_healthy hc st
              in if bk_minutes b \<le> BakeElapsedMinutes s
                 then if verifies hc then passHealth hc (bake_done_msg b adapterName s) s
                      else Settle StateVerified (bake_done_msg b adapterName s) '''' s
                 else write (s\<lparr>hs_message := bake_progress_msg b adapterName s\<rparr>))"

section \<open>The check\<close>

definition health_timeout :: "health_reads \<Rightarrow> duration" where
  "health_timeout hc =
     (if hc_timeout hc = '''' then 10 * minute
      else case hc_parse hc (hc_timeout hc) of Some d \<Rightarrow> if 0 < d then d else 10 * minute | None \<Rightarrow> 10 * minute)"

definition expectedRevision :: "health_reads \<Rightarrow> HealthState \<Rightarrow> string \<times> bool" where
  "expectedRevision hc st =
     (if assoc_str (hs_outputs st) ''commitSHA'' \<noteq> '''' then (assoc_str (hs_outputs st) ''commitSHA'', False)
      else if assoc_str (hs_outputs st) ''mergeCommitSHA'' \<noteq> '''' then (assoc_str (hs_outputs st) ''mergeCommitSHA'', False)
      else if \<not> hc_prStatusRef hc then ('''', False)
      else case hc_prs hc of
             PRMissing \<Rightarrow> ('''', False)
           | PRUnreadable \<Rightarrow> ('''', True)
           | PRFound p \<Rightarrow>
               if \<not> pr_describes p \<or> \<not> pr_merged p then ('''', False)
               else if pr_mergeCommit p \<noteq> '''' then (pr_mergeCommit p, False)
               else ('''', \<not> pr_commitUnavailable p))"

definition recordMergeCommit :: "string \<Rightarrow> HealthState \<Rightarrow> HealthState" where
  "recordMergeCommit commit st =
     (if commit = '''' \<or> assoc_str (hs_outputs st) ''commitSHA'' \<noteq> '''' \<or> assoc_str (hs_outputs st) ''mergeCommitSHA'' \<noteq> '''' then st
      else st\<lparr>hs_outputs := set_output ''mergeCommitSHA'' commit (hs_outputs st)\<rparr>)"

definition no_changes :: "HealthState \<Rightarrow> bool" where
  "no_changes st = (assoc_str (hs_outputs st) ''noChanges'' = ''true'')"

definition refreshAllowed :: "health_reads \<Rightarrow> HealthState \<Rightarrow> bool" where
  "refreshAllowed hc st = (hc_refreshOn hc \<and> hc_refreshSupported hc \<and> RefreshRequestedAt st = None)"

definition refreshWanted :: "health_reads \<Rightarrow> string \<Rightarrow> bool \<Rightarrow> HealthState \<Rightarrow> bool" where
  "refreshWanted hc commit pending st =
     (if \<not> refreshAllowed hc st \<or> no_changes st then False else if commit \<noteq> '''' then True else hc_opensPR hc \<and> \<not> pending)"

definition noChangesRefreshWanted :: "health_reads \<Rightarrow> string \<Rightarrow> HealthStatus \<Rightarrow> HealthState \<Rightarrow> bool" where
  "noChangesRefreshWanted hc commit result st =
     (no_changes st \<and> commit \<noteq> '''' \<and> \<not> Healthy result \<and> \<not> Terminal result \<and> refreshAllowed hc st)"

text \<open>\<open>requestRefresh\<close> as the health check sees it: the request is recorded, with everything else in the status, before it is made.\<close>

definition requestRefresh :: "health_reads \<Rightarrow> HealthState \<Rightarrow> HealthState \<Rightarrow> health_outcome + HealthState" where
  "requestRefresh hc base st =
     (case hc_patch hc 1 of
        Some err \<Rightarrow> Inl (HealthError (''patch refresh request: '' @ err) base)
      | None \<Rightarrow> Inr (st\<lparr>RefreshRequestedAt := Some (hc_now hc div second * second)\<rparr>))"

definition waiting_result :: "string \<Rightarrow> HealthStatus" where
  "waiting_result reason = \<lparr>Healthy = False, Progressing = True, Terminal = False, NotFound = False, Reason = reason, TargetUpdated = False\<rparr>"

definition clusterUnreachable :: "health_reads \<Rightarrow> duration \<Rightarrow> string \<Rightarrow> string \<Rightarrow> HealthState \<Rightarrow> HealthState \<Rightarrow> health_outcome" where
  "clusterUnreachable hc timeout adapter reason base st0 =
     (let st = st0\<lparr>LastHealthCheckAt := Some (hc_now hc)\<rparr> in
      case hc_bake hc of
        Some b \<Rightarrow> handleBake hc b timeout adapter (waiting_result (''ClusterUnreachable: '' @ reason)) base st
      | None \<Rightarrow> write_or_fail hc 2 ''patch health result'' requeueHealthCheck base
          (st\<lparr>hs_message := ''waiting for '' @ adapter @ '': ClusterUnreachable: '' @ reason\<rparr>))"

definition timedOut :: "health_reads \<Rightarrow> duration \<Rightarrow> string \<Rightarrow> HealthState \<Rightarrow> HealthState \<Rightarrow> health_outcome" where
  "timedOut hc timeout lastResult base st =
     (let msg0 = (if pastBakeDeadline hc timeout (hc_now hc) st then bakeDeadlineMessage hc (the (hc_bake hc)) timeout st
                  else ''health check timeout after '' @ hc_fmtDur hc timeout);
          msg = (if lastResult \<noteq> '''' then msg0 @ ''; last result: '' @ lastResult else msg0)
      in applyHealthFailurePolicy hc (hc_effectiveType hc) msg base (st\<lparr>ConsecutiveHealthFailures := ConsecutiveHealthFailures st + 1\<rparr>))"

definition superseded_by :: "health_reads \<Rightarrow> string \<Rightarrow> HealthState \<Rightarrow> health_outcome" where
  "superseded_by hc newer st =
     Settle StateSuperseded (''newer bundle '' @ newer @ '' pushed to '' @ hc_environment hc @
       '' while this promotion was health-checking; this promotion is superseded'') ''PromotionSuperseded'' st"

text \<open>What follows from a verdict (past the Terminal case): a newer push supersedes the step, the bake window or the plain rule decides.\<close>

definition newer_error :: "health_reads \<Rightarrow> string \<Rightarrow> HealthState \<Rightarrow> health_outcome" where
  "newer_error hc err base = HealthError (''check for a newer push to '' @ hc_environment hc @ '': '' @ err) base"

definition decide :: "health_reads \<Rightarrow> duration \<Rightarrow> bool \<Rightarrow> string \<Rightarrow> HealthStatus \<Rightarrow> HealthState \<Rightarrow> HealthState \<Rightarrow> health_outcome" where
  "decide hc timeout expired adapter result base st =
     (if expired \<and> \<not> Healthy result
      then timedOut hc timeout ((if Progressing result then ''waiting for '' else ''unhealthy via '') @ adapter @ '': '' @ Reason result) base st
      else case hc_bake hc of
             Some b \<Rightarrow> handleBake hc b timeout adapter result base st
           | None \<Rightarrow>
               if Healthy result
               then passHealth hc (''health check passed via '' @ adapter @ '': '' @ Reason result) (st\<lparr>ConsecutiveHealthFailures := 0\<rparr>)
               else write_or_fail hc 2 ''patch health result'' requeueHealthCheck base
                      (if Progressing result then st\<lparr>hs_message := ''waiting for '' @ adapter @ '': '' @ Reason result\<rparr>
                       else st\<lparr>ConsecutiveHealthFailures := ConsecutiveHealthFailures st + 1,
                              hs_message := ''unhealthy via '' @ adapter @ '': '' @ Reason result\<rparr>))"

definition after_verdict ::
  "health_reads \<Rightarrow> duration \<Rightarrow> bool \<Rightarrow> string \<Rightarrow> string \<Rightarrow> HealthStatus \<Rightarrow> HealthState \<Rightarrow> HealthState \<Rightarrow> health_outcome" where
  "after_verdict hc timeout expired adapter commit result base st =
     (if Terminal result
      then applyHealthFailurePolicy hc adapter (Reason result) base (st\<lparr>ConsecutiveHealthFailures := ConsecutiveHealthFailures st + 1\<rparr>)
      else case (if Healthy result \<or> expired then hc_newer hc False else Inr '''') of
             Inl err \<Rightarrow> newer_error hc err base
           | Inr newer \<Rightarrow>
               if newer \<noteq> '''' then superseded_by hc newer st
               else if Healthy result \<and> adapter = ''resource'' \<and> \<not> TargetUpdated result \<and> commit \<noteq> '''' \<and> hc_moved hc \<noteq> ''''
               then (case hc_newer hc True of
                       Inl err \<Rightarrow> newer_error hc err base
                     | Inr newer' \<Rightarrow>
                         if newer' \<noteq> '''' then superseded_by hc newer' st
                         else decide hc timeout expired adapter (waiting_result (hc_moved hc)) base st)
               else decide hc timeout expired adapter result base st)"

definition run_check :: "health_reads \<Rightarrow> duration \<Rightarrow> bool \<Rightarrow> HealthState \<Rightarrow> health_outcome" where
  "run_check hc timeout expired base0 =
     (let (commit, pending) = expectedRevision hc base0;
          st0 = recordMergeCommit commit base0
      in case hc_cluster hc of
           ClusterRefused err \<Rightarrow> Settle StateFailed err '''' st0
         | ClusterUnreachable why \<Rightarrow> clusterUnreachable hc timeout (hc_effectiveType hc) why base0 st0
         | ClusterReady \<Rightarrow>
             (case hc_select hc of
                Inl err \<Rightarrow> Settle StateFailed err '''' st0
              | Inr adapter \<Rightarrow>
                  (case (if refreshWanted hc commit pending st0 then requestRefresh hc base0 st0 else Inr st0) of
                     Inl out \<Rightarrow> out
                   | Inr st1 \<Rightarrow>
                       let base1 = (if refreshWanted hc commit pending st0 then st1 else base0);
                           noMergeCommit = (commit = '''' \<and> hc_opensPR hc \<and> \<not> no_changes st1);
                           checked = (if noMergeCommit \<and> adapter = ''flux''
                             then Inr (waiting_result ''merge commit of the PR not known yet (needed to check lastAppliedRevision)'')
                             else if noMergeCommit \<and> pending \<and> adapter = ''argocd''
                             then Inr (waiting_result ''merge commit of the PR not known yet (needed to check the synced revision)'')
                             else hc_check hc commit)
                       in case checked of
                            Inl err \<Rightarrow>
                              if hc_remote hc then clusterUnreachable hc timeout adapter (hc_classify hc err) base1 st1
                              else if expired
                              then (if (case LastHealthCheckAt st1 of None \<Rightarrow> True | Some lastAt \<Rightarrow> lastAt \<le> the (HealthCheckExpiry st1))
                                    then write_or_fail hc 2 ''patch late health check'' requeueHealthCheck base1
                                           (st1\<lparr>LastHealthCheckAt := Some (hc_now hc)\<rparr>)
                                    else timedOut hc timeout (hs_message st1 @ ''; the health check past the timeout failed: '' @ err) base1 st1)
                              else WaitFor requeueHealthCheck base1
                          | Inr result \<Rightarrow>
                              let st2 = st1\<lparr>LastHealthCheckAt := Some (hc_now hc),
                                     TargetUpdatedAt := (if TargetUpdated result \<and> TargetUpdatedAt st1 = None then Some (hc_now hc)
                                                         else TargetUpdatedAt st1)\<rparr>
                              in case (if noChangesRefreshWanted hc commit result st2 then requestRefresh hc base1 st2 else Inr st2) of
                                   Inl out \<Rightarrow> out
                                 | Inr st3 \<Rightarrow>
                                     after_verdict hc timeout expired adapter commit result
                                       (if noChangesRefreshWanted hc commit result st2 then st3 else base1) st3)))"

definition check_health :: "health_reads \<Rightarrow> duration \<Rightarrow> HealthState \<Rightarrow> health_outcome" where
  "check_health hc timeout st =
     (let expired = (BakeStartedAt st = None \<and> the (HealthCheckExpiry st) < hc_now hc) in
      if expired \<and> hc_bake hc \<noteq> None \<and> pastBakeDeadline hc timeout (hc_now hc) st then timedOut hc timeout (hs_message st) st st
      else case LastHealthCheckAt st of
             Some lastAt \<Rightarrow>
               if \<not> expired \<and> 0 < requeueHealthCheck - (hc_now hc - lastAt) then WaitFor (requeueHealthCheck - (hc_now hc - lastAt)) st
               else run_check hc timeout expired st
           | None \<Rightarrow> run_check hc timeout expired st)"

definition handleHealthChecking :: "health_reads \<Rightarrow> HealthState \<Rightarrow> health_outcome" where
  "handleHealthChecking hc st =
     (case hc_loadError hc of
        Some err \<Rightarrow> HealthError err st
      | None \<Rightarrow>
          (case hc_refused hc of
             Some msg \<Rightarrow> Settle StateFailed msg '''' st
           | None \<Rightarrow>
               if \<not> hc_detector hc then passHealth hc ''health check skipped: no health adapter configured'' st
               else let timeout = health_timeout hc in
                 (case HealthCheckExpiry st of
                    Some _ \<Rightarrow> check_health hc timeout st
                  | None \<Rightarrow>
                      (case hc_patch hc 0 of
                         Some err \<Rightarrow> HealthError (''patch health check expiry: '' @ err) st
                       | None \<Rightarrow> check_health hc timeout (st\<lparr>HealthCheckExpiry := Some (hc_now hc + timeout)\<rparr>)))))"

section \<open>The bake window: lemmas\<close>

definition first_start :: "HealthState \<Rightarrow> time option" where
  "first_start st = (case BakeFirstStartedAt st of Some t \<Rightarrow> Some t | None \<Rightarrow> BakeStartedAt st)"

lemma bakeDeadline_eq: "hc_bake hc = Some b \<Longrightarrow> bakeDeadline hc timeout st = map_option (\<lambda>f. f + bakeMaxDuration hc b timeout) (first_start st)"
  by (simp add: bakeDeadline_def first_start_def split: option.splits)

lemma health_timeout_pos: "0 < health_timeout hc"
  by (simp add: health_timeout_def minute_def second_def split: option.splits)

lemma bakeMaxDuration_ge: "0 \<le> timeout \<Longrightarrow> bk_minutes b * minute \<le> bakeMaxDuration hc b timeout"
  by (simp add: bakeMaxDuration_def Let_def split: option.splits)

lemma policy_not_again: "applyHealthFailurePolicy hc ad r base st \<noteq> CheckAgain d st'" "applyHealthFailurePolicy hc ad r base st \<noteq> WaitFor d st'"
  by (simp_all add: applyHealthFailurePolicy_def Let_def split: sum.splits rollback_result.splits bool.splits)

lemma policy_not_passed:
  "applyHealthFailurePolicy hc ad r base st = Settle s m a st' \<Longrightarrow> s \<noteq> StateVerified \<and> s \<noteq> StateVerifying"
  by (auto simp: applyHealthFailurePolicy_def Let_def split: sum.splits rollback_result.splits bool.splits if_splits)

lemma timedOut_not_again: "timedOut hc t l base st \<noteq> CheckAgain d st'" "timedOut hc t l base st \<noteq> WaitFor d st'"
  by (simp_all add: timedOut_def Let_def policy_not_again)

lemma passHealth_not_again: "passHealth hc m st \<noteq> CheckAgain d st'" "passHealth hc m st \<noteq> WaitFor d st'"
  by (simp_all add: passHealth_def Let_def)

lemma write_or_fail_again: "write_or_fail hc k w d0 base st = CheckAgain d st' \<longleftrightarrow> hc_patch hc k = None \<and> d = d0 \<and> st' = st"
  by (auto simp: write_or_fail_def split: option.splits)

lemma write_or_fail_other: "write_or_fail hc k w d0 base st \<noteq> WaitFor d st'" "write_or_fail hc k w d0 base st \<noteq> Settle s m a st'"
  by (simp_all add: write_or_fail_def split: option.splits)

lemma minute_pos: "0 < minute"
  by (simp add: minute_def second_def)



lemma bake_entry_fields [simp]:
  "BakeStartedAt (bake_entry res st) = BakeStartedAt st" "first_start (bake_entry res st) = first_start st"
  "HealthCheckExpiry (bake_entry res st) = HealthCheckExpiry st"
  "BakeFirstStartedAt (bake_entry res st) = first_start st"
  by (simp_all add: bake_entry_def first_start_def Let_def split: option.splits)

lemma bake_healthy_fields [simp]:
  "BakeStartedAt (bake_healthy hc st) = Some (case BakeStartedAt st of None \<Rightarrow> hc_wall hc | Some t \<Rightarrow> t)"
  "HealthCheckExpiry (bake_healthy hc st) = HealthCheckExpiry st"
  "BakeElapsedMinutes (bake_healthy hc st) = elapsed_minutes (hc_wall hc - (case BakeStartedAt st of None \<Rightarrow> hc_wall hc | Some t \<Rightarrow> t))"
  "BakeFirstStartedAt st = first_start st \<Longrightarrow>
   first_start (bake_healthy hc st) = Some (case first_start st of None \<Rightarrow> hc_wall hc | Some t \<Rightarrow> t)"
  by (auto simp: bake_healthy_def first_start_def elapsed_minutes_def Let_def split: option.splits)

lemma stopWindow_fields [simp]:
  "BakeStartedAt (stopWindow hc timeout st) = None" "BakeFirstStartedAt (stopWindow hc timeout st) = BakeFirstStartedAt st"
  by (simp_all add: stopWindow_def Let_def)

lemma stopWindow_expiry:
  "hc_bake hc = Some b \<Longrightarrow> first_start st = Some f \<Longrightarrow>
   \<exists>e. HealthCheckExpiry (stopWindow hc timeout st) = Some e \<and> e \<le> f + bakeMaxDuration hc b timeout"
  by (auto simp: stopWindow_def Let_def bakeDeadline_eq)

lemma pastBakeDeadline_eq:
  "hc_bake hc = Some b \<Longrightarrow>
   pastBakeDeadline hc timeout now st = (case first_start st of None \<Rightarrow> False | Some f \<Rightarrow> f + bakeMaxDuration hc b timeout \<le> now)"
  by (simp add: pastBakeDeadline_def bakeDeadline_eq split: option.splits)

text \<open>A check that leaves the step where it is: a healthy one starts or keeps the window, any other stops it.\<close>

lemma handleBake_healthy:
  assumes "Healthy res" "\<not> Progressing res"
  shows "handleBake hc b timeout ad res base st =
    (let s = bake_healthy hc (bake_entry res st) in
     if bk_minutes b \<le> BakeElapsedMinutes s
     then if verifies hc then passHealth hc (bake_done_msg b ad s) s else Settle StateVerified (bake_done_msg b ad s) '''' s
     else write_or_fail hc 2 ''patch bake progress'' requeueHealthCheck base (s\<lparr>hs_message := bake_progress_msg b ad s\<rparr>))"
  using assms by (simp only: handleBake_def Let_def) simp

lemma first_start_message [simp]: "first_start (st\<lparr>hs_message := m\<rparr>) = first_start st"
  by (simp add: first_start_def split: option.splits)

lemma first_start_resets [simp]: "first_start (st\<lparr>BakeResets := n\<rparr>) = first_start st"
  by (simp add: first_start_def split: option.splits)

lemma first_start_stop [simp]: "BakeFirstStartedAt st = first_start st \<Longrightarrow> first_start (stopWindow hc timeout st) = first_start st"
  by (simp add: first_start_def split: option.splits)

lemma handleBake_other:
  assumes "\<not> (Healthy res \<and> \<not> Progressing res)" and b: "hc_bake hc = Some b"
    and run: "handleBake hc b timeout ad res base st = CheckAgain d st'"
  shows "BakeStartedAt st' = None \<and> first_start st' = first_start st \<and>
    (BakeStartedAt st = None \<and> HealthCheckExpiry st' = HealthCheckExpiry st \<or>
     (case first_start st of
        None \<Rightarrow> True
      | Some f \<Rightarrow> hc_wall hc < f + bakeMaxDuration hc b timeout \<and>
                  (\<exists>e. HealthCheckExpiry st' = Some e \<and> e \<le> f + bakeMaxDuration hc b timeout)))"
proof -
  define e where "e = bake_entry res st"
  have e: "BakeStartedAt e = BakeStartedAt st" "first_start e = first_start st" "HealthCheckExpiry e = HealthCheckExpiry st"
    "BakeFirstStartedAt e = first_start e"
    by (simp_all add: e_def)
  have stop: "first_start (stopWindow hc timeout e) = first_start st"
    "\<And>f. first_start st = Some f \<Longrightarrow> \<exists>x. HealthCheckExpiry (stopWindow hc timeout e) = Some x \<and> x \<le> f + bakeMaxDuration hc b timeout"
    using e stopWindow_expiry [OF b, of e] by simp_all
  show ?thesis
    using run unfolding handleBake_def Let_def e_def [symmetric]
    by (simp only: pastBakeDeadline_eq [OF b] first_start_message first_start_resets stop(1) split: if_splits)
      (use assms(1) stop(2) e in \<open>auto simp: write_or_fail_again policy_not_again split: option.splits\<close>)
qed

lemma handleBake_not_wait: "handleBake hc b timeout ad res base st \<noteq> WaitFor d st'"
  by (simp add: handleBake_def Let_def write_or_fail_other policy_not_again passHealth_not_again)

lemma passHealth_settles: "\<exists>s m st'. passHealth hc msg st = Settle s m '''' st' \<and> (s = StateVerified \<or> s = StateVerifying)"
  by (simp add: passHealth_def Let_def)


lemma handleBake_error: "handleBake hc b timeout ad res base st = HealthError e st' \<Longrightarrow> st' = base"
  by (auto simp: handleBake_def Let_def applyHealthFailurePolicy_def write_or_fail_def passHealth_def
      split: if_splits option.splits sum.splits bool.splits rollback_result.splits)

section \<open>What a reconcile does to the window\<close>

definition same_bake :: "HealthState \<Rightarrow> HealthState \<Rightarrow> bool" where
  "same_bake st st' = (BakeStartedAt st' = BakeStartedAt st \<and> BakeFirstStartedAt st' = BakeFirstStartedAt st \<and>
     HealthCheckExpiry st' = HealthCheckExpiry st)"

lemma same_bake_refl [simp]: "same_bake st st"
  by (simp add: same_bake_def)

lemma same_bake_trans: "same_bake st st' \<Longrightarrow> same_bake st' st'' \<Longrightarrow> same_bake st st''"
  by (simp add: same_bake_def)

lemma same_bake_fields:
  "same_bake st st' \<Longrightarrow> BakeStartedAt st' = BakeStartedAt st" "same_bake st st' \<Longrightarrow> HealthCheckExpiry st' = HealthCheckExpiry st"
  "same_bake st st' \<Longrightarrow> first_start st' = first_start st"
  by (simp_all add: same_bake_def first_start_def split: option.splits)

lemma same_bake_updates [simp]:
  "same_bake st (recordMergeCommit c st)"
  "same_bake st (st\<lparr>LastHealthCheckAt := x, TargetUpdatedAt := y\<rparr>)" "same_bake st (st\<lparr>LastHealthCheckAt := x\<rparr>)"
  "requestRefresh hc base st = Inr st' \<Longrightarrow> same_bake st st'"
  by (auto simp: same_bake_def recordMergeCommit_def requestRefresh_def split: option.splits)

text \<open>A healthy result is the adapter's, for the commit the check asked about.\<close>

definition seen_by :: "health_reads \<Rightarrow> HealthStatus \<Rightarrow> bool" where
  "seen_by hc res = (Healthy res \<longrightarrow> (\<exists>c. hc_check hc c = Inr res))"

lemma seen_waiting [simp]: "seen_by hc (waiting_result why)"
  by (simp add: seen_by_def waiting_result_def)

text \<open>A reconcile that does not settle the step has run the bake's rule on the same window, or left the window alone; one that
  passes the step has run the rule, and one that ends in an error leaves the window alone.\<close>

abbreviation passed :: "step_state \<Rightarrow> bool" where
  "passed s \<equiv> s = StateVerified \<or> s = StateVerifying"

definition by_rule :: "health_reads \<Rightarrow> BakeSpec \<Rightarrow> duration \<Rightarrow> HealthState \<Rightarrow> health_outcome \<Rightarrow> bool" where
  "by_rule hc b timeout st out =
     (\<exists>st1 ad res base. same_bake st st1 \<and> seen_by hc res \<and> handleBake hc b timeout ad res base st1 = out)"

definition bake_kept :: "health_reads \<Rightarrow> BakeSpec \<Rightarrow> duration \<Rightarrow> bool \<Rightarrow> HealthState \<Rightarrow> health_outcome \<Rightarrow> bool" where
  "bake_kept hc b timeout expired st out =
     (case out of
        CheckAgain d st' \<Rightarrow> expired \<and> same_bake st st' \<or> by_rule hc b timeout st out
      | WaitFor d st' \<Rightarrow> same_bake st st'
      | HealthError e st' \<Rightarrow> same_bake st st'
      | Settle s m a st' \<Rightarrow> passed s \<longrightarrow> by_rule hc b timeout st out)"

lemma kept_policy: "same_bake st base \<Longrightarrow> bake_kept hc b timeout ex st (applyHealthFailurePolicy hc' ad r base st1)"
  using policy_not_again [of hc' ad r base st1] policy_not_passed [of hc' ad r base st1]
  by (auto simp: bake_kept_def applyHealthFailurePolicy_def Let_def split: sum.splits bool.splits rollback_result.splits)

lemma kept_timedOut: "same_bake st base \<Longrightarrow> bake_kept hc b timeout ex st (timedOut hc' t l base st1)"
  by (simp add: timedOut_def Let_def kept_policy)

lemma kept_failed: "\<not> passed s \<Longrightarrow> bake_kept hc b timeout ex st (Settle s m a st')"
  by (simp add: bake_kept_def)

lemma kept_error: "same_bake st base \<Longrightarrow> bake_kept hc b timeout ex st (HealthError e base)"
  by (simp add: bake_kept_def)

lemma kept_bake:
  assumes "same_bake st st1" "same_bake st base" "seen_by hc res"
  shows "bake_kept hc b timeout ex st (handleBake hc b timeout ad res base st1)"
proof -
  have "by_rule hc b timeout st (handleBake hc b timeout ad res base st1)" using assms by (auto simp: by_rule_def)
  then show ?thesis
    using assms(2)
    by (cases "handleBake hc b timeout ad res base st1") (auto simp: bake_kept_def handleBake_not_wait dest: handleBake_error)
qed

lemma kept_decide:
  assumes "hc_bake hc = Some b" "same_bake st st1" "same_bake st base" "seen_by hc res"
  shows "bake_kept hc b timeout ex st (decide hc timeout expired ad res base st1)"
  using assms by (simp add: decide_def kept_bake kept_timedOut)

lemma kept_after_verdict:
  assumes "hc_bake hc = Some b" "same_bake st st1" "same_bake st base" "seen_by hc res"
  shows "bake_kept hc b timeout ex st (after_verdict hc timeout expired ad commit res base st1)"
  unfolding after_verdict_def
  by (auto simp: kept_decide assms kept_policy kept_failed kept_error newer_error_def superseded_by_def split: sum.splits)

lemma kept_unreachable:
  assumes "hc_bake hc = Some b" "same_bake st st1" "same_bake st base"
  shows "bake_kept hc b timeout ex st (clusterUnreachable hc timeout ad why base st1)"
proof -
  have "same_bake st (st1\<lparr>LastHealthCheckAt := x\<rparr>)" for x using same_bake_trans [OF assms(2)] by simp
  then show ?thesis using assms by (simp add: clusterUnreachable_def Let_def kept_bake)
qed

lemma kept_run_check:
  assumes b: "hc_bake hc = Some b"
  shows "bake_kept hc b timeout expired st (run_check hc timeout expired st)"
proof -
  obtain commit pending where rev: "expectedRevision hc st = (commit, pending)" by fastforce
  define st0 where "st0 = recordMergeCommit commit st"
  have s0: "same_bake st st0" by (simp add: st0_def)
  have late: "bake_kept hc b timeout True st (write_or_fail hc 2 w d base (st1\<lparr>LastHealthCheckAt := x\<rparr>))"
    if "same_bake st st1" "same_bake st base" for w d base st1 x
    using that(2) same_bake_trans [OF that(1)] by (auto simp: bake_kept_def write_or_fail_def split: option.splits)
  have wait: "bake_kept hc b timeout ex st (WaitFor d st1)" if "same_bake st st1" for ex d st1
    using that by (simp add: bake_kept_def)
  show ?thesis
  proof (cases "hc_cluster hc")
    case ClusterReady
    show ?thesis
    proof (cases "hc_select hc")
      case (Inl err)
      then show ?thesis by (simp add: run_check_def rev ClusterReady kept_failed)
    next
      case (Inr adapter)
      show ?thesis
      proof (cases "if refreshWanted hc commit pending st0 then requestRefresh hc st st0 else Inr st0")
        case (Inl out)
        then have "out = HealthError (''patch refresh request: '' @ the (hc_patch hc 1)) st"
          by (auto simp: requestRefresh_def split: if_splits option.splits)
        then show ?thesis
          unfolding run_check_def rev prod.case Let_def st0_def [symmetric] ClusterReady cluster_read.case Inr Inl sum.case
          by (simp add: kept_error)
      next
        case st1: (Inr st1)
        then have s1: "same_bake st st1" using s0 by (auto split: if_splits intro: same_bake_trans)
        define base1 where "base1 = (if refreshWanted hc commit pending st0 then st1 else st)"
        have sb: "same_bake st base1" using s1 by (simp add: base1_def)
        define checked where "checked = (if (commit = '''' \<and> hc_opensPR hc \<and> \<not> no_changes st1) \<and> adapter = ''flux''
            then Inr (waiting_result ''merge commit of the PR not known yet (needed to check lastAppliedRevision)'')
            else if (commit = '''' \<and> hc_opensPR hc \<and> \<not> no_changes st1) \<and> pending \<and> adapter = ''argocd''
            then Inr (waiting_result ''merge commit of the PR not known yet (needed to check the synced revision)'')
            else hc_check hc commit)"
        note run = run_check_def [of hc timeout expired st, unfolded rev prod.case Let_def, folded st0_def, unfolded ClusterReady Inr
            cluster_read.case sum.case st1, folded base1_def, folded checked_def]
        show ?thesis
        proof (cases checked)
          case (Inl err)
          then show ?thesis
            unfolding run by (cases expired) (auto simp: kept_unreachable [OF b s1 sb] wait [OF sb] kept_timedOut [OF sb] late [OF s1 sb])
        next
          case (Inr res)
          define st2 where "st2 = st1\<lparr>LastHealthCheckAt := Some (hc_now hc),
            TargetUpdatedAt := (if TargetUpdated res \<and> TargetUpdatedAt st1 = None then Some (hc_now hc) else TargetUpdatedAt st1)\<rparr>"
          have s2: "same_bake st st2" using same_bake_trans [OF s1] by (simp add: st2_def)
          have seen: "seen_by hc res" using Inr by (auto simp: checked_def seen_by_def waiting_result_def split: if_splits)
          have tail: "bake_kept hc b timeout expired st
              (case if w then requestRefresh hc base1 st2 else Inr st2 of
                 Inl out \<Rightarrow> out
               | Inr st3 \<Rightarrow> after_verdict hc timeout expired adapter commit res (if w then st3 else base1) st3)" for w
          proof (cases "if w then requestRefresh hc base1 st2 else Inr st2")
            case (Inl out)
            then have "out = HealthError (''patch refresh request: '' @ the (hc_patch hc 1)) base1"
              by (auto simp: requestRefresh_def split: if_splits option.splits)
            with Inl show ?thesis by (simp add: kept_error [OF sb])
          next
            case (Inr st3)
            then have "same_bake st st3" using s2 by (auto split: if_splits intro: same_bake_trans)
            with Inr sb show ?thesis by (simp add: kept_after_verdict [OF b _ _ seen])
          qed
          show ?thesis unfolding run Inr sum.case st2_def [symmetric] by (rule tail)
        qed
      qed
    qed
  qed (simp_all add: run_check_def rev st0_def [symmetric] kept_failed kept_unreachable [OF b s0])
qed


section \<open>A step passes after a contiguous healthy window\<close>






section \<open>The deadline of the bake\<close>

text \<open>The configuration of a bake, as every reconcile of the step reads it, with one clock.\<close>

definition baked :: "BakeSpec \<Rightarrow> duration \<Rightarrow> duration \<Rightarrow> health_reads \<Rightarrow> bool" where
  "baked b timeout maxd hc =
     (hc_bake hc = Some b \<and> health_timeout hc = timeout \<and> bakeMaxDuration hc b timeout = maxd \<and> hc_now hc = hc_wall hc)"

text \<open>The deadline is \<open>maxd\<close> after the first window's start: a running window started by then, and while none runs the expiry is not later.\<close>

definition bake_inv :: "duration \<Rightarrow> HealthState \<Rightarrow> bool" where
  "bake_inv maxd st =
     (case first_start st of
        None \<Rightarrow> True
      | Some f \<Rightarrow> (case BakeStartedAt st of Some s \<Rightarrow> s \<le> f + maxd | None \<Rightarrow> \<exists>e. HealthCheckExpiry st = Some e \<and> e \<le> f + maxd))"

definition check_step :: "BakeSpec \<Rightarrow> duration \<Rightarrow> duration \<Rightarrow> HealthState \<Rightarrow> HealthState \<Rightarrow> bool" where
  "check_step b timeout maxd st st' =
     (\<exists>hc d. baked b timeout maxd hc \<and> (handleHealthChecking hc st = CheckAgain d st' \<or> handleHealthChecking hc st = WaitFor d st'))"

lemma same_bake_inv: "same_bake st st' \<Longrightarrow> bake_inv maxd st' = bake_inv maxd st"
  by (simp add: bake_inv_def same_bake_fields split: option.splits)

lemma handleBake_inv:
  assumes hc: "baked b timeout maxd hc" and run: "handleBake hc b timeout ad res base st = CheckAgain d st'"
    and inv: "bake_inv maxd st" and "0 \<le> maxd"
    and early: "\<And>f. BakeStartedAt st = None \<Longrightarrow> first_start st = Some f \<Longrightarrow> hc_wall hc \<le> f + maxd"
  shows "bake_inv maxd st'"
proof (cases "Healthy res \<and> \<not> Progressing res")
  case True
  with run have "BakeStartedAt st' = Some (case BakeStartedAt st of None \<Rightarrow> hc_wall hc | Some t \<Rightarrow> t)"
    "first_start st' = Some (case first_start st of None \<Rightarrow> hc_wall hc | Some t \<Rightarrow> t)"
    by (auto simp: handleBake_healthy Let_def write_or_fail_again passHealth_not_again split: if_splits)
  moreover have "first_start st = None \<Longrightarrow> BakeStartedAt st = None" by (simp add: first_start_def split: option.splits)
  ultimately show ?thesis using inv early \<open>0 \<le> maxd\<close> by (auto simp: bake_inv_def split: option.splits)
next
  case False
  have b: "hc_bake hc = Some b" "bakeMaxDuration hc b timeout = maxd" using hc by (simp_all add: baked_def)
  from handleBake_other [OF False b(1) run, unfolded b(2)] inv show ?thesis
    by (auto simp: bake_inv_def split: option.splits)
qed

lemma check_health_inv:
  assumes hc: "baked b timeout maxd hc" and inv: "bake_inv maxd st" and e: "HealthCheckExpiry st \<noteq> None" and "0 \<le> maxd"
    and run: "check_health hc timeout st = CheckAgain d st' \<or> check_health hc timeout st = WaitFor d st'"
  shows "bake_inv maxd st'"
proof -
  have b: "hc_bake hc = Some b" "bakeMaxDuration hc b timeout = maxd" "hc_now hc = hc_wall hc" using hc by (simp_all add: baked_def)
  define expired where "expired = (BakeStartedAt st = None \<and> the (HealthCheckExpiry st) < hc_now hc)"
  show ?thesis
  proof (cases "expired \<and> pastBakeDeadline hc timeout (hc_now hc) st")
    case True
    then have "check_health hc timeout st = timedOut hc timeout (hs_message st) st st"
      by (simp add: check_health_def Let_def expired_def [symmetric] b(1))
    with run show ?thesis by (simp add: timedOut_not_again)
  next
    case False
    then have "check_health hc timeout st = run_check hc timeout expired st \<or> (\<exists>w. check_health hc timeout st = WaitFor w st)"
      by (simp add: check_health_def Let_def expired_def [symmetric] b(1) split: option.splits) blast
    then consider (wait) "st' = st" | (check) "check_health hc timeout st = run_check hc timeout expired st"
      using run by auto
    then show ?thesis
    proof cases
      case wait
      then show ?thesis using inv by simp
    next
      case check
      have early: "hc_wall hc \<le> f + maxd" if "BakeStartedAt st = None" "first_start st = Some f" for f
      proof (cases expired)
        case True
        with False that show ?thesis by (simp add: pastBakeDeadline_eq [OF b(1)] b)
      next
        case False
        with that inv e show ?thesis by (auto simp: expired_def bake_inv_def b)
      qed
      from kept_run_check [OF b(1), of timeout expired st] run check have
        "same_bake st st' \<or> (\<exists>st1 ad res base. same_bake st st1 \<and> handleBake hc b timeout ad res base st1 = CheckAgain d st')"
        by (auto simp: bake_kept_def by_rule_def)
      then show ?thesis
      proof (elim disjE exE conjE)
        fix st1 ad res base
        assume s: "same_bake st st1" and again: "handleBake hc b timeout ad res base st1 = CheckAgain d st'"
        have "bake_inv maxd st1" using inv by (simp add: same_bake_inv [OF s])
        then show ?thesis by (rule handleBake_inv [OF hc again _ \<open>0 \<le> maxd\<close>]) (simp add: same_bake_fields [OF s] early)
      next
        assume "same_bake st st'"
        from same_bake_inv [OF this] inv show ?thesis by simp
      qed
    qed
  qed
qed

lemma baked_maxd: "baked b timeout maxd hc \<Longrightarrow> 0 \<le> bk_minutes b \<Longrightarrow> 0 \<le> maxd"
proof -
  assume hc: "baked b timeout maxd hc" and "0 \<le> bk_minutes b"
  then have "0 \<le> bk_minutes b * minute" using minute_pos by simp
  also have "\<dots> \<le> maxd" using hc bakeMaxDuration_ge [of timeout b hc] health_timeout_pos [of hc] by (auto simp: baked_def)
  finally show "0 \<le> maxd" .
qed

lemma check_step_inv:
  assumes "check_step b timeout maxd st st'" "bake_inv maxd st" "0 \<le> bk_minutes b"
  shows "bake_inv maxd st'"
proof -
  from assms(1) obtain hc d where hc: "baked b timeout maxd hc"
    and run: "handleHealthChecking hc st = CheckAgain d st' \<or> handleHealthChecking hc st = WaitFor d st'"
    by (auto simp: check_step_def)
  have t: "health_timeout hc = timeout" using hc by (simp add: baked_def)
  define st1 where "st1 = (case HealthCheckExpiry st of Some _ \<Rightarrow> st | None \<Rightarrow> st\<lparr>HealthCheckExpiry := Some (hc_now hc + timeout)\<rparr>)"
  from run have "check_health hc timeout st1 = CheckAgain d st' \<or> check_health hc timeout st1 = WaitFor d st'"
    by (auto simp: handleHealthChecking_def Let_def t passHealth_not_again st1_def split: option.splits if_splits)
  moreover have "bake_inv maxd st1" using assms(2)
    by (auto simp: st1_def bake_inv_def first_start_def split: option.splits)
  moreover have "HealthCheckExpiry st1 \<noteq> None" by (simp add: st1_def split: option.splits)
  ultimately show ?thesis using check_health_inv [OF hc] baked_maxd [OF hc assms(3)] by blast
qed

text \<open>The system of a step's health checks, and its invariant: \<open>BakeSpec\<close>s with a negative number of minutes are refused at admission.\<close>

definition fresh_health :: "HealthState \<Rightarrow> bool" where
  "fresh_health st = (BakeStartedAt st = None \<and> BakeFirstStartedAt st = None)"

definition health_step :: "BakeSpec \<Rightarrow> duration \<Rightarrow> duration \<Rightarrow> HealthState \<Rightarrow> HealthState \<Rightarrow> bool" where
  "health_step b timeout maxd st st' = (0 < bk_minutes b \<and> check_step b timeout maxd st st')"

interpretation bake: step_system fresh_health "health_step b timeout maxd" "bake_inv maxd" for b timeout maxd
proof unfold_locales
  show "bake_inv maxd st" if "fresh_health st" for st
    using that by (simp add: fresh_health_def bake_inv_def first_start_def)
  show "bake_inv maxd st'" if "health_step b timeout maxd st st'" "bake_inv maxd st" for st st'
    using that by (auto simp: health_step_def intro: check_step_inv)
qed


text \<open>How the failure policy ends a step: the state it settles in, and when its own reads or the rollback fail instead.\<close>

definition failed_state :: "health_reads \<Rightarrow> step_state" where
  "failed_state hc =
     (if hc_onHealthFailure hc = ''abort'' then StateAbortedByAlarm
      else if hc_onHealthFailure hc = ''rollback''
      then if hc_isRollback hc = Inr False \<and> (\<exists>name. hc_rollback hc = RollbackCreated name) then StateRollingBack else StateAbortedByAlarm
      else StateFailed)"

definition policy_fails :: "health_reads \<Rightarrow> bool" where
  "policy_fails hc = (hc_onHealthFailure hc = ''rollback'' \<and>
     ((\<exists>e. hc_isRollback hc = Inl e) \<or> hc_isRollback hc = Inr False \<and> (\<exists>e. hc_rollback hc = RollbackError e)))"

definition failed :: "health_reads \<Rightarrow> health_outcome \<Rightarrow> bool" where
  "failed hc out = (if policy_fails hc then \<exists>e st. out = HealthError e st else \<exists>m st. out = Settle (failed_state hc) m '''' st)"









section \<open>Theorems\<close>


definition plain_reads :: health_reads where
  "plain_reads =
     \<lparr>hc_now = 0, hc_wall = 0, hc_loadError = None, hc_refused = None, hc_detector = True, hc_timeout = '''', hc_parse = (\<lambda>_. None),
      hc_bake = Some \<lparr>bk_minutes = 5, bk_policy = '''', bk_maxDuration = ''''\<rparr>, hc_onHealthFailure = ''none'', hc_effectiveType = ''argocd'',
      hc_postHooks = [], hc_analyses = [], hc_opensPR = False, hc_prStatusRef = False, hc_prs = PRMissing, hc_cluster = ClusterReady,
      hc_remote = False, hc_select = Inr ''argocd'', hc_refreshOn = False, hc_refreshSupported = False, hc_patch = (\<lambda>_. None),
      hc_check = (\<lambda>_. Inl ''down''), hc_classify = (\<lambda>s. s), hc_newer = (\<lambda>_. Inr ''''), hc_moved = '''', hc_isRollback = Inr False,
      hc_rollback = RollbackRefused ''none'', hc_environment = ''prod'', hc_bundleName = ''b1'', hc_fmtDur = int_str\<rparr>"

definition new_health :: HealthState where
  "new_health = \<lparr>HealthCheckExpiry = None, LastHealthCheckAt = None, ConsecutiveHealthFailures = 0, BakeStartedAt = None,
     BakeFirstStartedAt = None, BakeElapsedMinutes = 0, BakeResets = 0, TargetUpdatedAt = None, VerificationStartedAt = None,
     RefreshRequestedAt = None, hs_message = '''', hs_outputs = []\<rparr>"

definition verdict :: "bool \<Rightarrow> HealthStatus" where
  "verdict ok = \<lparr>Healthy = ok, Progressing = False, Terminal = False, NotFound = False, Reason = ''r'', TargetUpdated = False\<rparr>"












text \<open>A step whose remote cluster cannot be used (its kubeconfig Secret is missing, unreadable or not referenceable, or
  every read of it fails) and whose environment never had a healthy check is never settled, however long ago
  \<open>healthCheckExpiry\<close> passed: \<open>health.timeout\<close> does not end it.\<close>

theorem unreachable_never_times_out:
  assumes "hc_loadError hc = None" "hc_refused hc = None" "hc_detector hc" "hc_bake hc = None \<or> first_start st = None"
    and "(\<exists>why. hc_cluster hc = ClusterUnreachable why) \<or>
      (\<exists>ad err. hc_cluster hc = ClusterReady \<and> hc_select hc = Inr ad \<and> hc_remote hc \<and> \<not> hc_opensPR hc \<and> (\<forall>c. hc_check hc c = Inl err))"
  shows "handleHealthChecking hc st \<noteq> Settle s m a st'"
proof -
  have waits: "clusterUnreachable hc t ad why base st1 \<noteq> Settle s m a st'"
    if "hc_bake hc = None \<or> first_start st1 = None" for t ad why base st1
  proof (cases "hc_bake hc")
    case (Some b)
    with that have "BakeStartedAt st1 = None" by (auto simp: first_start_def split: option.splits)
    with Some show ?thesis
      by (simp add: clusterUnreachable_def Let_def handleBake_def waiting_result_def write_or_fail_other)
  qed (simp add: clusterUnreachable_def Let_def write_or_fail_other)
  have keep: "hc_bake hc = None \<or> first_start st1 = None" if "same_bake st2 st1" "hc_bake hc = None \<or> first_start st2 = None" for st1 st2
    using that same_bake_fields(3) [OF that(1)] by simp
  have run: "run_check hc t ex st1 \<noteq> Settle s m a st'" if st1: "hc_bake hc = None \<or> first_start st1 = None" for t ex st1
  proof -
    obtain c p where rev: "expectedRevision hc st1 = (c, p)" by fastforce
    have s0: "same_bake st1 (recordMergeCommit c st1)" by simp
    from assms(5) show ?thesis
    proof (elim disjE exE conjE)
      fix why assume "hc_cluster hc = ClusterUnreachable why"
      with waits [OF keep [OF s0 st1]] show ?thesis by (simp add: run_check_def rev)
    next
      fix ad err
      assume a: "hc_cluster hc = ClusterReady" "hc_select hc = Inr ad" "hc_remote hc" "\<not> hc_opensPR hc" "\<forall>c. hc_check hc c = Inl err"
      show ?thesis
      proof (cases "refreshWanted hc c p (recordMergeCommit c st1)")
        case True
        have "same_bake st1 st2" if "requestRefresh hc st1 (recordMergeCommit c st1) = Inr st2" for st2
          using that s0 same_bake_trans same_bake_updates(4) by blast
        with waits keep st1 a True show ?thesis
          by (auto simp: run_check_def rev Let_def requestRefresh_def split: option.splits)
      next
        case False
        with waits [OF keep [OF s0 st1]] a show ?thesis by (simp add: run_check_def rev Let_def)
      qed
    qed
  qed
  have check: "check_health hc t st1 \<noteq> Settle s m a st'" if st1: "hc_bake hc = None \<or> first_start st1 = None" for t st1
  proof (cases "hc_bake hc")
    case None
    with run [OF st1] show ?thesis by (simp add: check_health_def Let_def split: option.splits)
  next
    case (Some b)
    with st1 have "\<not> pastBakeDeadline hc t (hc_now hc) st1" by (simp add: pastBakeDeadline_eq [OF Some])
    with run [OF st1] show ?thesis by (simp add: check_health_def Let_def split: option.splits)
  qed
  have "hc_bake hc = None \<or> first_start (st\<lparr>HealthCheckExpiry := e\<rparr>) = None" for e
    using assms(4) by (auto simp: first_start_def split: option.splits)
  with check assms show ?thesis by (simp add: handleHealthChecking_def Let_def split: option.splits)
qed

theorem unreachable_never_times_out_witness:
  "handleHealthChecking (plain_reads\<lparr>hc_now := 10000 * minute, hc_bake := None, hc_cluster := ClusterUnreachable ''kubeconfig Secret not found''\<rparr>)
     (new_health\<lparr>HealthCheckExpiry := Some (10 * minute)\<rparr>) \<noteq> Settle StateFailed ''timeout'' '''' new_health"
  by (rule unreachable_never_times_out) (simp_all add: plain_reads_def)

end
