(* ===== verification/Push_Guard.thy ===== *)
theory Push_Guard
  imports Supersession Step_Retry
begin

text \<open>
  The guard of a push (\<open>pkg/reconciler/promotionstep/push_guard.go\<close>): a promotion that a newer one replaced must not push over it.

  What \<open>newerPushed\<close> reads (\<open>guard_reads\<close>) is the list of the namespace's steps and the objects the API server returns, and the
  Bundles of the cache. The guard itself is a program of API calls (\<open>guard_prog\<close>): each call is a constructor with what follows for every
  answer, so the order of its write and its reads is part of the model. The last part of the theory runs the guards of several
  steps that push to one branch against one API server, call by call, in any interleaving.
\<close>

section \<open>Steps that pushed\<close>

record GuardStep = LifeStep +
  gd_name :: string
  gd_labels :: labels
  gd_steps :: "StepStatus list"

definition outputPushIntent :: string where "outputPushIntent = ''pushIntent''"

definition stepsLanded :: "GuardStep \<Rightarrow> time" where
  "stepsLanded s =
     fold (\<lambda>st at. case ss_completedAt st of None \<Rightarrow> at | Some c \<Rightarrow> if at < c then c else at) (gd_steps s) 0"

definition pushCompleted :: "GuardStep \<Rightarrow> bool" where
  "pushCompleted s = list_ex (\<lambda>st. ss_name st = ''git-push'' \<and> ss_state st = StepExecutionCompleted) (gd_steps s)"

definition pushedOrPushing :: "GuardStep \<Rightarrow> bool" where
  "pushedOrPushing s =
     (if pushCompleted s then True
      else if label (ls_outputs s) outputPushIntent = '''' then False
      else ls_state s \<notin> {''Failed'', ''AbortedByAlarm'', ''Superseded''})"

section \<open>A newer push\<close>

datatype 'a api_read = ApiFound 'a | ApiMissing | ApiError string

record guard_reads =
  gr_steps :: "string + GuardStep list"
  gr_pipeline :: "HeldPipeline api_read"
  gr_cache :: "string + LifeBundle list"
  gr_bundle :: "string \<Rightarrow> LifeBundle api_read"

record guard_lib =
  gl_fleets :: fleet_lib
  gl_parse :: "string \<Rightarrow> time option"
  gl_now :: time
  gl_timeText :: string

definition LabelRollback :: string where "LabelRollback = ''kardinal.io/rollback''"

definition supersedes_here :: "guard_lib \<Rightarrow> HeldPipeline option \<Rightarrow> RejectedArtifacts \<Rightarrow> string \<Rightarrow> LifeBundle \<Rightarrow> LifeBundle \<Rightarrow> bool" where
  "supersedes_here lib p rejected env b other =
     (SupersedingSiblings (gl_fleets lib) (gl_parse lib) (gl_now lib) p b [other] rejected True env \<noteq> [])"

fun newer_among ::
  "guard_lib \<Rightarrow> (string \<Rightarrow> LifeBundle api_read) \<Rightarrow> HeldPipeline option \<Rightarrow> RejectedArtifacts \<Rightarrow> string \<Rightarrow> LifeBundle \<Rightarrow> bool \<Rightarrow> GuardStep list \<Rightarrow>
   string + string" where
  "newer_among lib rd p rejected env b landed [] = Inr ''''"
| "newer_among lib rd p rejected env b landed (s # ss) =
     (case rd (ls_bundleName s) of
        ApiMissing \<Rightarrow> newer_among lib rd p rejected env b landed ss
      | ApiError err \<Rightarrow> Inl (''read bundle '' @ ls_bundleName s @ '': '' @ err)
      | ApiFound other \<Rightarrow>
          if supersedes_here lib p rejected env b other then Inr (b_name other)
          else if landed \<and> pushCompleted s \<and> TargetRollback (gl_fleets lib) p other \<noteq> '''' \<and>
                  supersedes_here lib p rejected env b (other\<lparr>lb_labels := filter (\<lambda>(k, _). k \<noteq> LabelRollback) (lb_labels other)\<rparr>)
          then Inr (b_name other)
          else newer_among lib rd p rejected env b landed ss)"

definition push_candidates :: "GuardStep \<Rightarrow> string \<Rightarrow> LifeBundle \<Rightarrow> GuardStep list \<Rightarrow> GuardStep list" where
  "push_candidates ps pipelineName b items =
     filter (\<lambda>s. ls_bundleName s \<noteq> b_name b \<and> ls_environment s = ls_environment ps \<and> pushedOrPushing s)
       (filter (\<lambda>s. ls_namespace s = ls_namespace ps \<and> label (gd_labels s) ''kardinal.io/pipeline'' = pipelineName \<and>
                  label (gd_labels s) ''kardinal.io/environment'' = ls_environment ps) items)"

definition pipeline_read :: "HeldPipeline api_read \<Rightarrow> HeldPipeline option" where
  "pipeline_read r = (case r of ApiFound p \<Rightarrow> Some p | _ \<Rightarrow> None)"

definition newerPushed :: "guard_lib \<Rightarrow> guard_reads \<Rightarrow> GuardStep \<Rightarrow> string \<Rightarrow> LifeBundle \<Rightarrow> bool \<Rightarrow> string + string" where
  "newerPushed lib rd ps pipelineName b landed =
     (case gr_steps rd of
        Inl err \<Rightarrow> Inl (''list the steps of '' @ pipelineName @ ''/'' @ ls_environment ps @ '': '' @ err)
      | Inr items \<Rightarrow>
          let candidates = push_candidates ps pipelineName b items in
          if candidates = [] then Inr ''''
          else case gr_pipeline rd of
                 ApiError err \<Rightarrow> Inl (''read pipeline '' @ lb_pipeline b @ '': '' @ err)
               | pr \<Rightarrow>
                   (case gr_cache rd of
                      Inl err \<Rightarrow> Inl (''list the bundles of '' @ pipelineName @ '': '' @ err)
                    | Inr bundles \<Rightarrow>
                        newer_among lib (gr_bundle rd) (pipeline_read pr) (RejectedArtifactsOf bundles (lb_pipeline b)) (ls_environment ps)
                          b landed candidates))"

section \<open>The guard\<close>

text \<open>The API calls of a guard: the read of a Bundle, the locked write of the step's outputs, the reads of \<open>newerPushed\<close>, which start with
  the list of the steps. It returns its error and the outputs the engine goes on with.\<close>

datatype guard_prog =
    Return "StepErr option" "(string \<times> string) list"
  | GetBundle string "LifeBundle api_read \<Rightarrow> guard_prog"
  | PatchOutputs "(string \<times> string) list" "patch_result \<Rightarrow> guard_prog"
  | ReadOthers "guard_reads \<Rightarrow> guard_prog"

text \<open>\<open>recordOutputs\<close>, with what follows for its error: the step, the base of the reconcile and the engine's outputs all take the
  new values when the locked status write succeeds, so one list stands for them.\<close>

definition intent_error :: "string \<Rightarrow> patch_result \<Rightarrow> StepErr" where
  "intent_error name r =
     plain_error (''record the push intent of '' @ name @ '': '' @
       (case r of PatchOK \<Rightarrow> '''' | PatchNotFound \<Rightarrow> ''not found'' | PatchConflict \<Rightarrow> ''conflict'' | PatchFailed e \<Rightarrow> e))"

definition recordOutputs ::
  "string \<Rightarrow> (string \<times> string) list \<Rightarrow> (string \<times> string) list \<Rightarrow> (StepErr option \<Rightarrow> (string \<times> string) list \<Rightarrow> guard_prog) \<Rightarrow> guard_prog" where
  "recordOutputs name kvs outputs cont =
     (let outs = fold (\<lambda>(k, v). set_output k v) kvs outputs
      in PatchOutputs outs (\<lambda>r. if r = PatchOK then cont None outs else cont (Some (intent_error name r)) outputs))"

definition recordPushIntent ::
  "guard_lib \<Rightarrow> string \<Rightarrow> (string \<times> string) list \<Rightarrow> (StepErr option \<Rightarrow> (string \<times> string) list \<Rightarrow> guard_prog) \<Rightarrow> guard_prog" where
  "recordPushIntent lib name outputs cont =
     (if label outputs outputPushIntent \<noteq> '''' then cont None outputs
      else recordOutputs name [(outputPushIntent, gl_timeText lib)] outputs cont)"

definition stale_error :: "string \<Rightarrow> StepErr" where
  "stale_error why = (plain_error (stale_text @ '': '' @ why))\<lparr>ErrStalePush := True\<rparr>"

definition newer_pushed_error :: "string \<Rightarrow> string \<Rightarrow> StepErr" where
  "newer_pushed_error newer env =
     (stale_error (''a newer bundle already pushed: newer bundle '' @ newer @ '' already pushed to '' @ env @
       ''; this promotion is superseded and does not push''))\<lparr>ErrNewerPushed := True\<rparr>"

text \<open>What follows the intent, and what follows the read of the Bundle.\<close>

definition check_newer :: "guard_lib \<Rightarrow> GuardStep \<Rightarrow> string \<Rightarrow> LifeBundle \<Rightarrow> StepErr option \<Rightarrow> (string \<times> string) list \<Rightarrow> guard_prog" where
  "check_newer lib ps pipelineName b err outs =
     (case err of
        Some e \<Rightarrow> Return (Some e) outs
      | None \<Rightarrow>
          ReadOthers (\<lambda>rd.
            case newerPushed lib rd ps pipelineName b False of
              Inl e \<Rightarrow> Return (Some (plain_error e)) outs
            | Inr newer \<Rightarrow> if newer \<noteq> '''' then Return (Some (newer_pushed_error newer (ls_environment ps))) outs else Return None outs))"

definition check_bundle ::
  "guard_lib \<Rightarrow> GuardStep \<Rightarrow> string \<Rightarrow> bool \<Rightarrow> (string \<times> string) list \<Rightarrow> LifeBundle api_read \<Rightarrow> guard_prog" where
  "check_bundle lib ps pipelineName direct outputs bread =
     (case bread of
        ApiMissing \<Rightarrow> Return (Some (stale_error (''bundle '' @ ls_bundleName ps @ '' is gone''))) outputs
      | ApiError err \<Rightarrow> Return (Some (plain_error (''read bundle '' @ ls_bundleName ps @ '': '' @ err))) outputs
      | ApiFound b \<Rightarrow>
          if lb_specRejected b \<or> b_phase b = ''Rejected'' then Return (Some (stale_error (''bundle '' @ b_name b @ '' was rejected''))) outputs
          else if b_phase b = ''Superseded''
          then Return (Some (stale_error (''bundle '' @ b_name b @ '' was superseded '' @ em_dash @ '' promotion cancelled''))) outputs
          else if \<not> direct then Return None outputs
          else recordPushIntent lib (gd_name ps) outputs (check_newer lib ps pipelineName b))"

definition pushGuard :: "guard_lib \<Rightarrow> GuardStep \<Rightarrow> string \<Rightarrow> bool \<Rightarrow> (string \<times> string) list \<Rightarrow> guard_prog" where
  "pushGuard lib ps pipelineName direct outputs =
     GetBundle (ls_bundleName ps) (check_bundle lib ps pipelineName direct outputs)"

section \<open>What a passed guard has seen\<close>

text \<open>An object the API server returns has the name asked for, and no object has the empty name.\<close>

definition reads_named :: "(string \<Rightarrow> LifeBundle api_read) \<Rightarrow> bool" where
  "reads_named rd = (\<forall>n other. rd n = ApiFound other \<longrightarrow> b_name other = n \<and> n \<noteq> '''')"

lemma newer_among_none:
  assumes "reads_named rd" "newer_among lib rd p rejected env b landed ss = Inr ''''" "s \<in> set ss" "rd (ls_bundleName s) = ApiFound other"
  shows "\<not> supersedes_here lib p rejected env b other"
  using assms(2-) by (induction ss) (use assms(1) in \<open>auto simp: reads_named_def split: api_read.splits if_splits\<close>)

lemma newerPushed_none:
  assumes "reads_named (gr_bundle rd)" "newerPushed lib rd ps pl b landed = Inr ''''" "gr_steps rd = Inr items"
    "s \<in> set (push_candidates ps pl b items)" "gr_bundle rd (ls_bundleName s) = ApiFound other"
  shows "\<exists>bundles. gr_cache rd = Inr bundles \<and>
    \<not> supersedes_here lib (pipeline_read (gr_pipeline rd)) (RejectedArtifactsOf bundles (lb_pipeline b)) (ls_environment ps) b other"
  using assms by (auto simp: newerPushed_def Let_def dest: newer_among_none [OF assms(1)] split: api_read.splits sum.splits if_splits)

lemma label_set_output: "label (set_output k v m) k' = (if k' = k then v else label m k')"
proof -
  have "map_of (filter (\<lambda>(k'', _). k'' \<noteq> k) m) k' = map_of m k'" if "k' \<noteq> k"
    using that by (induction m) auto
  then show ?thesis by (simp add: set_output_def label_def)
qed

text \<open>\<open>newerPushed\<close> looks at the namespace and the environment of its step only.\<close>

lemma newerPushed_cong:
  "ls_namespace ps' = ls_namespace ps \<Longrightarrow> ls_environment ps' = ls_environment ps \<Longrightarrow>
   newerPushed lib rd ps' pl b landed = newerPushed lib rd ps pl b landed"
proof -
  assume same: "ls_namespace ps' = ls_namespace ps" "ls_environment ps' = ls_environment ps"
  then have candidates: "push_candidates ps' pl b = push_candidates ps pl b" by (simp add: push_candidates_def fun_eq_iff)
  show ?thesis unfolding newerPushed_def same candidates ..
qed

lemma check_newer_passed:
  assumes "(case newerPushed lib rd ps pl b False of
      Inl e \<Rightarrow> Return (Some (plain_error e)) outs
    | Inr newer \<Rightarrow> if newer \<noteq> '''' then Return (Some (newer_pushed_error newer env)) outs else Return None outs) = Return None outs'"
  shows "newerPushed lib rd ps pl b False = Inr ''''"
  using assms by (auto split: sum.splits if_splits)

section \<open>Several steps and one branch\<close>

text \<open>The steps of one environment that push to its base branch. \<open>sy_branch\<close> is the branch, oldest commit first: a push of the step of
  Bundle \<open>n\<close>, with the clock of its guard and the Bundle and the reads that it was answered, or a commit of another writer. \<open>sy_runs n\<close> is an attempt of that
  step: the copy of the step the reconcile holds, the length of the branch that it fetched, and what is left of its guard. An
  attempt starts with a fetch (the clone, or the rebase after a refused push) and its guard, and pushes once the guard has
  returned without error: that is the order of \<open>gitPush\<close> (\<open>Git_Push\<close>).\<close>

datatype branch_commit = Pushed string guard_lib "LifeBundle option" "guard_reads option" | Foreign

record push_run =
  pr_lib :: guard_lib
  pr_step :: GuardStep
  pr_base :: nat
  pr_prog :: guard_prog
  pr_bundle :: "LifeBundle option"
  pr_reads :: "guard_reads option"

record push_sys =
  sy_steps :: "GuardStep list"
  sy_branch :: "branch_commit list"
  sy_runs :: "string \<Rightarrow> push_run option"

text \<open>A step of the environment, as the guard of \<open>ps\<close> lists them, and one whose intent is recorded.\<close>

definition in_environment :: "GuardStep \<Rightarrow> string \<Rightarrow> GuardStep \<Rightarrow> bool" where
  "in_environment ps pl s =
     (ls_namespace s = ls_namespace ps \<and> ls_environment s = ls_environment ps \<and>
      label (gd_labels s) ''kardinal.io/pipeline'' = pl \<and> label (gd_labels s) ''kardinal.io/environment'' = ls_environment ps)"

definition intends :: "GuardStep \<Rightarrow> string \<Rightarrow> string \<Rightarrow> GuardStep \<Rightarrow> bool" where
  "intends ps pl n s = (ls_bundleName s = n \<and> in_environment ps pl s \<and> label (ls_outputs s) outputPushIntent \<noteq> '''')"

text \<open>The same object: what identifies a step and never changes. A copy that a reconcile holds is of a stored step, and an intent in it
  is stored.\<close>

definition same_step :: "GuardStep \<Rightarrow> GuardStep \<Rightarrow> bool" where
  "same_step a s = (gd_name s = gd_name a \<and> ls_namespace s = ls_namespace a \<and> ls_bundleName s = ls_bundleName a \<and>
     ls_environment s = ls_environment a \<and> gd_labels s = gd_labels a)"

definition copy_of_stored :: "GuardStep list \<Rightarrow> GuardStep \<Rightarrow> bool" where
  "copy_of_stored steps me = (\<exists>s \<in> set steps. same_step me s \<and>
     (label (ls_outputs me) outputPushIntent \<noteq> '''' \<longrightarrow> label (ls_outputs s) outputPushIntent \<noteq> ''''))"

definition write_outputs :: "GuardStep \<Rightarrow> (string \<times> string) list \<Rightarrow> GuardStep \<Rightarrow> GuardStep" where
  "write_outputs me outs s = (if same_step me s then s\<lparr>ls_outputs := outs\<rparr> else s)"

text \<open>One event: a step fetches the branch and starts its guard; the API server answers the next call of a guard (reads of the list see
  what is stored, a write that succeeds is stored); a step whose guard passed pushes, if the branch is still the one it fetched; an
  attempt is given up; another writer commits; the steps change otherwise, with every recorded intent kept.\<close>

inductive push_step :: "GuardStep \<Rightarrow> string \<Rightarrow> push_sys \<Rightarrow> push_sys \<Rightarrow> bool" for ps pl where
  fetch: "gl_timeText lib \<noteq> '''' \<Longrightarrow> in_environment ps pl me \<Longrightarrow> copy_of_stored (sy_steps y) me \<Longrightarrow>
     push_step ps pl y (y\<lparr>sy_runs := (sy_runs y)(ls_bundleName me \<mapsto> \<lparr>pr_lib = lib, pr_step = me, pr_base = length (sy_branch y),
       pr_prog = pushGuard lib me pl True (ls_outputs me), pr_bundle = None, pr_reads = None\<rparr>)\<rparr>)"
| get_bundle: "sy_runs y n = Some run \<Longrightarrow> pr_prog run = GetBundle name k \<Longrightarrow> (\<And>b. a = ApiFound b \<Longrightarrow> b_name b = name) \<Longrightarrow>
     push_step ps pl y (y\<lparr>sy_runs := (sy_runs y)(n \<mapsto>
       run\<lparr>pr_prog := k a, pr_bundle := (case a of ApiFound b \<Rightarrow> Some b | _ \<Rightarrow> None)\<rparr>)\<rparr>)"
| patched: "sy_runs y n = Some run \<Longrightarrow> pr_prog run = PatchOutputs outs k \<Longrightarrow> \<exists>s \<in> set (sy_steps y). same_step (pr_step run) s \<Longrightarrow>
     push_step ps pl y (y\<lparr>sy_steps := map (write_outputs (pr_step run) outs) (sy_steps y),
       sy_runs := (sy_runs y)(n \<mapsto> run\<lparr>pr_prog := k PatchOK\<rparr>)\<rparr>)"
| not_patched: "sy_runs y n = Some run \<Longrightarrow> pr_prog run = PatchOutputs outs k \<Longrightarrow> r \<noteq> PatchOK \<Longrightarrow>
     push_step ps pl y (y\<lparr>sy_runs := (sy_runs y)(n \<mapsto> run\<lparr>pr_prog := k r\<rparr>)\<rparr>)"
| read_others: "sy_runs y n = Some run \<Longrightarrow> pr_prog run = ReadOthers k \<Longrightarrow> reads_named (gr_bundle rd) \<Longrightarrow>
     (\<And>items. gr_steps rd = Inr items \<Longrightarrow> items = sy_steps y) \<Longrightarrow>
     push_step ps pl y (y\<lparr>sy_runs := (sy_runs y)(n \<mapsto> run\<lparr>pr_prog := k rd, pr_reads := Some rd\<rparr>)\<rparr>)"
| push: "sy_runs y n = Some run \<Longrightarrow> pr_prog run = Return None outs \<Longrightarrow> pr_base run = length (sy_branch y) \<Longrightarrow>
     push_step ps pl y (y\<lparr>sy_branch := sy_branch y @ [Pushed n (pr_lib run) (pr_bundle run) (pr_reads run)], sy_runs := (sy_runs y)(n := None)\<rparr>)"
| given_up: "push_step ps pl y (y\<lparr>sy_runs := (sy_runs y)(n := None)\<rparr>)"
| foreign: "push_step ps pl y (y\<lparr>sy_branch := sy_branch y @ [Foreign]\<rparr>)"
| others: "(\<And>n s. s \<in> set (sy_steps y) \<Longrightarrow> intends ps pl n s \<Longrightarrow> \<exists>s' \<in> set steps. intends ps pl n s') \<Longrightarrow>
     push_step ps pl y (y\<lparr>sy_steps := steps\<rparr>)"

inductive_cases push_stepE: "push_step ps pl y y'"

text \<open>The intents a list of steps shows cover a stretch of the branch; what a passed guard has seen.\<close>

definition has_intent :: "GuardStep \<Rightarrow> string \<Rightarrow> GuardStep list \<Rightarrow> string \<Rightarrow> bool" where
  "has_intent ps pl items n = (\<exists>s \<in> set items. intends ps pl n s)"

definition shows_intents :: "GuardStep \<Rightarrow> string \<Rightarrow> GuardStep list \<Rightarrow> branch_commit list \<Rightarrow> bool" where
  "shows_intents ps pl items cs = (\<forall>n lib b rd. Pushed n lib b rd \<in> set cs \<longrightarrow> has_intent ps pl items n)"

definition guarded ::
  "guard_lib \<Rightarrow> GuardStep \<Rightarrow> string \<Rightarrow> string \<Rightarrow> LifeBundle option \<Rightarrow> guard_reads option \<Rightarrow> branch_commit list \<Rightarrow> bool" where
  "guarded lib ps pl n bo rdo landed =
     (\<exists>b rd items. bo = Some b \<and> rdo = Some rd \<and> b_name b = n \<and> reads_named (gr_bundle rd) \<and>
        newerPushed lib rd ps pl b False = Inr '''' \<and> gr_steps rd = Inr items \<and> shows_intents ps pl items landed)"

text \<open>Where the guard of an attempt is: not started, its Bundle read, its intent stored, failed, or passed.\<close>

definition run_ok :: "GuardStep \<Rightarrow> string \<Rightarrow> GuardStep list \<Rightarrow> branch_commit list \<Rightarrow> string \<Rightarrow> push_run \<Rightarrow> bool" where
  "run_ok ps pl steps branch n run =
     (let me = pr_step run; lib = pr_lib run in
      gl_timeText lib \<noteq> '''' \<and> ls_bundleName me = n \<and> in_environment ps pl me \<and> pr_base run \<le> length branch \<and>
      (pr_prog run = pushGuard lib me pl True (ls_outputs me) \<and> (label (ls_outputs me) outputPushIntent \<noteq> '''' \<longrightarrow> has_intent ps pl steps n) \<or>
       (\<exists>b. pr_bundle run = Some b \<and> b_name b = n \<and> label (ls_outputs me) outputPushIntent = '''' \<and>
          pr_prog run = recordPushIntent lib (gd_name me) (ls_outputs me) (check_newer lib me pl b)) \<or>
       (\<exists>b outs. pr_bundle run = Some b \<and> b_name b = n \<and> pr_prog run = check_newer lib me pl b None outs \<and> has_intent ps pl steps n) \<or>
       (\<exists>e outs. pr_prog run = Return (Some e) outs) \<or>
       (\<exists>outs. pr_prog run = Return None outs \<and> has_intent ps pl steps n \<and>
          guarded lib ps pl n (pr_bundle run) (pr_reads run) (take (pr_base run) branch))))"

definition push_inv :: "GuardStep \<Rightarrow> string \<Rightarrow> push_sys \<Rightarrow> bool" where
  "push_inv ps pl y =
     (shows_intents ps pl (sy_steps y) (sy_branch y) \<and>
      (\<forall>n run. sy_runs y n = Some run \<longrightarrow> run_ok ps pl (sy_steps y) (sy_branch y) n run) \<and>
      (\<forall>q < length (sy_branch y). \<forall>n lib b rd. sy_branch y ! q = Pushed n lib b rd \<longrightarrow> guarded lib ps pl n b rd (take q (sy_branch y))))"

text \<open>The start: nothing pushed, nobody pushing.\<close>

definition push_start :: "push_sys \<Rightarrow> bool" where
  "push_start y = (sy_branch y = [] \<and> sy_runs y = Map.empty)"

lemma shows_intents_mono:
  "shows_intents ps pl items cs \<Longrightarrow> (\<And>n. has_intent ps pl items n \<Longrightarrow> has_intent ps pl items' n) \<Longrightarrow>
   set cs' \<subseteq> set cs \<Longrightarrow> shows_intents ps pl items' cs'"
  unfolding shows_intents_def by blast

lemma run_ok_steps:
  "run_ok ps pl steps branch n run \<Longrightarrow> (\<And>n. has_intent ps pl steps n \<Longrightarrow> has_intent ps pl steps' n) \<Longrightarrow>
   run_ok ps pl steps' branch n run"
  unfolding run_ok_def Let_def by blast

lemma run_ok_append: "run_ok ps pl steps branch n run \<Longrightarrow> run_ok ps pl steps (branch @ cs) n run"
  unfolding run_ok_def Let_def by (simp add: trans_le_add1)

lemma push_inv_run:
  "push_inv ps pl y \<Longrightarrow> run_ok ps pl (sy_steps y) (sy_branch y) n run \<Longrightarrow> push_inv ps pl (y\<lparr>sy_runs := (sy_runs y)(n \<mapsto> run)\<rparr>)"
  "push_inv ps pl y \<Longrightarrow> push_inv ps pl (y\<lparr>sy_runs := (sy_runs y)(n := None)\<rparr>)"
  by (auto simp: push_inv_def)

lemma push_inv_steps:
  assumes "push_inv ps pl y" "\<And>n. has_intent ps pl (sy_steps y) n \<Longrightarrow> has_intent ps pl steps n"
  shows "push_inv ps pl (y\<lparr>sy_steps := steps\<rparr>)"
proof -
  have "run_ok ps pl steps (sy_branch y) n run" if "sy_runs y n = Some run" for n run
    using that assms run_ok_steps [of ps pl "sy_steps y" "sy_branch y" n run steps] by (simp add: push_inv_def)
  moreover have "shows_intents ps pl steps (sy_branch y)"
    using assms shows_intents_mono [of ps pl "sy_steps y" "sy_branch y" steps "sy_branch y"] by (simp add: push_inv_def)
  ultimately show ?thesis using assms(1) by (simp add: push_inv_def)
qed

lemma push_inv_append:
  assumes inv: "push_inv ps pl y"
    and new: "\<And>n lib b rd. c = Pushed n lib b rd \<Longrightarrow> has_intent ps pl (sy_steps y) n \<and> guarded lib ps pl n b rd (sy_branch y)"
  shows "push_inv ps pl (y\<lparr>sy_branch := sy_branch y @ [c]\<rparr>)"
proof -
  have "guarded lib ps pl n b rd (take q (sy_branch y @ [c]))" if "q < Suc (length (sy_branch y))" "(sy_branch y @ [c]) ! q = Pushed n lib b rd" for q n lib b rd
    using that inv new by (cases "q = length (sy_branch y)") (auto simp: push_inv_def nth_append)
  moreover have "shows_intents ps pl (sy_steps y) (sy_branch y @ [c])" using inv new by (fastforce simp: push_inv_def shows_intents_def)
  ultimately show ?thesis using inv run_ok_append unfolding push_inv_def by simp
qed

text \<open>The events of a guard.\<close>

lemma write_outputs_kept:
  assumes "label outs outputPushIntent \<noteq> ''''" "has_intent ps pl steps n"
  shows "has_intent ps pl (map (write_outputs me outs) steps) n"
proof -
  obtain s where "s \<in> set steps" "intends ps pl n s" using assms(2) by (auto simp: has_intent_def)
  then have "write_outputs me outs s \<in> set (map (write_outputs me outs) steps)" "intends ps pl n (write_outputs me outs s)"
    using assms(1) by (auto simp: write_outputs_def intends_def in_environment_def)
  then show ?thesis unfolding has_intent_def by blast
qed

lemma write_outputs_intends:
  assumes "label outs outputPushIntent \<noteq> ''''" "in_environment ps pl me" "s \<in> set steps" "same_step me s"
  shows "has_intent ps pl (map (write_outputs me outs) steps) (ls_bundleName me)"
proof -
  have "write_outputs me outs s \<in> set (map (write_outputs me outs) steps)" "intends ps pl (ls_bundleName me) (write_outputs me outs s)"
    using assms by (auto simp: write_outputs_def intends_def in_environment_def same_step_def)
  then show ?thesis unfolding has_intent_def by blast
qed

lemma run_fetch:
  assumes t: "gl_timeText lib \<noteq> ''''" and me: "in_environment ps pl me" "copy_of_stored steps me"
  shows "run_ok ps pl steps branch (ls_bundleName me) \<lparr>pr_lib = lib, pr_step = me, pr_base = length branch,
    pr_prog = pushGuard lib me pl True (ls_outputs me), pr_bundle = None, pr_reads = None\<rparr>"
proof -
  have "has_intent ps pl steps (ls_bundleName me)" if "label (ls_outputs me) outputPushIntent \<noteq> ''''"
    using me that unfolding has_intent_def copy_of_stored_def
    by (auto simp: intends_def in_environment_def same_step_def)
  then show ?thesis using t me(1) by (simp add: run_ok_def)
qed

lemma prog_shapes [simp]:
  "pushGuard lib me pl d o1 \<noteq> PatchOutputs outs k" "pushGuard lib me pl d o1 \<noteq> ReadOthers k'" "pushGuard lib me pl d o1 \<noteq> Return e o2"
  "check_newer lib me pl b None o1 \<noteq> PatchOutputs outs k" "check_newer lib me pl b None o1 \<noteq> GetBundle name kb"
  "check_newer lib me pl b None o1 \<noteq> Return e o2"
  by (simp_all add: pushGuard_def check_newer_def)

lemmas prog_shapes_sym [simp] = prog_shapes [symmetric]

lemma intent_shape:
  "label outputs outputPushIntent = '''' \<Longrightarrow> recordPushIntent lib name outputs cont =
     PatchOutputs (set_output outputPushIntent (gl_timeText lib) outputs)
       (\<lambda>r. if r = PatchOK then cont None (set_output outputPushIntent (gl_timeText lib) outputs) else cont (Some (intent_error name r)) outputs)"
  by (simp add: recordPushIntent_def recordOutputs_def Let_def)

lemma run_get_bundle:
  assumes ok: "run_ok ps pl steps branch n run" and call: "pr_prog run = GetBundle name k"
    and a: "\<And>b. a = ApiFound b \<Longrightarrow> b_name b = name"
  shows "run_ok ps pl steps branch n (run\<lparr>pr_prog := k a, pr_bundle := (case a of ApiFound b \<Rightarrow> Some b | _ \<Rightarrow> None)\<rparr>)"
proof -
  let ?me = "pr_step run" and ?lib = "pr_lib run"
  have base: "ls_bundleName ?me = n" "in_environment ps pl ?me" "pr_base run \<le> length branch" "gl_timeText ?lib \<noteq> ''''"
    using ok by (simp_all add: run_ok_def Let_def)
  have p: "pr_prog run = pushGuard ?lib ?me pl True (ls_outputs ?me)"
    and i: "label (ls_outputs ?me) outputPushIntent \<noteq> '''' \<longrightarrow> has_intent ps pl steps n"
    using ok call by (auto simp: run_ok_def Let_def intent_shape)
  then have k: "k = check_bundle ?lib ?me pl True (ls_outputs ?me)" "name = n" using call base(1) by (simp_all add: pushGuard_def)
  show ?thesis
  proof (cases a)
    case (ApiFound b)
    then have n: "b_name b = n" using a k(2) by simp
    have "(\<exists>e outs. k a = Return (Some e) outs) \<or> k a = recordPushIntent ?lib (gd_name ?me) (ls_outputs ?me) (check_newer ?lib ?me pl b)"
      by (simp add: k(1) check_bundle_def ApiFound)
    then show ?thesis
    proof (elim disjE)
      assume "\<exists>e outs. k a = Return (Some e) outs"
      then show ?thesis using base by (auto simp: run_ok_def)
    next
      assume "k a = recordPushIntent ?lib (gd_name ?me) (ls_outputs ?me) (check_newer ?lib ?me pl b)"
      then show ?thesis using base n i ApiFound
        by (cases "label (ls_outputs ?me) outputPushIntent = ''''") (auto simp: run_ok_def Let_def recordPushIntent_def)
    qed
  qed (use base in \<open>auto simp: run_ok_def k(1) check_bundle_def\<close>)
qed

lemma run_patched:
  assumes ok: "run_ok ps pl steps branch n run" and call: "pr_prog run = PatchOutputs outs k"
  shows "label outs outputPushIntent \<noteq> ''''" "has_intent ps pl steps' n \<Longrightarrow> run_ok ps pl steps' branch n (run\<lparr>pr_prog := k PatchOK\<rparr>)"
    "r \<noteq> PatchOK \<Longrightarrow> run_ok ps pl steps branch n (run\<lparr>pr_prog := k r\<rparr>)"
proof -
  let ?me = "pr_step run" and ?lib = "pr_lib run"
  obtain b where b: "pr_bundle run = Some b" "b_name b = n"
    and shape: "outs = set_output outputPushIntent (gl_timeText ?lib) (ls_outputs ?me)"
      "k = (\<lambda>r. if r = PatchOK then check_newer ?lib ?me pl b None outs else check_newer ?lib ?me pl b (Some (intent_error (gd_name ?me) r)) (ls_outputs ?me))"
    using ok call by (auto simp: run_ok_def Let_def intent_shape)
  have base: "ls_bundleName ?me = n" "in_environment ps pl ?me" "pr_base run \<le> length branch" "gl_timeText ?lib \<noteq> ''''"
    using ok by (simp_all add: run_ok_def Let_def)
  show "label outs outputPushIntent \<noteq> ''''" using base(4) by (simp add: shape(1) label_set_output)
  show "run_ok ps pl steps' branch n (run\<lparr>pr_prog := k PatchOK\<rparr>)" if "has_intent ps pl steps' n"
    using base b that by (auto simp: run_ok_def Let_def shape(2))
  show "run_ok ps pl steps branch n (run\<lparr>pr_prog := k r\<rparr>)" if "r \<noteq> PatchOK"
    using base that by (auto simp: run_ok_def shape(2) check_newer_def)
qed

lemma run_read_others:
  assumes ok: "run_ok ps pl steps branch n run" and call: "pr_prog run = ReadOthers k" and "reads_named (gr_bundle rd)"
    and items: "\<And>items. gr_steps rd = Inr items \<Longrightarrow> items = steps" and shows_i: "shows_intents ps pl steps branch"
  shows "run_ok ps pl steps branch n (run\<lparr>pr_prog := k rd, pr_reads := Some rd\<rparr>)"
proof -
  let ?me = "pr_step run" and ?lib = "pr_lib run"
  have base: "ls_bundleName ?me = n" "in_environment ps pl ?me" "pr_base run \<le> length branch" "gl_timeText ?lib \<noteq> ''''"
    using ok by (simp_all add: run_ok_def Let_def)
  obtain b outs where b: "pr_bundle run = Some b" "b_name b = n" "pr_prog run = check_newer ?lib ?me pl b None outs" "has_intent ps pl steps n"
    using ok call by (auto simp: run_ok_def Let_def intent_shape)
  have k: "k = (\<lambda>rd. case newerPushed ?lib rd ?me pl b False of
      Inl e \<Rightarrow> Return (Some (plain_error e)) outs
    | Inr newer \<Rightarrow> if newer \<noteq> '''' then Return (Some (newer_pushed_error newer (ls_environment ?me))) outs else Return None outs)"
    using b(3) call by (simp add: check_newer_def)
  have np: "newerPushed ?lib rd ?me pl b False = newerPushed ?lib rd ps pl b False"
    using base(2) by (intro newerPushed_cong) (simp_all add: in_environment_def)
  have "(\<exists>e o1. k rd = Return (Some e) o1) \<or> k rd = Return None outs" by (auto simp: k split: sum.splits)
  then show ?thesis
  proof
    assume "\<exists>e o1. k rd = Return (Some e) o1"
    then show ?thesis using base by (auto simp: run_ok_def)
  next
    assume passed: "k rd = Return None outs"
    have n: "newerPushed ?lib rd ps pl b False = Inr ''''" using check_newer_passed passed unfolding k np by blast
    then have "gr_steps rd = Inr steps" using items by (auto simp: newerPushed_def split: sum.splits)
    moreover have "shows_intents ps pl steps (take (pr_base run) branch)"
      by (rule shows_intents_mono [OF shows_i]) (auto dest: in_set_takeD)
    ultimately have "guarded ?lib ps pl n (Some b) (Some rd) (take (pr_base run) branch)"
      using b(2) n assms(3) by (auto simp: guarded_def)
    then show ?thesis using base b passed by (auto simp: run_ok_def)
  qed
qed

lemma push_inv_step: "push_step ps pl y y' \<Longrightarrow> push_inv ps pl y \<Longrightarrow> push_inv ps pl y'"
proof (erule push_stepE, goal_cases)
  case (1 lib me)
  then show ?case unfolding 1(2) by (intro push_inv_run run_fetch)
next
  case (2 n run name k a)
  then have "run_ok ps pl (sy_steps y) (sy_branch y) n run" by (simp add: push_inv_def)
  from run_get_bundle [OF this 2(4,5)] show ?case unfolding 2(2) by (rule push_inv_run(1) [OF 2(1)])
next
  case (3 n run outs k)
  then have ok: "run_ok ps pl (sy_steps y) (sy_branch y) n run" by (simp add: push_inv_def)
  note p = run_patched [OF ok 3(4)]
  let ?steps = "map (write_outputs (pr_step run) outs) (sy_steps y)"
  have me: "ls_bundleName (pr_step run) = n" "in_environment ps pl (pr_step run)" using ok by (simp_all add: run_ok_def Let_def)
  have "has_intent ps pl ?steps n" using 3(5) write_outputs_intends [OF p(1) me(2)] me(1) by blast
  from p(2) [OF this] have "run_ok ps pl ?steps (sy_branch y) n (run\<lparr>pr_prog := k PatchOK\<rparr>)" .
  moreover have "push_inv ps pl (y\<lparr>sy_steps := ?steps\<rparr>)" by (rule push_inv_steps [OF 3(1)]) (rule write_outputs_kept [OF p(1)])
  ultimately show ?case unfolding 3(2)
    using push_inv_run(1) [of ps pl "y\<lparr>sy_steps := ?steps\<rparr>" n "run\<lparr>pr_prog := k PatchOK\<rparr>"] by simp
next
  case (4 n run outs k r)
  then have ok: "run_ok ps pl (sy_steps y) (sy_branch y) n run" by (simp add: push_inv_def)
  from run_patched(3) [OF ok 4(4) 4(5)] show ?case unfolding 4(2) by (rule push_inv_run(1) [OF 4(1)])
next
  case (5 n run k rd)
  then have "run_ok ps pl (sy_steps y) (sy_branch y) n run" "shows_intents ps pl (sy_steps y) (sy_branch y)" by (simp_all add: push_inv_def)
  from run_read_others [OF this(1) 5(4,5,6) this(2)] show ?case unfolding 5(2) by (rule push_inv_run(1) [OF 5(1)])
next
  case (6 n run outs)
  then have "run_ok ps pl (sy_steps y) (sy_branch y) n run" by (simp add: push_inv_def)
  then have "has_intent ps pl (sy_steps y) n \<and> guarded (pr_lib run) ps pl n (pr_bundle run) (pr_reads run) (sy_branch y)"
    using 6(4,5) by (auto simp: run_ok_def Let_def recordPushIntent_def recordOutputs_def split: if_splits)
  then have "push_inv ps pl (y\<lparr>sy_branch := sy_branch y @ [Pushed n (pr_lib run) (pr_bundle run) (pr_reads run)]\<rparr>)"
    by (intro push_inv_append [OF 6(1)]) auto
  then show ?case unfolding 6(2)
    using push_inv_run(2) [of ps pl "y\<lparr>sy_branch := sy_branch y @ [Pushed n (pr_lib run) (pr_bundle run) (pr_reads run)]\<rparr>" n] by simp
next
  case (7 n)
  then show ?case unfolding 7(2) by (intro push_inv_run)
next
  case 8
  then show ?case unfolding 8(2) by (intro push_inv_append) auto
next
  case (9 steps)
  then show ?case unfolding 9(2) has_intent_def [symmetric] by (intro push_inv_steps) (auto simp: has_intent_def)
qed

interpretation pushes: step_system push_start "push_step ps pl" "push_inv ps pl" for ps pl
  by unfold_locales (auto simp: push_inv_step, simp add: push_start_def push_inv_def shows_intents_def)

section \<open>Theorems\<close>

text \<open>C32. A push that is replaced does not land over the one that replaced it. When the guards of several steps run against one API
  server, call by call and in any interleaving with fetches, fast-forward pushes, commits of other writers and changes of the
  steps that keep recorded intents: when the push of \<open>i\<close> comes after the push of \<open>j\<close> on the branch, then the guard of \<open>i\<close>, run after its
  last fetch, read its own Bundle \<open>b\<close> and listed the step of \<open>j\<close> with its intent, and, unless that step had stopped without
  completing \<open>git-push\<close>, the Bundle it read for \<open>j\<close> did not supersede \<open>b\<close> in this environment.\<close>

theorem superseded_push_refused:
  assumes run: "rtranclp (push_step ps pl) y0 y" "push_start y0"
    and later: "p < q" "q < length (sy_branch y)" "sy_branch y ! p = Pushed j libj bj rdj" "sy_branch y ! q = Pushed i lib bi rdi" "i \<noteq> j"
  shows "\<exists>b rd items s. bi = Some b \<and> rdi = Some rd \<and> b_name b = i \<and> gr_steps rd = Inr items \<and> s \<in> set items \<and> intends ps pl j s \<and>
     (pushCompleted s \<or> ls_state s \<notin> {''Failed'', ''AbortedByAlarm'', ''Superseded''} \<longrightarrow> (\<forall>other. gr_bundle rd j = ApiFound other \<longrightarrow>
        (\<exists>bundles. gr_cache rd = Inr bundles \<and>
           \<not> supersedes_here lib (pipeline_read (gr_pipeline rd)) (RejectedArtifactsOf bundles (lb_pipeline b)) (ls_environment ps) b other)))"
proof -
  have "push_inv ps pl y" by (rule pushes.inv_steps [OF run])
  with later(2,4) have "guarded lib ps pl i bi rdi (take q (sy_branch y))" by (auto simp: push_inv_def)
  then obtain b rd items where g: "bi = Some b" "rdi = Some rd" "b_name b = i" "reads_named (gr_bundle rd)"
      "newerPushed lib rd ps pl b False = Inr ''''" "gr_steps rd = Inr items" "shows_intents ps pl items (take q (sy_branch y))"
    by (auto simp: guarded_def)
  have "Pushed j libj bj rdj \<in> set (take q (sy_branch y))"
    using later(1-3) by (auto simp: in_set_conv_nth intro!: exI [of _ p])
  with g(7) obtain s where s: "s \<in> set items" "intends ps pl j s" unfolding shows_intents_def has_intent_def by blast
  have "s \<in> set (push_candidates ps pl b items)" if "pushCompleted s \<or> ls_state s \<notin> {''Failed'', ''AbortedByAlarm'', ''Superseded''}"
    using that s g(3) later(5) by (auto simp: push_candidates_def intends_def in_environment_def pushedOrPushing_def)
  with s g show ?thesis
    by (auto simp: intends_def intro!: newerPushed_none [of rd lib ps pl b False items s])
qed

text \<open>Two promotions of \<open>prod\<close>: \<open>v1\<close> pushes, then the newer \<open>v2\<close>.\<close>

definition demo_push_step :: "string \<Rightarrow> string \<Rightarrow> GuardStep" where
  "demo_push_step bundle at =
     \<lparr>ls_namespace = ''team'', ls_bundleName = bundle, ls_environment = ''prod'', ls_state = ''Promoting'', ls_healthCheckExpiry = None,
      ls_outputs = (if at = '''' then [] else [(outputPushIntent, at)]), gd_name = ''step-'' @ bundle,
      gd_labels = [(''kardinal.io/pipeline'', ''app''), (''kardinal.io/environment'', ''prod'')], gd_steps = []\<rparr>"

definition demo_guard_lib :: guard_lib where
  "demo_guard_lib = \<lparr>gl_fleets = demo_lib, gl_parse = (\<lambda>_. None), gl_now = 50, gl_timeText = ''t''\<rparr>"

definition demo_read :: "string \<Rightarrow> LifeBundle api_read" where
  "demo_read n = (if n = ''v1'' then ApiFound (demo_bundle ''v1'' 10 []) else if n = ''v2'' then ApiFound (demo_bundle ''v2'' 20 []) else ApiMissing)"

definition demo_reads :: "GuardStep list \<Rightarrow> guard_reads" where
  "demo_reads items = \<lparr>gr_steps = Inr items, gr_pipeline = ApiMissing, gr_cache = Inr [], gr_bundle = demo_read\<rparr>"

text \<open>The whole attempt of a step without interference: fetch, the calls of the guard, push.\<close>

definition demo_push_sys :: "GuardStep list \<Rightarrow> branch_commit list \<Rightarrow> push_sys" where
  "demo_push_sys steps branch = \<lparr>sy_steps = steps, sy_branch = branch, sy_runs = Map.empty\<rparr>"

lemma push_attempt:
  assumes me: "in_environment ps pl me" "me \<in> set steps" "label (ls_outputs me) outputPushIntent = ''''"
    and b: "b_name b = ls_bundleName me" "\<not> lb_specRejected b" "b_phase b \<notin> {''Rejected'', ''Superseded''}"
    and rd: "reads_named (gr_bundle rd)" "gr_steps rd = Inr steps'" "newerPushed lib rd me pl b False = Inr ''''"
    and steps': "steps' = map (write_outputs me (set_output outputPushIntent (gl_timeText lib) (ls_outputs me))) steps"
    and t: "gl_timeText lib \<noteq> ''''"
  shows "rtranclp (push_step ps pl) (demo_push_sys steps branch)
    (demo_push_sys steps' (branch @ [Pushed (ls_bundleName me) lib (Some b) (Some rd)]))"
proof -
  let ?n = "ls_bundleName me" and ?outs = "set_output outputPushIntent (gl_timeText lib) (ls_outputs me)"
  let ?r = "\<lambda>prog bo rdo. \<lparr>pr_lib = lib, pr_step = me, pr_base = length branch, pr_prog = prog, pr_bundle = bo, pr_reads = rdo\<rparr>"
  let ?y = "\<lambda>steps prog bo rdo. \<lparr>sy_steps = steps, sy_branch = branch, sy_runs = [?n \<mapsto> ?r prog bo rdo]\<rparr>"
  let ?start = "pushGuard lib me pl True (ls_outputs me)" and ?intent = "recordPushIntent lib (gd_name me) (ls_outputs me) (check_newer lib me pl b)"
  have stored: "\<exists>s \<in> set steps. same_step me s" using me(2) by (auto simp: same_step_def)
  have "copy_of_stored steps me" using me(2) by (auto simp: copy_of_stored_def same_step_def)
  then have "push_step ps pl (demo_push_sys steps branch) (?y steps ?start None None)"
    using push_step.fetch [OF t me(1), of "demo_push_sys steps branch"] by (simp add: demo_push_sys_def)
  moreover have "push_step ps pl (?y steps ?start None None) (?y steps ?intent (Some b) None)"
    using push_step.get_bundle [of "?y steps ?start None None" ?n "?r ?start None None" ?n "check_bundle lib me pl True (ls_outputs me)" "ApiFound b" ps pl] b
    by (simp add: pushGuard_def check_bundle_def)
  moreover have "push_step ps pl (?y steps ?intent (Some b) None) (?y steps' (check_newer lib me pl b None ?outs) (Some b) None)"
    using push_step.patched [of "?y steps ?intent (Some b) None" ?n "?r ?intent (Some b) None" ?outs _ ps pl,
        simplified, OF intent_shape [OF me(3)] stored] unfolding steps' by simp
  moreover have "push_step ps pl (?y steps' (check_newer lib me pl b None ?outs) (Some b) None) (?y steps' (Return None ?outs) (Some b) (Some rd))"
    using push_step.read_others [of "?y steps' (check_newer lib me pl b None ?outs) (Some b) None" ?n "?r (check_newer lib me pl b None ?outs) (Some b) None" _ rd ps pl] rd
    by (simp add: check_newer_def)
  moreover have "push_step ps pl (?y steps' (Return None ?outs) (Some b) (Some rd))
      (demo_push_sys steps' (branch @ [Pushed ?n lib (Some b) (Some rd)]))"
    using push_step.push [of "?y steps' (Return None ?outs) (Some b) (Some rd)" ?n "?r (Return None ?outs) (Some b) (Some rd)" ?outs ps pl] by (simp add: demo_push_sys_def)
  ultimately show ?thesis by (meson rtranclp.rtrancl_into_rtrancl rtranclp.rtrancl_refl)
qed

definition demo_steps :: "nat \<Rightarrow> GuardStep list" where
  "demo_steps k = [demo_push_step ''v1'' (if 0 < k then ''t'' else ''''), demo_push_step ''v2'' (if 1 < k then ''t'' else '''')]"

lemma demo_push_facts:
  "demo_steps 1 = map (write_outputs (demo_push_step ''v1'' '''')
     (set_output outputPushIntent (gl_timeText demo_guard_lib) (ls_outputs (demo_push_step ''v1'' '''')))) (demo_steps 0)"
  "demo_steps 2 = map (write_outputs (demo_push_step ''v2'' '''')
     (set_output outputPushIntent (gl_timeText demo_guard_lib) (ls_outputs (demo_push_step ''v2'' '''')))) (demo_steps 1)"
  "newerPushed demo_guard_lib (demo_reads (demo_steps 1)) (demo_push_step ''v1'' '''') ''app'' (demo_bundle ''v1'' 10 []) False = Inr ''''"
  "newerPushed demo_guard_lib (demo_reads (demo_steps 2)) (demo_push_step ''v2'' '''') ''app'' (demo_bundle ''v2'' 20 []) False = Inr ''''"
  "list_all (\<lambda>s. ls_state s = ''Promoting'') (demo_steps 2)"
  "gl_timeText demo_guard_lib \<noteq> ''''"
  by code_simp+

lemma demo_push_objects:
  "in_environment (demo_push_step ''v1'' '''') ''app'' (demo_push_step n '''')" "label (ls_outputs (demo_push_step n '''')) outputPushIntent = ''''"
  "ls_bundleName (demo_push_step n '''') = n"
  "b_name (demo_bundle n at images) = n" "\<not> lb_specRejected (demo_bundle n at images)" "b_phase (demo_bundle n at images) \<notin> {''Rejected'', ''Superseded''}"
  "reads_named (gr_bundle (demo_reads items))" "gr_steps (demo_reads items) = Inr items"
  by (auto simp: in_environment_def demo_push_step_def label_def demo_bundle_def reads_named_def demo_reads_def demo_read_def split: if_splits)

lemma demo_push_run:
  "rtranclp (push_step (demo_push_step ''v1'' '''') ''app'') (demo_push_sys (demo_steps 0) [])
     (demo_push_sys (demo_steps 2) ([Pushed ''v1'' demo_guard_lib (Some (demo_bundle ''v1'' 10 [])) (Some (demo_reads (demo_steps 1)))] @
        [Pushed ''v2'' demo_guard_lib (Some (demo_bundle ''v2'' 20 [])) (Some (demo_reads (demo_steps 2)))]))"
proof (rule rtranclp_trans)
  note attempt = push_attempt [OF demo_push_objects(1) _ demo_push_objects(2) _ demo_push_objects(5-8) _ _ demo_push_facts(6),
      unfolded demo_push_objects(3,4), OF _ refl]
  show "rtranclp (push_step (demo_push_step ''v1'' '''') ''app'') (demo_push_sys (demo_steps 0) [])
     (demo_push_sys (demo_steps 1) [Pushed ''v1'' demo_guard_lib (Some (demo_bundle ''v1'' 10 [])) (Some (demo_reads (demo_steps 1)))])"
    using attempt [OF _ demo_push_facts(3,1), of "[]"] by (simp add: demo_steps_def)
  show "rtranclp (push_step (demo_push_step ''v1'' '''') ''app'')
     (demo_push_sys (demo_steps 1) [Pushed ''v1'' demo_guard_lib (Some (demo_bundle ''v1'' 10 [])) (Some (demo_reads (demo_steps 1)))])
     (demo_push_sys (demo_steps 2) ([Pushed ''v1'' demo_guard_lib (Some (demo_bundle ''v1'' 10 [])) (Some (demo_reads (demo_steps 1)))] @
        [Pushed ''v2'' demo_guard_lib (Some (demo_bundle ''v2'' 20 [])) (Some (demo_reads (demo_steps 2)))]))"
    by (rule attempt [OF _ demo_push_facts(4,2)]) (simp add: demo_steps_def)
qed

theorem superseded_push_refused_witness:
  "\<exists>s. intends (demo_push_step ''v1'' '''') ''app'' ''v1'' s \<and> ls_state s = ''Promoting'' \<and>
     \<not> supersedes_here demo_guard_lib None (RejectedArtifactsOf [] ''app'') ''prod'' (demo_bundle ''v2'' 20 []) (demo_bundle ''v1'' 10 [])"
proof -
  have "push_start (demo_push_sys (demo_steps 0) [])" by (simp add: push_start_def demo_push_sys_def)
  from superseded_push_refused [OF demo_push_run this, where p = 0 and q = 1 and j = "''v1''" and i = "''v2''" and libj = demo_guard_lib
      and bj = "Some (demo_bundle ''v1'' 10 [])" and rdj = "Some (demo_reads (demo_steps 1))"
      and lib = demo_guard_lib and bi = "Some (demo_bundle ''v2'' 20 [])" and rdi = "Some (demo_reads (demo_steps 2))"] obtain s where
      s: "s \<in> set (demo_steps 2)" "intends (demo_push_step ''v1'' '''') ''app'' ''v1'' s"
      "ls_state s = ''Promoting'' \<Longrightarrow> \<not> supersedes_here demo_guard_lib None (RejectedArtifactsOf [] (lb_pipeline (demo_bundle ''v2'' 20 [])))
         (ls_environment (demo_push_step ''v1'' '''')) (demo_bundle ''v2'' 20 []) (demo_bundle ''v1'' 10 [])"
    by (auto simp: demo_push_sys_def demo_reads_def demo_read_def pipeline_read_def intro: that)
  moreover have "ls_state s = ''Promoting''" using s(1) demo_push_facts(5) by (auto simp: list_all_iff)
  moreover have "lb_pipeline (demo_bundle ''v2'' 20 []) = ''app''" "ls_environment (demo_push_step ''v1'' '''') = ''prod''"
    by (simp_all add: demo_bundle_def demo_push_step_def)
  ultimately show ?thesis by auto
qed

end
