(* ===== verification/Git_Push.thy ===== *)
theory Git_Push
  imports Push_Guard
begin

text \<open>
  The step \<open>git-push\<close> (\<open>pkg/steps/steps/git_push.go\<close>): a direct push to the base branch with its rebases, and a forced push to the branch
  of a pull request under a lease.

  The git client, the guard (\<open>BeforePush\<close>) and the recording of outputs (\<open>RecordPushed\<close>) are functions that change a world \<open>'w\<close>; the
  optional interfaces of the client (\<open>scm.Rebaser\<close>, \<open>scm.LeasedPusher\<close>, ...) are options. \<open>RecordPushed\<close> keeps what it wrote in the
  outputs of the engine, as \<open>recordOutputs\<close> of the guard does. The first eight hex digits of a SHA-256 are the argument \<open>hash8\<close>.
\<close>

section \<open>The client\<close>

record push_error =
  pe_err :: StepErr
  ErrNonFastForward :: bool
  ErrLeaseBroken :: bool

datatype rebase_kind = ErrBranchNotMoved | ErrRebaseConflict | ErrRebaseBaseMissing | OtherRebaseError

record 'w git_client =
  BeforePush :: "(bool \<Rightarrow> 'w \<Rightarrow> StepErr option \<times> 'w) option"
  RecordPushed :: "((string \<times> string) list \<Rightarrow> 'w \<Rightarrow> StepErr option \<times> 'w) option"
  gc_push :: "string \<Rightarrow> bool \<Rightarrow> 'w \<Rightarrow> push_error option \<times> 'w"
  PushLeased :: "(string \<Rightarrow> string \<Rightarrow> 'w \<Rightarrow> push_error option \<times> 'w) option"
  RemoteBranchHead :: "(string \<Rightarrow> 'w \<Rightarrow> (StepErr + string) \<times> 'w) option"
  HeadCommit :: "('w \<Rightarrow> (StepErr + string) \<times> 'w) option"
  SameContentAsHead :: "(string \<Rightarrow> string \<Rightarrow> 'w \<Rightarrow> (StepErr + bool) \<times> 'w) option"
  RebaseOnRemote :: "(string \<Rightarrow> 'w \<Rightarrow> (rebase_kind \<times> StepErr) option \<times> 'w) option"
  gc_ctxErr :: "'w \<Rightarrow> StepErr option"

record push_state =
  pt_outputs :: "(string \<times> string) list"
  pt_opensPR :: bool
  pt_branch :: string
  pt_namespace :: string
  pt_bundle :: string
  pt_env :: string

definition wrap_err :: "string \<Rightarrow> StepErr \<Rightarrow> StepErr" where
  "wrap_err prefix e = e\<lparr>err_text := prefix @ err_text e\<rparr>"

definition step_result :: "StepOutcome \<Rightarrow> string \<Rightarrow> (string \<rightharpoonup> string) \<Rightarrow> StepResult" where
  "step_result status msg outs = \<lparr>res_status = status, res_message = msg, res_outputs = outs, res_requeueAfter = 0\<rparr>"

abbreviation failed :: "string \<Rightarrow> StepResult" where
  "failed msg \<equiv> step_result StepFailed msg Map.empty"

section \<open>The commits a step pushed\<close>

definition SameCommit :: "string \<Rightarrow> string \<Rightarrow> bool" where
  "SameCommit a0 b0 =
     (let a1 = to_lower a0; b1 = to_lower b0 in
      if a1 = '''' \<or> b1 = '''' then False
      else let (a, b) = (if length a1 > length b1 then (b1, a1) else (a1, b1))
           in a = b \<or> (7 \<le> length a \<and> has_prefix b a))"

definition maxPushedSHAs :: nat where "maxPushedSHAs = 8"

definition splitSHAs :: "string \<Rightarrow> string list" where
  "splitSHAs l = filter (\<lambda>sha. sha \<noteq> '''') (split_on (CHR '','') l)"

definition PushedSHAs :: "(string \<times> string) list \<Rightarrow> string list" where
  "PushedSHAs outputs =
     (let out = splitSHAs (label outputs ''pushedSHAs''); sha = label outputs ''pushedSHA''
      in if sha \<noteq> '''' \<and> sha \<notin> set out then out @ [sha] else out)"

definition appendPushed :: "string list \<Rightarrow> string \<Rightarrow> string list" where
  "appendPushed l sha =
     (let l' = filter (\<lambda>s. s \<noteq> sha) l @ [sha] in if maxPushedSHAs < length l' then drop (length l' - maxPushedSHAs) l' else l')"

definition OwnPush :: "(string \<times> string) list \<Rightarrow> string \<Rightarrow> bool" where
  "OwnPush outputs sha = list_ex (\<lambda>p. SameCommit p sha) (PushedSHAs outputs)"

section \<open>The branch\<close>

definition PRBranchPrefix :: string where "PRBranchPrefix = ''kardinal/''"

definition PRBranch :: "(string \<Rightarrow> string) \<Rightarrow> string \<Rightarrow> string \<Rightarrow> string \<Rightarrow> string" where
  "PRBranch hash8 namespace bundle env =
     (if namespace = '''' then PRBranchPrefix @ bundle @ ''/'' @ env
      else PRBranchPrefix @ hash8 namespace @ ''/'' @ bundle @ ''/'' @ env)"

definition prBranchFor :: "(string \<Rightarrow> string) \<Rightarrow> push_state \<Rightarrow> string" where
  "prBranchFor hash8 st =
     (let b = label (pt_outputs st) ''branch'' in
      if has_prefix b PRBranchPrefix \<and> length PRBranchPrefix < length b then b
      else PRBranch hash8 (pt_namespace st) (pt_bundle st) (pt_env st))"

definition noChanges :: "push_state \<Rightarrow> bool" where
  "noChanges st = (label (pt_outputs st) ''noChanges'' = ''true'')"

section \<open>Before the push\<close>

definition beforePush :: "'w git_client \<Rightarrow> bool \<Rightarrow> 'w \<Rightarrow> (StepResult \<times> StepErr) option \<times> 'w" where
  "beforePush c direct w =
     (case BeforePush c of
        None \<Rightarrow> (None, w)
      | Some g \<Rightarrow>
          (case g direct w of
             (None, w') \<Rightarrow> (None, w')
           | (Some e, w') \<Rightarrow>
               if ErrStalePush e then (Some (failed (err_text e), Permanent e), w')
               else (Some (failed (''check before push: '' @ err_text e), wrap_err ''check before push: '' e), w')))"

definition foreignHead :: "push_state \<Rightarrow> string \<Rightarrow> string \<Rightarrow> StepResult \<times> StepErr" where
  "foreignHead st branch head =
     (let pushed = PushedSHAs (pt_outputs st);
          fe = \<lparr>fh_PR = 0, fh_URL = '''', fh_Branch = branch, fh_Head = head,
                fh_Pushed = (if pushed \<noteq> [] then last pushed else ''''), fh_Push = True\<rparr>
      in (failed (foreign_text fe), (plain_error (foreign_text fe))\<lparr>ForeignPRHead := Some fe\<rparr>))"

definition foreignPush :: "'w git_client \<Rightarrow> push_state \<Rightarrow> string \<Rightarrow> 'w \<Rightarrow> (StepResult \<times> StepErr) \<times> 'w" where
  "foreignPush c st branch w =
     (case RemoteBranchHead c of
        None \<Rightarrow> (foreignHead st branch ''(moved during the push)'', w)
      | Some rd \<Rightarrow>
          (case rd branch w of
             (Inr head, w') \<Rightarrow> (foreignHead st branch (if head = '''' then ''(moved during the push)'' else head), w')
           | (Inl _, w') \<Rightarrow> (foreignHead st branch ''(moved during the push)'', w')))"

text \<open>\<open>RecordPushed\<close>, with the outputs it leaves.\<close>

definition record_pushed ::
  "((string \<times> string) list \<Rightarrow> 'w \<Rightarrow> StepErr option \<times> 'w) \<Rightarrow> (string \<times> string) list \<Rightarrow> push_state \<Rightarrow> 'w \<Rightarrow> StepErr option \<times> push_state \<times> 'w" where
  "record_pushed rp kvs st w =
     (case rp kvs w of
        (None, w') \<Rightarrow> (None, st\<lparr>pt_outputs := fold (\<lambda>(k, v). set_output k v) kvs (pt_outputs st)\<rparr>, w')
      | (Some e, w') \<Rightarrow> (Some e, st, w'))"

definition adoptSameContent ::
  "'w git_client \<Rightarrow> push_state \<Rightarrow> string \<Rightarrow> string \<Rightarrow> 'w \<Rightarrow> ((StepResult \<times> StepErr) + bool) \<times> push_state \<times> 'w" where
  "adoptSameContent c st branch head w =
     (case (SameContentAsHead c, RecordPushed c) of
        (Some same, Some rp) \<Rightarrow>
          (case same branch head w of
             (Inl e, w') \<Rightarrow> (Inl (failed (''read the head '' @ head @ '' of kardinal's branch '' @ branch @ '': '' @ err_text e),
                 wrap_err (''read the head of '' @ branch @ '': '') e), st, w')
           | (Inr False, w') \<Rightarrow> (Inr False, st, w')
           | (Inr True, w') \<Rightarrow>
               let adopted = join '','' (appendPushed (splitSHAs (label (pt_outputs st) ''adoptedSHAs'')) head) in
               (case record_pushed rp [(''adoptedSHAs'', adopted)] st w' of
                  (Some e, st', w'') \<Rightarrow>
                    (Inl (failed (''recording the head '' @ head @ '' of '' @ branch @ '', which holds this promotion's change, failed: '' @ err_text e), e),
                     st', w'')
                | (None, st', w'') \<Rightarrow> (Inr True, st', w'')))
      | _ \<Rightarrow> (Inr False, st, w))"

text \<open>The head to lease the forced push on: none for a push without a lease.\<close>

definition prBranchLease ::
  "'w git_client \<Rightarrow> push_state \<Rightarrow> string \<Rightarrow> bool \<Rightarrow> 'w \<Rightarrow> ((StepResult \<times> StepErr) + string option) \<times> push_state \<times> 'w" where
  "prBranchLease c st branch force w =
     (if \<not> force then (Inr None, st, w)
      else case (RemoteBranchHead c, PushLeased c) of
             (Some rd, Some _) \<Rightarrow>
               (case rd branch w of
                  (Inl e, w') \<Rightarrow> (Inl (failed (''read the head of kardinal's branch '' @ branch @ '' before the push: '' @ err_text e),
                      wrap_err (''read the head of '' @ branch @ '': '') e), st, w')
                | (Inr head, w') \<Rightarrow>
                    if head \<noteq> '''' \<and> \<not> OwnPush (pt_outputs st) head
                    then (case adoptSameContent c st branch head w' of
                            (Inl x, st', w'') \<Rightarrow> (Inl x, st', w'')
                          | (Inr False, st', w'') \<Rightarrow> (Inl (foreignHead st' branch head), st', w'')
                          | (Inr True, st', w'') \<Rightarrow> (Inr (Some head), st', w''))
                    else (Inr (Some head), st, w'))
           | _ \<Rightarrow> (Inr None, st, w))"

text \<open>The commit about to be pushed joins the history first.\<close>

definition record_history :: "'w git_client \<Rightarrow> push_state \<Rightarrow> string \<Rightarrow> bool \<Rightarrow> 'w \<Rightarrow> (StepResult \<times> StepErr) option \<times> push_state \<times> 'w" where
  "record_history c st branch force w =
     (case (RecordPushed c, HeadCommit c) of
        (Some rp, Some hc) \<Rightarrow>
          if \<not> force then (None, st, w)
          else (case hc w of
                  (Inr sha, w') \<Rightarrow>
                    if sha = '''' then (None, st, w')
                    else (case record_pushed rp [(''pushedSHAs'', join '','' (appendPushed (PushedSHAs (pt_outputs st)) sha))] st w' of
                            (Some e, st', w'') \<Rightarrow>
                              (Some (failed (''recording the commit to push to '' @ branch @ '' failed: '' @ err_text e), e), st', w'')
                          | (None, st', w'') \<Rightarrow> (None, st', w''))
                | (Inl _, w') \<Rightarrow> (None, st, w'))
      | _ \<Rightarrow> (None, st, w))"

section \<open>Rebasing\<close>

definition maxRebaseAttempts :: nat where "maxRebaseAttempts = 6"
definition maxBaseMissingRestarts :: int where "maxBaseMissingRestarts = 5"

definition rebase_stop :: "string \<Rightarrow> string \<Rightarrow> nat \<Rightarrow> rebase_kind \<Rightarrow> StepErr \<Rightarrow> nat \<times> string \<times> bool \<times> StepErr option" where
  "rebase_stop branch refused n kind e =
     (case kind of
        ErrBranchNotMoved \<Rightarrow> (n, '''', False, Some (wrap_err (''push '' @ branch @ '' was refused ('' @ refused @
            ''), but the remote branch did not move (a stale lock file, a read-only repository or a full disk on the git server?): '') e))
      | ErrRebaseConflict \<Rightarrow> (n, ''base branch '' @ branch @ '' moved and changed the files this promotion writes ('' @ err_text e @
            ''); redoing the change from a fresh clone'', False, None)
      | ErrRebaseBaseMissing \<Rightarrow> (n, ''base branch '' @ branch @ '' moved, and the clone lacks the commit to rebase from ('' @ err_text e @
            ''); redoing the change from a fresh clone'', True, None)
      | OtherRebaseError \<Rightarrow> (n, '''', False, Some (wrap_err (''rebase onto '' @ branch @ '': '') e)))"

function rebase_loop ::
  "'w git_client \<Rightarrow> (string \<Rightarrow> 'w \<Rightarrow> (rebase_kind \<times> StepErr) option \<times> 'w) \<Rightarrow> string \<Rightarrow> string \<Rightarrow> nat \<Rightarrow> 'w \<Rightarrow>
   (nat \<times> string \<times> bool \<times> StepErr option) \<times> 'w" where
  "rebase_loop c rb branch refused n w =
     (if maxRebaseAttempts \<le> n
      then ((maxRebaseAttempts, ''base branch '' @ branch @ '' kept moving ('' @ nat_str maxRebaseAttempts @
               '' rebases); retrying from a fresh clone'', False, None), w)
      else case gc_ctxErr c w of
             Some e \<Rightarrow> ((n, '''', False, Some (wrap_err (''push '' @ branch @ '': '') e)), w)
           | None \<Rightarrow>
               (case rb branch w of
                  (Some (kind, e), w1) \<Rightarrow> (rebase_stop branch refused n kind e, w1)
                | (None, w1) \<Rightarrow>
                    (case (case BeforePush c of None \<Rightarrow> (None, w1) | Some g \<Rightarrow> g True w1) of
                       (Some e, w2) \<Rightarrow> ((n + 1, '''', False, Some e), w2)
                     | (None, w2) \<Rightarrow>
                         (case gc_push c branch False w2 of
                            (None, w3) \<Rightarrow> ((n + 1, '''', False, None), w3)
                          | (Some pe, w3) \<Rightarrow>
                              if \<not> ErrNonFastForward pe then ((n + 1, '''', False, Some (pe_err pe)), w3)
                              else rebase_loop c rb branch (err_text (pe_err pe)) (n + 1) w3))))"
  by pat_completeness auto
termination
  by (relation "measure (\<lambda>(c, rb, branch, refused, n, w). maxRebaseAttempts - n)") auto

declare rebase_loop.simps [simp del]

definition rebaseAndPush :: "'w git_client \<Rightarrow> string \<Rightarrow> string \<Rightarrow> 'w \<Rightarrow> (nat \<times> string \<times> bool \<times> StepErr option) \<times> 'w" where
  "rebaseAndPush c branch refused w =
     (case RebaseOnRemote c of
        None \<Rightarrow> ((0, ''base branch '' @ branch @ '' moved while promoting; retrying from a fresh clone'', False, None), w)
      | Some rb \<Rightarrow> rebase_loop c rb branch refused 0 w)"

definition baseMissingRestart :: "(string \<Rightarrow> int) \<Rightarrow> push_state \<Rightarrow> string \<Rightarrow> string \<Rightarrow> StepResult \<times> StepErr option" where
  "baseMissingRestart atoi st branch reason =
     (let n = atoi (label (pt_outputs st) ''baseMissingRestarts'') + 1;
          outs = [''baseMissingRestarts'' \<mapsto> int_str n];
          msg = ''push to '' @ branch @ '' failed: '' @ int_str maxBaseMissingRestarts @
            '' fresh clones lacked the commit to rebase from, even after fetching the branch's recent history; '' @
            ''the branch is probably force-pushed or rewritten while promoting (last: '' @ reason @ '')''
      in if maxBaseMissingRestarts < n then (step_result StepFailed msg outs, Some (Permanent (plain_error msg)))
         else (step_result StepRestart reason outs, None))"

section \<open>The step\<close>

text \<open>After a push that landed: the commit of a pull request's branch is recorded, then the step reports.\<close>

definition push_landed :: "'w git_client \<Rightarrow> push_state \<Rightarrow> string \<Rightarrow> bool \<Rightarrow> nat \<Rightarrow> 'w \<Rightarrow> StepResult \<times> StepErr option \<times> push_state \<times> 'w" where
  "push_landed c st branch force rebases w =
     (let (sha, w1) = (case HeadCommit c of
            Some hc \<Rightarrow> if force then (case hc w of (Inr s, w') \<Rightarrow> (s, w') | (Inl _, w') \<Rightarrow> ('''', w')) else ('''', w)
          | None \<Rightarrow> ('''', w));
          history = join '','' (appendPushed (PushedSHAs (pt_outputs st)) sha);
          outs0 = [(''branch'', branch)] @ (if sha \<noteq> '''' then [(''pushedSHA'', sha), (''pushedSHAs'', history)] else []);
          (err, st1, w2) = (case RecordPushed c of
            Some rp \<Rightarrow> if sha \<noteq> '''' then record_pushed rp [(''pushedSHA'', sha), (''pushedSHAs'', history), (''branch'', branch)] st w1
                       else (None, st, w1)
          | None \<Rightarrow> (None, st, w1))
      in case err of
           Some e \<Rightarrow> (failed (''pushed '' @ branch @ ''; recording the pushed commit failed: '' @ err_text e), Some e, st1, w2)
         | None \<Rightarrow>
             (step_result StepSuccess
                (if 0 < rebases
                 then ''pushed '' @ branch @ '' after rebasing onto '' @ nat_str rebases @ '' newer commit(s) of other writers''
                 else ''pushed '' @ branch)
                (map_of (outs0 @ (if 0 < rebases then [(''rebases'', nat_str rebases)] else []))), None, st1, w2))"

definition push_failed :: "StepErr \<Rightarrow> StepResult \<times> StepErr option" where
  "push_failed e =
     (if ErrStalePush e then (failed (err_text e), Some (Permanent e)) else (failed (''push failed: '' @ err_text e), Some e))"

definition direct_push :: "(string \<Rightarrow> int) \<Rightarrow> 'w git_client \<Rightarrow> push_state \<Rightarrow> string \<Rightarrow> 'w \<Rightarrow> StepResult \<times> StepErr option \<times> push_state \<times> 'w" where
  "direct_push atoi c st branch w =
     (case gc_push c branch False w of
        (None, w1) \<Rightarrow> push_landed c st branch False 0 w1
      | (Some pe, w1) \<Rightarrow>
          if \<not> ErrNonFastForward pe then (let (r, e) = push_failed (pe_err pe) in (r, e, st, w1))
          else (case rebaseAndPush c branch (err_text (pe_err pe)) w1 of
                  ((n, restart, True, err), w2) \<Rightarrow> (let (r, e) = baseMissingRestart atoi st branch restart in (r, e, st, w2))
                | ((n, restart, False, err), w2) \<Rightarrow>
                    if restart \<noteq> '''' then (step_result StepRestart restart Map.empty, None, st, w2)
                    else (case err of
                            Some e \<Rightarrow> (let (r, e') = push_failed e in (r, e', st, w2))
                          | None \<Rightarrow> push_landed c st branch False n w2)))"

definition forced_push :: "'w git_client \<Rightarrow> push_state \<Rightarrow> string \<Rightarrow> string option \<Rightarrow> 'w \<Rightarrow> StepResult \<times> StepErr option \<times> push_state \<times> 'w" where
  "forced_push c st branch lease w =
     (case (case (lease, PushLeased c) of (Some head, Some pl) \<Rightarrow> pl branch head w | _ \<Rightarrow> gc_push c branch True w) of
        (None, w1) \<Rightarrow> push_landed c st branch True 0 w1
      | (Some pe, w1) \<Rightarrow>
          if lease \<noteq> None \<and> ErrLeaseBroken pe then (let ((r, e), w2) = foreignPush c st branch w1 in (r, Some e, st, w2))
          else (let (r, e) = push_failed (pe_err pe) in (r, e, st, w1)))"

definition gitPush ::
  "(string \<Rightarrow> string) \<Rightarrow> (string \<Rightarrow> int) \<Rightarrow> 'w git_client option \<Rightarrow> push_state \<Rightarrow> 'w \<Rightarrow> StepResult \<times> StepErr option \<times> push_state \<times> 'w" where
  "gitPush hash8 atoi client st w =
     (case client of
        None \<Rightarrow> (failed ''GitClient not configured'', None, st, w)
      | Some c \<Rightarrow>
          if noChanges st
          then (step_result StepSuccess ''nothing to push: no changes: environment already at the target version'' Map.empty, None, st, w)
          else let force = pt_opensPR st; branch = (if force then prBranchFor hash8 st else pt_branch st) in
            (case beforePush c (\<not> force) w of
               (Some (r, e), w1) \<Rightarrow> (r, Some e, st, w1)
             | (None, w1) \<Rightarrow>
                 (case prBranchLease c st branch force w1 of
                    (Inl (r, e), st2, w2) \<Rightarrow> (r, Some e, st2, w2)
                  | (Inr lease, st2, w2) \<Rightarrow>
                      (case record_history c st2 branch force w2 of
                         (Some (r, e), st3, w3) \<Rightarrow> (r, Some e, st3, w3)
                       | (None, st3, w3) \<Rightarrow>
                           if force then forced_push c st3 branch lease w3 else direct_push atoi c st3 branch w3))))"

section \<open>Traces\<close>

text \<open>A client that also records what it is asked, newest first.\<close>

datatype git_event =
    EvGuard bool bool
  | EvPush string bool bool
  | EvLeased string string bool
  | EvRebase bool
  | EvHead string
  | EvSame string bool

type_synonym 'w logged = "'w \<times> git_event list"

definition logged :: "('r \<Rightarrow> git_event list) \<Rightarrow> ('w \<Rightarrow> 'r \<times> 'w) \<Rightarrow> 'w logged \<Rightarrow> 'r \<times> 'w logged" where
  "logged ev f x = (let (r, w) = f (fst x) in (r, w, ev r @ snd x))"

definition traced :: "'w git_client \<Rightarrow> 'w logged git_client" where
  "traced c =
     \<lparr>BeforePush = map_option (\<lambda>g direct. logged (\<lambda>e. [EvGuard direct (e = None)]) (g direct)) (BeforePush c),
      RecordPushed = map_option (\<lambda>rp kvs. logged (\<lambda>_. []) (rp kvs)) (RecordPushed c),
      gc_push = (\<lambda>branch force. logged (\<lambda>e. [EvPush branch force (e = None)]) (gc_push c branch force)),
      PushLeased = map_option (\<lambda>pl branch lease. logged (\<lambda>e. [EvLeased branch lease (e = None)]) (pl branch lease)) (PushLeased c),
      RemoteBranchHead = map_option (\<lambda>rd branch. logged (\<lambda>r. case r of Inr head \<Rightarrow> [EvHead head] | Inl _ \<Rightarrow> []) (rd branch)) (RemoteBranchHead c),
      HeadCommit = map_option (logged (\<lambda>_. [])) (HeadCommit c),
      SameContentAsHead = map_option (\<lambda>sc branch head. logged (\<lambda>r. [EvSame head (r = Inr True)]) (sc branch head)) (SameContentAsHead c),
      RebaseOnRemote = map_option (\<lambda>rb branch. logged (\<lambda>e. [EvRebase (e = None)]) (rb branch)) (RebaseOnRemote c),
      gc_ctxErr = (\<lambda>x. gc_ctxErr c (fst x))\<rparr>"

lemma logged_eq: "logged ev f (w, tr) = (r, w', tr') \<longleftrightarrow> f w = (r, w') \<and> tr' = ev r @ tr"
  by (auto simp: logged_def split: prod.splits)

text \<open>Pushes to the base branch: to that branch, without force, each right after a passed guard, and, but for the first, after a
  rebase onto the fetched branch before that guard.\<close>

fun pushed_before :: "git_event list \<Rightarrow> nat" where
  "pushed_before [] = 0"
| "pushed_before (EvPush b f ok # tr) = Suc (pushed_before tr)"
| "pushed_before (EvLeased b l ok # tr) = Suc (pushed_before tr)"
| "pushed_before (_ # tr) = pushed_before tr"

fun direct_ok :: "string \<Rightarrow> git_event list \<Rightarrow> bool" where
  "direct_ok branch [] = True"
| "direct_ok branch (EvPush b f ok # tr) =
     (b = branch \<and> \<not> f \<and> (\<exists>tr2. tr = EvGuard True True # tr2 \<and> (pushed_before tr2 = 0 \<or> (\<exists>tr3. tr2 = EvRebase True # tr3))) \<and>
      direct_ok branch tr)"
| "direct_ok branch (EvLeased b l ok # tr) = False"
| "direct_ok branch (_ # tr) = direct_ok branch tr"

text \<open>Pushes to the branch of a pull request, for a client that reads heads and takes leases: only under a lease, on an absent branch,
  a commit the step pushed, or one with the content about to be pushed.\<close>

fun forced_ok :: "(string \<times> string) list \<Rightarrow> string \<Rightarrow> git_event list \<Rightarrow> bool" where
  "forced_ok outputs branch [] = True"
| "forced_ok outputs branch (EvPush b f ok # tr) = False"
| "forced_ok outputs branch (EvLeased b lease ok # tr) =
     (b = branch \<and> EvHead lease \<in> set tr \<and> EvGuard False True \<in> set tr \<and>
      (lease = '''' \<or> OwnPush outputs lease \<or> EvSame lease True \<in> set tr) \<and> pushed_before tr = 0 \<and> forced_ok outputs branch tr)"
| "forced_ok outputs branch (_ # tr) = forced_ok outputs branch tr"

lemma forced_quiet: "pushed_before tr = 0 \<Longrightarrow> forced_ok outs branch tr"
  by (induction outs branch tr rule: forced_ok.induct) auto

lemma push_landed_trace:
  "push_landed (traced c) st branch force n (w, tr) = (r, e, st', w', tr') \<Longrightarrow> tr' = tr"
  by (auto simp: push_landed_def traced_def record_pushed_def logged_eq Let_def map_option_case
      split: prod.splits option.splits if_splits sum.splits)

lemma rebase_loop_trace:
  assumes "rebase_loop (traced c) (\<lambda>branch. logged (\<lambda>e. [EvRebase (e = None)]) (rb branch)) branch refused n (w, tr) = (out, w', tr')"
    "BeforePush c \<noteq> None" "direct_ok branch tr"
  shows "direct_ok branch tr' \<and> pushed_before tr' \<le> pushed_before tr + (maxRebaseAttempts - n)"
  using assms
proof (induction "maxRebaseAttempts - n" arbitrary: refused n w tr)
  case 0
  then show ?case by (subst (asm) rebase_loop.simps) auto
next
  case (Suc k)
  obtain g where g: "BeforePush c = Some g" using Suc.prems(2) by auto
  from Suc.hyps(2) have n: "\<not> maxRebaseAttempts \<le> n" "k = maxRebaseAttempts - (n + 1)" by simp_all
  obtain r1 w1 where rb: "rb branch w = (r1, w1)" by (cases "rb branch w")
  obtain r2 w2 where gd: "g True w1 = (r2, w2)" by (cases "g True w1")
  obtain r3 w3 where ps: "gc_push c branch False w2 = (r3, w3)" by (cases "gc_push c branch False w2")
  have step: "rebase_loop (traced c) (\<lambda>branch. logged (\<lambda>e. [EvRebase (e = None)]) (rb branch)) branch refused n (w, tr) =
    (case gc_ctxErr c w of
       Some e \<Rightarrow> ((n, '''', False, Some (wrap_err (''push '' @ branch @ '': '') e)), w, tr)
     | None \<Rightarrow> (case r1 of
         Some (kind, e) \<Rightarrow> (rebase_stop branch refused n kind e, w1, EvRebase False # tr)
       | None \<Rightarrow> (case r2 of
           Some e \<Rightarrow> ((n + 1, '''', False, Some e), w2, EvGuard True False # EvRebase True # tr)
         | None \<Rightarrow> (case r3 of
             None \<Rightarrow> ((n + 1, '''', False, None), w3, EvPush branch False True # EvGuard True True # EvRebase True # tr)
           | Some pe \<Rightarrow>
               if \<not> ErrNonFastForward pe
               then ((n + 1, '''', False, Some (pe_err pe)), w3, EvPush branch False False # EvGuard True True # EvRebase True # tr)
               else rebase_loop (traced c) (\<lambda>branch. logged (\<lambda>e. [EvRebase (e = None)]) (rb branch)) branch (err_text (pe_err pe)) (n + 1)
                      (w3, EvPush branch False False # EvGuard True True # EvRebase True # tr)))))"
    using n(1) by (subst rebase_loop.simps) (simp add: traced_def logged_def g rb gd ps split: option.splits prod.splits)
  let ?tr = "EvPush branch False False # EvGuard True True # EvRebase True # tr"
  have ih: "direct_ok branch tr' \<and> pushed_before tr' \<le> pushed_before ?tr + k"
    if "rebase_loop (traced c) (\<lambda>branch. logged (\<lambda>e. [EvRebase (e = None)]) (rb branch)) branch (err_text (pe_err pe)) (n + 1) (w3, ?tr) = (out, w', tr')" for pe
    using Suc.hyps(1) [OF n(2) that Suc.prems(2)] Suc.prems(3) n(2) by simp
  show ?case
    using Suc.prems(1,3) ih Suc.hyps(2) unfolding step
    by (fastforce split: option.splits prod.splits if_splits)
qed

lemma direct_push_trace:
  assumes "direct_push atoi (traced c) st branch (w, [EvGuard True True]) = (r, e, st', w', tr)" "BeforePush c \<noteq> None"
  shows "direct_ok branch tr \<and> pushed_before tr \<le> Suc maxRebaseAttempts"
proof -
  obtain x w1 where p: "gc_push c branch False w = (x, w1)" by (cases "gc_push c branch False w")
  let ?tr = "[EvPush branch False (x = None), EvGuard True True]"
  have push: "gc_push (traced c) branch False (w, [EvGuard True True]) = (x, w1, ?tr)"
    by (simp add: traced_def logged_def p)
  have rebase: "direct_ok branch tr2 \<and> pushed_before tr2 \<le> Suc maxRebaseAttempts"
    if "rebaseAndPush (traced c) branch refused (w1, ?tr) = (out, w2, tr2)" for refused out w2 tr2
  proof (cases "RebaseOnRemote c")
    case None
    then have "RebaseOnRemote (traced c) = None" by (simp add: traced_def)
    with that show ?thesis by (auto simp: rebaseAndPush_def)
  next
    case (Some rb)
    then have "RebaseOnRemote (traced c) = Some (\<lambda>branch. logged (\<lambda>e. [EvRebase (e = None)]) (rb branch))" by (simp add: traced_def)
    with that have "rebase_loop (traced c) (\<lambda>branch. logged (\<lambda>e. [EvRebase (e = None)]) (rb branch)) branch refused 0 (w1, ?tr) = (out, w2, tr2)"
      by (simp add: rebaseAndPush_def)
    from rebase_loop_trace [OF this assms(2)] show ?thesis by simp
  qed
  have landed: "tr = tr2" if "push_landed (traced c) st branch False n (w2, tr2) = (r, e, st', w', tr)" for n w2 tr2
    using push_landed_trace [OF that] .
  show ?thesis
  proof (cases x)
    case None
    then show ?thesis using assms(1) by (auto simp: direct_push_def push dest!: landed)
  next
    case (Some pe)
    obtain n restart missing err w2 tr2 where rp: "rebaseAndPush (traced c) branch (err_text (pe_err pe)) (w1, [EvPush branch False False, EvGuard True True]) = ((n, restart, missing, err), w2, tr2)"
      by (metis prod_cases4 surj_pair)
    have "direct_ok branch tr2 \<and> pushed_before tr2 \<le> Suc maxRebaseAttempts" using rebase rp by (simp add: Some)
    then show ?thesis
      using assms(1) by (auto simp: direct_push_def push Some rp Let_def dest!: landed split: if_splits prod.splits option.splits bool.splits)
  qed
qed

text \<open>What the lease is taken on, with the events up to the push.\<close>

lemma prBranchLease_trace:
  assumes "prBranchLease (traced c) st branch True (w, [EvGuard False True]) = (x, st', w', tr)"
    and client: "RemoteBranchHead c \<noteq> None" "PushLeased c \<noteq> None"
  shows "pushed_before tr = 0 \<and> EvGuard False True \<in> set tr \<and>
    (\<forall>lease. x = Inr lease \<longrightarrow> (\<exists>head. lease = Some head \<and> EvHead head \<in> set tr \<and>
       (head = '''' \<or> OwnPush (pt_outputs st) head \<or> EvSame head True \<in> set tr)))"
proof -
  obtain rd pl where c: "RemoteBranchHead c = Some rd" "PushLeased c = Some pl" using client by auto
  obtain y w1 where rd: "rd branch w = (y, w1)" by (cases "rd branch w")
  have t: "RemoteBranchHead (traced c) = Some (\<lambda>branch. logged (\<lambda>r. case r of Inr head \<Rightarrow> [EvHead head] | Inl _ \<Rightarrow> []) (rd branch))"
    "\<exists>pl'. PushLeased (traced c) = Some pl'" by (simp_all add: traced_def c)
  then obtain pl' where t2: "PushLeased (traced c) = Some pl'" by blast
  have adopt: "set tr1 \<subseteq> set tr2 \<and> (pushed_before tr1 = 0 \<longrightarrow> pushed_before tr2 = 0) \<and> (z = Inr True \<longrightarrow> EvSame head True \<in> set tr2)"
    if "adoptSameContent (traced c) st branch head (w1, tr1) = (z, st2, w2, tr2)" for head tr1 z st2 w2 tr2
    using that by (auto simp: adoptSameContent_def traced_def map_option_case logged_def record_pushed_def Let_def
        split: option.splits prod.splits sum.splits bool.splits)
  show ?thesis
  proof (cases y)
    case (Inl e)
    then show ?thesis using assms(1) by (auto simp: prBranchLease_def t(1) t2 logged_def rd)
  next
    case (Inr head)
    obtain z st2 w2 tr2 where a: "adoptSameContent (traced c) st branch head (w1, [EvHead head, EvGuard False True]) = (z, st2, w2, tr2)"
      by (metis prod_cases4)
    have "pushed_before [EvHead head, EvGuard False True] = 0" by simp
    then show ?thesis using assms(1) adopt [OF a] a
      by (auto simp: prBranchLease_def t(1) t2 logged_def rd Inr split: if_splits sum.splits bool.splits)
  qed
qed

lemma record_history_trace:
  "record_history (traced c) st branch force (w, tr) = (x, st', w', tr') \<Longrightarrow> tr' = tr"
  by (auto simp: record_history_def traced_def map_option_case logged_def record_pushed_def
      split: option.splits prod.splits sum.splits if_splits)

lemma forced_push_trace:
  assumes "forced_push (traced c) st branch (Some head) (w, tr) = (r, e, st', w', tr')" "PushLeased c \<noteq> None"
  shows "\<exists>tr1 ok. tr' = tr1 @ EvLeased branch head ok # tr \<and> pushed_before tr1 = 0 \<and> (\<forall>outs. forced_ok outs branch (EvLeased branch head ok # tr) \<longrightarrow> forced_ok outs branch tr')"
proof -
  obtain pl where pl: "PushLeased c = Some pl" using assms(2) by auto
  obtain x w1 where p: "pl branch head w = (x, w1)" by (cases "pl branch head w")
  have t: "PushLeased (traced c) = Some (\<lambda>branch lease. logged (\<lambda>e. [EvLeased branch lease (e = None)]) (pl branch lease))"
    by (simp add: traced_def pl)
  have head: "\<exists>tr1. tr2 = tr1 @ tr0 \<and> pushed_before tr1 = 0 \<and> (\<forall>outs. forced_ok outs branch tr0 \<longrightarrow> forced_ok outs branch tr2)"
    if "foreignPush (traced c) st branch (w1, tr0) = (y, w2, tr2)" for y w2 tr2 tr0
    using that by (auto simp: foreignPush_def traced_def map_option_case logged_def split: option.splits prod.splits sum.splits)
  have landed: "tr2 = tr0" if "push_landed (traced c) st branch True 0 (w1, tr0) = (r, e, st', w', tr2)" for tr0 tr2
    using push_landed_trace [OF that] .
  have push: "(case (Some head, PushLeased (traced c)) of (Some h, Some f) \<Rightarrow> f branch h (w, tr) | _ \<Rightarrow> gc_push (traced c) branch True (w, tr)) =
      (x, w1, EvLeased branch head (x = None) # tr)" by (simp add: t logged_def p)
  show ?thesis
  proof (cases x)
    case None
    then show ?thesis using assms(1) unfolding forced_push_def push by (auto dest!: landed)
  next
    case (Some pe)
    obtain y w2 tr2 where f: "foreignPush (traced c) st branch (w1, EvLeased branch head False # tr) = (y, w2, tr2)" by (metis prod_cases3)
    from head [OF f] show ?thesis using assms(1) unfolding forced_push_def push
      by (auto simp: Some f Let_def split: if_splits prod.splits)
  qed
qed

section \<open>The history of pushes\<close>

text \<open>Commit ids, as far as the list format cares: not empty, no comma.\<close>

definition sha_ok :: "string \<Rightarrow> bool" where
  "sha_ok sha = (sha \<noteq> '''' \<and> CHR '','' \<notin> set sha)"

lemma split_on_free: "c \<notin> set s \<Longrightarrow> split_on c s = [s]"
  by (induction s) auto

lemma split_on_append: "c \<notin> set s \<Longrightarrow> split_on c (s @ c # t) = s # split_on c t"
  by (induction s) auto

lemma splitSHAs_join: "list_all sha_ok l \<Longrightarrow> splitSHAs (join '','' l) = l"
  by (induction "'',''" l rule: join.induct) (auto simp: splitSHAs_def sha_ok_def split_on_free split_on_append)

lemma splitSHAs_ok: "list_all sha_ok (splitSHAs l)"
proof -
  have "c \<notin> set s" if "s \<in> set (split_on c l)" for c s
    using that by (induction l arbitrary: s) (auto split: if_splits list.splits)
  then show ?thesis by (auto simp: splitSHAs_def list_all_iff sha_ok_def)
qed

lemma appendPushed_ok: "list_all sha_ok l \<Longrightarrow> sha_ok sha \<Longrightarrow> list_all sha_ok (appendPushed l sha)"
  by (auto simp: appendPushed_def list_all_iff Let_def dest: in_set_dropD)

lemma appendPushed_last: "last (appendPushed l sha) = sha" "appendPushed l sha \<noteq> []"
  by (auto simp: appendPushed_def Let_def maxPushedSHAs_def)

lemma appendPushed_bound: "length (appendPushed l sha) \<le> maxPushedSHAs"
  by (auto simp: appendPushed_def Let_def maxPushedSHAs_def)

section \<open>The whole step\<close>

lemma pushed_before_append: "pushed_before (a @ b) = pushed_before a + pushed_before b"
  by (induction a rule: pushed_before.induct) auto

text \<open>A guard that stops leaves its event and nothing else; one that passes lets the push be prepared.\<close>

lemma before_trace:
  assumes "BeforePush c \<noteq> None"
  obtains x w1 where "beforePush (traced c) direct (w, []) = (x, w1, [EvGuard direct (x = None)])"
proof -
  obtain g where g: "BeforePush c = Some g" using assms by auto
  obtain x w1 where "g direct w = (x, w1)" by (cases "g direct w")
  with g have "\<exists>x w1. beforePush (traced c) direct (w, []) = (x, w1, [EvGuard direct (x = None)])"
    by (cases x) (auto simp: beforePush_def traced_def logged_def)
  with that show thesis by blast
qed

lemma git_push_direct:
  assumes run: "gitPush hash8 atoi (Some (traced c)) st (w, []) = (r, e, st', w', tr)"
    and guard: "BeforePush c \<noteq> None" and st: "\<not> noChanges st" "\<not> pt_opensPR st"
  shows "direct_ok (pt_branch st) tr \<and> pushed_before tr \<le> 7"
proof -
  obtain x w1 where before: "beforePush (traced c) True (w, []) = (x, w1, [EvGuard True (x = None)])" by (rule before_trace [OF guard])
  have prep: "prBranchLease (traced c) st (pt_branch st) False y = (Inr None, st, y)"
    "record_history (traced c) st (pt_branch st) False y = (None, st, y)" for y
    by (auto simp: prBranchLease_def record_history_def split: option.splits)
  show ?thesis
  proof (cases x)
    case (Some z)
    with run before st show ?thesis by (auto simp: gitPush_def Let_def split: prod.splits)
  next
    case None
    with run before st prep have "direct_push atoi (traced c) st (pt_branch st) (w1, [EvGuard True True]) = (r, e, st', w', tr)"
      by (simp add: gitPush_def Let_def)
    from direct_push_trace [OF this guard] show ?thesis by (simp add: maxRebaseAttempts_def)
  qed
qed

lemma git_push_forced:
  assumes run: "gitPush hash8 atoi (Some (traced c)) st (w, []) = (r, e, st', w', tr)"
    and guard: "BeforePush c \<noteq> None" and st: "\<not> noChanges st" "pt_opensPR st"
    and client: "RemoteBranchHead c \<noteq> None" "PushLeased c \<noteq> None"
  shows "forced_ok (pt_outputs st) (prBranchFor hash8 st) tr \<and> pushed_before tr \<le> 1"
proof -
  let ?branch = "prBranchFor hash8 st"
  obtain x w1 where before: "beforePush (traced c) False (w, []) = (x, w1, [EvGuard False (x = None)])" by (rule before_trace [OF guard])
  show ?thesis
  proof (cases x)
    case (Some z)
    with run before st show ?thesis by (auto simp: gitPush_def Let_def split: prod.splits)
  next
    case None
    obtain y st2 w2 tr2 where lease: "prBranchLease (traced c) st ?branch True (w1, [EvGuard False True]) = (y, st2, w2, tr2)" by (metis prod_cases4)
    obtain z st3 w3 tr3 where hist: "record_history (traced c) st2 ?branch True (w2, tr2) = (z, st3, w3, tr3)" by (metis prod_cases4)
    note l = prBranchLease_trace [OF lease client] and eq = record_history_trace [OF hist]
    show ?thesis
    proof (cases "\<exists>head. y = Inr (Some head) \<and> z = None")
      case False
      with run before None st lease hist eq l have "tr = tr2"
        by (auto simp: gitPush_def Let_def split: sum.splits option.splits prod.splits)
      with l show ?thesis by (simp add: forced_quiet)
    next
      case True
      then obtain head where h: "y = Inr (Some head)" "z = None" by auto
      with run before None st lease hist eq have "forced_push (traced c) st3 ?branch (Some head) (w3, tr2) = (r, e, st', w', tr)"
        by (simp add: gitPush_def Let_def)
      from forced_push_trace [OF this client(2)] obtain tr1 ok where t: "tr = tr1 @ EvLeased ?branch head ok # tr2" "pushed_before tr1 = 0"
          "forced_ok (pt_outputs st) ?branch (EvLeased ?branch head ok # tr2) \<Longrightarrow> forced_ok (pt_outputs st) ?branch tr" by blast
      from l h(1) have "forced_ok (pt_outputs st) ?branch (EvLeased ?branch head ok # tr2)" by (simp add: forced_quiet)
      with t l show ?thesis by (simp add: pushed_before_append)
    qed
  qed
qed

section \<open>Theorems\<close>

text \<open>C33. What \<open>git-push\<close> does to a remote, whatever the client and the guard answer. In a sequence without a pull request every push goes to the
  base branch without force, right after a guard that passed, and every push after the first follows a rebase onto the fetched branch
  before that guard; at most seven are made. In a sequence with a pull request, with a client that reads heads and takes leases, at most
  one push is made, after a passed guard, only under a lease on the head it read, and only when that head is absent, one of the step's
  own pushes, or holds exactly what is about to be pushed.\<close>

theorem git_push_safe:
  assumes run: "gitPush hash8 atoi (Some (traced c)) st (w, []) = (r, e, st', w', tr)" and guard: "BeforePush c \<noteq> None"
  shows "(\<not> pt_opensPR st \<longrightarrow> direct_ok (pt_branch st) tr \<and> pushed_before tr \<le> 7) \<and>
    (pt_opensPR st \<longrightarrow> RemoteBranchHead c \<noteq> None \<longrightarrow> PushLeased c \<noteq> None \<longrightarrow>
       forced_ok (pt_outputs st) (prBranchFor hash8 st) tr \<and> pushed_before tr \<le> 1)"
proof (cases "noChanges st")
  case True
  with run show ?thesis by (auto simp: gitPush_def)
next
  case False
  with git_push_direct [OF run guard] git_push_forced [OF run guard] show ?thesis by blast
qed

text \<open>A base branch that moves twice while \<open>git-push\<close> runs: the world counts the pushes.\<close>

definition busy_remote :: "nat git_client" where
  "busy_remote =
     \<lparr>BeforePush = Some (\<lambda>_ w. (None, w)), RecordPushed = None,
      gc_push = (\<lambda>_ _ w. if w < 2 then (Some \<lparr>pe_err = plain_error ''rejected'', ErrNonFastForward = True, ErrLeaseBroken = False\<rparr>, w + 1) else (None, w + 1)),
      PushLeased = None, RemoteBranchHead = None, HeadCommit = None, SameContentAsHead = None,
      RebaseOnRemote = Some (\<lambda>_ w. (None, w)), gc_ctxErr = (\<lambda>_. None)\<rparr>"

definition busy_state :: push_state where
  "busy_state = \<lparr>pt_outputs = [], pt_opensPR = False, pt_branch = ''main'', pt_namespace = ''team'', pt_bundle = ''v1'', pt_env = ''prod''\<rparr>"

definition busy_run :: "StepResult \<times> StepErr option \<times> push_state \<times> nat logged" where
  "busy_run = gitPush (\<lambda>_. ''00000000'') (\<lambda>_. 0) (Some (traced busy_remote)) busy_state (0, [])"

lemma busy_facts: "fst (snd busy_run) = None" "pushed_before (snd (snd (snd (snd busy_run)))) = 3" "res_message (fst busy_run) =
    ''pushed main after rebasing onto 2 newer commit(s) of other writers''"
  by code_simp+

theorem git_push_safe_witness:
  "direct_ok ''main'' (snd (snd (snd (snd busy_run)))) \<and> pushed_before (snd (snd (snd (snd busy_run)))) = 3"
proof -
  obtain r e st' w' tr where run: "busy_run = (r, e, st', w', tr)" by (metis prod_cases5)
  from git_push_safe [OF run [unfolded busy_run_def]] have "direct_ok ''main'' tr" by (simp add: busy_remote_def busy_state_def)
  with busy_facts(2) show ?thesis unfolding run by simp
qed

text \<open>The history of a pull request's branch reads back: a commit recorded by \<open>appendPushed\<close> is among the step's own pushes afterwards, whatever
  was recorded before, and the history stays within its bound.\<close>

lemma push_history_roundtrip:
  assumes "sha_ok sha" "label outputs ''pushedSHA'' = '''' \<or> sha_ok (label outputs ''pushedSHA'')"
  shows "OwnPush (set_output ''pushedSHAs'' (join '','' (appendPushed (PushedSHAs outputs) sha)) outputs) sha \<and>
    length (appendPushed (PushedSHAs outputs) sha) \<le> maxPushedSHAs"
proof -
  have "list_all sha_ok (PushedSHAs outputs)"
    using assms(2) splitSHAs_ok [of "label outputs ''pushedSHAs''"] by (auto simp: PushedSHAs_def Let_def)
  then have "splitSHAs (join '','' (appendPushed (PushedSHAs outputs) sha)) = appendPushed (PushedSHAs outputs) sha"
    using assms(1) by (intro splitSHAs_join appendPushed_ok)
  moreover have "sha \<in> set (appendPushed (PushedSHAs outputs) sha)" using appendPushed_last by (metis last_in_set)
  moreover have "SameCommit sha sha" using assms(1) by (auto simp: SameCommit_def Let_def to_lower_def sha_ok_def)
  ultimately show ?thesis
    by (auto simp: OwnPush_def PushedSHAs_def Let_def label_set_output list_ex_iff appendPushed_bound)
qed

end
