(* ===== verification/Go_Heap.thy ===== *)
theory Go_Heap
  imports Prelude
begin

text \<open>
  Go's \<open>container/heap\<close> over a slice: the array heap that the slot limiter (\<open>readyHeap\<close>) and the
  fair queue (\<open>waiters\<close>) are built on. \<open>heap_up\<close> and \<open>heap_down\<close> are the loops of the standard
  library (parent of \<open>j\<close> at \<open>(j - 1) / 2\<close>), \<open>heap_push\<close> and \<open>heap_pop\<close> the two operations the
  program calls. The order is a parameter, as \<open>heap.Interface\<close> has it (\<open>Less\<close>).

  The interface the clients rely on is the locale \<open>heap_order\<close>: \<open>Less\<close> is a strict weak order.
  Inside it, the array invariant is kept, the contents are kept as a multiset, and a pop returns a
  least element.
\<close>

section \<open>The operations\<close>

definition swap :: "'a list \<Rightarrow> nat \<Rightarrow> nat \<Rightarrow> 'a list" where
  "swap h i j = h[i := h ! j, j := h ! i]"

function heap_up :: "('a \<Rightarrow> 'a \<Rightarrow> bool) \<Rightarrow> 'a list \<Rightarrow> nat \<Rightarrow> 'a list" where
  "heap_up lt h j =
     (let i = (j - 1) div 2
      in if i = j \<or> \<not> lt (h ! j) (h ! i) then h else heap_up lt (swap h i j) i)"
  by pat_completeness auto
termination
  by (relation "measure (\<lambda>(lt, h, j). j)") auto

function heap_down :: "('a \<Rightarrow> 'a \<Rightarrow> bool) \<Rightarrow> 'a list \<Rightarrow> nat \<Rightarrow> nat \<Rightarrow> 'a list" where
  "heap_down lt h i n =
     (let j1 = 2 * i + 1
      in if j1 \<ge> n then h
         else let j2 = j1 + 1;
                  j = (if j2 < n \<and> lt (h ! j2) (h ! j1) then j2 else j1)
              in if \<not> lt (h ! j) (h ! i) then h else heap_down lt (swap h i j) j n)"
  by pat_completeness auto
termination
  by (relation "measure (\<lambda>(lt, h, i, n). n - i)") (auto simp: Let_def split: if_splits)

declare heap_up.simps [simp del] heap_down.simps [simp del]

definition heap_push :: "('a \<Rightarrow> 'a \<Rightarrow> bool) \<Rightarrow> 'a list \<Rightarrow> 'a \<Rightarrow> 'a list" where
  "heap_push lt h x = heap_up lt (h @ [x]) (length h)"

text \<open>Popping an empty heap panics in Go (index out of range): \<^const>\<open>None\<close>.\<close>

definition heap_pop :: "('a \<Rightarrow> 'a \<Rightarrow> bool) \<Rightarrow> 'a list \<Rightarrow> ('a \<times> 'a list) option" where
  "heap_pop lt h =
     (if h = [] then None
      else let n = length h - 1; h' = heap_down lt (swap h 0 n) 0 n
           in Some (h' ! n, take n h'))"

section \<open>The contents: multisets and lengths\<close>

lemma length_swap [simp]: "length (swap h i j) = length h"
  by (simp add: swap_def)

lemma nth_swap: "i < length h \<Longrightarrow> j < length h \<Longrightarrow> k < length h \<Longrightarrow>
  swap h i j ! k = (if k = i then h ! j else if k = j then h ! i else h ! k)"
  by (auto simp: swap_def nth_list_update)

lemma mset_swap_idx: "i < length h \<Longrightarrow> j < length h \<Longrightarrow> mset (swap h i j) = mset h"
  by (simp add: swap_def mset_swap)

lemma parent_less: "0 < j \<Longrightarrow> (j - 1) div 2 < (j :: nat)"
  by linarith

lemma length_heap_up [simp]: "length (heap_up lt h j) = length h"
proof (induction lt h j rule: heap_up.induct)
  case (1 lt h j)
  then show ?case by (subst heap_up.simps) (auto simp: Let_def)
qed

lemma mset_heap_up: "j < length h \<Longrightarrow> mset (heap_up lt h j) = mset h"
proof (induction lt h j rule: heap_up.induct)
  case (1 lt h j)
  show ?case
  proof (cases "(j - 1) div 2 = j \<or> \<not> lt (h ! j) (h ! ((j - 1) div 2))")
    case True
    then show ?thesis by (subst heap_up.simps) (simp add: Let_def)
  next
    case False
    then have ltp: "(j - 1) div 2 < length h" using "1.prems" by linarith
    have "mset (heap_up lt (swap h ((j - 1) div 2) j) ((j - 1) div 2)) =
        mset (swap h ((j - 1) div 2) j)"
      using "1.IH" [OF refl False] ltp by simp
    with False ltp "1.prems" show ?thesis
      by (subst heap_up.simps) (auto simp: Let_def mset_swap_idx)
  qed
qed

definition down_child :: "('a \<Rightarrow> 'a \<Rightarrow> bool) \<Rightarrow> 'a list \<Rightarrow> nat \<Rightarrow> nat \<Rightarrow> nat" where
  "down_child lt h i n =
     (if 2 * i + 2 < n \<and> lt (h ! (2 * i + 2)) (h ! (2 * i + 1)) then 2 * i + 2 else 2 * i + 1)"

lemma heap_down_unfold:
  "heap_down lt h i n =
     (if 2 * i + 1 \<ge> n then h
      else if \<not> lt (h ! down_child lt h i n) (h ! i) then h
      else heap_down lt (swap h i (down_child lt h i n)) (down_child lt h i n) n)"
  by (subst heap_down.simps) (auto simp: Let_def down_child_def)

lemma down_child_bounds:
  "2 * i + 1 < n \<Longrightarrow> i < down_child lt h i n \<and> down_child lt h i n < n"
  by (auto simp: down_child_def)

lemma parent_down_child: "(down_child lt h i n - 1) div 2 = i"
  by (simp add: down_child_def)

lemma heap_down_induct [case_names stop swap]:
  assumes stop: "\<And>h i. n \<le> 2 * i + 1 \<or> \<not> lt (h ! down_child lt h i n) (h ! i) \<Longrightarrow> P h i"
    and swap: "\<And>h i. 2 * i + 1 < n \<Longrightarrow> lt (h ! down_child lt h i n) (h ! i) \<Longrightarrow>
      P (swap h i (down_child lt h i n)) (down_child lt h i n) \<Longrightarrow> P h i"
  shows "P h i"
proof (induction "n - i" arbitrary: h i rule: less_induct)
  case less
  show ?case
  proof (cases "n \<le> 2 * i + 1 \<or> \<not> lt (h ! down_child lt h i n) (h ! i)")
    case True
    then show ?thesis by (rule stop)
  next
    case False
    then have b: "2 * i + 1 < n" by simp
    then have "n - down_child lt h i n < n - i"
      using down_child_bounds [of i n lt h] by linarith
    then have "P (swap h i (down_child lt h i n)) (down_child lt h i n)"
      by (rule less)
    moreover from False have "lt (h ! down_child lt h i n) (h ! i)" by simp
    ultimately show ?thesis by (rule swap [OF b, rotated])
  qed
qed

lemma length_heap_down [simp]: "length (heap_down lt h i n) = length h"
proof (induction h i rule: heap_down_induct [where n = n and lt = lt])
  case (stop h i)
  then show ?case by (subst heap_down_unfold) auto
next
  case (swap h i)
  then show ?case by (subst heap_down_unfold) auto
qed

text \<open>Sifting down works inside the first \<open>n\<close> cells only, and permutes them.\<close>

lemma heap_down_frame:
  "n \<le> length h \<Longrightarrow> n \<le> k \<Longrightarrow> k < length h \<Longrightarrow> heap_down lt h i n ! k = h ! k"
proof (induction h i rule: heap_down_induct [where n = n and lt = lt])
  case (stop h i)
  then show ?case by (subst heap_down_unfold) auto
next
  case (swap h i)
  then have "swap h i (down_child lt h i n) ! k = h ! k"
    using down_child_bounds [of i n lt h] by (subst nth_swap) auto
  with swap show ?case by (subst heap_down_unfold) auto
qed

lemma mset_heap_down: "n \<le> length h \<Longrightarrow> mset (heap_down lt h i n) = mset h"
proof (induction h i rule: heap_down_induct [where n = n and lt = lt])
  case (stop h i)
  then show ?case by (subst heap_down_unfold) auto
next
  case (swap h i)
  then have "mset (swap h i (down_child lt h i n)) = mset h"
    using down_child_bounds [of i n lt h] by (intro mset_swap_idx) auto
  with swap show ?case by (subst heap_down_unfold) auto
qed

lemma mset_heap_push: "mset (heap_push lt h x) = add_mset x (mset h)"
  by (simp add: heap_push_def mset_heap_up)

lemma length_heap_push: "length (heap_push lt h x) = Suc (length h)"
  by (simp add: heap_push_def)

lemma set_heap_push [simp]: "set (heap_push lt h x) = insert x (set h)"
  by (metis mset_heap_push set_mset_add_mset_insert set_mset_mset)

lemma heap_pop_Some:
  assumes "heap_pop lt h = Some (x, h')"
  shows "h \<noteq> []" and "x = h ! 0" and "mset h = add_mset x (mset h')"
    and "h' = take (length h - 1) (heap_down lt (swap h 0 (length h - 1)) 0 (length h - 1))"
proof -
  let ?n = "length h - 1"
  let ?d = "heap_down lt (swap h 0 ?n) 0 ?n"
  show ne: "h \<noteq> []" using assms by (auto simp: heap_pop_def)
  then have n: "?n < length h" by simp
  from assms ne have x: "x = ?d ! ?n" and h': "h' = take ?n ?d"
    by (auto simp: heap_pop_def Let_def)
  show "h' = take ?n ?d" by (rule h')
  have "?d ! ?n = swap h 0 ?n ! ?n"
    using n by (intro heap_down_frame) auto
  then show "x = h ! 0" using x n ne by (auto simp: nth_swap)
  have "mset h = mset ?d"
    using n ne by (simp add: mset_heap_down mset_swap_idx)
  also have "?d = take ?n ?d @ [?d ! ?n]"
    using n by (metis Suc_pred' le_refl length_greater_0_conv length_heap_down length_swap ne
        take_Suc_conv_app_nth take_all)
  finally show "mset h = add_mset x (mset h')"
    by (simp add: x h')
qed

lemma heap_pop_None [simp]: "heap_pop lt h = None \<longleftrightarrow> h = []"
  by (simp add: heap_pop_def Let_def)

lemma heap_pop_Nil [simp]: "heap_pop lt [] = None"
  by simp

lemma heap_pop_length: "heap_pop lt h = Some (x, h') \<Longrightarrow> length h = Suc (length h')"
  by (metis heap_pop_Some(3) size_add_mset size_mset)

section \<open>The order: a strict weak order, the array invariant, minimality\<close>

definition is_heap_upto :: "('a \<Rightarrow> 'a \<Rightarrow> bool) \<Rightarrow> 'a list \<Rightarrow> nat \<Rightarrow> bool" where
  "is_heap_upto lt h n \<longleftrightarrow> (\<forall>k. 0 < k \<and> k < n \<longrightarrow> \<not> lt (h ! k) (h ! ((k - 1) div 2)))"

abbreviation is_heap :: "('a \<Rightarrow> 'a \<Rightarrow> bool) \<Rightarrow> 'a list \<Rightarrow> bool" where
  "is_heap lt h \<equiv> is_heap_upto lt h (length h)"

text \<open>The array is a heap but for one cell: \<open>j\<close> may be smaller than its parent, and then its
  children are still not smaller than that parent.\<close>

definition heap_but_up :: "('a \<Rightarrow> 'a \<Rightarrow> bool) \<Rightarrow> 'a list \<Rightarrow> nat \<Rightarrow> bool" where
  "heap_but_up lt h j \<longleftrightarrow>
     (\<forall>k. 0 < k \<and> k < length h \<and> k \<noteq> j \<longrightarrow> \<not> lt (h ! k) (h ! ((k - 1) div 2))) \<and>
     (\<forall>k. 0 < j \<and> 0 < k \<and> k < length h \<and> (k - 1) div 2 = j \<longrightarrow> \<not> lt (h ! k) (h ! ((j - 1) div 2)))"

text \<open>The same for sifting down: only the children of \<open>i\<close> may be smaller than \<open>i\<close>.\<close>

definition heap_but_down :: "('a \<Rightarrow> 'a \<Rightarrow> bool) \<Rightarrow> 'a list \<Rightarrow> nat \<Rightarrow> nat \<Rightarrow> bool" where
  "heap_but_down lt h i n \<longleftrightarrow>
     (\<forall>k. 0 < k \<and> k < n \<and> (k - 1) div 2 \<noteq> i \<longrightarrow> \<not> lt (h ! k) (h ! ((k - 1) div 2))) \<and>
     (\<forall>k. 0 < i \<and> 0 < k \<and> k < n \<and> (k - 1) div 2 = i \<longrightarrow> \<not> lt (h ! k) (h ! ((i - 1) div 2)))"

lemma parent_cases: "0 < k \<Longrightarrow> (k - 1) div 2 = i \<Longrightarrow> k = 2 * i + 1 \<or> k = 2 * i + (2::nat)"
  by presburger

lemma parent_neq: "0 < k \<Longrightarrow> (k - 1) div 2 \<noteq> (k::nat)"
  by presburger

locale heap_order =
  fixes lt :: "'a \<Rightarrow> 'a \<Rightarrow> bool"
  assumes asym: "lt x y \<Longrightarrow> \<not> lt y x"
    and neg_trans: "\<not> lt x y \<Longrightarrow> \<not> lt y z \<Longrightarrow> \<not> lt x z"
begin

lemma up_step:
  assumes h: "heap_but_up lt h j" and j: "j < length h" "0 < j"
    and swp: "lt (h ! j) (h ! ((j - 1) div 2))"
  shows "heap_but_up lt (swap h ((j - 1) div 2) j) ((j - 1) div 2)"
proof -
  let ?i = "(j - 1) div 2"
  have i: "?i < j" "?i < length h" using j parent_less [of j] by auto
  have ord: "\<not> lt (h ! k) (h ! ((k - 1) div 2))" if "0 < k" "k < length h" "k \<noteq> j" for k
    using h that by (auto simp: heap_but_up_def)
  have chld: "\<not> lt (h ! k) (h ! ?i)" if "0 < k" "k < length h" "(k - 1) div 2 = j" for k
    using h that j by (auto simp: heap_but_up_def)
  have bck: "\<not> lt (h ! ?i) (h ! j)" using swp by (rule asym)
  have nth: "swap h ?i j ! k = (if k = ?i then h ! j else if k = j then h ! ?i else h ! k)"
    if "k < length h" for k
    using that i j by (simp add: nth_swap)
  have sib: "\<not> lt (h ! k) (h ! j)" if "0 < k" "k < length h" "k \<noteq> j" "(k - 1) div 2 = ?i" for k
    using neg_trans [OF _ bck] ord [OF that(1-3)] that(4) by simp
  have "\<not> lt (swap h ?i j ! k) (swap h ?i j ! ((k - 1) div 2))"
    if k: "0 < k" "k < length h" "k \<noteq> ?i" for k
  proof -
    have p: "(k - 1) div 2 < length h" using k by linarith
    show ?thesis
      unfolding nth [OF k(2)] nth [OF p]
      using k i j bck parent_neq [OF k(1)] sib [OF k(1,2)] chld [OF k(1,2)] ord [OF k(1,2)]
      by auto
  qed
  moreover have "\<not> lt (swap h ?i j ! k) (swap h ?i j ! ((?i - 1) div 2))"
    if k: "0 < ?i" "0 < k" "k < length h" "(k - 1) div 2 = ?i" for k
  proof -
    have p: "(?i - 1) div 2 < ?i" using k(1) by (rule parent_less)
    have up: "\<not> lt (h ! ?i) (h ! ((?i - 1) div 2))" using ord [of ?i] i k by simp
    have "k \<noteq> ?i" using parent_neq [OF k(2)] k(4) by auto
    moreover have "\<not> lt (h ! k) (h ! ((?i - 1) div 2))" if "k \<noteq> j"
      using neg_trans [OF _ up] ord [of k] that k by simp
    moreover have pl: "(?i - 1) div 2 < length h" using p i by linarith
    ultimately show ?thesis unfolding nth [OF k(3)] nth [OF pl] using p i up by auto
  qed
  ultimately show ?thesis by (simp add: heap_but_up_def)
qed

lemma up_heap: "heap_but_up lt h j \<Longrightarrow> j < length h \<Longrightarrow> is_heap lt (heap_up lt h j)"
proof (induction j arbitrary: h rule: less_induct)
  case (less j)
  show ?case
  proof (cases "(j - 1) div 2 = j \<or> \<not> lt (h ! j) (h ! ((j - 1) div 2))")
    case True
    then have "heap_up lt h j = h" by (subst heap_up.simps) (simp add: Let_def)
    moreover have "is_heap lt h"
      using True less.prems(1) by (force simp: heap_but_up_def is_heap_upto_def)
    ultimately show ?thesis by simp
  next
    case False
    then have j: "0 < j" by auto
    have "heap_but_up lt (swap h ((j - 1) div 2) j) ((j - 1) div 2)"
      using less.prems j False by (intro up_step) auto
    then have "is_heap lt (heap_up lt (swap h ((j - 1) div 2) j) ((j - 1) div 2))"
      using less.prems j parent_less [OF j] by (intro less.IH) auto
    with False show ?thesis by (subst heap_up.simps) (simp add: Let_def)
  qed
qed

lemma push_heap: "is_heap lt h \<Longrightarrow> is_heap lt (heap_push lt h x)"
proof -
  assume h: "is_heap lt h"
  have "(k - 1) div 2 < length h" if "0 < k" "k < Suc (length h)" for k
    using that by linarith
  then have "heap_but_up lt (h @ [x]) (length h)"
    using h by (force simp: heap_but_up_def is_heap_upto_def nth_append)
  then show ?thesis unfolding heap_push_def using up_heap by fastforce
qed

lemma child_min:
  assumes "0 < k" "k < n" "(k - 1) div 2 = i"
  shows "\<not> lt (h ! k) (h ! down_child lt h i n)"
  using parent_cases [OF assms(1,3)] assms(2) asym
  by (auto simp: down_child_def)

lemma down_step:
  assumes h: "heap_but_down lt h i n" and n: "n \<le> length h" "2 * i + 1 < n"
    and swp: "lt (h ! down_child lt h i n) (h ! i)"
  shows "heap_but_down lt (swap h i (down_child lt h i n)) (down_child lt h i n) n"
proof -
  let ?c = "down_child lt h i n"
  have c: "i < ?c" "?c < n" "(?c - 1) div 2 = i"
    using down_child_bounds [OF n(2)] parent_down_child [of lt h i n] by auto
  have nth: "swap h i ?c ! k = (if k = i then h ! ?c else if k = ?c then h ! i else h ! k)"
    if "k < n" for k
    using that c n by (simp add: nth_swap)
  have ord: "\<not> lt (h ! k) (h ! ((k - 1) div 2))" if "0 < k" "k < n" "(k - 1) div 2 \<noteq> i" for k
    using h that by (simp add: heap_but_down_def)
  have top: "\<not> lt (h ! ?c) (h ! ((i - 1) div 2))" if "0 < i"
    using h that c by (auto simp: heap_but_down_def)
  have bck: "\<not> lt (h ! i) (h ! ?c)" using swp by (rule asym)
  have "\<not> lt (swap h i ?c ! k) (swap h i ?c ! ((k - 1) div 2))"
    if k: "0 < k" "k < n" "(k - 1) div 2 \<noteq> ?c" for k
  proof -
    have p: "(k - 1) div 2 < n" "(k - 1) div 2 < k" using k by linarith+
    show ?thesis
    proof (cases "k = i")
      case True
      then show ?thesis using p c k top by (auto simp: nth)
    next
      case False
      then show ?thesis
        using k p c bck child_min [OF k(1,2), of i h] ord [OF k(1,2)] by (auto simp: nth)
    qed
  qed
  moreover have "\<not> lt (swap h i ?c ! k) (swap h i ?c ! ((?c - 1) div 2))"
    if k: "0 < k" "k < n" "(k - 1) div 2 = ?c" for k
  proof -
    have "?c < k" using k by (metis parent_less)
    then show ?thesis using k c ord [of k] by (auto simp: nth)
  qed
  ultimately show ?thesis by (simp add: heap_but_down_def)
qed

lemma down_heap: "heap_but_down lt h i n \<Longrightarrow> n \<le> length h \<Longrightarrow> is_heap_upto lt (heap_down lt h i n) n"
proof (induction h i rule: heap_down_induct [where n = n and lt = lt])
  case (stop h i)
  have "\<not> lt (h ! k) (h ! ((k - 1) div 2))" if k: "0 < k" "k < n" for k
  proof (cases "(k - 1) div 2 = i")
    case True
    then have "\<not> lt (h ! down_child lt h i n) (h ! i)"
      using stop.hyps parent_cases [OF k(1) True] k(2) by linarith
    then show ?thesis using neg_trans child_min [OF k True, of h] True by metis
  next
    case False
    then show ?thesis using stop.prems(1) k by (simp add: heap_but_down_def)
  qed
  moreover have "heap_down lt h i n = h"
    using stop.hyps by (subst heap_down_unfold) auto
  ultimately show ?case by (simp add: is_heap_upto_def)
next
  case (swap h i)
  then have "is_heap_upto lt
      (heap_down lt (Go_Heap.swap h i (down_child lt h i n)) (down_child lt h i n) n) n"
    using down_step by simp
  with swap.hyps show ?case by (subst heap_down_unfold) auto
qed

lemma root_min: "is_heap lt h \<Longrightarrow> k < length h \<Longrightarrow> \<not> lt (h ! k) (h ! 0)"
proof (induction k rule: less_induct)
  case (less k)
  show ?case
  proof (cases "k = 0")
    case True
    then show ?thesis using asym by blast
  next
    case False
    then have "(k - 1) div 2 < k" by (simp add: parent_less)
    moreover from this have "\<not> lt (h ! ((k - 1) div 2)) (h ! 0)"
      using less by simp
    moreover have "\<not> lt (h ! k) (h ! ((k - 1) div 2))"
      using less.prems False by (simp add: is_heap_upto_def)
    ultimately show ?thesis using neg_trans by blast
  qed
qed

lemma pop_heap:
  assumes "is_heap lt h" and "heap_pop lt h = Some (x, h')"
  shows "is_heap lt h'"
proof -
  let ?n = "length h - 1"
  have ne: "h \<noteq> []" using assms(2) by (rule heap_pop_Some)
  have "heap_but_down lt (swap h 0 ?n) 0 ?n"
    unfolding heap_but_down_def
  proof (intro conjI allI impI)
    fix k assume k: "0 < k \<and> k < ?n \<and> (k - 1) div 2 \<noteq> 0"
    then have "\<not> lt (h ! k) (h ! ((k - 1) div 2))"
      using assms(1) [unfolded is_heap_upto_def, rule_format, of k] by linarith
    moreover have "(k - 1) div 2 < ?n" using k by linarith
    ultimately show "\<not> lt (swap h 0 ?n ! k) (swap h 0 ?n ! ((k - 1) div 2))"
      using k ne by (subst (1 2) nth_swap) auto
  qed simp
  then have "is_heap_upto lt (heap_down lt (swap h 0 ?n) 0 ?n) ?n"
    by (rule down_heap) simp
  moreover have "(k - 1) div 2 < ?n" if "k < ?n" for k using that by linarith
  ultimately show ?thesis
    by (auto simp: heap_pop_Some(4) [OF assms(2)] is_heap_upto_def)
qed

lemma pop_min:
  assumes "is_heap lt h" and "heap_pop lt h = Some (x, h')" and "y \<in> set h"
  shows "\<not> lt y x"
  using assms root_min [OF assms(1)] heap_pop_Some(2) [OF assms(2)]
  by (auto simp: in_set_conv_nth)

lemma empty_heap: "is_heap lt []"
  by (simp add: is_heap_upto_def)

end

text \<open>Every order by a key in a linear order is such an order.\<close>

lemma heap_order_key: "heap_order (\<lambda>x y. (key x :: 'k :: linorder) < key y)"
  by unfold_locales auto

end
