(* ===== verification/Slots_Limiter.thy ===== *)
theory Slots_Limiter
  imports Go_Heap
begin

text \<open>
  The slot limiter of \<open>pkg/slots/limiter.go\<close>: a budget of outbound calls shared between namespaces,
  first come, first served, with a cap for the whole process and one per namespace. The state is the
  record \<open>limiter\<close>; each method of the Go type is one definition on it, with the keys to wake as an
  explicit result (the code calls \<open>Wake\<close> with them after it gives up its lock).

  A waiting check's \<open>list.Element\<close> is identified by its waiter's sequence number, which the invariant
  shows to be unique. The timer of a reservation is a member of \<open>timers\<close>; when it fires, it runs
  \<open>expire\<close>, and since \<open>Stop\<close> cannot take back a callback that has started, the machine below lets an
  \<open>expire\<close> of any key and generation happen at any time. The sequence counter (\<open>uint64\<close> in the code)
  is a natural number: it does not wrap within \<open>2^64\<close> requests.

  The second half is the machine over all events and the invariant: caps, conservation of slots,
  agreement of the three indexes (queues, \<open>waiting\<close>, \<open>ready\<close>), and that no eligible check waits while
  a slot is free.
\<close>

section \<open>State\<close>

record slot_waiter =
  w_key :: nsname
  w_seq :: nat

record nsQueue =
  nq_name :: string
  nq_used :: int
  nq_queue :: "slot_waiter list"

record readyEntry =
  re_ns :: string
  re_seq :: nat

record limiter =
  Global :: int
  PerNamespace :: int
  ClaimTTL :: duration
  seqno :: nat
  total :: int
  nss :: "string \<rightharpoonup> nsQueue"
  waiting :: "nsname \<rightharpoonup> nat"
  reserved :: "nsname \<rightharpoonup> nat"
  ready :: "readyEntry list"
  timers :: "(nsname \<times> nat \<times> duration) list"

definition defaultClaimTTL :: duration where
  "defaultClaimTTL = 10 * second"

definition NewLimiter :: "int \<Rightarrow> int \<Rightarrow> duration \<Rightarrow> limiter" where
  "NewLimiter global perNamespace ttl =
     \<lparr>Global = global, PerNamespace = perNamespace, ClaimTTL = ttl, seqno = 0, total = 0,
      nss = Map.empty, waiting = Map.empty, reserved = Map.empty, ready = [], timers = []\<rparr>"

definition ready_less :: "readyEntry \<Rightarrow> readyEntry \<Rightarrow> bool" where
  "ready_less a b = (re_seq a < re_seq b)"

section \<open>Operations\<close>

definition nsq :: "limiter \<Rightarrow> string \<Rightarrow> limiter \<times> nsQueue" where
  "nsq l name =
     (case nss l name of
        Some q \<Rightarrow> (l, q)
      | None \<Rightarrow>
          let q = \<lparr>nq_name = name, nq_used = 0, nq_queue = []\<rparr>
          in (l\<lparr>nss := (nss l)(name \<mapsto> q)\<rparr>, q))"

definition gc :: "limiter \<Rightarrow> nsQueue \<Rightarrow> limiter" where
  "gc l q =
     (if nq_used q = 0 \<and> nq_queue q = [] then l\<lparr>nss := (nss l)(nq_name q := None)\<rparr> else l)"

definition markReady :: "limiter \<Rightarrow> nsQueue \<Rightarrow> limiter" where
  "markReady l q =
     (if nq_used q < PerNamespace l \<and> nq_queue q \<noteq> []
      then l\<lparr>ready := heap_push ready_less (ready l)
               \<lparr>re_ns = nq_name q, re_seq = w_seq (hd (nq_queue q))\<rparr>\<rparr>
      else l)"

text \<open>\<open>grant\<close> is the body of the loop of \<open>dispatch\<close> for an entry that is not stale: the first waiter
  of \<open>q\<close>, the queue of namespace \<open>n\<close>, gets a reservation.\<close>

definition grant :: "limiter \<Rightarrow> string \<Rightarrow> nsQueue \<Rightarrow> limiter" where
  "grant l n q =
     (let w = hd (nq_queue q);
          q' = q\<lparr>nq_queue := tl (nq_queue q), nq_used := nq_used q + 1\<rparr>;
          gen = seqno l + 1;
          ttl = (if ClaimTTL l \<le> 0 then defaultClaimTTL else ClaimTTL l);
          l' = l\<lparr>nss := (nss l)(n \<mapsto> q'), waiting := (waiting l)(w_key w := None),
                 total := total l + 1, seqno := gen,
                 reserved := (reserved l)(w_key w \<mapsto> gen),
                 timers := timers l @ [(w_key w, gen, ttl)]\<rparr>
      in markReady l' q')"

definition stale :: "limiter \<Rightarrow> readyEntry \<Rightarrow> nsQueue \<Rightarrow> bool" where
  "stale l e q =
     (nq_used q \<ge> PerNamespace l \<or> nq_queue q = [] \<or> w_seq (hd (nq_queue q)) \<noteq> re_seq e)"

lemma grant_total [simp]:
  "total (grant l n q) = total l + 1" "Global (grant l n q) = Global l"
  "PerNamespace (grant l n q) = PerNamespace l"
  by (simp_all add: grant_def markReady_def Let_def)

function dispatch :: "limiter \<Rightarrow> limiter \<times> nsname list" where
  "dispatch l =
     (if total l < Global l
      then (case heap_pop ready_less (ready l) of
              None \<Rightarrow> (l, [])
            | Some (e, r) \<Rightarrow>
                let l1 = l\<lparr>ready := r\<rparr>
                in (case nss l1 (re_ns e) of
                      None \<Rightarrow> dispatch l1
                    | Some q \<Rightarrow>
                        if stale l1 e q then dispatch l1
                        else let (l2, wake) = dispatch (grant l1 (re_ns e) q)
                             in (l2, w_key (hd (nq_queue q)) # wake)))
      else (l, []))"
  by pat_completeness auto
termination
proof (relation "measures [\<lambda>l. nat (Global l - total l), \<lambda>l. length (ready l)]")
qed (auto dest: heap_pop_length)

declare dispatch.simps [simp del]

definition free :: "limiter \<Rightarrow> string \<Rightarrow> limiter \<times> nsname list" where
  "free l name =
     (let (l1, q) = nsq l name;
          q1 = q\<lparr>nq_used := nq_used q - 1\<rparr>;
          l2 = l1\<lparr>nss := (nss l1)(name \<mapsto> q1), total := total l1 - 1\<rparr>;
          (l3, wake) = dispatch (markReady l2 q1)
      in (gc l3 (the (nss l3 name)), wake))"

text \<open>A stopped timer leaves \<open>timers\<close>.\<close>

definition stop_timer :: "limiter \<Rightarrow> nsname \<Rightarrow> nat \<Rightarrow> limiter" where
  "stop_timer l key gen = l\<lparr>timers := filter (\<lambda>(k, g, d). \<not> (k = key \<and> g = gen)) (timers l)\<rparr>"

definition expire :: "limiter \<Rightarrow> nsname \<Rightarrow> nat \<Rightarrow> limiter \<times> nsname list" where
  "expire l key gen =
     (if reserved l key \<noteq> Some gen then (l, [])
      else free (l\<lparr>reserved := (reserved l)(key := None)\<rparr>) (Namespace key))"

text \<open>\<open>TryAcquire\<close> up to the release function it returns, which is \<open>release\<close> below; the flag is
  \<open>ok\<close>.\<close>

definition TryAcquire :: "limiter \<Rightarrow> nsname \<Rightarrow> limiter \<times> bool" where
  "TryAcquire l key =
     (case reserved l key of
        Some gen \<Rightarrow> ((stop_timer l key gen)\<lparr>reserved := (reserved l)(key := None)\<rparr>, True)
      | None \<Rightarrow>
          if waiting l key \<noteq> None then (l, False)
          else let (l1, q) = nsq l (Namespace key)
               in if total l1 \<ge> Global l1 \<or> nq_used q \<ge> PerNamespace l1
                  then let s = seqno l1 + 1;
                           q1 = q\<lparr>nq_queue := nq_queue q @ [\<lparr>w_key = key, w_seq = s\<rparr>]\<rparr>;
                           l2 = l1\<lparr>seqno := s, waiting := (waiting l1)(key \<mapsto> s),
                                   nss := (nss l1)(Namespace key \<mapsto> q1)\<rparr>
                       in (if length (nq_queue q1) = 1 then markReady l2 q1 else l2, False)
                  else (l1\<lparr>nss := (nss l1)(Namespace key \<mapsto> q\<lparr>nq_used := nq_used q + 1\<rparr>),
                           total := total l1 + 1\<rparr>, True))"

text \<open>The release function of an acquired slot: \<open>sync.Once\<close> runs its body at the first call only.\<close>

definition release :: "limiter \<Rightarrow> nsname \<Rightarrow> bool \<Rightarrow> limiter \<times> nsname list" where
  "release l key called = (if called then (l, []) else free l (Namespace key))"

definition Cancel :: "limiter \<Rightarrow> nsname \<Rightarrow> limiter \<times> nsname list" where
  "Cancel l key =
     (let l1 =
        (case waiting l key of
           None \<Rightarrow> l
         | Some s \<Rightarrow>
             let q = the (nss l (Namespace key));
                 head = (nq_queue q \<noteq> [] \<and> w_seq (hd (nq_queue q)) = s);
                 q1 = q\<lparr>nq_queue := filter (\<lambda>w. w_seq w \<noteq> s) (nq_queue q)\<rparr>;
                 l' = l\<lparr>nss := (nss l)(Namespace key \<mapsto> q1), waiting := (waiting l)(key := None)\<rparr>
             in gc (if head then markReady l' q1 else l') q1)
      in case reserved l1 key of
           None \<Rightarrow> (l1, [])
         | Some gen \<Rightarrow>
             free ((stop_timer l1 key gen)\<lparr>reserved := (reserved l1)(key := None)\<rparr>) (Namespace key))"

definition Waiting :: "limiter \<Rightarrow> nat" where
  "Waiting l = card (dom (waiting l))"

definition InUse :: "limiter \<Rightarrow> int" where
  "InUse l = total l"

section \<open>The machine over all events\<close>

text \<open>The environment calls \<open>TryAcquire\<close> and \<open>Cancel\<close> with any key, calls any release function it was
  given any number of times, and timers fire. A handle is the key of a release function and whether it
  was called.\<close>

datatype slots_event = EvTry nsname | EvRelease nat | EvExpire nsname nat | EvCancel nsname

record slots_sys =
  lim :: limiter
  handles :: "(nsname \<times> bool) list"

fun slots_step :: "slots_sys \<Rightarrow> slots_event \<Rightarrow> slots_sys" where
  "slots_step s (EvTry key) =
     (let (l, ok) = TryAcquire (lim s) key
      in s\<lparr>lim := l, handles := (if ok then handles s @ [(key, False)] else handles s)\<rparr>)"
| "slots_step s (EvRelease i) =
     (if i < length (handles s)
      then let (key, called) = handles s ! i
           in s\<lparr>lim := fst (release (lim s) key called), handles := (handles s)[i := (key, True)]\<rparr>
      else s)"
| "slots_step s (EvExpire key gen) = s\<lparr>lim := fst (expire (lim s) key gen)\<rparr>"
| "slots_step s (EvCancel key) = s\<lparr>lim := fst (Cancel (lim s) key)\<rparr>"

definition slots_init :: "int \<Rightarrow> int \<Rightarrow> duration \<Rightarrow> slots_sys" where
  "slots_init g p ttl = \<lparr>lim = NewLimiter g p ttl, handles = []\<rparr>"

definition slots_run :: "int \<Rightarrow> int \<Rightarrow> duration \<Rightarrow> slots_event list \<Rightarrow> slots_sys" where
  "slots_run g p ttl evs = foldl slots_step (slots_init g p ttl) evs"

text \<open>The checks that hold a slot: acquired and not released.\<close>

definition running :: "slots_sys \<Rightarrow> nsname multiset" where
  "running s = mset (map fst (filter (\<lambda>(k, called). \<not> called) (handles s)))"

section \<open>The invariant\<close>

definition used_of :: "limiter \<Rightarrow> string \<Rightarrow> int" where
  "used_of l n = (case nss l n of None \<Rightarrow> 0 | Some q \<Rightarrow> nq_used q)"

definition queue_of :: "limiter \<Rightarrow> string \<Rightarrow> slot_waiter list" where
  "queue_of l n = (case nss l n of None \<Rightarrow> [] | Some q \<Rightarrow> nq_queue q)"

definition in_ns :: "string \<Rightarrow> nsname multiset \<Rightarrow> int" where
  "in_ns n R = int (size (filter_mset (\<lambda>k. Namespace k = n) R))"

definition reserved_in :: "limiter \<Rightarrow> string \<Rightarrow> int" where
  "reserved_in l n = int (card {k \<in> dom (reserved l). Namespace k = n})"

text \<open>Conservation: every slot counted as used is held by a running check or reserved.\<close>

definition counts_ok :: "limiter \<Rightarrow> nsname multiset \<Rightarrow> bool" where
  "counts_ok l R \<longleftrightarrow> finite (dom (reserved l)) \<and>
     total l = int (size R) + int (card (dom (reserved l))) \<and>
     (\<forall>n. used_of l n = in_ns n R + reserved_in l n)"

definition caps_ok :: "limiter \<Rightarrow> bool" where
  "caps_ok l \<longleftrightarrow> total l \<le> max 0 (Global l) \<and> (\<forall>n. used_of l n \<le> max 0 (PerNamespace l))"

definition queues_ok :: "limiter \<Rightarrow> bool" where
  "queues_ok l \<longleftrightarrow>
     (\<forall>n q. nss l n = Some q \<longrightarrow> nq_name q = n) \<and>
     (\<forall>n. sorted_wrt (<) (map w_seq (queue_of l n))) \<and>
     (\<forall>n. \<forall>w \<in> set (queue_of l n). Namespace (w_key w) = n \<and> waiting l (w_key w) = Some (w_seq w))"

definition waiting_ok :: "limiter \<Rightarrow> bool" where
  "waiting_ok l \<longleftrightarrow>
     (\<forall>k s. waiting l k = Some s \<longrightarrow> s \<le> seqno l \<and> reserved l k = None \<and>
        \<lparr>w_key = k, w_seq = s\<rparr> \<in> set (queue_of l (Namespace k))) \<and>
     (\<forall>k k' s. waiting l k = Some s \<longrightarrow> waiting l k' = Some s \<longrightarrow> k = k')"

definition timers_ok :: "limiter \<Rightarrow> bool" where
  "timers_ok l \<longleftrightarrow>
     (\<forall>k g. reserved l k = Some g \<longrightarrow> g \<le> seqno l \<and> (\<exists>d > 0. (k, g, d) \<in> set (timers l))) \<and>
     (\<forall>k k' g. reserved l k = Some g \<longrightarrow> reserved l k' = Some g \<longrightarrow> k = k')"

definition ready_ok :: "limiter \<Rightarrow> string \<Rightarrow> bool" where
  "ready_ok l n \<longleftrightarrow> (used_of l n < PerNamespace l \<and> queue_of l n \<noteq> [] \<longrightarrow>
     \<lparr>re_ns = n, re_seq = w_seq (hd (queue_of l n))\<rparr> \<in> set (ready l))"

definition core_inv :: "limiter \<Rightarrow> nsname multiset \<Rightarrow> bool" where
  "core_inv l R \<longleftrightarrow> counts_ok l R \<and> caps_ok l \<and> queues_ok l \<and> waiting_ok l \<and> timers_ok l \<and>
     is_heap ready_less (ready l)"

text \<open>No check whose namespace is under its cap waits while a slot is free.\<close>

definition work_conserving :: "limiter \<Rightarrow> bool" where
  "work_conserving l \<longleftrightarrow> (total l < Global l \<longrightarrow>
     (\<forall>n. queue_of l n = [] \<or> used_of l n \<ge> PerNamespace l))"

definition lim_inv :: "limiter \<Rightarrow> nsname multiset \<Rightarrow> bool" where
  "lim_inv l R \<longleftrightarrow> core_inv l R \<and> (\<forall>n. ready_ok l n) \<and> work_conserving l"

section \<open>Lemmas: the heap of ready namespaces, views of the queues\<close>

interpretation ready_heap: heap_order ready_less
  unfolding ready_less_def by (rule heap_order_key)

lemmas inv_defs = counts_ok_def caps_ok_def queues_ok_def waiting_ok_def timers_ok_def

lemma used_of_upd [simp]:
  "nss l' = (nss l)(n \<mapsto> q) \<Longrightarrow> used_of l' m = (if m = n then nq_used q else used_of l m)"
  by (simp add: used_of_def)

lemma queue_of_upd [simp]:
  "nss l' = (nss l)(n \<mapsto> q) \<Longrightarrow> queue_of l' m = (if m = n then nq_queue q else queue_of l m)"
  by (simp add: queue_of_def)

lemma used_of_cong: "nss l' = nss l \<Longrightarrow> used_of l' = used_of l"
  by (simp add: used_of_def fun_eq_iff)

lemma queue_of_cong: "nss l' = nss l \<Longrightarrow> queue_of l' = queue_of l"
  by (simp add: queue_of_def fun_eq_iff)

lemma view_Some: "nss l n = Some q \<Longrightarrow> used_of l n = nq_used q \<and> queue_of l n = nq_queue q"
  by (simp add: used_of_def queue_of_def)

lemma in_ns_add [simp]: "in_ns n (add_mset k R) = in_ns n R + (if Namespace k = n then 1 else 0)"
  by (simp add: in_ns_def)

lemma in_ns_nonneg [simp]: "0 \<le> in_ns n R"
  by (simp add: in_ns_def)

lemma reserved_in_nonneg [simp]: "0 \<le> reserved_in l n"
  by (simp add: reserved_in_def)

lemma card_dom_upd:
  "finite (dom m) \<Longrightarrow> m k = None \<Longrightarrow> card (dom (m(k \<mapsto> v))) = Suc (card (dom m))"
  by (simp add: domIff)

lemma card_dom_del:
  "finite (dom m) \<Longrightarrow> m k = Some v \<Longrightarrow> card (dom m) = Suc (card (dom (m(k := None))))"
  by (metis card_Suc_Diff1 domI dom_fun_upd)

lemma reserved_in_upd:
  assumes "finite (dom (reserved l))" "reserved l k = None" "reserved l' = (reserved l)(k \<mapsto> g)"
  shows "reserved_in l' n = reserved_in l n + (if Namespace k = n then 1 else 0)"
proof -
  let ?A = "{x \<in> dom (reserved l). Namespace x = n}"
  have "finite ?A" "k \<notin> ?A" using assms(1,2) by (auto intro: finite_subset)
  then have "card (insert k ?A) = Suc (card ?A)" by (rule card_insert_disjoint)
  moreover have "{x \<in> dom (reserved l'). Namespace x = n} =
      (if Namespace k = n then insert k ?A else ?A)"
    using assms(3) by auto
  ultimately show ?thesis by (simp add: reserved_in_def)
qed

lemma reserved_in_del:
  assumes "finite (dom (reserved l))" "reserved l k = Some g" "reserved l' = (reserved l)(k := None)"
  shows "reserved_in l n = reserved_in l' n + (if Namespace k = n then 1 else 0)"
proof -
  have "reserved l = (reserved l')(k \<mapsto> g)" using assms(2,3) by (auto simp: fun_eq_iff)
  moreover have "reserved l' k = None" "finite (dom (reserved l'))" using assms(1,3) by simp_all
  ultimately show ?thesis using reserved_in_upd [of l' k l g n] by simp
qed

section \<open>Each operation keeps the invariant\<close>

lemma markReady_fields [simp]:
  "Global (markReady l q) = Global l" "PerNamespace (markReady l q) = PerNamespace l"
  "ClaimTTL (markReady l q) = ClaimTTL l"
  "seqno (markReady l q) = seqno l" "total (markReady l q) = total l" "nss (markReady l q) = nss l"
  "waiting (markReady l q) = waiting l" "reserved (markReady l q) = reserved l"
  "timers (markReady l q) = timers l"
  "used_of (markReady l q) n = used_of l n" "queue_of (markReady l q) n = queue_of l n"
  "reserved_in (markReady l q) n = reserved_in l n"
  by (simp_all add: markReady_def used_of_def queue_of_def reserved_in_def)

lemma core_inv_cong:
  assumes "core_inv l R"
    and "total l' = total l" "Global l' = Global l" "PerNamespace l' = PerNamespace l"
    and "seqno l' = seqno l" "nss l' = nss l" "waiting l' = waiting l" "reserved l' = reserved l"
    and "timers l' = timers l" and "is_heap ready_less (ready l')"
  shows "core_inv l' R"
proof -
  have eqs: "used_of l' = used_of l" "queue_of l' = queue_of l" "reserved_in l' = reserved_in l"
    using assms(6,8) by (auto simp: used_of_def queue_of_def reserved_in_def)
  show ?thesis
    using assms(1,10) unfolding core_inv_def inv_defs assms(2-9) eqs by blast
qed

lemma markReady_core: "core_inv l R \<Longrightarrow> core_inv (markReady l q) R"
  by (rule core_inv_cong, assumption)
    (auto simp: core_inv_def markReady_def ready_heap.push_heap)

lemma markReady_ready_ok:
  assumes "nss l n = Some q" "nq_name q = n" "\<forall>m. m \<noteq> n \<longrightarrow> ready_ok l m"
  shows "ready_ok (markReady l q) m"
proof (cases "m = n")
  case True
  then show ?thesis
    using assms(1,2) view_Some [OF assms(1)] by (auto simp: ready_ok_def) (simp add: markReady_def)
next
  case False
  then have "ready_ok l m" using assms(3) by simp
  moreover have "set (ready l) \<subseteq> set (ready (markReady l q))" by (auto simp: markReady_def)
  ultimately show ?thesis by (auto simp: ready_ok_def)
qed

text \<open>Dropping a popped entry: only a namespace the entry was good for can lose its entry.\<close>

lemma pop_core:
  "core_inv l R \<Longrightarrow> heap_pop ready_less (ready l) = Some (e, r) \<Longrightarrow> core_inv (l\<lparr>ready := r\<rparr>) R"
  by (rule core_inv_cong, assumption) (auto simp: core_inv_def dest: ready_heap.pop_heap)

lemma pop_set: "heap_pop ready_less h = Some (e, r) \<Longrightarrow> set h = insert e (set r)"
  by (metis heap_pop_Some(3) set_mset_add_mset_insert set_mset_mset)

lemma pop_ready_ok:
  assumes "heap_pop ready_less (ready l) = Some (e, r)" "ready_ok l n"
    and "n \<noteq> re_ns e \<or> used_of l n \<ge> PerNamespace l \<or> queue_of l n = [] \<or>
      w_seq (hd (queue_of l n)) \<noteq> re_seq e"
  shows "ready_ok (l\<lparr>ready := r\<rparr>) n"
  using assms pop_set [OF assms(1)] by (auto simp: ready_ok_def used_of_def queue_of_def)

lemma timers_ok_add:
  assumes t: "timers_ok l" and l': "seqno l' = Suc (seqno l)"
    "reserved l' = (reserved l)(k \<mapsto> Suc (seqno l))"
    "timers l' = timers l @ [(k, Suc (seqno l), d)]" "0 < d"
  shows "timers_ok l'"
proof -
  have b: "g \<le> seqno l \<and> (\<exists>d > 0. (x, g, d) \<in> set (timers l))" if "reserved l x = Some g" for x g
    using t that by (auto simp: timers_ok_def)
  have "reserved l x \<noteq> Some (Suc (seqno l))" for x using b [of x "Suc (seqno l)"] by auto
  then show ?thesis
    using t b l' unfolding timers_ok_def by (auto split: if_splits) (meson b le_SucI)+
qed

lemma grant_core:
  assumes inv: "core_inv l R" and q: "nss l n = Some q" "nq_used q < PerNamespace l"
    and w: "nq_queue q = w # ws" and tot: "total l < Global l"
  shows "core_inv (grant l n q) R"
proof -
  let ?q = "q\<lparr>nq_queue := ws, nq_used := nq_used q + 1\<rparr>"
  let ?g = "seqno l + 1"
  let ?ttl = "if ClaimTTL l \<le> 0 then defaultClaimTTL else ClaimTTL l"
  define l' where "l' = l\<lparr>nss := (nss l)(n \<mapsto> ?q), waiting := (waiting l)(w_key w := None),
    total := total l + 1, seqno := ?g, reserved := (reserved l)(w_key w \<mapsto> ?g),
    timers := timers l @ [(w_key w, ?g, ?ttl)]\<rparr>"
  have g: "grant l n q = markReady l' ?q" by (simp add: grant_def l'_def w Let_def)
  have nn: "nss l' = (nss l)(n \<mapsto> ?q)" by (simp add: l'_def)
  have view: "used_of l n = nq_used q" "queue_of l n = w # ws"
    using view_Some [OF q(1)] w by auto
  from inv have c: "counts_ok l R" "caps_ok l" "queues_ok l" "waiting_ok l" "timers_ok l"
    by (auto simp: core_inv_def)
  have wk: "Namespace (w_key w) = n" "waiting l (w_key w) = Some (w_seq w)"
    using c(3) view unfolding queues_ok_def by (metis list.set_intros(1))+
  have nr: "reserved l (w_key w) = None" using c(4) wk(2) by (auto simp: waiting_ok_def)
  have srt: "\<forall>x \<in> set ws. w_seq w < w_seq x" "sorted_wrt (<) (map w_seq ws)"
    using c(3) view unfolding queues_ok_def by (metis list.map(2) sorted_wrt.simps(2) imageI list.set_map)+
  have "reserved l' = (reserved l)(w_key w \<mapsto> ?g)" by (simp add: l'_def)
  then have "counts_ok l' R"
    using c(1) wk view nn reserved_in_upd [OF _ nr] card_dom_upd [of "reserved l", OF _ nr]
    by (auto simp: counts_ok_def l'_def)
  moreover have "caps_ok l'"
    using c(2) tot q(2) nn by (auto simp: caps_ok_def l'_def)
  moreover have "queues_ok l'"
  proof -
    have mem: "Namespace (w_key x) = m \<and> waiting l (w_key x) = Some (w_seq x)"
      if "x \<in> set (queue_of l m)" for x m
      using c(3) that by (auto simp: queues_ok_def)
    have "w_key x \<noteq> w_key w \<and> Namespace (w_key x) = n \<and> waiting l (w_key x) = Some (w_seq x)"
      if "x \<in> set ws" for x
      using mem [of x n] srt(1) that wk(2) view(2) by fastforce
    moreover have "w_key x \<noteq> w_key w" if "m \<noteq> n" "x \<in> set (queue_of l m)" for x m
      using mem [OF that(2)] that(1) wk(1) by auto
    ultimately show ?thesis
      using c(3) q(1) nn srt(2) mem by (auto simp: queues_ok_def l'_def)
  qed
  moreover have "waiting_ok l'"
  proof -
    have "s \<le> seqno l \<and> reserved l k = None \<and> \<lparr>w_key = k, w_seq = s\<rparr> \<in> set (queue_of l' (Namespace k))"
      if "k \<noteq> w_key w" "waiting l k = Some s" for k s
    proof -
      have "s \<le> seqno l" "reserved l k = None" and m: "\<lparr>w_key = k, w_seq = s\<rparr> \<in> set (queue_of l (Namespace k))"
        using c(4) that(2) by (auto simp: waiting_ok_def)
      moreover have "\<lparr>w_key = k, w_seq = s\<rparr> \<noteq> w" using that(1) by auto
      ultimately show ?thesis using view nn by (cases "Namespace k = n") auto
    qed
    then show ?thesis
      using c(4) unfolding waiting_ok_def by (auto simp: l'_def le_SucI)
  qed
  moreover have "timers_ok l'"
    by (rule timers_ok_add [OF c(5), where d = ?ttl and k = "w_key w"])
      (simp_all add: l'_def defaultClaimTTL_def second_def)
  moreover have "is_heap ready_less (ready l')" using inv by (simp add: core_inv_def l'_def)
  ultimately have "core_inv l' R" by (simp add: core_inv_def)
  then show ?thesis unfolding g by (rule markReady_core)
qed

lemma grant_ready_ok:
  assumes q: "nss l n = Some q" "nq_name q = n" and o: "\<forall>m. m \<noteq> n \<longrightarrow> ready_ok l m"
  shows "ready_ok (grant l n q) m"
  unfolding grant_def Let_def
  by (rule markReady_ready_ok [where n = n]) (use q o in \<open>auto simp: ready_ok_def used_of_def queue_of_def\<close>)

lemma core_inv_name: "core_inv l R \<Longrightarrow> nss l n = Some q \<Longrightarrow> nq_name q = n"
  by (auto simp: core_inv_def queues_ok_def)

text \<open>The induction rule of the loop of \<open>dispatch\<close>: it stops, drops a stale entry, or grants a slot.\<close>

lemma stale_ready [simp]: "stale (l\<lparr>ready := r\<rparr>) e q = stale l e q"
  by (simp add: stale_def)

lemma dispatch_run [consumes 1, case_names stop drop give]:
  assumes run: "dispatch l = (l', wake)"
    and stop: "\<And>l. \<not> total l < Global l \<or> ready l = [] \<Longrightarrow> P l l []"
    and drop: "\<And>l e r l' wake. total l < Global l \<Longrightarrow> heap_pop ready_less (ready l) = Some (e, r) \<Longrightarrow>
      (\<And>q. nss l (re_ns e) = Some q \<Longrightarrow> stale l e q) \<Longrightarrow>
      P (l\<lparr>ready := r\<rparr>) l' wake \<Longrightarrow> P l l' wake"
    and give: "\<And>l e r q w ws l' wake. total l < Global l \<Longrightarrow>
      heap_pop ready_less (ready l) = Some (e, r) \<Longrightarrow> nss l (re_ns e) = Some q \<Longrightarrow>
      nq_used q < PerNamespace l \<Longrightarrow> nq_queue q = w # ws \<Longrightarrow> w_seq w = re_seq e \<Longrightarrow>
      P (grant (l\<lparr>ready := r\<rparr>) (re_ns e) q) l' wake \<Longrightarrow> P l l' (w_key w # wake)"
  shows "P l l' wake"
  using run
proof (induction l arbitrary: l' wake rule: dispatch.induct)
  case (1 l)
  note eq = 1(4)
  show ?case
  proof (cases "total l < Global l \<and> ready l \<noteq> []")
    case False
    then have "l' = l \<and> wake = []"
      using eq by (cases "total l < Global l") (simp_all add: dispatch.simps [of l])
    then show ?thesis using False stop [of l] by auto
  next
    case True
    then obtain e r where er: "heap_pop ready_less (ready l) = Some (e, r)"
      by (metis heap_pop_None not_None_eq surj_pair)
    let ?l1 = "l\<lparr>ready := r\<rparr>"
    consider "nss l (re_ns e) = None" | q where "nss l (re_ns e) = Some q" "stale l e q"
      | q w ws where "nss l (re_ns e) = Some q" "\<not> stale l e q" "nq_queue q = w # ws"
      by (metis not_None_eq neq_Nil_conv stale_def)
    then show ?thesis
    proof cases
      case 1
      then show ?thesis
        using "1.IH"(1) [OF conjunct1 [OF True] er refl refl, of l' wake] drop [OF conjunct1 [OF True] er] eq True er
        by (simp add: dispatch.simps [of l])
    next
      case 2
      then show ?thesis
        using "1.IH"(2) [OF conjunct1 [OF True] er refl refl, of q l' wake] drop [OF conjunct1 [OF True] er] eq True er
        by (simp add: dispatch.simps [of l])
    next
      case 3
      then obtain k where k: "dispatch (grant ?l1 (re_ns e) q) = (l', k)" "wake = w_key w # k"
        using eq True er by (auto simp: dispatch.simps [of l] split: prod.splits)
      then have "P (grant ?l1 (re_ns e) q) l' k"
        using "1.IH"(3) [OF conjunct1 [OF True] er refl refl, of q l' k] 3 by simp
      then show ?thesis
        using give [OF conjunct1 [OF True] er 3(1) _ 3(3)] 3 k(2) by (simp add: stale_def)
    qed
  qed
qed

lemma drop_ready_ok:
  assumes pop: "heap_pop ready_less (ready l) = Some (e, r)" and rdy: "ready_ok l n"
    and st: "\<And>q. nss l (re_ns e) = Some q \<Longrightarrow> stale l e q"
  shows "ready_ok (l\<lparr>ready := r\<rparr>) n"
proof (rule pop_ready_ok [OF pop rdy])
  show "n \<noteq> re_ns e \<or> used_of l n \<ge> PerNamespace l \<or> queue_of l n = [] \<or>
      w_seq (hd (queue_of l n)) \<noteq> re_seq e"
    using st view_Some [of l n] by (cases "nss l n") (auto simp: stale_def queue_of_def)
qed

text \<open>The loop establishes the whole invariant from its core and good ready entries.\<close>

lemma dispatch_inv:
  assumes "dispatch l = (l', wake)" "core_inv l R" "\<forall>n. ready_ok l n"
  shows "lim_inv l' R"
  using assms
proof (induction rule: dispatch_run)
  case (stop l)
  then show ?case by (force simp: lim_inv_def work_conserving_def ready_ok_def)
next
  case (drop l e r l' wake)
  have "ready_ok (l\<lparr>ready := r\<rparr>) n" for n
    using drop_ready_ok [OF drop.hyps(2) _ drop.hyps(3)] drop.prems by blast
  then show ?case using drop.IH pop_core [OF drop.prems(1) drop.hyps(2)] by blast
next
  case (give l e r q w ws l' wake)
  let ?l1 = "l\<lparr>ready := r\<rparr>"
  have c: "core_inv ?l1 R" by (rule pop_core [OF give.prems(1) give.hyps(2)])
  have q: "nss ?l1 (re_ns e) = Some q" by (simp add: give)
  have "core_inv (grant ?l1 (re_ns e) q) R"
    by (rule grant_core [OF c q _ give.hyps(5)]) (simp_all add: give)
  moreover have "ready_ok (grant ?l1 (re_ns e) q) n" for n
    using give.prems(2) pop_ready_ok [OF give.hyps(2)]
    by (intro grant_ready_ok [OF q core_inv_name [OF c q]]) blast
  ultimately show ?case using give.IH by blast
qed

text \<open>The invariant sees the table of namespaces through \<open>used_of\<close> and \<open>queue_of\<close> only, so that an
  empty entry may come (\<open>nsq\<close>) and go (\<open>gc\<close>).\<close>

lemma lim_inv_view:
  assumes "lim_inv l R" and "used_of l' = used_of l" "queue_of l' = queue_of l"
    and "total l' = total l" "Global l' = Global l" "PerNamespace l' = PerNamespace l"
    and "seqno l' = seqno l" "waiting l' = waiting l" "reserved l' = reserved l"
    and "timers l' = timers l" "ready l' = ready l" "\<forall>n q. nss l' n = Some q \<longrightarrow> nq_name q = n"
  shows "lim_inv l' R"
proof -
  have "reserved_in l' = reserved_in l" using assms(9) by (auto simp: reserved_in_def)
  then show ?thesis
    using assms(1,12) unfolding lim_inv_def core_inv_def inv_defs work_conserving_def ready_ok_def assms(2-11)
    by auto
qed

lemma gc_inv:
  assumes inv: "lim_inv l R" and q: "nss l n = Some q"
  shows "lim_inv (gc l q) R"
proof (cases "nq_used q = 0 \<and> nq_queue q = []")
  case True
  have nq: "nq_name q = n" and nm: "\<forall>n q. nss l n = Some q \<longrightarrow> nq_name q = n"
    using inv q by (auto simp: lim_inv_def intro: core_inv_name)
  have g: "gc l q = l\<lparr>nss := (nss l)(n := None)\<rparr>" using True nq by (simp add: gc_def)
  show ?thesis
    unfolding g
    by (rule lim_inv_view [OF inv]) (use q True nm in \<open>auto simp: used_of_def queue_of_def fun_eq_iff\<close>)
next
  case False
  then have "gc l q = l" by (auto simp: gc_def)
  then show ?thesis using inv by simp
qed

lemma nsq_inv:
  assumes inv: "lim_inv l R" and e: "nsq l n = (l1, q)"
  shows "lim_inv l1 R \<and> nss l1 n = Some q \<and> total l1 = total l \<and> Global l1 = Global l \<and>
    PerNamespace l1 = PerNamespace l \<and> waiting l1 = waiting l \<and> reserved l1 = reserved l \<and>
    seqno l1 = seqno l \<and> used_of l1 = used_of l \<and> queue_of l1 = queue_of l \<and> timers l1 = timers l"
proof (cases "nss l n")
  case None
  have l1: "l1 = l\<lparr>nss := (nss l)(n \<mapsto> q)\<rparr>" and q: "q = \<lparr>nq_name = n, nq_used = 0, nq_queue = []\<rparr>"
    using e None by (auto simp: nsq_def Let_def)
  have v: "used_of l1 = used_of l" "queue_of l1 = queue_of l"
    using None l1 q by (auto simp: used_of_def queue_of_def fun_eq_iff)
  have "\<forall>m p. nss l1 m = Some p \<longrightarrow> nq_name p = m"
    using inv l1 q by (auto simp: lim_inv_def intro: core_inv_name)
  then have "lim_inv l1 R" using l1 by (intro lim_inv_view [OF inv v]) simp_all
  then show ?thesis using v l1 by simp
next
  case (Some p)
  then show ?thesis using inv e by (auto simp: nsq_def)
qed

lemma dispatch_keeps_ns: "dispatch l = (l', wake) \<Longrightarrow> nss l n \<noteq> None \<Longrightarrow> nss l' n \<noteq> None"
proof (induction rule: dispatch_run)
  case (give l e r q w ws l' wake)
  then show ?case by (simp add: grant_def Let_def)
qed simp_all

text \<open>A slot taken from the running checks.\<close>

lemma drop_used_core:
  assumes inv: "core_inv l (add_mset k R)" and q: "nss l (Namespace k) = Some q"
    and l': "l' = l\<lparr>nss := (nss l)(Namespace k \<mapsto> q\<lparr>nq_used := nq_used q - 1\<rparr>), total := total l - 1\<rparr>"
  shows "core_inv l' R"
proof -
  have nn: "nss l' = (nss l)(Namespace k \<mapsto> q\<lparr>nq_used := nq_used q - 1\<rparr>)" using l' by simp
  have v: "used_of l (Namespace k) = nq_used q" "queue_of l (Namespace k) = nq_queue q"
    using view_Some [OF q] by auto
  have qq: "queue_of l' = queue_of l" using v(2) by (auto simp: l' fun_eq_iff queue_of_def)
  have rr: "reserved_in l' = reserved_in l" using l' by (auto simp: reserved_in_def)
  have u: "used_of l' n = used_of l n - (if Namespace k = n then 1 else 0)" for n using v nn by auto
  have c: "counts_ok l (add_mset k R)" "caps_ok l" "queues_ok l" "waiting_ok l" "timers_ok l"
    using inv by (auto simp: core_inv_def)
  have "counts_ok l' R" using c(1) u rr by (auto simp: counts_ok_def l')
  moreover have "caps_ok l'" using c(2) u by (auto simp: caps_ok_def l') (smt (verit))
  moreover have "queues_ok l'"
    using c(3) qq core_inv_name [OF inv q] by (auto simp: queues_ok_def l' split: if_splits)
  moreover have "waiting_ok l'" using c(4) qq by (auto simp: waiting_ok_def l')
  moreover have "timers_ok l'" using c(5) by (auto simp: timers_ok_def l')
  ultimately show ?thesis using inv by (simp add: core_inv_def l')
qed

text \<open>\<open>free\<close> on a running check: the state \<open>l2\<close> in which the slot is back and \<open>dispatch\<close> starts.\<close>

lemma free_parts:
  assumes inv: "core_inv l (add_mset k R)" and rdy: "\<forall>n. ready_ok l n"
    and e: "free l (Namespace k) = (l', wake)"
  obtains l2 l3 where "dispatch l2 = (l3, wake)" "l' = gc l3 (the (nss l3 (Namespace k)))"
    "nss l2 (Namespace k) \<noteq> None" "core_inv l2 R" "\<forall>n. ready_ok l2 n"
    "total l2 = total l - 1" "Global l2 = Global l" "PerNamespace l2 = PerNamespace l"
    "waiting l2 = waiting l" "queue_of l2 = queue_of l"
    "\<forall>m. used_of l2 m = used_of l m - (if m = Namespace k then 1 else 0)"
proof -
  let ?n = "Namespace k"
  have "1 \<le> used_of l ?n"
    using inv in_ns_nonneg [of ?n R] reserved_in_nonneg [of l ?n]
    by (auto simp: core_inv_def counts_ok_def)
  then obtain q where q: "nss l ?n = Some q" by (auto simp: used_of_def split: option.splits)
  define l1 where "l1 = l\<lparr>nss := (nss l)(?n \<mapsto> q\<lparr>nq_used := nq_used q - 1\<rparr>), total := total l - 1\<rparr>"
  define l2 where "l2 = markReady l1 (q\<lparr>nq_used := nq_used q - 1\<rparr>)"
  obtain l3 where d: "dispatch l2 = (l3, wake)" and l': "l' = gc l3 (the (nss l3 ?n))"
    using e q by (auto simp: free_def nsq_def l1_def l2_def Let_def split: prod.splits)
  have c: "core_inv l2 R" using markReady_core drop_used_core [OF inv q] l1_def l2_def by blast
  have r: "\<forall>m. ready_ok l2 m"
    unfolding l2_def
    by (intro allI markReady_ready_ok [where n = ?n])
      (use rdy core_inv_name [OF inv q] in \<open>auto simp: l1_def ready_ok_def used_of_def queue_of_def\<close>)
  have f: "total l2 = total l - 1" "Global l2 = Global l" "PerNamespace l2 = PerNamespace l"
    "waiting l2 = waiting l" "nss l2 ?n \<noteq> None"
    by (simp_all add: l2_def l1_def)
  have v: "queue_of l2 = queue_of l" "\<forall>m. used_of l2 m = used_of l m - (if m = ?n then 1 else 0)"
    using q by (auto simp: l2_def l1_def fun_eq_iff used_of_def queue_of_def)
  show thesis by (rule that [OF d l' f(5) c r f(1-4) v])
qed

lemma free_inv:
  assumes inv: "core_inv l (add_mset k R)" and rdy: "\<forall>n. ready_ok l n"
    and e: "free l (Namespace k) = (l', wake)"
  shows "lim_inv l' R"
proof -
  obtain l2 l3 where d: "dispatch l2 = (l3, wake)" and l': "l' = gc l3 (the (nss l3 (Namespace k)))"
    and n: "nss l2 (Namespace k) \<noteq> None" and "core_inv l2 R" "\<forall>n. ready_ok l2 n"
    by (rule free_parts [OF assms])
  then have i3: "lim_inv l3 R" using dispatch_inv by blast
  obtain q3 where "nss l3 (Namespace k) = Some q3" using dispatch_keeps_ns [OF d n] by auto
  then show ?thesis using gc_inv [OF i3] l' by simp
qed

text \<open>A reservation that becomes a running check, its timer stopped or fired.\<close>

lemma unreserve_core:
  assumes inv: "core_inv l R" and r: "reserved l k = Some g"
    and l': "reserved l' = (reserved l)(k := None)" "total l' = total l" "Global l' = Global l"
      "PerNamespace l' = PerNamespace l" "seqno l' = seqno l" "nss l' = nss l" "waiting l' = waiting l"
      "ready l' = ready l"
    and t: "\<And>k' g' d. (k', g', d) \<in> set (timers l) \<Longrightarrow> k' \<noteq> k \<or> g' \<noteq> g \<Longrightarrow> (k', g', d) \<in> set (timers l')"
  shows "core_inv l' (add_mset k R)"
proof -
  have c: "counts_ok l R" "caps_ok l" "queues_ok l" "waiting_ok l" "timers_ok l"
    using inv by (auto simp: core_inv_def)
  have v: "used_of l' = used_of l" "queue_of l' = queue_of l"
    by (rule used_of_cong [OF l'(6)], rule queue_of_cong [OF l'(6)])
  have fin: "finite (dom (reserved l))" using c(1) by (simp add: counts_ok_def)
  have "counts_ok l' (add_mset k R)"
    using c(1) reserved_in_del [OF fin r l'(1)] card_dom_del [OF fin r] v l'
    by (auto simp: counts_ok_def)
  moreover have "timers_ok l'"
  proof -
    have "g' \<le> seqno l \<and> (\<exists>d > 0. (k', g', d) \<in> set (timers l'))"
      if "reserved l k' = Some g'" "k' \<noteq> k" for k' g'
      using c(5) that t unfolding timers_ok_def by metis
    then show ?thesis using c(5) unfolding timers_ok_def l' by (auto split: if_splits)
  qed
  moreover have "caps_ok l'" "queues_ok l'"
    using c(2,3) unfolding caps_ok_def queues_ok_def v l'(2-) by simp_all
  moreover have "waiting_ok l'" using c(4) unfolding waiting_ok_def v l' by auto
  ultimately show ?thesis using inv unfolding core_inv_def l'(8) by blast
qed

lemma unreserve_ready_ok:
  "ready_ok l n \<Longrightarrow> nss l' = nss l \<Longrightarrow> ready l' = ready l \<Longrightarrow> PerNamespace l' = PerNamespace l \<Longrightarrow>
   ready_ok l' n"
  by (simp add: ready_ok_def used_of_def queue_of_def)

lemma expire_inv:
  assumes inv: "lim_inv l R"
  shows "lim_inv (fst (expire l key gen)) R"
proof (cases "reserved l key = Some gen")
  case True
  let ?l = "l\<lparr>reserved := (reserved l)(key := None)\<rparr>"
  have "core_inv ?l (add_mset key R)"
    by (rule unreserve_core [of l R key gen]) (use inv True in \<open>auto simp: lim_inv_def\<close>)
  moreover have "\<forall>n. ready_ok ?l n" using inv by (auto simp: lim_inv_def intro: unreserve_ready_ok [of l])
  ultimately show ?thesis
    using True free_inv [of ?l key R] by (cases "free ?l (Namespace key)") (simp add: expire_def)
next
  case False
  then show ?thesis using inv by (simp add: expire_def)
qed

lemma claim_inv:
  assumes inv: "lim_inv l R" and r: "reserved l key = Some gen"
  shows "core_inv ((stop_timer l key gen)\<lparr>reserved := (reserved l)(key := None)\<rparr>) (add_mset key R)"
    "ready_ok ((stop_timer l key gen)\<lparr>reserved := (reserved l)(key := None)\<rparr>) n"
proof -
  show "core_inv ((stop_timer l key gen)\<lparr>reserved := (reserved l)(key := None)\<rparr>) (add_mset key R)"
    by (rule unreserve_core [of l R key gen]) (use inv r in \<open>auto simp: lim_inv_def stop_timer_def\<close>)
  show "ready_ok ((stop_timer l key gen)\<lparr>reserved := (reserved l)(key := None)\<rparr>) n"
    by (rule unreserve_ready_ok [of l]) (use inv in \<open>auto simp: lim_inv_def stop_timer_def\<close>)
qed

lemma acquire_inv:
  assumes inv: "lim_inv l R" and q: "nss l (Namespace key) = Some q"
    and room: "total l < Global l" "nq_used q < PerNamespace l"
    and l': "l' = l\<lparr>nss := (nss l)(Namespace key \<mapsto> q\<lparr>nq_used := nq_used q + 1\<rparr>), total := total l + 1\<rparr>"
  shows "lim_inv l' (add_mset key R)"
proof -
  have v: "used_of l (Namespace key) = nq_used q" "queue_of l (Namespace key) = nq_queue q"
    using view_Some [OF q] by auto
  have qq: "queue_of l' = queue_of l" using v(2) by (auto simp: l' fun_eq_iff queue_of_def)
  have rr: "reserved_in l' = reserved_in l" using l' by (auto simp: reserved_in_def)
  have u: "used_of l' n = used_of l n + (if Namespace key = n then 1 else 0)" for n
    using v(1) l' by (auto simp: used_of_def)
  have c: "counts_ok l R" "caps_ok l" "queues_ok l" "waiting_ok l" "timers_ok l" and ci: "core_inv l R"
    using inv by (auto simp: core_inv_def lim_inv_def)
  have "counts_ok l' (add_mset key R)" using c(1) u rr by (auto simp: counts_ok_def l')
  moreover have "caps_ok l'" using c(2) u room v by (auto simp: caps_ok_def l')
  moreover have "queues_ok l'"
    using c(3) qq core_inv_name [OF ci q] by (auto simp: queues_ok_def l' split: if_splits)
  moreover have "waiting_ok l'" using c(4) qq by (auto simp: waiting_ok_def l')
  moreover have "timers_ok l'" using c(5) by (auto simp: timers_ok_def l')
  moreover have "\<forall>n. ready_ok l' n"
    using inv u qq unfolding lim_inv_def ready_ok_def by (auto simp: l')
  moreover have "work_conserving l'"
  proof -
    have "queue_of l n = [] \<or> PerNamespace l \<le> used_of l n" for n
      using inv room(1) by (auto simp: lim_inv_def work_conserving_def)
    moreover have "used_of l n \<le> used_of l' n" for n using u by simp
    ultimately have "queue_of l n = [] \<or> PerNamespace l \<le> used_of l' n" for n by (meson order_trans)
    then show ?thesis unfolding work_conserving_def qq by (simp add: l')
  qed
  ultimately show ?thesis using ci by (simp add: core_inv_def lim_inv_def l')
qed

lemma enqueue_core:
  assumes inv: "core_inv l R" and q: "nss l (Namespace key) = Some q"
    and new: "waiting l key = None" "reserved l key = None"
    and l': "l' = l\<lparr>seqno := Suc (seqno l), waiting := (waiting l)(key \<mapsto> Suc (seqno l)),
      nss := (nss l)(Namespace key \<mapsto> q\<lparr>nq_queue := nq_queue q @ [\<lparr>w_key = key, w_seq = Suc (seqno l)\<rparr>]\<rparr>)\<rparr>"
  shows "core_inv l' R"
proof -
  let ?n = "Namespace key" and ?w = "\<lparr>w_key = key, w_seq = Suc (seqno l)\<rparr>"
  have v: "used_of l ?n = nq_used q" "queue_of l ?n = nq_queue q"
    using view_Some [OF q] by auto
  have u: "used_of l' = used_of l" using v(1) by (auto simp: l' fun_eq_iff used_of_def)
  have qu: "queue_of l' m = queue_of l m @ (if m = ?n then [?w] else [])" for m
    using v(2) by (auto simp: l' queue_of_def)
  have rr: "reserved_in l' = reserved_in l" using l' by (auto simp: reserved_in_def)
  have c: "counts_ok l R" "caps_ok l" "queues_ok l" "waiting_ok l" "timers_ok l"
    using inv by (auto simp: core_inv_def)
  have mem: "Namespace (w_key x) = m \<and> waiting l (w_key x) = Some (w_seq x)"
    if "x \<in> set (queue_of l m)" for x m
    using c(3) that by (auto simp: queues_ok_def)
  have old: "s \<le> seqno l" if "waiting l k = Some s" for k s
    using c(4) that by (auto simp: waiting_ok_def)
  have "counts_ok l' R" using c(1) u rr by (simp add: counts_ok_def l')
  moreover have "caps_ok l'" using c(2) u by (simp add: caps_ok_def l')
  moreover have "queues_ok l'"
  proof -
    have "sorted_wrt (<) (map w_seq (queue_of l' m))" for m
      using c(3) mem old [THEN le_imp_less_Suc] unfolding qu queues_ok_def
      by (auto simp: sorted_wrt_append)
    moreover have "Namespace (w_key x) = m \<and> waiting l' (w_key x) = Some (w_seq x)"
      if "x \<in> set (queue_of l' m)" for x m
      using that mem [of x m] new(1) v(2) by (auto simp: qu l' split: if_splits)
    moreover have "\<forall>m p. nss l' m = Some p \<longrightarrow> nq_name p = m"
      using core_inv_name [OF inv] q by (auto simp: l')
    ultimately show ?thesis by (auto simp: queues_ok_def)
  qed
  moreover have "waiting_ok l'"
  proof -
    have "waiting l k \<noteq> Some (Suc (seqno l))" for k using old by (metis Suc_n_not_le_n)
    then show ?thesis
      using c(4) new(2) old [THEN le_SucI] unfolding waiting_ok_def qu by (auto simp: l')
  qed
  moreover have "timers_ok l'" using c(5) by (auto simp: timers_ok_def l' le_SucI)
  ultimately show ?thesis using inv by (simp add: core_inv_def l')
qed

lemma enqueue_inv:
  assumes inv: "lim_inv l R" and q: "nss l (Namespace key) = Some q"
    and new: "waiting l key = None" "reserved l key = None"
    and full: "total l \<ge> Global l \<or> nq_used q \<ge> PerNamespace l"
    and q1: "q1 = q\<lparr>nq_queue := nq_queue q @ [\<lparr>w_key = key, w_seq = Suc (seqno l)\<rparr>]\<rparr>"
    and l': "l' = l\<lparr>seqno := Suc (seqno l), waiting := (waiting l)(key \<mapsto> Suc (seqno l)),
      nss := (nss l)(Namespace key \<mapsto> q1)\<rparr>"
  shows "lim_inv (if length (nq_queue q1) = 1 then markReady l' q1 else l') R"
proof -
  let ?n = "Namespace key"
  have ci: "core_inv l R" using inv by (simp add: lim_inv_def)
  then have c: "core_inv l' R" using enqueue_core [OF _ q new] l' q1 by blast
  have v: "used_of l ?n = nq_used q" "queue_of l ?n = nq_queue q"
    using view_Some [OF q] by auto
  have nn: "nss l' = (nss l)(?n \<mapsto> q1)" using l' by simp
  have f: "ready l' = ready l" "PerNamespace l' = PerNamespace l" "total l' = total l" "Global l' = Global l"
    using l' by simp_all
  have ro: "ready_ok l m" for m using inv by (simp add: lim_inv_def)
  have wc: "work_conserving l'"
    using inv full v nn f unfolding lim_inv_def work_conserving_def by (auto simp: q1)
  have oth: "ready_ok l' m" if "m \<noteq> ?n" for m
    using ro [of m] that nn f unfolding ready_ok_def by simp
  show ?thesis
  proof (cases "nq_queue q = []")
    case True
    have "ready_ok (markReady l' q1) m" for m
      by (rule markReady_ready_ok [where n = ?n]) (use nn oth core_inv_name [OF ci q] q1 in auto)
    moreover have "work_conserving (markReady l' q1)" using wc by (simp add: work_conserving_def)
    ultimately show ?thesis using True q1 markReady_core [OF c] by (simp add: lim_inv_def)
  next
    case False
    then have "ready_ok l' ?n"
      using ro [of ?n] nn f v q1 unfolding ready_ok_def by simp
    then have "ready_ok l' m" for m using oth by (cases "m = ?n") auto
    then show ?thesis using False q1 c wc by (simp add: lim_inv_def)
  qed
qed

lemma TryAcquire_inv:
  assumes inv: "lim_inv l R" and e: "TryAcquire l key = (l', ok)"
  shows "lim_inv l' (if ok then add_mset key R else R)"
proof (cases "reserved l key")
  case (Some gen)
  let ?l = "(stop_timer l key gen)\<lparr>reserved := (reserved l)(key := None)\<rparr>"
  have "work_conserving ?l"
    using inv by (simp add: lim_inv_def work_conserving_def used_of_def queue_of_def stop_timer_def)
  then have "lim_inv ?l (add_mset key R)" using claim_inv [OF inv Some] by (simp add: lim_inv_def)
  then show ?thesis using e Some by (simp add: TryAcquire_def)
next
  case r: None
  show ?thesis
  proof (cases "waiting l key")
    case (Some s)
    then show ?thesis using e inv r by (auto simp: TryAcquire_def)
  next
    case w: None
    obtain l1 q where n: "nsq l (Namespace key) = (l1, q)" by force
    have i: "lim_inv l1 R" "nss l1 (Namespace key) = Some q" "waiting l1 key = None" "reserved l1 key = None"
      using nsq_inv [OF inv n] w r by auto
    show ?thesis
    proof (cases "total l1 \<ge> Global l1 \<or> nq_used q \<ge> PerNamespace l1")
      case True
      show ?thesis
        using enqueue_inv [OF i True refl refl] True e r w n
        by (auto simp: TryAcquire_def Let_def split: if_splits)
    next
      case False
      then show ?thesis
        using acquire_inv [OF i(1,2) _ _ refl] e r w n by (simp add: TryAcquire_def Let_def)
    qed
  qed
qed

lemma filter_seq_hd:
  assumes "sorted_wrt (<) (map w_seq ws)" "ws \<noteq> []" "w_seq (hd ws) \<noteq> s"
  shows "filter (\<lambda>w. w_seq w \<noteq> s) ws \<noteq> [] \<and> hd (filter (\<lambda>w. w_seq w \<noteq> s) ws) = hd ws"
  using assms by (cases ws) auto

lemma dequeue_core:
  assumes inv: "core_inv l R" and w: "waiting l key = Some s" and q: "nss l (Namespace key) = Some q"
    and l': "l' = l\<lparr>nss := (nss l)(Namespace key \<mapsto> q\<lparr>nq_queue := filter (\<lambda>w. w_seq w \<noteq> s) (nq_queue q)\<rparr>),
      waiting := (waiting l)(key := None)\<rparr>"
  shows "core_inv l' R"
proof -
  let ?n = "Namespace key"
  have v: "used_of l ?n = nq_used q" "queue_of l ?n = nq_queue q"
    using view_Some [OF q] by auto
  have u: "used_of l' = used_of l" using v(1) by (auto simp: l' fun_eq_iff used_of_def)
  have c: "counts_ok l R" "caps_ok l" "queues_ok l" "waiting_ok l" "timers_ok l"
    using inv by (auto simp: core_inv_def)
  have mem: "Namespace (w_key x) = m \<and> waiting l (w_key x) = Some (w_seq x)"
    if "x \<in> set (queue_of l m)" for x m
    using c(3) that by (auto simp: queues_ok_def)
  have key: "k = key" if "waiting l k = Some s" for k using c(4) w that by (auto simp: waiting_ok_def)
  have qu: "queue_of l' m = filter (\<lambda>w. w_seq w \<noteq> s) (queue_of l m)" for m
  proof (cases "m = ?n")
    case False
    then have "w_seq x \<noteq> s" if "x \<in> set (queue_of l m)" for x using mem [OF that] key by metis
    then show ?thesis using False by (auto simp: l' queue_of_def intro!: filter_True [symmetric])
  qed (use v(2) in \<open>simp add: l'\<close>)
  have rr: "reserved_in l' = reserved_in l" using l' by (auto simp: reserved_in_def)
  have "counts_ok l' R" using c(1) u rr by (simp add: counts_ok_def l')
  moreover have "caps_ok l'" using c(2) u by (simp add: caps_ok_def l')
  moreover have "queues_ok l'"
  proof -
    have "sorted_wrt (<) (map w_seq (queue_of l' m))" for m
      using c(3) unfolding qu queues_ok_def by (metis sorted_wrt_filter sorted_wrt_map)
    moreover have "Namespace (w_key x) = m \<and> waiting l' (w_key x) = Some (w_seq x)"
      if "x \<in> set (queue_of l' m)" for x m
      using that mem [of x m] w unfolding qu by (auto simp: l')
    moreover have "\<forall>m p. nss l' m = Some p \<longrightarrow> nq_name p = m"
      using core_inv_name [OF inv] q by (auto simp: l')
    ultimately show ?thesis by (auto simp: queues_ok_def)
  qed
  moreover have "waiting_ok l'" using c(4) key unfolding waiting_ok_def qu by (auto simp: l')
  moreover have "timers_ok l'" using c(5) by (auto simp: timers_ok_def l')
  ultimately show ?thesis using inv by (simp add: core_inv_def l')
qed

lemma dequeue_inv:
  assumes inv: "lim_inv l R" and w: "waiting l key = Some s" and q: "nss l (Namespace key) = Some q"
    and q1: "q1 = q\<lparr>nq_queue := filter (\<lambda>w. w_seq w \<noteq> s) (nq_queue q)\<rparr>"
    and l': "l' = l\<lparr>nss := (nss l)(Namespace key \<mapsto> q1), waiting := (waiting l)(key := None)\<rparr>"
    and h: "head = (nq_queue q \<noteq> [] \<and> w_seq (hd (nq_queue q)) = s)"
  shows "lim_inv (if head then markReady l' q1 else l') R"
proof -
  let ?n = "Namespace key"
  have ci: "core_inv l R" using inv by (simp add: lim_inv_def)
  then have c: "core_inv l' R" using dequeue_core [OF _ w q] l' q1 by blast
  have v: "used_of l ?n = nq_used q" "queue_of l ?n = nq_queue q"
    using view_Some [OF q] by auto
  have nn: "nss l' = (nss l)(?n \<mapsto> q1)" using l' by simp
  have f: "ready l' = ready l" "PerNamespace l' = PerNamespace l" "total l' = total l" "Global l' = Global l"
    using l' by simp_all
  have ro: "ready_ok l m" for m using inv by (simp add: lim_inv_def)
  have wc: "work_conserving l'"
    using inv v nn f unfolding lim_inv_def work_conserving_def
    by (auto simp: q1) (metis filter.simps(1))
  have oth: "ready_ok l' m" if "m \<noteq> ?n" for m
    using ro [of m] that nn f unfolding ready_ok_def by simp
  show ?thesis
  proof (cases head)
    case True
    have "ready_ok (markReady l' q1) m" for m
      by (rule markReady_ready_ok [where n = ?n]) (use nn oth core_inv_name [OF ci q] q1 in auto)
    moreover have "work_conserving (markReady l' q1)" using wc by (simp add: work_conserving_def)
    ultimately show ?thesis using True markReady_core [OF c] by (simp add: lim_inv_def)
  next
    case False
    have "sorted_wrt (<) (map w_seq (nq_queue q))" using ci v by (metis core_inv_def queues_ok_def)
    then have "ready_ok l' ?n"
      using ro [of ?n] nn f v q1 False h filter_seq_hd [of "nq_queue q" s]
      unfolding ready_ok_def by (cases "nq_queue q = []") simp_all
    then have "ready_ok l' m" for m using oth by (cases "m = ?n") auto
    then show ?thesis using False c wc by (simp add: lim_inv_def)
  qed
qed

lemma Cancel_inv:
  assumes inv: "lim_inv l R"
  shows "lim_inv (fst (Cancel l key)) R"
proof (cases "waiting l key")
  case (Some s)
  have "reserved l key = None" "\<lparr>w_key = key, w_seq = s\<rparr> \<in> set (queue_of l (Namespace key))"
    using inv Some by (auto simp: lim_inv_def core_inv_def waiting_ok_def)
  moreover from this obtain q where q: "nss l (Namespace key) = Some q"
    by (cases "nss l (Namespace key)") (auto simp: queue_of_def)
  note d = dequeue_inv [OF inv Some q refl refl refl]
  have "reserved (gc (if h then markReady l' x else l') x) = reserved l'" for h l' x
    by (simp add: gc_def)
  ultimately show ?thesis
    using Some q gc_inv [OF d, of "Namespace key"] by (auto simp: Cancel_def Let_def)
next
  case None
  show ?thesis
  proof (cases "reserved l key")
    case r: None
    then show ?thesis using inv None by (simp add: Cancel_def)
  next
    case (Some gen)
    let ?l = "(stop_timer l key gen)\<lparr>reserved := (reserved l)(key := None)\<rparr>"
    show ?thesis
      using free_inv [of ?l key R] claim_inv [OF inv Some] None Some
      by (cases "free ?l (Namespace key)") (simp add: Cancel_def)
  qed
qed

lemma release_inv:
  assumes "lim_inv l (add_mset k R)"
  shows "lim_inv (fst (free l (Namespace k))) R"
  using assms free_inv [of l k R] by (cases "free l (Namespace k)") (auto simp: lim_inv_def)

section \<open>Order of service\<close>

text \<open>A check is eligible when it waits in a namespace that is under its cap.\<close>

definition eligible :: "limiter \<Rightarrow> nsname \<Rightarrow> bool" where
  "eligible l k \<longleftrightarrow> waiting l k \<noteq> None \<and> used_of l (Namespace k) < PerNamespace l"

lemma eligible_entry:
  assumes inv: "core_inv l R" "\<forall>n. ready_ok l n" and k: "eligible l k" "waiting l k = Some s"
  shows "\<exists>e \<in> set (ready l). re_seq e \<le> s"
proof -
  let ?Q = "queue_of l (Namespace k)"
  have m: "\<lparr>w_key = k, w_seq = s\<rparr> \<in> set ?Q" and srt: "sorted_wrt (<) (map w_seq ?Q)"
    using inv(1) k(2) by (auto simp: core_inv_def waiting_ok_def queues_ok_def)
  then have "?Q \<noteq> []" by auto
  moreover have "w_seq (hd ?Q) \<le> s" using m srt by (cases ?Q) auto
  ultimately show ?thesis
    using inv(2) k(1) by (auto simp: ready_ok_def eligible_def intro!: bexI [rotated])
qed

lemma dispatch_first:
  assumes "dispatch l = (l', wake)" "core_inv l R" "\<forall>n. ready_ok l n" "wake = k # ks"
  shows "\<exists>s. waiting l k = Some s \<and> (\<forall>k' s'. eligible l k' \<longrightarrow> waiting l k' = Some s' \<longrightarrow> s \<le> s')"
  using assms
proof (induction rule: dispatch_run)
  case (drop l e r l' wake)
  have "ready_ok (l\<lparr>ready := r\<rparr>) n" for n
    using drop_ready_ok [OF drop.hyps(2) _ drop.hyps(3)] drop.prems by blast
  then show ?case
    using drop.IH drop.prems(3) pop_core [OF drop.prems(1) drop.hyps(2)]
    by (simp add: eligible_def used_of_def)
next
  case (give l e r q w ws l' wake)
  have "waiting l (w_key w) = Some (w_seq w)"
    using give.prems(1) view_Some [OF give.hyps(3)] give.hyps(5)
    by (auto simp: core_inv_def queues_ok_def) (metis list.set_intros(1))
  moreover have "re_seq e \<le> s'" if "eligible l k'" "waiting l k' = Some s'" for k' s'
  proof -
    from eligible_entry [OF give.prems(1,2) that]
    obtain e' where "e' \<in> set (ready l)" "re_seq e' \<le> s'" by blast
    moreover have "\<not> ready_less e' e"
      using ready_heap.pop_min [OF _ give.hyps(2)] give.prems(1) calculation(1)
      by (auto simp: core_inv_def)
    ultimately show ?thesis by (simp add: ready_less_def)
  qed
  ultimately show ?case using give.prems(3) give.hyps(6) by auto
qed simp

text \<open>One slot comes free at a time: \<open>dispatch\<close> then grants at most one.\<close>

definition one_short :: "limiter \<Rightarrow> bool" where
  "one_short l \<longleftrightarrow> total l + 1 \<ge> Global l \<or>
     (\<exists>n. (used_of l n + 1 \<ge> PerNamespace l \<or> queue_of l n = []) \<and>
          (\<forall>m. m \<noteq> n \<longrightarrow> queue_of l m = [] \<or> used_of l m \<ge> PerNamespace l))"

lemma grant_views:
  assumes "nss l n = Some q"
  shows "used_of (grant l n q) m = used_of l m + (if m = n then 1 else 0)"
    "queue_of (grant l n q) m = (if m = n then tl (queue_of l n) else queue_of l m)"
  using assms by (auto simp: grant_def Let_def used_of_def queue_of_def)

lemma dispatch_count:
  assumes "dispatch l = (l', wake)"
  shows "(work_conserving l \<longrightarrow> wake = []) \<and> (one_short l \<longrightarrow> length wake \<le> 1)"
  using assms
proof (induction rule: dispatch_run)
  case (drop l e r l' wake)
  have "used_of (l\<lparr>ready := r\<rparr>) = used_of l" "queue_of (l\<lparr>ready := r\<rparr>) = queue_of l"
    by (auto simp: used_of_def queue_of_def)
  then show ?case using drop.IH by (simp add: work_conserving_def one_short_def)
next
  case (give l e r q w ws l' wake)
  let ?l1 = "l\<lparr>ready := r\<rparr>"
  have v: "used_of ?l1 = used_of l" "queue_of ?l1 = queue_of l"
    by (auto simp: used_of_def queue_of_def)
  have "nss ?l1 (re_ns e) = Some q" using give by simp
  note gv = grant_views [OF this, unfolded v]
  have q: "used_of l (re_ns e) = nq_used q" "queue_of l (re_ns e) = w # ws"
    using view_Some [OF give.hyps(3)] give.hyps(5) by auto
  have "\<not> work_conserving l"
    unfolding work_conserving_def using give.hyps(1,4) q by (metis list.distinct(1) not_less)
  moreover have "work_conserving (grant ?l1 (re_ns e) q)" if one: "one_short l"
  proof (cases "total l + 1 \<ge> Global l")
    case True
    then show ?thesis by (simp add: work_conserving_def)
  next
    case False
    then obtain n where n: "used_of l n + 1 \<ge> PerNamespace l \<or> queue_of l n = []"
        "\<forall>m. m \<noteq> n \<longrightarrow> queue_of l m = [] \<or> used_of l m \<ge> PerNamespace l"
      using one by (auto simp: one_short_def)
    moreover from this have e: "re_ns e = n" using q give.hyps(4) by force
    ultimately have "used_of l n + 1 \<ge> PerNamespace l" using q by auto
    with n e show ?thesis unfolding work_conserving_def gv by simp
  qed
  ultimately show ?case using give.IH by auto
qed simp

section \<open>The reachable states\<close>

lemma running_append [simp]:
  "running (s\<lparr>lim := l, handles := handles s @ [(k, False)]\<rparr>) = add_mset k (running s)"
  by (simp add: running_def)

lemma running_release:
  assumes "i < length hs" "hs ! i = (k, False)"
  shows "mset (map fst (filter (\<lambda>(k, called). \<not> called) hs)) =
    add_mset k (mset (map fst (filter (\<lambda>(k, called). \<not> called) (hs[i := (k, True)]))))"
  using assms by (induction hs arbitrary: i) (auto split: nat.split simp: nth_Cons less_Suc_eq_0_disj)

lemma running_again:
  assumes "i < length hs" "hs ! i = (k, True)"
  shows "hs[i := (k, True)] = hs"
  using assms by (metis list_update_id)

lemma slots_step_inv:
  assumes inv: "lim_inv (lim s) (running s)"
  shows "lim_inv (lim (slots_step s ev)) (running (slots_step s ev))"
proof (cases ev)
  case (EvTry key)
  obtain l ok where e: "TryAcquire (lim s) key = (l, ok)" by force
  show ?thesis using TryAcquire_inv [OF inv e] EvTry e by (cases ok) (simp_all add: running_def)
next
  case (EvRelease i)
  show ?thesis
  proof (cases "i < length (handles s)")
    case True
    obtain key called where h: "handles s ! i = (key, called)" by force
    show ?thesis
    proof (cases called)
      case c: True
      then show ?thesis using inv True h EvRelease running_again [OF True] by (simp add: release_def running_def)
    next
      case False
      then have "running s = add_mset key (running (slots_step s ev))"
        using running_release [OF True] h True EvRelease by (simp add: running_def)
      then show ?thesis using release_inv [of "lim s" key] inv False True h EvRelease by (simp add: release_def)
    qed
  qed (use inv EvRelease in simp)
next
  case (EvExpire key gen)
  then show ?thesis using expire_inv [OF inv] by (simp add: running_def)
next
  case (EvCancel key)
  then show ?thesis using Cancel_inv [OF inv] by (simp add: running_def)
qed

lemma lim_inv_init: "lim_inv (NewLimiter g p ttl) {#}"
  by (simp add: lim_inv_def core_inv_def inv_defs NewLimiter_def used_of_def queue_of_def in_ns_def
      reserved_in_def ready_ok_def work_conserving_def is_heap_upto_def)

interpretation slots: run_system "slots_init g p ttl" slots_step "\<lambda>s. lim_inv (lim s) (running s)" for g p ttl
  using lim_inv_init slots_step_inv by unfold_locales (simp_all add: slots_init_def running_def)

lemma slots_run_inv: "lim_inv (lim (slots_run g p ttl evs)) (running (slots_run g p ttl evs))"
  unfolding slots_run_def by (rule slots.inv_run)

text \<open>The configuration never changes.\<close>

definition config :: "limiter \<Rightarrow> int \<times> int \<times> duration" where
  "config l = (Global l, PerNamespace l, ClaimTTL l)"

lemma config_update [simp]:
  "config (l\<lparr>nss := a\<rparr>) = config l" "config (l\<lparr>waiting := b\<rparr>) = config l"
  "config (l\<lparr>reserved := c\<rparr>) = config l" "config (l\<lparr>total := d\<rparr>) = config l"
  "config (l\<lparr>seqno := e\<rparr>) = config l" "config (l\<lparr>ready := f\<rparr>) = config l"
  "config (l\<lparr>timers := g\<rparr>) = config l"
  "config (markReady l q) = config l" "config (gc l q) = config l"
  "config (stop_timer l k n) = config l" "config (grant l m q) = config l"
  "config (fst (nsq l m)) = config l"
  by (simp_all add: config_def gc_def stop_timer_def grant_def nsq_def Let_def split: option.split)

lemma dispatch_config: "dispatch l = (l', wake) \<Longrightarrow> config l' = config l"
  by (induction rule: dispatch_run) simp_all

lemma free_config [simp]: "config (fst (free l n)) = config l"
  by (auto simp: free_def Let_def dest!: dispatch_config split: prod.split)
    (metis config_update(12) fst_conv)

lemma TryAcquire_config [simp]: "config (fst (TryAcquire l key)) = config l"
  by (auto simp: TryAcquire_def Let_def split: option.split prod.split)
    (metis config_update(12) fst_conv)+

lemma Cancel_config [simp]: "config (fst (Cancel l key)) = config l"
  by (simp add: Cancel_def Let_def split: option.split)

lemma slots_step_config: "config (lim (slots_step s ev)) = config (lim s)"
proof (cases ev)
  case (EvTry key)
  then show ?thesis using TryAcquire_config [of "lim s" key] by (cases "TryAcquire (lim s) key") simp
qed (auto simp: release_def expire_def split: prod.splits)

lemma slots_run_config: "config (lim (slots_run g p ttl evs)) = (g, p, ttl)"
proof (induction evs rule: rev_induct)
  case Nil
  then show ?case by (simp add: slots_run_def slots_init_def NewLimiter_def config_def)
next
  case (snoc ev evs)
  then show ?case by (simp add: slots_run_def slots_step_config)
qed

lemma slots_run_caps [simp]:
  "Global (lim (slots_run g p ttl evs)) = g" "PerNamespace (lim (slots_run g p ttl evs)) = p"
  using slots_run_config [of g p ttl evs] by (simp_all add: config_def)

section \<open>Properties\<close>

lemma dispatch_reserves:
  "dispatch l = (l', wake) \<Longrightarrow> (\<forall>k. k \<in> set wake \<or> reserved l k \<noteq> None \<longrightarrow> reserved l' k \<noteq> None)"
proof (induction rule: dispatch_run)
  case (give l e r q w ws l' wake)
  have "reserved (grant (l\<lparr>ready := r\<rparr>) (re_ns e) q) = (reserved l)(w_key w \<mapsto> seqno l + 1)"
    using give.hyps(5) by (simp add: grant_def Let_def)
  then show ?case using give.IH by auto
qed simp_all

lemma free_first:
  assumes inv: "lim_inv l (add_mset key R)" and e: "free l (Namespace key) = (l', wake)"
  shows "length wake \<le> 1 \<and> (\<forall>k \<in> set wake. reserved l' k \<noteq> None \<and>
     (\<exists>s. waiting l k = Some s \<and>
        (\<forall>k' s'. waiting l k' = Some s' \<longrightarrow>
           used_of l (Namespace k') - (if Namespace k' = Namespace key then 1 else 0) < PerNamespace l \<longrightarrow>
           s \<le> s')))"
proof -
  have i: "core_inv l (add_mset key R)" "\<forall>n. ready_ok l n" using inv by (auto simp: lim_inv_def)
  obtain l2 l3 where d: "dispatch l2 = (l3, wake)" and l': "l' = gc l3 (the (nss l3 (Namespace key)))"
    and i2: "core_inv l2 R" "\<forall>n. ready_ok l2 n"
    and f: "total l2 = total l - 1" "Global l2 = Global l" "PerNamespace l2 = PerNamespace l"
      "waiting l2 = waiting l" "queue_of l2 = queue_of l"
    and u: "\<forall>m. used_of l2 m = used_of l m - (if m = Namespace key then 1 else 0)"
    by (rule free_parts [OF i e])
  have "one_short l2"
  proof (cases "total l < Global l")
    case True
    have "queue_of l m = [] \<or> PerNamespace l \<le> used_of l m" for m
      using inv True by (simp add: lim_inv_def work_conserving_def)
    then show ?thesis
      by (auto simp: one_short_def f u intro!: exI [of _ "Namespace key"])
  qed (simp add: one_short_def f)
  then have one: "length wake \<le> 1" using dispatch_count [OF d] by blast
  moreover have "reserved l' k \<noteq> None" if "k \<in> set wake" for k
    using dispatch_reserves [OF d] that l' by (simp add: gc_def)
  moreover have "wake = [k]" if "k \<in> set wake" for k
    using one that by (cases wake) auto
  ultimately show ?thesis
    using dispatch_first [OF d i2] by (fastforce simp: eligible_def f u)
qed

text \<open>C1. In every state the limiter can reach, under any sequence of requests, cancellations,
  releases (repeated ones too) and timer expiries, fresh or stale, the slots in use are exactly the
  running checks plus the reservations, their number never exceeds the global cap, and those of one
  namespace never exceed the namespace's cap.\<close>

theorem slots_caps:
  "let s = slots_run g p ttl evs in
     InUse (lim s) = int (size (running s)) + int (card (dom (reserved (lim s)))) \<and>
     InUse (lim s) \<le> max 0 g \<and>
     (\<forall>n. in_ns n (running s) + reserved_in (lim s) n \<le> max 0 p)"
  using slots_run_inv [of g p ttl evs] slots_run_caps [of g p ttl evs]
  by (auto simp: lim_inv_def core_inv_def counts_ok_def caps_ok_def InUse_def Let_def)

text \<open>C2. No waiting check is passed over: in every reachable state, if some check waits in a
  namespace that is under its cap, then every global slot is in use. This is the promise
  \<open>TryAcquire\<close> relies on when it hands a free slot to a newcomer.\<close>

theorem slots_work_conserving:
  assumes "eligible (lim (slots_run g p ttl evs)) k"
  shows "InUse (lim (slots_run g p ttl evs)) \<ge> g"
proof (rule ccontr)
  let ?l = "lim (slots_run g p ttl evs)"
  assume "\<not> InUse ?l \<ge> g"
  then have "queue_of ?l (Namespace k) = [] \<or> used_of ?l (Namespace k) \<ge> PerNamespace ?l"
    using slots_run_inv [of g p ttl evs] by (auto simp: lim_inv_def work_conserving_def InUse_def)
  moreover have "queue_of ?l (Namespace k) \<noteq> []"
    using assms slots_run_inv [of g p ttl evs]
    by (fastforce simp: eligible_def lim_inv_def core_inv_def waiting_ok_def)
  ultimately show False using assms by (simp add: eligible_def)
qed

theorem slots_work_conserving_witness:
  "InUse (lim (slots_run 1 2 0 [EvTry \<lparr>Namespace = ''a'', Name = ''x''\<rparr>, EvTry \<lparr>Namespace = ''b'', Name = ''y''\<rparr>])) \<ge> 1"
  by (rule slots_work_conserving [where k = "\<lparr>Namespace = ''b'', Name = ''y''\<rparr>"])
    (simp add: slots_run_def slots_init_def NewLimiter_def TryAcquire_def nsq_def markReady_def
      eligible_def used_of_def Let_def)

text \<open>First come, first served. When a running check of a reachable state gives its slot back, at
  most one check is woken. It was waiting, it now has a reservation, and it asked before every other
  check that could take the slot, that is, every check that waits in a namespace which is under its cap
  once the slot is back.\<close>

theorem slots_fifo:
  assumes "key \<in># running (slots_run g p ttl evs)"
    and "free (lim (slots_run g p ttl evs)) (Namespace key) = (l', wake)"
  shows "length wake \<le> 1 \<and> (\<forall>k \<in> set wake. reserved l' k \<noteq> None \<and>
     (\<exists>s. waiting (lim (slots_run g p ttl evs)) k = Some s \<and>
        (\<forall>k' s'. waiting (lim (slots_run g p ttl evs)) k' = Some s' \<longrightarrow>
           used_of (lim (slots_run g p ttl evs)) (Namespace k') -
             (if Namespace k' = Namespace key then 1 else 0) < p \<longrightarrow>
           s \<le> s')))"
proof -
  obtain R where R: "running (slots_run g p ttl evs) = add_mset key R"
    using assms(1) by (meson multi_member_split)
  show ?thesis using free_first [OF slots_run_inv [of g p ttl evs, unfolded R] assms(2)] by simp
qed

lemmas slots_exec = slots_run_def slots_init_def NewLimiter_def TryAcquire_def nsq_def markReady_def
  running_def eligible_def used_of_def Let_def

theorem slots_fifo_witness:
  "length (snd (free (lim (slots_run 1 1 0 [EvTry \<lparr>Namespace = ''a'', Name = ''x''\<rparr>,
      EvTry \<lparr>Namespace = ''b'', Name = ''y''\<rparr>])) ''a'')) \<le> 1"
proof -
  let ?evs = "[EvTry \<lparr>Namespace = ''a'', Name = ''x''\<rparr>, EvTry \<lparr>Namespace = ''b'', Name = ''y''\<rparr>]"
  have "\<lparr>Namespace = ''a'', Name = ''x''\<rparr> \<in># running (slots_run 1 1 0 ?evs)"
    by (simp add: slots_exec)
  from slots_fifo [OF this, of "fst (free (lim (slots_run 1 1 0 ?evs)) ''a'')"
      "snd (free (lim (slots_run 1 1 0 ?evs)) ''a'')"]
  show ?thesis by simp
qed

text \<open>A reservation of a reachable state is claimed exactly once. Its timer is armed with a
  positive delay; the reserved check's \<open>TryAcquire\<close> succeeds whatever the load, takes no further slot,
  ends the reservation and stops the timer; a callback of an earlier reservation of the same check
  (another generation) changes nothing and wakes nobody.\<close>

theorem slots_reservation:
  assumes "reserved (lim (slots_run g p ttl evs)) k = Some gen"
  shows "(\<exists>d > 0. (k, gen, d) \<in> set (timers (lim (slots_run g p ttl evs)))) \<and>
    (case TryAcquire (lim (slots_run g p ttl evs)) k of (l', ok) \<Rightarrow>
       ok \<and> InUse l' = InUse (lim (slots_run g p ttl evs)) \<and> reserved l' k = None \<and>
       (\<forall>d. (k, gen, d) \<notin> set (timers l'))) \<and>
    (gen' \<noteq> gen \<longrightarrow> expire (lim (slots_run g p ttl evs)) k gen' = (lim (slots_run g p ttl evs), []))"
  using slots_run_inv [of g p ttl evs] assms
  by (auto simp: lim_inv_def core_inv_def timers_ok_def TryAcquire_def InUse_def stop_timer_def expire_def)

theorem slots_reservation_witness:
  "snd (TryAcquire (lim (slots_run 1 1 0 [EvTry \<lparr>Namespace = ''a'', Name = ''x''\<rparr>,
      EvTry \<lparr>Namespace = ''b'', Name = ''y''\<rparr>, EvRelease 0])) \<lparr>Namespace = ''b'', Name = ''y''\<rparr>)"
proof -
  let ?evs = "[EvTry \<lparr>Namespace = ''a'', Name = ''x''\<rparr>, EvTry \<lparr>Namespace = ''b'', Name = ''y''\<rparr>, EvRelease 0]"
  have "reserved (lim (slots_run 1 1 0 ?evs)) \<lparr>Namespace = ''b'', Name = ''y''\<rparr> = Some 2"
    by code_simp
  from slots_reservation [OF this] show ?thesis by (simp add: split_def)
qed

end
