(* ===== verification/Fair_Queue.thy ===== *)
theory Fair_Queue
  imports Go_Heap "HOL-Library.AList" "HOL-Library.Product_Lexorder"
begin

text \<open>
  The fair work queue: \<open>pkg/reconciler/fairqueue/fairqueue.go\<close>. It wraps controller-runtime's priority queue
  and shifts the priority of a key by the backlog of its namespace.

  The inner queue is third-party code. An operation returns the calls it makes on the inner queue
  (\<open>inner_call\<close>), and what the inner queue hands to \<open>GetWithPriority\<close> is an argument, so everything proved here
  holds for every inner queue. The clock and the delay the rate limiter gives (\<open>limiter.When\<close>) are arguments
  too. A Go map is an association list with distinct keys. The mutex makes every operation atomic on the
  bookkeeping; the calls on the inner queue follow it, as in the code.
\<close>

section \<open>State\<close>

definition span :: int where "span = 1000"

definition buckets :: "int list" where "buckets = [1, 4, 16, 64, 256]"

definition DefaultAging :: duration where "DefaultAging = 10 * second"

record fq_state =
  fs_queued :: bool
  fs_processing :: bool
  fs_due :: bool
  fs_aged :: bool
  fs_base :: int
  fs_readyAt :: time
  fs_dueSince :: time
  fs_gen :: nat
  fs_seq :: nat

definition zero_state :: fq_state where
  "zero_state = \<lparr>fs_queued = False, fs_processing = False, fs_due = False, fs_aged = False, fs_base = 0, fs_readyAt = 0,
     fs_dueSince = 0, fs_gen = 0, fs_seq = 0\<rparr>"

record fq_waiter =
  fw_at :: time
  fw_key :: nsname
  fw_gen :: nat

definition waiter_less :: "fq_waiter \<Rightarrow> fq_waiter \<Rightarrow> bool" where
  "waiter_less v w = (fw_at v < fw_at w)"

record fq_namespace =
  fn_keys :: "(nsname \<times> fq_state) list"
  fn_active :: int
  fn_waiting :: "fq_waiter list"

record Queue =
  q_aging :: duration
  q_seq :: nat
  q_namespaces :: "(string \<times> fq_namespace) list"

record AddOpts =
  ao_after :: duration
  ao_rateLimited :: bool
  ao_priority :: "int option"

datatype inner_call = InnerAdd AddOpts nsname | InnerDone nsname

definition Wrap :: "duration \<Rightarrow> Queue" where
  "Wrap aging = \<lparr>q_aging = aging, q_seq = 0, q_namespaces = []\<rparr>"

definition shift :: "int \<Rightarrow> int \<Rightarrow> int" where
  "shift base backlog = base * span - int (length (filter (\<lambda>b. backlog \<ge> b) buckets))"

section \<open>Waiters that become due\<close>

definition wake :: "fq_waiter \<Rightarrow> fq_namespace \<Rightarrow> fq_namespace \<times> (nsname \<times> int) list" where
  "wake w n =
     (case map_of (fn_keys n) (fw_key w) of
        None \<Rightarrow> (n, [])
      | Some st \<Rightarrow>
          if fs_gen st = fw_gen w \<and> fs_queued st \<and> \<not> fs_due st
          then (n\<lparr>fn_keys := AList.update (fw_key w) (st\<lparr>fs_due := True, fs_dueSince := fw_at w\<rparr>) (fn_keys n),
                  fn_active := fn_active n + 1\<rparr>, [(fw_key w, fs_base st)])
          else (n, []))"

lemma wake_waiting [simp]: "fn_waiting (fst (wake w n)) = fn_waiting n"
  by (simp add: wake_def split: option.split)

text \<open>\<open>promote\<close> returns the promoted keys with their base priority.\<close>

function promote :: "time \<Rightarrow> fq_namespace \<Rightarrow> fq_namespace \<times> (nsname \<times> int) list" where
  "promote now n =
     (if fn_waiting n = [] \<or> fw_at (fn_waiting n ! 0) > now then (n, [])
      else (case heap_pop waiter_less (fn_waiting n) of
              None \<Rightarrow> (n, [])
            | Some (w, rest) \<Rightarrow>
                let (n1, out1) = wake w (n\<lparr>fn_waiting := rest\<rparr>); (n2, out2) = promote now n1
                in (n2, out1 @ out2)))"
  by pat_completeness auto
termination
proof (relation "measure (\<lambda>(now, n). length (fn_waiting n))", goal_cases)
  case (2 now n x2 w rest x n1 out1)
  then have "n1 = fst (wake w (n\<lparr>fn_waiting := rest\<rparr>))" by (metis fst_conv)
  then show ?case using 2 by (auto dest: heap_pop_length)
qed simp

declare promote.simps [simp del]

section \<open>Operations\<close>

definition empty_ns :: fq_namespace where
  "empty_ns = \<lparr>fn_keys = [], fn_active = 0, fn_waiting = []\<rparr>"

definition fq_ns :: "Queue \<Rightarrow> string \<Rightarrow> fq_namespace" where
  "fq_ns q name = (case map_of (q_namespaces q) name of None \<Rightarrow> empty_ns | Some n \<Rightarrow> n)"

definition put_ns :: "Queue \<Rightarrow> string \<Rightarrow> fq_namespace \<Rightarrow> Queue" where
  "put_ns q name n = q\<lparr>q_namespaces := AList.update name n (q_namespaces q)\<rparr>"

definition fq_release :: "Queue \<Rightarrow> string \<Rightarrow> fq_namespace \<Rightarrow> nsname \<Rightarrow> fq_state \<Rightarrow> Queue" where
  "fq_release q name n key st =
     (if fs_queued st \<or> fs_processing st then put_ns q name n
      else let n' = n\<lparr>fn_keys := AList.delete key (fn_keys n)\<rparr>
           in if fn_keys n' = [] then q\<lparr>q_namespaces := AList.delete name (q_namespaces q)\<rparr> else put_ns q name n')"

definition readd_call :: "nsname \<times> int \<Rightarrow> inner_call" where
  "readd_call r = InnerAdd \<lparr>ao_after = 0, ao_rateLimited = False, ao_priority = Some (snd r)\<rparr> (fst r)"

definition readds :: "fq_namespace \<Rightarrow> (nsname \<times> int) list \<Rightarrow> inner_call list" where
  "readds n pr = map (\<lambda>(k, b). readd_call (k, shift b (fn_active n - 1))) pr"

definition schedule :: "fq_namespace \<Rightarrow> nsname \<Rightarrow> fq_state \<Rightarrow> time \<Rightarrow> fq_namespace \<times> fq_state" where
  "schedule n key st now =
     (let st1 = st\<lparr>fs_gen := fs_gen st + 1\<rparr> in
      if fs_readyAt st1 \<le> now
      then if \<not> fs_due st1 then (n\<lparr>fn_active := fn_active n + 1\<rparr>, st1\<lparr>fs_due := True, fs_dueSince := now\<rparr>) else (n, st1)
      else (n\<lparr>fn_waiting := heap_push waiter_less (fn_waiting n)
                \<lparr>fw_at = fs_readyAt st1, fw_key = key, fw_gen = fs_gen st1\<rparr>\<rparr>, st1))"

definition limited_opts :: "AddOpts \<Rightarrow> duration option \<Rightarrow> AddOpts" where
  "limited_opts o1 when_d =
     (if ao_rateLimited o1
      then (case when_d of
              None \<Rightarrow> o1
            | Some d \<Rightarrow> o1\<lparr>ao_after := (if ao_after o1 \<le> 0 \<or> d < ao_after o1 then d else ao_after o1), ao_rateLimited := False\<rparr>)
      else o1)"

definition enqueue :: "Queue \<Rightarrow> fq_namespace \<Rightarrow> nsname \<Rightarrow> fq_state \<Rightarrow> int \<Rightarrow> time \<Rightarrow> time \<Rightarrow> Queue \<times> fq_namespace \<times> fq_state" where
  "enqueue q n it st base ready now =
     (if \<not> fs_queued st
      then let q1 = q\<lparr>q_seq := q_seq q + 1\<rparr>;
               (n1, st1) = schedule n it (st\<lparr>fs_base := base, fs_queued := True, fs_readyAt := ready, fs_aged := False,
                             fs_seq := q_seq q1\<rparr>) now
           in (q1, n1, st1)
      else let st1 = st\<lparr>fs_base := max (fs_base st) base\<rparr>
           in if \<not> fs_due st1 \<and> ready < fs_readyAt st1
              then let (n1, st2) = schedule n it (st1\<lparr>fs_readyAt := ready\<rparr>) now in (q, n1, st2)
              else (q, n, st1))"

text \<open>The body of the loop of \<open>AddWithOpts\<close> for one item.\<close>

definition add_item :: "AddOpts \<Rightarrow> Queue \<Rightarrow> nsname \<Rightarrow> time \<Rightarrow> duration option \<Rightarrow> Queue \<times> inner_call list" where
  "add_item o1 q it now when_d =
     (let base = (case ao_priority o1 of None \<Rightarrow> 0 | Some p \<Rightarrow> p);
          opts = limited_opts o1 when_d;
          ready = (if ao_after opts > 0 then now + ao_after opts else now);
          (n1, promoted) = promote now (fq_ns q (Namespace it));
          st = (case map_of (fn_keys n1) it of None \<Rightarrow> zero_state | Some st \<Rightarrow> st);
          (q1, n2, st1) = enqueue q n1 it st base ready now;
          n3 = n2\<lparr>fn_keys := AList.update it st1 (fn_keys n2)\<rparr>;
          backlog = (if fs_due st1 \<or> fs_processing st1 then fn_active n3 - 1 else fn_active n3);
          p = shift base backlog;
          again = readds n3 (filter (\<lambda>(k, b). k \<noteq> it) promoted)
      in (put_ns q1 (Namespace it) n3, InnerAdd (opts\<lparr>ao_priority := Some p\<rparr>) it # again))"

fun AddWithOpts :: "AddOpts \<Rightarrow> Queue \<Rightarrow> (nsname \<times> time \<times> duration option) list \<Rightarrow> Queue \<times> inner_call list" where
  "AddWithOpts o1 q [] = (q, [])"
| "AddWithOpts o1 q ((it, now, d) # items) =
     (let (q1, c1) = add_item o1 q it now d; (q2, c2) = AddWithOpts o1 q1 items in (q2, c1 @ c2))"

definition no_opts :: AddOpts where
  "no_opts = \<lparr>ao_after = 0, ao_rateLimited = False, ao_priority = None\<rparr>"

definition Add :: "Queue \<Rightarrow> nsname \<Rightarrow> time \<Rightarrow> Queue \<times> inner_call list" where
  "Add q it now = AddWithOpts no_opts q [(it, now, None)]"

definition AddAfter :: "Queue \<Rightarrow> nsname \<Rightarrow> duration \<Rightarrow> time \<Rightarrow> Queue \<times> inner_call list" where
  "AddAfter q it d now = AddWithOpts (no_opts\<lparr>ao_after := d\<rparr>) q [(it, now, None)]"

definition AddRateLimited :: "Queue \<Rightarrow> nsname \<Rightarrow> time \<Rightarrow> duration option \<Rightarrow> Queue \<times> inner_call list" where
  "AddRateLimited q it now d = AddWithOpts (no_opts\<lparr>ao_rateLimited := True\<rparr>) q [(it, now, d)]"

text \<open>Go's integer division truncates toward zero.\<close>

definition quot_trunc :: "int \<Rightarrow> int \<Rightarrow> int" where
  "quot_trunc a b = (if a < 0 then - ((- a) div b) else a div b)"

definition GetWithPriority :: "Queue \<Rightarrow> nsname \<times> int \<times> bool \<Rightarrow> Queue \<times> nsname \<times> int \<times> bool" where
  "GetWithPriority q got =
     (let (it, p, shutdown) = got in
      if shutdown then (q, it, p, shutdown)
      else let n = fq_ns q (Namespace it);
               st0 = (case map_of (fn_keys n) it of
                        None \<Rightarrow> zero_state\<lparr>fs_base := quot_trunc p span\<rparr>
                      | Some st \<Rightarrow> if fs_queued st then st else st\<lparr>fs_base := quot_trunc p span\<rparr>);
               act1 = (if fs_due st0 then fn_active n - 1 else fn_active n);
               act2 = (if \<not> fs_processing st0 then act1 + 1 else act1);
               st1 = st0\<lparr>fs_due := False, fs_queued := False, fs_aged := False, fs_gen := fs_gen st0 + 1, fs_processing := True\<rparr>;
               n1 = n\<lparr>fn_keys := AList.update it st1 (fn_keys n), fn_active := act2\<rparr>
           in (put_ns q (Namespace it) n1, it, fs_base st1, False))"

definition Get :: "Queue \<Rightarrow> nsname \<times> int \<times> bool \<Rightarrow> Queue \<times> nsname \<times> bool" where
  "Get q got = (let (q1, it, _, shutdown) = GetWithPriority q got in (q1, it, shutdown))"

definition Done :: "Queue \<Rightarrow> nsname \<Rightarrow> Queue \<times> inner_call list" where
  "Done q item =
     (case map_of (q_namespaces q) (Namespace item) of
        None \<Rightarrow> (q, [InnerDone item])
      | Some n \<Rightarrow>
          (case map_of (fn_keys n) item of
             None \<Rightarrow> (q, [InnerDone item])
           | Some st \<Rightarrow>
               let st1 = st\<lparr>fs_processing := False\<rparr>;
                   n1 = n\<lparr>fn_active := (if fs_processing st then fn_active n - 1 else fn_active n),
                          fn_keys := AList.update item st1 (fn_keys n)\<rparr>
               in (fq_release q (Namespace item) n1 item st1, [InnerDone item])))"

definition Backlog :: "Queue \<Rightarrow> string \<Rightarrow> time \<Rightarrow> Queue \<times> inner_call list \<times> int" where
  "Backlog q name now =
     (case map_of (q_namespaces q) name of
        None \<Rightarrow> (q, [], 0)
      | Some n \<Rightarrow> let (n1, pr) = promote now n in (put_ns q name n1, readds n1 pr, fn_active n1))"

definition ages :: "duration \<Rightarrow> time \<Rightarrow> fq_state \<Rightarrow> bool" where
  "ages aging now st = (fs_due st \<and> \<not> fs_aged st \<and> now - fs_dueSince st \<ge> aging)"

definition sweep_ns :: "duration \<Rightarrow> time \<Rightarrow> fq_namespace \<Rightarrow> fq_namespace \<times> inner_call list" where
  "sweep_ns aging now n =
     (let (n1, pr) = promote now n in
      if aging \<le> 0 then (n1, readds n1 pr)
      else let aged = filter (\<lambda>(k, st). ages aging now st) (fn_keys n1);
               n2 = n1\<lparr>fn_keys := map (\<lambda>(k, st). (k, if ages aging now st then st\<lparr>fs_aged := True\<rparr> else st)) (fn_keys n1)\<rparr>
           in (n2, readds n1 pr @
                   map (\<lambda>(k, st). readd_call (k, fs_base st * span))
                     (sort_key (\<lambda>(k, st). (fs_dueSince st, fs_seq st)) aged)))"

definition sweep :: "Queue \<Rightarrow> time \<Rightarrow> Queue \<times> inner_call list" where
  "sweep q now =
     (let rs = map (\<lambda>(name, n). (name, sweep_ns (q_aging q) now n)) (q_namespaces q)
      in (q\<lparr>q_namespaces := map (\<lambda>(name, r). (name, fst r)) rs\<rparr>, concat (map (\<lambda>(name, r). snd r) rs)))"

definition tick_every :: "duration \<Rightarrow> duration" where
  "tick_every aging = (let every = quot_trunc aging 4 in if every \<le> 0 \<or> every > second then second else every)"

section \<open>The invariant\<close>

interpretation waiter_heap: heap_order waiter_less
  unfolding waiter_less_def by (rule heap_order_key)

text \<open>What a key adds to \<open>active\<close>: one while it is processing and one while it is due.\<close>

definition weight :: "fq_state \<Rightarrow> int" where
  "weight st = of_bool (fs_processing st) + of_bool (fs_due st)"

definition total_weight :: "(nsname \<times> fq_state) list \<Rightarrow> int" where
  "total_weight ks = sum_list (map (\<lambda>x. weight (snd x)) ks)"

definition key_ok :: "string \<Rightarrow> nsname \<Rightarrow> fq_state \<Rightarrow> bool" where
  "key_ok name k st \<longleftrightarrow> Namespace k = name \<and> (fs_queued st \<or> fs_processing st) \<and> (fs_due st \<longrightarrow> fs_queued st) \<and>
     (fs_aged st \<longrightarrow> fs_due st)"

definition has_waiter :: "fq_waiter list \<Rightarrow> nsname \<Rightarrow> fq_state \<Rightarrow> bool" where
  "has_waiter ws k st \<longleftrightarrow> (\<exists>w \<in> set ws. fw_key w = k \<and> fw_gen w = fs_gen st \<and> fw_at w = fs_readyAt st)"

text \<open>The invariant of a namespace: its keys are its own and are queued or processing, a due key is queued,
  \<open>active\<close> is the weight of the keys, and every queued key that is not due has a live waiter at its ready time.\<close>

definition ns_inv :: "string \<Rightarrow> fq_namespace \<Rightarrow> bool" where
  "ns_inv name n \<longleftrightarrow> distinct (map fst (fn_keys n)) \<and> is_heap waiter_less (fn_waiting n) \<and>
     fn_active n = total_weight (fn_keys n) \<and>
     (\<forall>k st. map_of (fn_keys n) k = Some st \<longrightarrow> key_ok name k st \<and>
        (fs_queued st \<and> \<not> fs_due st \<longrightarrow> has_waiter (fn_waiting n) k st))"

definition q_inv :: "Queue \<Rightarrow> bool" where
  "q_inv q \<longleftrightarrow> distinct (map fst (q_namespaces q)) \<and>
     (\<forall>name n. map_of (q_namespaces q) name = Some n \<longrightarrow> ns_inv name n \<and> fn_keys n \<noteq> [])"

lemma total_weight_simps [simp]:
  "total_weight [] = 0" "total_weight ((k, st) # ks) = weight st + total_weight ks"
  by (simp_all add: total_weight_def)

lemma total_weight_update:
  "distinct (map fst ks) \<Longrightarrow>
     total_weight (AList.update k st ks) = total_weight ks + weight st - (case map_of ks k of None \<Rightarrow> 0 | Some s \<Rightarrow> weight s)"
proof (induction ks)
  case (Cons x ks)
  obtain k' s' where x: "x = (k', s')" by (cases x)
  have "map_of ks k = None" if "k' = k" using Cons.prems that by (simp add: x map_of_eq_None_iff)
  then show ?case using Cons by (auto simp: x split: option.splits)
qed simp

lemma total_weight_delete:
  "distinct (map fst ks) \<Longrightarrow>
     total_weight (AList.delete k ks) = total_weight ks - (case map_of ks k of None \<Rightarrow> 0 | Some s \<Rightarrow> weight s)"
proof (induction ks)
  case (Cons x ks)
  obtain k' s' where x: "x = (k', s')" by (cases x)
  have "AList.delete k ks = ks \<and> map_of ks k = None" if "k' = k"
    using Cons.prems that by (auto simp: x map_of_eq_None_iff delete_id)
  then show ?case using Cons by (auto simp: x split: option.splits)
qed simp

lemma total_weight_ge0: "0 \<le> total_weight ks"
  by (induction ks) (auto simp: weight_def)

lemma ns_inv_key: "ns_inv name n \<Longrightarrow> map_of (fn_keys n) k = Some st \<Longrightarrow> key_ok name k st"
  by (simp add: ns_inv_def)

lemma ns_inv_waits:
  "ns_inv name n \<Longrightarrow> map_of (fn_keys n) k = Some st \<Longrightarrow> fs_queued st \<Longrightarrow> \<not> fs_due st \<Longrightarrow> has_waiter (fn_waiting n) k st"
  by (simp add: ns_inv_def)

lemma ns_inv_parts:
  assumes "ns_inv name n"
  shows "distinct (map fst (fn_keys n))" "is_heap waiter_less (fn_waiting n)" "fn_active n = total_weight (fn_keys n)"
  using assms by (simp_all add: ns_inv_def)

lemma ns_invI:
  assumes "distinct (map fst (fn_keys n))" "is_heap waiter_less (fn_waiting n)" "fn_active n = total_weight (fn_keys n)"
    and "\<And>k st. map_of (fn_keys n) k = Some st \<Longrightarrow> key_ok name k st"
    and "\<And>k st. map_of (fn_keys n) k = Some st \<Longrightarrow> fs_queued st \<Longrightarrow> \<not> fs_due st \<Longrightarrow> has_waiter (fn_waiting n) k st"
  shows "ns_inv name n"
  unfolding ns_inv_def using assms by blast

lemma empty_ns_inv [simp]: "ns_inv name empty_ns"
  by (simp add: ns_inv_def empty_ns_def is_heap_upto_def)

lemma has_waiter_mono: "has_waiter ws k st \<Longrightarrow> set ws \<subseteq> set ws' \<Longrightarrow> has_waiter ws' k st"
  by (auto simp: has_waiter_def)

text \<open>Changing one key of a namespace.\<close>

lemma ns_inv_update:
  assumes inv: "ns_inv name n" and ok: "key_ok name k st"
    and wait: "fs_queued st \<Longrightarrow> \<not> fs_due st \<Longrightarrow> has_waiter ws k st"
    and ws: "set (fn_waiting n) \<subseteq> set ws" "is_heap waiter_less ws"
    and act: "a = fn_active n + weight st - (case map_of (fn_keys n) k of None \<Rightarrow> 0 | Some s \<Rightarrow> weight s)"
  shows "ns_inv name \<lparr>fn_keys = AList.update k st (fn_keys n), fn_active = a, fn_waiting = ws\<rparr>"
proof (rule ns_invI, goal_cases)
  case (4 j s)
  then show ?case using ok ns_inv_key [OF inv] by (auto simp: update_conv' split: if_splits)
next
  case (5 j s)
  then show ?case using wait has_waiter_mono [OF ns_inv_waits [OF inv] ws(1)] by (auto simp: update_conv' split: if_splits)
qed (use ns_inv_parts [OF inv] ws act in \<open>auto simp: distinct_update total_weight_update\<close>)

lemma pop_set_waiters: "heap_pop waiter_less h = Some (w, r) \<Longrightarrow> set h = insert w (set r)"
  by (metis heap_pop_Some(3) set_mset_add_mset_insert set_mset_mset)

lemma wake_inv:
  assumes inv: "ns_inv name n" and pop: "heap_pop waiter_less (fn_waiting n) = Some (w, rest)"
  shows "ns_inv name (fst (wake w (n\<lparr>fn_waiting := rest\<rparr>)))"
proof -
  let ?k = "fw_key w"
  have heap: "is_heap waiter_less rest" using inv pop waiter_heap.pop_heap by (auto simp: ns_inv_def)
  have hw: "has_waiter rest k s" if "has_waiter (fn_waiting n) k s" "k \<noteq> ?k \<or> fs_gen s \<noteq> fw_gen w" for k s
    using that pop_set_waiters [OF pop] by (auto simp: has_waiter_def)
  have keep: "ns_inv name (n\<lparr>fn_waiting := rest\<rparr>)"
    if "\<And>s. map_of (fn_keys n) ?k = Some s \<Longrightarrow> fs_queued s \<Longrightarrow> \<not> fs_due s \<Longrightarrow> fs_gen s \<noteq> fw_gen w"
  proof (rule ns_invI, goal_cases)
    case (5 j s)
    then have "has_waiter (fn_waiting n) j s" "j \<noteq> ?k \<or> fs_gen s \<noteq> fw_gen w"
      using ns_inv_waits [OF inv, of j s] that [of s] by auto
    then show ?case using hw by simp
  qed (use ns_inv_parts [OF inv] ns_inv_key [OF inv] heap in auto)
  show ?thesis
  proof (cases "\<exists>st. map_of (fn_keys n) ?k = Some st \<and> fs_gen st = fw_gen w \<and> fs_queued st \<and> \<not> fs_due st")
    case False
    then have "wake w (n\<lparr>fn_waiting := rest\<rparr>) = (n\<lparr>fn_waiting := rest\<rparr>, [])" by (auto simp: wake_def split: option.split)
    then show ?thesis using keep False by auto
  next
    case True
    then obtain st where st: "map_of (fn_keys n) ?k = Some st" "fs_gen st = fw_gen w" "fs_queued st" "\<not> fs_due st" by blast
    have "ns_inv name \<lparr>fn_keys = AList.update ?k (st\<lparr>fs_due := True, fs_dueSince := fw_at w\<rparr>) (fn_keys n),
        fn_active = fn_active n + 1, fn_waiting = rest\<rparr>"
    proof (rule ns_invI, goal_cases)
      case (4 j s)
      then show ?case using st ns_inv_key [OF inv] by (auto simp: update_conv' key_ok_def split: if_splits)
    next
      case (5 j s)
      then have "j \<noteq> ?k" "map_of (fn_keys n) j = Some s" by (auto simp: update_conv' split: if_splits)
      then show ?case using ns_inv_waits [OF inv, of j s] 5 hw by simp
    qed (use ns_inv_parts [OF inv] st heap in \<open>auto simp: distinct_update total_weight_update weight_def\<close>)
    moreover have "fst (wake w (n\<lparr>fn_waiting := rest\<rparr>)) =
        \<lparr>fn_keys = AList.update ?k (st\<lparr>fs_due := True, fs_dueSince := fw_at w\<rparr>) (fn_keys n),
         fn_active = fn_active n + 1, fn_waiting = rest\<rparr>"
      using st by (simp add: wake_def)
    ultimately show ?thesis by simp
  qed
qed

text \<open>What promoting does to the keys: some queued keys that were not due become due, and these are returned with
  their base priority; nothing else changes.\<close>

definition became_due :: "time \<Rightarrow> fq_state \<Rightarrow> fq_state \<Rightarrow> bool" where
  "became_due now st st' \<longleftrightarrow> fs_queued st \<and> \<not> fs_due st \<and> (\<exists>t \<le> now. st' = st\<lparr>fs_due := True, fs_dueSince := t\<rparr>)"

definition pr_rel :: "time \<Rightarrow> fq_namespace \<Rightarrow> fq_namespace \<Rightarrow> (nsname \<times> int) list \<Rightarrow> bool" where
  "pr_rel now n n' out \<longleftrightarrow> map fst (fn_keys n') = map fst (fn_keys n) \<and>
     (\<forall>k st. map_of (fn_keys n) k = Some st \<longrightarrow>
        (\<exists>st'. map_of (fn_keys n') k = Some st' \<and>
           (if k \<in> fst ` set out then became_due now st st' \<and> (\<forall>b. (k, b) \<in> set out \<longrightarrow> b = fs_base st) else st' = st))) \<and>
     fst ` set out \<subseteq> dom (map_of (fn_keys n))"

lemma pr_rel_refl: "fn_keys n' = fn_keys n \<Longrightarrow> pr_rel now n n' []"
  by (simp add: pr_rel_def)

lemma pr_rel_wake:
  assumes "fw_at w \<le> now"
  shows "pr_rel now n (fst (wake w n)) (snd (wake w n))"
proof (cases "\<exists>st. map_of (fn_keys n) (fw_key w) = Some st \<and> fs_gen st = fw_gen w \<and> fs_queued st \<and> \<not> fs_due st")
  case False
  then have "wake w n = (n, [])" by (auto simp: wake_def split: option.split)
  then show ?thesis by (simp add: pr_rel_refl)
next
  case True
  then obtain st where st: "map_of (fn_keys n) (fw_key w) = Some st" "fs_gen st = fw_gen w" "fs_queued st" "\<not> fs_due st" by blast
  have "fw_key w \<in> fst ` set (fn_keys n)" using st(1) by (force dest: map_of_SomeD)
  then show ?thesis using st assms by (auto simp: wake_def pr_rel_def became_due_def update_conv' update_keys)
qed

lemma pr_rel_trans:
  assumes "pr_rel now n n' out" "pr_rel now n' n'' out'"
  shows "pr_rel now n n'' (out @ out')"
proof -
  have "\<exists>st''. map_of (fn_keys n'') k = Some st'' \<and>
      (if k \<in> fst ` set (out @ out') then became_due now st st'' \<and> (\<forall>b. (k, b) \<in> set (out @ out') \<longrightarrow> b = fs_base st) else st'' = st)"
    if st: "map_of (fn_keys n) k = Some st" for k st
  proof -
    obtain st' where st': "map_of (fn_keys n') k = Some st'"
      "if k \<in> fst ` set out then became_due now st st' \<and> (\<forall>b. (k, b) \<in> set out \<longrightarrow> b = fs_base st) else st' = st"
      using assms(1) st unfolding pr_rel_def by blast
    obtain st'' where st'': "map_of (fn_keys n'') k = Some st''"
      "if k \<in> fst ` set out' then became_due now st' st'' \<and> (\<forall>b. (k, b) \<in> set out' \<longrightarrow> b = fs_base st') else st'' = st'"
      using assms(2) st'(1) unfolding pr_rel_def by blast
    define A B where "A \<longleftrightarrow> k \<in> fst ` set out" and "B \<longleftrightarrow> k \<in> fst ` set out'"
    have AB: "\<And>b. (k, b) \<in> set out \<Longrightarrow> A" "\<And>b. (k, b) \<in> set out' \<Longrightarrow> B" by (force simp: A_def B_def)+
    have "\<not> (A \<and> B)" using st'(2) st''(2) unfolding A_def [symmetric] B_def [symmetric] by (auto simp: became_due_def)
    moreover have "k \<in> fst ` set (out @ out') \<longleftrightarrow> A \<or> B" by (auto simp: A_def B_def image_Un)
    ultimately show ?thesis
      using st'(2) st''(2) st''(1) AB unfolding A_def [symmetric] B_def [symmetric] by (cases A; cases B) auto
  qed
  moreover have "dom (map_of (fn_keys n')) = dom (map_of (fn_keys n))"
    using assms(1) by (simp add: pr_rel_def dom_map_of_conv_image_fst) (metis set_map)
  ultimately show ?thesis using assms unfolding pr_rel_def by (auto simp: image_Un)
qed

lemma promote_spec:
  assumes "ns_inv name n"
  shows "ns_inv name (fst (promote now n)) \<and> pr_rel now n (fst (promote now n)) (snd (promote now n)) \<and>
    (\<forall>w \<in> set (fn_waiting (fst (promote now n))). fw_at w > now)"
  using assms
proof (induction now n rule: promote.induct)
  case (1 now n)
  show ?case
  proof (cases "fn_waiting n = [] \<or> fw_at (fn_waiting n ! 0) > now")
    case True
    have "fw_at w > now" if w: "w \<in> set (fn_waiting n)" for w
    proof -
      obtain i where i: "i < length (fn_waiting n)" "w = fn_waiting n ! i" using w by (metis in_set_conv_nth)
      then have "\<not> waiter_less w (fn_waiting n ! 0)" using waiter_heap.root_min ns_inv_parts(2) [OF "1.prems"] by blast
      then show ?thesis using True w by (auto simp: waiter_less_def)
    qed
    then show ?thesis using True "1.prems" by (subst (1 2 3 4) promote.simps) (auto simp: pr_rel_refl)
  next
    case False
    then obtain w rest where pop: "heap_pop waiter_less (fn_waiting n) = Some (w, rest)" by (cases "heap_pop waiter_less (fn_waiting n)") auto
    let ?n1 = "fst (wake w (n\<lparr>fn_waiting := rest\<rparr>))" and ?o1 = "snd (wake w (n\<lparr>fn_waiting := rest\<rparr>))"
    have unf: "promote now n = (fst (promote now ?n1), ?o1 @ snd (promote now ?n1))"
      using False pop by (subst promote.simps) (simp add: case_prod_beta)
    have w: "w = fn_waiting n ! 0" by (rule heap_pop_Some(2) [OF pop])
    then have "pr_rel now (n\<lparr>fn_waiting := rest\<rparr>) ?n1 ?o1" using False by (intro pr_rel_wake) simp
    then have r1: "pr_rel now n ?n1 ?o1" by (simp add: pr_rel_def)
    have "ns_inv name ?n1" by (rule wake_inv [OF "1.prems" pop])
    from "1.IH" [OF False pop refl refl prod.collapse this] have IH: "ns_inv name (fst (promote now ?n1))"
      "pr_rel now ?n1 (fst (promote now ?n1)) (snd (promote now ?n1))"
      "\<forall>w \<in> set (fn_waiting (fst (promote now ?n1))). fw_at w > now"
      by blast+
    show ?thesis using IH pr_rel_trans [OF r1 IH(2)] unfolding unf by simp
  qed
qed

lemmas promote_inv = promote_spec [THEN conjunct1]
lemmas promote_rel = promote_spec [THEN conjunct2, THEN conjunct1]
lemmas promote_late = promote_spec [THEN conjunct2, THEN conjunct2]

text \<open>After promoting, every queued key whose ready time has come is due.\<close>

lemma promote_due:
  assumes "ns_inv name n" "map_of (fn_keys (fst (promote now n))) k = Some st" "fs_queued st" "fs_readyAt st \<le> now"
  shows "fs_due st"
proof (rule ccontr)
  assume "\<not> fs_due st"
  then have "has_waiter (fn_waiting (fst (promote now n))) k st"
    using ns_inv_waits [OF promote_inv [OF assms(1)] assms(2,3)] by blast
  then show False using promote_late [OF assms(1)] assms(4) by (force simp: has_waiter_def)
qed

section \<open>Every operation keeps the invariant\<close>

lemma fq_ns_inv: "q_inv q \<Longrightarrow> ns_inv name (fq_ns q name)"
  by (simp add: fq_ns_def q_inv_def split: option.split)

lemma put_ns_inv: "q_inv q \<Longrightarrow> ns_inv name n \<Longrightarrow> fn_keys n \<noteq> [] \<Longrightarrow> q_inv (put_ns q name n)"
  unfolding q_inv_def put_ns_def by (auto simp: update_conv' distinct_update split: if_splits)

lemma delete_ns_inv: "q_inv q \<Longrightarrow> q_inv (q\<lparr>q_namespaces := AList.delete name (q_namespaces q)\<rparr>)"
  unfolding q_inv_def by (auto simp: delete_conv' distinct_delete split: if_splits)

lemma q_inv_seq [simp]: "q_inv (q\<lparr>q_seq := s\<rparr>) = q_inv q"
  by (simp add: q_inv_def)

lemma schedule_spec:
  assumes heap: "is_heap waiter_less (fn_waiting n)" and nd: "\<not> fs_due st" and sch: "schedule n k st now = (n', st')"
  shows "fn_keys n' = fn_keys n" "fn_active n' = fn_active n + weight st' - weight st"
    "set (fn_waiting n) \<subseteq> set (fn_waiting n')" "is_heap waiter_less (fn_waiting n')"
    "\<not> fs_due st' \<Longrightarrow> has_waiter (fn_waiting n') k st'"
    "fs_queued st' = fs_queued st" "fs_processing st' = fs_processing st" "fs_aged st' = fs_aged st" "fs_base st' = fs_base st"
    "fs_due st' \<longleftrightarrow> fs_readyAt st \<le> now" "fs_readyAt st' = fs_readyAt st"
  using sch nd heap waiter_heap.push_heap [OF heap]
  by (auto simp: schedule_def weight_def has_waiter_def Let_def split: if_splits)

text \<open>The state a key has before it is queued: its own, or a fresh one.\<close>

definition key_state :: "fq_namespace \<Rightarrow> nsname \<Rightarrow> fq_state" where
  "key_state n k = (case map_of (fn_keys n) k of None \<Rightarrow> zero_state | Some st \<Rightarrow> st)"

lemma key_state_weight: "weight (key_state n k) = (case map_of (fn_keys n) k of None \<Rightarrow> 0 | Some s \<Rightarrow> weight s)"
  by (simp add: key_state_def zero_state_def weight_def split: option.split)

lemma key_state_due: "ns_inv name n \<Longrightarrow> fs_due (key_state n k) \<Longrightarrow> fs_queued (key_state n k)"
  by (auto simp: key_state_def zero_state_def key_ok_def dest: ns_inv_key split: option.splits)

lemma key_state_aged: "ns_inv name n \<Longrightarrow> fs_aged (key_state n k) \<Longrightarrow> fs_due (key_state n k)"
  by (auto simp: key_state_def zero_state_def key_ok_def dest: ns_inv_key split: option.splits)

lemma key_state_waits:
  "ns_inv name n \<Longrightarrow> fs_queued (key_state n k) \<Longrightarrow> \<not> fs_due (key_state n k) \<Longrightarrow> has_waiter (fn_waiting n) k (key_state n k)"
  by (auto simp: key_state_def zero_state_def dest: ns_inv_waits split: option.splits)

lemma enqueue_spec:
  assumes inv: "ns_inv name n" and k: "Namespace it = name" and enq: "enqueue q n it (key_state n it) base ready now = (q1, n1, st1)"
  shows "ns_inv name (n1\<lparr>fn_keys := AList.update it st1 (fn_keys n1)\<rparr>)" "fn_keys n1 = fn_keys n" "fs_queued st1"
    "q_namespaces q1 = q_namespaces q" "q_inv q1 = q_inv q" "q_aging q1 = q_aging q"
    "fs_base st1 = (if fs_queued (key_state n it) then max (fs_base (key_state n it)) base else base)"
proof -
  let ?st = "key_state n it"
  note heap = ns_inv_parts(2) [OF inv]
  have fin: "ns_inv name (n1\<lparr>fn_keys := AList.update it st1 (fn_keys n1)\<rparr>)"
    if "fn_keys n1 = fn_keys n" "key_ok name it st1" "\<not> fs_due st1 \<Longrightarrow> has_waiter (fn_waiting n1) it st1"
      "set (fn_waiting n) \<subseteq> set (fn_waiting n1)" "is_heap waiter_less (fn_waiting n1)" "fn_active n1 = fn_active n + weight st1 - weight ?st"
  proof -
    have "n1\<lparr>fn_keys := AList.update it st1 (fn_keys n1)\<rparr> =
        \<lparr>fn_keys = AList.update it st1 (fn_keys n), fn_active = fn_active n1, fn_waiting = fn_waiting n1\<rparr>" using that(1) by simp
    then show ?thesis using ns_inv_update [OF inv that(2) _ that(4,5)] that(3,6) by (simp add: key_state_weight)
  qed
  have all: "ns_inv name (n1\<lparr>fn_keys := AList.update it st1 (fn_keys n1)\<rparr>) \<and> fn_keys n1 = fn_keys n \<and> fs_queued st1 \<and>
      q_namespaces q1 = q_namespaces q \<and> q_inv q1 = q_inv q \<and> q_aging q1 = q_aging q \<and>
      fs_base st1 = (if fs_queued ?st then max (fs_base ?st) base else base)"
  proof (cases "fs_queued ?st")
    case False
    define st0 where "st0 = ?st\<lparr>fs_base := base, fs_queued := True, fs_readyAt := ready, fs_aged := False, fs_seq := q_seq q + 1\<rparr>"
    have nd: "\<not> fs_due st0" "weight st0 = weight ?st" using False key_state_due [OF inv] by (auto simp: st0_def weight_def)
    have sch: "schedule n it st0 now = (n1, st1)" and q1: "q1 = q\<lparr>q_seq := q_seq q + 1\<rparr>"
      using enq False by (auto simp: enqueue_def st0_def Let_def split: prod.splits)
    note s = schedule_spec [OF heap nd(1) sch]
    have "key_ok name it st1" using s k by (auto simp: key_ok_def st0_def)
    then show ?thesis
      using fin [OF s(1) _ s(5) s(3,4)] s(2,6,9) nd q1 False by (simp add: st0_def s(1))
  next
    case True
    show ?thesis
    proof (cases "\<not> fs_due ?st \<and> ready < fs_readyAt ?st")
      case sooner: True
      define st0 where "st0 = ?st\<lparr>fs_base := max (fs_base ?st) base, fs_readyAt := ready\<rparr>"
      have nd: "\<not> fs_due st0" "weight st0 = weight ?st" using sooner by (auto simp: st0_def weight_def)
      have sch: "schedule n it st0 now = (n1, st1)" and q1: "q1 = q"
        using enq True sooner by (auto simp: enqueue_def st0_def Let_def split: prod.splits)
      note s = schedule_spec [OF heap nd(1) sch]
      have "key_ok name it st1" using s k True key_state_aged [OF inv] sooner by (auto simp: key_ok_def st0_def)
      then show ?thesis using fin [OF s(1) _ s(5) s(3,4)] s(2,6,9) nd q1 True by (simp add: st0_def s(1))
    next
      case False
      then have e: "n1 = n" "q1 = q" "st1 = ?st\<lparr>fs_base := max (fs_base ?st) base\<rparr>"
        using enq True by (auto simp: enqueue_def Let_def split: if_splits)
      have "key_ok name it st1" using e k True key_state_aged [OF inv] by (auto simp: key_ok_def)
      moreover have "\<not> fs_due st1 \<Longrightarrow> has_waiter (fn_waiting n1) it st1"
        using key_state_waits [OF inv True] e by (simp add: has_waiter_def)
      ultimately show ?thesis using fin heap e True by (simp add: weight_def)
    qed
  qed
  then show "ns_inv name (n1\<lparr>fn_keys := AList.update it st1 (fn_keys n1)\<rparr>)" "fn_keys n1 = fn_keys n" "fs_queued st1"
    "q_namespaces q1 = q_namespaces q" "q_inv q1 = q_inv q" "q_aging q1 = q_aging q"
    "fs_base st1 = (if fs_queued (key_state n it) then max (fs_base (key_state n it)) base else base)"
    by blast+
qed

lemma update_nonempty [simp]: "AList.update k v xs \<noteq> []"
  by (cases xs) auto

lemma add_item_split:
  fixes o1 q it now when_d
  defines "base \<equiv> (case ao_priority o1 of None \<Rightarrow> 0 | Some p \<Rightarrow> p)"
    and "opts \<equiv> limited_opts o1 when_d"
    and "n0 \<equiv> fst (promote now (fq_ns q (Namespace it)))" and "pr \<equiv> snd (promote now (fq_ns q (Namespace it)))"
  defines "ready \<equiv> (if ao_after opts > 0 then now + ao_after opts else now)"
  obtains q1 n1 st1 where "enqueue q n0 it (key_state n0 it) base ready now = (q1, n1, st1)"
    "add_item o1 q it now when_d =
       (let n3 = n1\<lparr>fn_keys := AList.update it st1 (fn_keys n1)\<rparr>;
            backlog = (if fs_due st1 \<or> fs_processing st1 then fn_active n3 - 1 else fn_active n3)
        in (put_ns q1 (Namespace it) n3, InnerAdd (opts\<lparr>ao_priority := Some (shift base backlog)\<rparr>) it #
              readds n3 (filter (\<lambda>(k, b). k \<noteq> it) pr)))"
proof -
  obtain q1 n1 st1 where e: "enqueue q n0 it (key_state n0 it) base ready now = (q1, n1, st1)" by (metis prod_cases3)
  show ?thesis
  proof (rule that [OF e])
    have "add_item o1 q it now when_d = (case enqueue q n0 it (key_state n0 it) base ready now of (q1, n1, st1) \<Rightarrow>
       (let n3 = n1\<lparr>fn_keys := AList.update it st1 (fn_keys n1)\<rparr>;
            backlog = (if fs_due st1 \<or> fs_processing st1 then fn_active n3 - 1 else fn_active n3)
        in (put_ns q1 (Namespace it) n3, InnerAdd (opts\<lparr>ao_priority := Some (shift base backlog)\<rparr>) it #
              readds n3 (filter (\<lambda>(k, b). k \<noteq> it) pr))))"
      by (simp add: add_item_def base_def opts_def ready_def n0_def pr_def key_state_def Let_def case_prod_beta)
    then show "add_item o1 q it now when_d =
       (let n3 = n1\<lparr>fn_keys := AList.update it st1 (fn_keys n1)\<rparr>;
            backlog = (if fs_due st1 \<or> fs_processing st1 then fn_active n3 - 1 else fn_active n3)
        in (put_ns q1 (Namespace it) n3, InnerAdd (opts\<lparr>ao_priority := Some (shift base backlog)\<rparr>) it #
              readds n3 (filter (\<lambda>(k, b). k \<noteq> it) pr)))"
      by (simp only: e prod.case)
  qed
qed

lemma add_item_inv:
  assumes "q_inv q"
  shows "q_inv (fst (add_item o1 q it now d)) \<and> q_aging (fst (add_item o1 q it now d)) = q_aging q"
proof -
  have inv: "ns_inv (Namespace it) (fst (promote now (fq_ns q (Namespace it))))"
    by (rule promote_inv [OF fq_ns_inv [OF assms]])
  obtain q1 n1 st1 base ready opts c where e: "enqueue q (fst (promote now (fq_ns q (Namespace it)))) it
      (key_state (fst (promote now (fq_ns q (Namespace it)))) it) base ready now = (q1, n1, st1)"
    and a: "add_item o1 q it now d = (put_ns q1 (Namespace it) (n1\<lparr>fn_keys := AList.update it st1 (fn_keys n1)\<rparr>), c)"
    by (rule add_item_split [of q now it o1 d]) (auto simp: Let_def)
  note s = enqueue_spec [OF inv refl e]
  show ?thesis using put_ns_inv [OF _ s(1)] s(5,6) assms by (simp add: a put_ns_def)
qed

lemma AddWithOpts_inv: "q_inv q \<Longrightarrow> q_inv (fst (AddWithOpts o1 q items)) \<and> q_aging (fst (AddWithOpts o1 q items)) = q_aging q"
proof (induction o1 q items rule: AddWithOpts.induct)
  case (2 o1 q it now d items)
  have "q_inv (fst (add_item o1 q it now d))" "q_aging (fst (add_item o1 q it now d)) = q_aging q"
    using add_item_inv "2.prems" by auto
  with "2.IH" [OF refl prod.collapse] show ?case by (simp add: case_prod_beta Let_def)
qed simp

lemma ns_eta: "n\<lparr>fn_keys := ks, fn_active := a\<rparr> = \<lparr>fn_keys = ks, fn_active = a, fn_waiting = fn_waiting n\<rparr>"
  by simp

lemma GetWithPriority_inv: "q_inv q \<Longrightarrow> q_inv (fst (GetWithPriority q got)) \<and> q_aging (fst (GetWithPriority q got)) = q_aging q"
proof -
  assume q: "q_inv q"
  obtain it p sd where g: "got = (it, p, sd)" by (cases got)
  let ?n = "fq_ns q (Namespace it)" and ?s = "key_state (fq_ns q (Namespace it)) it"
  have inv: "ns_inv (Namespace it) ?n" by (rule fq_ns_inv [OF q])
  define st0 where "st0 = (case map_of (fn_keys ?n) it of None \<Rightarrow> zero_state\<lparr>fs_base := quot_trunc p span\<rparr>
      | Some st \<Rightarrow> if fs_queued st then st else st\<lparr>fs_base := quot_trunc p span\<rparr>)"
  define st1 where "st1 = st0\<lparr>fs_due := False, fs_queued := False, fs_aged := False, fs_gen := fs_gen st0 + 1, fs_processing := True\<rparr>"
  define act where "act = (let a1 = (if fs_due st0 then fn_active ?n - 1 else fn_active ?n) in if \<not> fs_processing st0 then a1 + 1 else a1)"
  have w: "weight st0 = (case map_of (fn_keys ?n) it of None \<Rightarrow> 0 | Some s \<Rightarrow> weight s)"
    by (simp add: st0_def weight_def zero_state_def split: option.split)
  have "ns_inv (Namespace it) \<lparr>fn_keys = AList.update it st1 (fn_keys ?n), fn_active = act, fn_waiting = fn_waiting ?n\<rparr>"
  proof (rule ns_inv_update [OF inv])
    show "act = fn_active ?n + weight st1 - (case map_of (fn_keys ?n) it of None \<Rightarrow> 0 | Some s \<Rightarrow> weight s)"
      unfolding w [symmetric] by (auto simp: act_def st1_def weight_def Let_def)
  qed (use ns_inv_parts [OF inv] in \<open>auto simp: key_ok_def st1_def\<close>)
  moreover have "fst (GetWithPriority q got) = (if sd then q else put_ns q (Namespace it)
      \<lparr>fn_keys = AList.update it st1 (fn_keys ?n), fn_active = act, fn_waiting = fn_waiting ?n\<rparr>)"
    unfolding act_def st1_def st0_def ns_eta [symmetric] by (simp add: GetWithPriority_def g Let_def)
  ultimately show ?thesis using put_ns_inv [OF q] q by (simp add: put_ns_def)
qed

lemma fq_release_inv:
  assumes q: "q_inv q" and inv: "ns_inv name n'" "map_of (fn_keys n') k = Some st'" "fn_keys n' \<noteq> []"
    and n: "n = n'\<lparr>fn_active := fn_active n' - weight st' + weight st, fn_keys := AList.update k st (fn_keys n')\<rparr>"
    and st: "fs_queued st = fs_queued st'" "fs_due st = fs_due st'" "fs_aged st = fs_aged st'" "\<not> fs_processing st"
      "fs_gen st = fs_gen st'" "fs_readyAt st = fs_readyAt st'"
  shows "q_inv (fq_release q name n k st)"
proof -
  note ok = ns_inv_key [OF inv(1,2)]
  note parts = ns_inv_parts [OF inv(1)]
  show ?thesis
  proof (cases "fs_queued st")
    case True
    have "ns_inv name \<lparr>fn_keys = AList.update k st (fn_keys n'), fn_active = fn_active n, fn_waiting = fn_waiting n'\<rparr>"
    proof (rule ns_inv_update [OF inv(1)])
      show "key_ok name k st" using ok True st by (auto simp: key_ok_def)
      show "has_waiter (fn_waiting n') k st" if "fs_queued st" "\<not> fs_due st"
        using ns_inv_waits [OF inv(1,2)] that st by (simp add: has_waiter_def)
    qed (use parts n inv(2) in auto)
    moreover have "n = \<lparr>fn_keys = AList.update k st (fn_keys n'), fn_active = fn_active n, fn_waiting = fn_waiting n'\<rparr>"
      by (simp add: n)
    ultimately have "ns_inv name n" by simp
    then show ?thesis using put_ns_inv [OF q] True n by (simp add: fq_release_def)
  next
    case False
    then have w: "weight st = 0" using st ok by (auto simp: weight_def key_ok_def)
    let ?n2 = "n\<lparr>fn_keys := AList.delete k (fn_keys n)\<rparr>"
    have mo: "map_of (AList.delete k (fn_keys n)) = (map_of (fn_keys n'))(k := None)" by (simp add: n delete_conv' update_conv' fun_eq_iff)
    have "ns_inv name ?n2"
    proof (rule ns_invI, goal_cases)
      case 3
      then show ?case using parts inv(2) w
        by (simp add: n total_weight_delete total_weight_update distinct_update update_conv')
    next
      case (4 j s)
      then show ?case using ns_inv_key [OF inv(1)] by (simp add: mo split: if_splits)
    next
      case (5 j s)
      then have "map_of (fn_keys n') j = Some s" by (simp add: mo split: if_splits)
      then show ?case using ns_inv_waits [OF inv(1)] 5(2,3) by (simp add: n)
    qed (use parts n in \<open>auto simp: distinct_delete distinct_update\<close>)
    then show ?thesis
      using put_ns_inv [OF q] delete_ns_inv [OF q] False st by (auto simp: fq_release_def Let_def)
  qed
qed

lemma q_inv_ns: "q_inv q \<Longrightarrow> map_of (q_namespaces q) name = Some n \<Longrightarrow> ns_inv name n \<and> fn_keys n \<noteq> []"
  by (simp add: q_inv_def)

lemma Done_inv: "q_inv q \<Longrightarrow> q_inv (fst (Done q item))"
proof -
  assume q: "q_inv q"
  show ?thesis
  proof (cases "\<exists>n st. map_of (q_namespaces q) (Namespace item) = Some n \<and> map_of (fn_keys n) item = Some st")
    case False
    then have "fst (Done q item) = q" by (auto simp: Done_def split: option.split)
    then show ?thesis using q by simp
  next
    case True
    then obtain n st where n: "map_of (q_namespaces q) (Namespace item) = Some n" and st: "map_of (fn_keys n) item = Some st" by blast
    let ?st = "st\<lparr>fs_processing := False\<rparr>"
    let ?n = "n\<lparr>fn_active := (if fs_processing st then fn_active n - 1 else fn_active n), fn_keys := AList.update item ?st (fn_keys n)\<rparr>"
    have "?n = n\<lparr>fn_active := fn_active n - weight st + weight ?st, fn_keys := AList.update item ?st (fn_keys n)\<rparr>"
      by (simp add: weight_def)
    from fq_release_inv [OF q _ st _ this] q_inv_ns [OF q n] show ?thesis by (simp add: Done_def n st Let_def)
  qed
qed

lemma promote_keys: "ns_inv name n \<Longrightarrow> map fst (fn_keys (fst (promote now n))) = map fst (fn_keys n)"
  using promote_rel by (auto simp: pr_rel_def)

lemma Backlog_inv: "q_inv q \<Longrightarrow> q_inv (fst (Backlog q name now))"
proof (cases "map_of (q_namespaces q) name")
  case (Some n)
  assume q: "q_inv q"
  have n: "ns_inv name n" "fn_keys n \<noteq> []" using q_inv_ns [OF q Some] by auto
  have "fn_keys (fst (promote now n)) \<noteq> []" using promote_keys [OF n(1)] n(2) by (metis map_is_Nil_conv)
  then show ?thesis using put_ns_inv [OF q promote_inv [OF n(1)]] Some by (simp add: Backlog_def case_prod_beta)
qed (simp add: Backlog_def)

text \<open>Aging changes only the flag, so the weights, the order of the keys and the waiters stay.\<close>

definition age_keys :: "duration \<Rightarrow> time \<Rightarrow> (nsname \<times> fq_state) list \<Rightarrow> (nsname \<times> fq_state) list" where
  "age_keys aging now ks = map (\<lambda>(k, st). (k, if ages aging now st then st\<lparr>fs_aged := True\<rparr> else st)) ks"

lemma age_keys_fst [simp]: "map fst (age_keys aging now ks) = map fst ks"
  by (simp add: age_keys_def comp_def case_prod_beta)

lemma age_keys_weight [simp]: "total_weight (age_keys aging now ks) = total_weight ks"
  by (induction ks) (auto simp: age_keys_def weight_def)

lemma age_keys_map_of:
  "map_of (age_keys aging now ks) k = map_option (\<lambda>st. if ages aging now st then st\<lparr>fs_aged := True\<rparr> else st) (map_of ks k)"
  by (induction ks) (auto simp: age_keys_def)

lemma sweep_ns_eq:
  "sweep_ns aging now n =
     (let n1 = fst (promote now n); pr = snd (promote now n) in
      if aging \<le> 0 then (n1, readds n1 pr)
      else (n1\<lparr>fn_keys := age_keys aging now (fn_keys n1)\<rparr>, readds n1 pr @ map (\<lambda>(k, st). readd_call (k, fs_base st * span))
              (sort_key (\<lambda>(k, st). (fs_dueSince st, fs_seq st)) (filter (\<lambda>(k, st). ages aging now st) (fn_keys n1)))))"
  by (simp add: sweep_ns_def age_keys_def Let_def case_prod_beta)

lemma sweep_ns_inv:
  assumes "ns_inv name n"
  shows "ns_inv name (fst (sweep_ns aging now n)) \<and> map fst (fn_keys (fst (sweep_ns aging now n))) = map fst (fn_keys n)"
proof -
  let ?n = "fst (promote now n)"
  note inv = promote_inv [OF assms, of now]
  have "ns_inv name (?n\<lparr>fn_keys := age_keys aging now (fn_keys ?n)\<rparr>)"
  proof (rule ns_invI, goal_cases)
    case (4 k st)
    then obtain s where "map_of (fn_keys ?n) k = Some s" "st = (if ages aging now s then s\<lparr>fs_aged := True\<rparr> else s)"
      by (auto simp: age_keys_map_of)
    then show ?case using ns_inv_key [OF inv, of k s] by (auto simp: ages_def key_ok_def)
  next
    case (5 k st)
    then obtain s where "map_of (fn_keys ?n) k = Some s" "st = (if ages aging now s then s\<lparr>fs_aged := True\<rparr> else s)"
      by (auto simp: age_keys_map_of)
    then show ?case using ns_inv_waits [OF inv, of k s] 5(2,3) by (auto simp: has_waiter_def split: if_splits)
  qed (use ns_inv_parts [OF inv] in auto)
  then show ?thesis using inv promote_keys [OF assms, of now] by (simp add: sweep_ns_eq Let_def)
qed

lemma sweep_namespaces:
  "q_namespaces (fst (sweep q now)) = map (\<lambda>(name, n). (name, fst (sweep_ns (q_aging q) now n))) (q_namespaces q)"
  "snd (sweep q now) = concat (map (\<lambda>x. snd (sweep_ns (q_aging q) now (snd x))) (q_namespaces q))"
  by (simp_all add: sweep_def Let_def comp_def case_prod_beta)

lemma sweep_lookup:
  "map_of (q_namespaces (fst (sweep q now))) name = map_option (\<lambda>n. fst (sweep_ns (q_aging q) now n)) (map_of (q_namespaces q) name)"
  unfolding sweep_namespaces by (induction "q_namespaces q") (auto simp: map_of_map)

lemma sweep_inv: "q_inv q \<Longrightarrow> q_inv (fst (sweep q now))"
proof -
  assume q: "q_inv q"
  have "map fst (q_namespaces (fst (sweep q now))) = map fst (q_namespaces q)"
    by (simp add: sweep_namespaces comp_def case_prod_beta)
  then have "distinct (map fst (q_namespaces (fst (sweep q now))))" using q by (simp add: q_inv_def)
  moreover have "ns_inv name n' \<and> fn_keys n' \<noteq> []" if look: "map_of (q_namespaces (fst (sweep q now))) name = Some n'" for name n'
  proof -
    obtain n where n: "map_of (q_namespaces q) name = Some n" "n' = fst (sweep_ns (q_aging q) now n)" using look by (auto simp: sweep_lookup)
    then show ?thesis using q_inv_ns [OF q n(1)] sweep_ns_inv by (metis map_is_Nil_conv)
  qed
  ultimately show ?thesis by (simp add: q_inv_def)
qed

section \<open>The machine\<close>

datatype fq_event =
    EvAdd AddOpts "(nsname \<times> time \<times> duration option) list"
  | EvGet "nsname \<times> int \<times> bool"
  | EvDone nsname
  | EvBacklog string time
  | EvSweep time

definition fq_step :: "Queue \<Rightarrow> fq_event \<Rightarrow> Queue \<times> inner_call list" where
  "fq_step q ev =
     (case ev of
        EvAdd o1 items \<Rightarrow> AddWithOpts o1 q items
      | EvGet got \<Rightarrow> (fst (GetWithPriority q got), [])
      | EvDone item \<Rightarrow> Done q item
      | EvBacklog name now \<Rightarrow> (fst (Backlog q name now), fst (snd (Backlog q name now)))
      | EvSweep now \<Rightarrow> sweep q now)"

inductive fq_reach :: "duration \<Rightarrow> Queue \<Rightarrow> bool" for aging where
  fq_init: "fq_reach aging (Wrap aging)"
| fq_next: "fq_reach aging q \<Longrightarrow> fq_reach aging (fst (fq_step q ev))"

lemma fq_step_inv: "q_inv q \<Longrightarrow> q_inv (fst (fq_step q ev))"
  by (cases ev) (auto simp: fq_step_def AddWithOpts_inv GetWithPriority_inv Done_inv Backlog_inv sweep_inv)

interpretation fq: run_system "Wrap aging" "\<lambda>q ev. fst (fq_step q ev)" q_inv for aging
  by unfold_locales (simp add: Wrap_def q_inv_def, rule fq_step_inv)

lemma fq_reach_run: "fq_reach aging q \<Longrightarrow> \<exists>evs. q = foldl (\<lambda>q ev. fst (fq_step q ev)) (Wrap aging) evs"
proof (induction rule: fq_reach.induct)
  case fq_init
  show ?case by (rule exI [of _ "[]"]) simp
next
  case (fq_next q ev)
  then obtain evs where "q = foldl (\<lambda>q ev. fst (fq_step q ev)) (Wrap aging) evs" by blast
  then show ?case by (intro exI [of _ "evs @ [ev]"]) simp
qed

lemma fq_reach_inv: "fq_reach aging q \<Longrightarrow> q_inv q"
  using fq_reach_run fq.inv_run by blast

lemma fq_step_aging: "q_inv q \<Longrightarrow> q_aging (fst (fq_step q ev)) = q_aging q"
proof (cases ev)
  case (EvDone item)
  have "q_aging (fst (Done q item)) = q_aging q"
    by (auto simp: Done_def fq_release_def put_ns_def Let_def split: option.split)
  then show ?thesis by (simp add: fq_step_def EvDone)
qed (auto simp: fq_step_def AddWithOpts_inv GetWithPriority_inv Backlog_def put_ns_def sweep_def Let_def split: option.split prod.split)

lemma fq_reach_aging: "fq_reach aging q \<Longrightarrow> q_aging q = aging"
  by (induction rule: fq_reach.induct) (simp_all add: Wrap_def fq_step_aging fq_reach_inv)

section \<open>Properties\<close>

definition key_at :: "Queue \<Rightarrow> nsname \<Rightarrow> fq_state option" where
  "key_at q k = Option.bind (map_of (q_namespaces q) (Namespace k)) (\<lambda>n. map_of (fn_keys n) k)"

definition in_level :: "int \<Rightarrow> int \<Rightarrow> bool" where
  "in_level b p \<longleftrightarrow> b * span - 5 \<le> p \<and> p \<le> b * span"

lemma shift_level: "in_level b (shift b n)"
proof -
  have "length (filter (\<lambda>x. n \<ge> x) buckets) \<le> length buckets" by (rule length_filter_le)
  then show ?thesis by (simp add: in_level_def shift_def buckets_def)
qed

lemma shift_antimono: "m \<le> n \<Longrightarrow> shift b n \<le> shift b m"
proof -
  assume "m \<le> n"
  then have "length (filter (\<lambda>x. x \<le> m) buckets) \<le> length (filter (\<lambda>x. x \<le> n) buckets)" by (auto simp: buckets_def)
  then show ?thesis by (simp add: shift_def)
qed

text \<open>The arithmetic of the priorities. A backlog lowers a key by at most five steps, the more the larger it is
  and not at all when there is none; a key of a higher level stays ahead of every key of a lower one; and for
  the levels in use (normal, 0, and the negative low priorities) the level is recovered from a shifted
  priority by the truncating division of \<open>GetWithPriority\<close>.\<close>

theorem shift_spec:
  "in_level base (shift base n) \<and> (n \<le> 0 \<longrightarrow> shift base n = base * span) \<and> (n \<le> m \<longrightarrow> shift base m \<le> shift base n) \<and>
   (base < base' \<longrightarrow> shift base n < shift base' m) \<and> (base \<le> 0 \<longrightarrow> quot_trunc (shift base n) span = base)"
proof (intro conjI impI)
  show "in_level base (shift base n)" by (rule shift_level)
  show "n \<le> 0 \<Longrightarrow> shift base n = base * span" by (simp add: shift_def buckets_def)
  show "n \<le> m \<Longrightarrow> shift base m \<le> shift base n" by (rule shift_antimono)
  show "shift base n < shift base' m" if "base < base'"
  proof -
    have "shift base n \<le> base * 1000" "base' * 1000 - 5 \<le> shift base' m"
      using shift_level [of base n] shift_level [of base' m] by (simp_all add: in_level_def span_def)
    then show ?thesis using that by linarith
  qed
  show "quot_trunc (shift base n) span = base" if "base \<le> 0"
  proof -
    have s: "base * 1000 - 5 \<le> shift base n" "shift base n \<le> base * 1000" using shift_level [of base n] by (simp_all add: in_level_def span_def)
    have "(- shift base n) div 1000 = - base" using s by (intro int_div_pos_eq [where r = "base * 1000 - shift base n"]) auto
    then show ?thesis using s that by (auto simp: quot_trunc_def span_def)
  qed
qed

theorem shift_spec_witness: "quot_trunc (shift (- 100) 70) span = - 100 \<and> shift 0 70 < shift 1 300"
  using shift_spec [of "- 100" 70 70 0] shift_spec [of 0 70 300 1] by simp

text \<open>C15. The bookkeeping of the queue, in every state that any sequence of operations reaches, whatever the inner
  queue does: a namespace is kept exactly while it has keys, a key belongs to its namespace and is queued or in
  process, a due key is queued, and \<open>active\<close> is the number of keys that are in process or due, with every key that is
  both, because it was added again while in process, counted a second time. The comment of \<open>namespace\<close> names the
  first number only, and the comment of \<open>TestQueue_BacklogBookkeeping\<close> says a key counts once however often it is
  added: they are right exactly while no key in process is due again.\<close>

theorem fair_queue_accounting:
  assumes "fq_reach aging q" "map_of (q_namespaces q) name = Some n"
  shows "fn_keys n \<noteq> [] \<and> distinct (map fst (fn_keys n)) \<and>
    fn_active n = int (length (filter (\<lambda>x. fs_processing (snd x) \<or> fs_due (snd x)) (fn_keys n))) +
                  int (length (filter (\<lambda>x. fs_processing (snd x) \<and> fs_due (snd x)) (fn_keys n))) \<and>
    (\<forall>k st. map_of (fn_keys n) k = Some st \<longrightarrow>
       Namespace k = name \<and> (fs_queued st \<or> fs_processing st) \<and> (fs_due st \<longrightarrow> fs_queued st))"
proof -
  have n: "ns_inv name n" "fn_keys n \<noteq> []" using q_inv_ns [OF fq_reach_inv] assms by blast+
  have "total_weight ks = int (length (filter (\<lambda>x. fs_processing (snd x) \<or> fs_due (snd x)) ks)) +
      int (length (filter (\<lambda>x. fs_processing (snd x) \<and> fs_due (snd x)) ks))" for ks
    by (induction ks) (auto simp: weight_def)
  then have "fn_active n = int (length (filter (\<lambda>x. fs_processing (snd x) \<or> fs_due (snd x)) (fn_keys n))) +
      int (length (filter (\<lambda>x. fs_processing (snd x) \<and> fs_due (snd x)) (fn_keys n)))"
    using ns_inv_parts(3) [OF n(1)] by simp
  moreover have "Namespace k = name \<and> (fs_queued st \<or> fs_processing st) \<and> (fs_due st \<longrightarrow> fs_queued st)"
    if "map_of (fn_keys n) k = Some st" for k st
    using ns_inv_key [OF n(1) that] by (simp add: key_ok_def)
  ultimately show ?thesis using n(2) ns_inv_parts(1) [OF n(1)] by blast
qed

text \<open>An added key, and a run of the queue for the witnesses.\<close>

definition demo_key :: nsname where "demo_key = \<lparr>Namespace = ''a'', Name = ''k''\<rparr>"

definition other_key :: nsname where "other_key = \<lparr>Namespace = ''a'', Name = ''j''\<rparr>"

definition ev_add :: "nsname \<Rightarrow> duration \<Rightarrow> time \<Rightarrow> fq_event" where
  "ev_add k d now = EvAdd (no_opts\<lparr>ao_after := d\<rparr>) [(k, now, None)]"

definition run :: "fq_event list \<Rightarrow> Queue" where
  "run evs = foldl (\<lambda>q ev. fst (fq_step q ev)) (Wrap DefaultAging) evs"

lemma run_reach: "fq_reach DefaultAging (run evs)"
proof (induction evs rule: rev_induct)
  case (snoc ev evs)
  then show ?case using fq_next [OF snoc.IH] by (simp add: run_def)
qed (simp add: run_def fq_init)

text \<open>One key, added again while it is in process: it counts twice.\<close>

definition twice_run :: "fq_event list" where
  "twice_run = [ev_add demo_key 0 1, EvGet (demo_key, 0, False), ev_add demo_key 0 2]"

theorem fair_queue_accounting_witness:
  "\<exists>n. map_of (q_namespaces (run twice_run)) ''a'' = Some n \<and> length (fn_keys n) = 1 \<and> fn_active n = 2"
proof -
  have "map_option (\<lambda>n. map (\<lambda>x. (fs_processing (snd x), fs_due (snd x))) (fn_keys n))
      (map_of (q_namespaces (run twice_run)) ''a'') = Some [(True, True)]"
    by code_simp
  then obtain n where n: "map_of (q_namespaces (run twice_run)) ''a'' = Some n"
    and k: "map (\<lambda>x. (fs_processing (snd x), fs_due (snd x))) (fn_keys n) = [(True, True)]" by auto
  have "length (fn_keys n) = 1"
    "int (length (filter (\<lambda>x. fs_processing (snd x) \<or> fs_due (snd x)) (fn_keys n))) +
     int (length (filter (\<lambda>x. fs_processing (snd x) \<and> fs_due (snd x)) (fn_keys n))) = 2"
    using k by auto
  then show ?thesis using fair_queue_accounting [OF run_reach n] n by metis
qed

lemma readds_member:
  "(k, b) \<in> set pr \<Longrightarrow> InnerAdd \<lparr>ao_after = 0, ao_rateLimited = False, ao_priority = Some (shift b (fn_active n - 1))\<rparr> k \<in> set (readds n pr)"
  by (force simp: readds_def readd_call_def)

lemma key_atE:
  assumes "key_at q k = Some st"
  obtains n where "map_of (q_namespaces q) (Namespace k) = Some n" "map_of (fn_keys n) k = Some st"
  using assms by (auto simp: key_at_def bind_eq_Some_conv)

lemma sweep_ns_calls: "set (readds (fst (promote now n)) (snd (promote now n))) \<subseteq> set (snd (sweep_ns aging now n))"
  by (auto simp: sweep_ns_eq Let_def)

lemma sweep_calls: "map_of (q_namespaces q) name = Some n \<Longrightarrow> set (snd (sweep_ns (q_aging q) now n)) \<subseteq> set (snd (sweep q now))"
  by (force simp: sweep_namespaces dest: map_of_SomeD)

text \<open>The state of a key after a sweep: what promoting makes of it, with the aging mark.\<close>

lemma sweep_key:
  assumes "map_of (q_namespaces q) (Namespace k) = Some n" "map_of (fn_keys (fst (promote now n))) k = Some s"
  shows "\<exists>s'. key_at (fst (sweep q now)) k = Some s' \<and> fs_due s' = fs_due s \<and> fs_base s' = fs_base s \<and> fs_queued s' = fs_queued s"
  using assms by (auto simp: key_at_def sweep_lookup sweep_ns_eq Let_def age_keys_map_of)

text \<open>C16. No key is lost: in every reachable state, when the sweep runs at or after the ready time of a queued key,
  the key is due afterwards; and if it was not due before, the sweep adds it to the inner queue again, without a
  delay and at a priority of its own level.\<close>

theorem fair_queue_no_lost_key:
  assumes r: "fq_reach aging q" and k: "key_at q k = Some st" "fs_queued st" "fs_readyAt st \<le> now"
  shows "\<exists>st'. key_at (fst (sweep q now)) k = Some st' \<and> fs_queued st' \<and> fs_due st' \<and>
    (\<not> fs_due st \<longrightarrow> (\<exists>p. in_level (fs_base st) p \<and>
       InnerAdd \<lparr>ao_after = 0, ao_rateLimited = False, ao_priority = Some p\<rparr> k \<in> set (snd (sweep q now))))"
proof -
  obtain n where n: "map_of (q_namespaces q) (Namespace k) = Some n" "map_of (fn_keys n) k = Some st" using k(1) by (rule key_atE)
  have inv: "ns_inv (Namespace k) n" using q_inv_ns [OF fq_reach_inv [OF r] n(1)] by blast
  let ?n = "fst (promote now n)" and ?out = "snd (promote now n)"
  obtain s where s: "map_of (fn_keys ?n) k = Some s"
    "if k \<in> fst ` set ?out then became_due now st s \<and> (\<forall>b. (k, b) \<in> set ?out \<longrightarrow> b = fs_base st) else s = st"
    using promote_rel [OF inv, of now] n(2) unfolding pr_rel_def by blast
  have q: "fs_queued s" "fs_readyAt s \<le> now" using s(2) k(2,3) by (auto simp: became_due_def split: if_splits)
  have due: "fs_due s" by (rule promote_due [OF inv s(1) q])
  have "\<exists>p. in_level (fs_base st) p \<and> InnerAdd \<lparr>ao_after = 0, ao_rateLimited = False, ao_priority = Some p\<rparr> k \<in> set (snd (sweep q now))"
    if "\<not> fs_due st"
  proof -
    have mem: "k \<in> fst ` set ?out" using s(2) due that by (metis (no_types))
    then obtain b where b: "(k, b) \<in> set ?out" by force
    have "b = fs_base st" using s(2) b unfolding if_P [OF mem] by blast
    then have "(k, fs_base st) \<in> set ?out" using b by simp
    from readds_member [OF this, of ?n] show ?thesis
      using sweep_ns_calls [of now n "q_aging q"] sweep_calls [OF n(1), of now] shift_level by blast
  qed
  then show ?thesis using sweep_key [OF n(1) s(1)] q(1) due by force
qed

theorem fair_queue_no_lost_key_witness:
  "\<exists>st'. key_at (fst (sweep (run [ev_add demo_key 5 1]) 6)) demo_key = Some st' \<and> fs_due st'"
proof -
  obtain st where st: "key_at (run [ev_add demo_key 5 1]) demo_key = Some st" "fs_queued st" "fs_readyAt st = 6"
    by (simp add: run_def fq_step_def ev_add_def demo_key_def add_item_def fq_ns_def empty_ns_def promote.simps Wrap_def
        enqueue_def schedule_def zero_state_def put_ns_def limited_opts_def no_opts_def key_at_def Let_def)
  from fair_queue_no_lost_key [OF run_reach st(1,2), of 6] st(3) show ?thesis by auto
qed

text \<open>Aging bounds the wait: a key that has been due for the aging bound or longer, and was not raised since, is
  added to the inner queue at its full base priority by the next sweep and is marked as raised; the keys of a
  namespace are raised in the order in which they became due.\<close>

theorem fair_queue_aging:
  assumes r: "fq_reach aging q" and a: "0 < aging"
    and k: "key_at q k = Some st" "fs_due st" "\<not> fs_aged st" "now - fs_dueSince st \<ge> aging"
  shows "InnerAdd \<lparr>ao_after = 0, ao_rateLimited = False, ao_priority = Some (fs_base st * span)\<rparr> k \<in> set (snd (sweep q now)) \<and>
    (\<exists>st'. key_at (fst (sweep q now)) k = Some st' \<and> fs_aged st') \<and>
    (\<exists>n aged rest. map_of (q_namespaces q) (Namespace k) = Some n \<and> (k, st) \<in> set aged \<and>
       sorted (map (\<lambda>(k, s). (fs_dueSince s, fs_seq s)) aged) \<and>
       snd (sweep_ns aging now n) = rest @ map (\<lambda>(k, s). readd_call (k, fs_base s * span)) aged)"
proof -
  obtain n where n: "map_of (q_namespaces q) (Namespace k) = Some n" "map_of (fn_keys n) k = Some st" using k(1) by (rule key_atE)
  have inv: "ns_inv (Namespace k) n" using q_inv_ns [OF fq_reach_inv [OF r] n(1)] by blast
  let ?n = "fst (promote now n)"
  have ag: "q_aging q = aging" by (rule fq_reach_aging [OF r])
  have s: "map_of (fn_keys ?n) k = Some st"
    using promote_rel [OF inv, of now] n(2) k(2) unfolding pr_rel_def became_due_def by (metis (no_types, lifting))
  define aged where "aged = sort_key (\<lambda>(k, s). (fs_dueSince s, fs_seq s)) (filter (\<lambda>(k, s). ages aging now s) (fn_keys ?n))"
  have mem: "(k, st) \<in> set aged" using map_of_SomeD [OF s] k by (auto simp: aged_def ages_def)
  have calls: "snd (sweep_ns aging now n) =
      readds ?n (snd (promote now n)) @ map (\<lambda>(k, s). readd_call (k, fs_base s * span)) aged"
    using a by (simp add: sweep_ns_eq aged_def Let_def)
  have "readd_call (k, fs_base st * span) \<in> set (snd (sweep_ns aging now n))" unfolding calls using mem by force
  then have 1: "InnerAdd \<lparr>ao_after = 0, ao_rateLimited = False, ao_priority = Some (fs_base st * span)\<rparr> k \<in> set (snd (sweep q now))"
    using sweep_calls [OF n(1), of now] ag by (auto simp: readd_call_def)
  have 2: "\<exists>st'. key_at (fst (sweep q now)) k = Some st' \<and> fs_aged st'"
    using n(1) s k a ag by (auto simp: key_at_def sweep_lookup sweep_ns_eq Let_def age_keys_map_of ages_def)
  have 3: "sorted (map (\<lambda>(k, s). (fs_dueSince s, fs_seq s)) aged)" unfolding aged_def by (rule sorted_sort_key)
  show ?thesis using 1 2 3 mem calls n(1) by blast
qed

theorem fair_queue_aging_witness:
  "InnerAdd \<lparr>ao_after = 0, ao_rateLimited = False, ao_priority = Some 0\<rparr> demo_key
     \<in> set (snd (sweep (run [ev_add demo_key 0 1]) (1 + DefaultAging)))"
proof -
  obtain st where st: "key_at (run [ev_add demo_key 0 1]) demo_key = Some st" "fs_due st" "\<not> fs_aged st" "fs_dueSince st = 1" "fs_base st = 0"
    by (simp add: run_def fq_step_def ev_add_def demo_key_def add_item_def fq_ns_def empty_ns_def promote.simps Wrap_def
        enqueue_def schedule_def zero_state_def put_ns_def limited_opts_def no_opts_def key_at_def Let_def)
  from fair_queue_aging [OF run_reach _ st(1,2,3), of "1 + DefaultAging"] st(4,5) show ?thesis
    by (simp add: DefaultAging_def second_def)
qed

definition recorded_level :: "Queue \<Rightarrow> inner_call \<Rightarrow> bool" where
  "recorded_level q c = (case c of
     InnerDone _ \<Rightarrow> True
   | InnerAdd o1 k \<Rightarrow> \<exists>p st. ao_priority o1 = Some p \<and> key_at q k = Some st \<and> in_level (fs_base st) p)"

lemma pr_rel_base:
  assumes "pr_rel now n n' out" "(k, b) \<in> set out"
  obtains st' where "map_of (fn_keys n') k = Some st'" "fs_base st' = b"
proof -
  have "k \<in> dom (map_of (fn_keys n))" using assms unfolding pr_rel_def by force
  then obtain st where st: "map_of (fn_keys n) k = Some st" by blast
  have mem: "k \<in> fst ` set out" using assms(2) by force
  obtain st' where st': "map_of (fn_keys n') k = Some st'"
    "became_due now st st'" "\<forall>b. (k, b) \<in> set out \<longrightarrow> b = fs_base st"
    using assms(1) st mem unfolding pr_rel_def by (metis (no_types, lifting))
  have "fs_base st' = b" using st'(2,3) assms(2) by (auto simp: became_due_def)
  with st'(1) show ?thesis by (rule that)
qed

lemma sweep_base:
  assumes "q_inv q" "map_of (q_namespaces q) name = Some n" "map_of (fn_keys (fst (promote now n))) k = Some s"
  shows "\<exists>s'. key_at (fst (sweep q now)) k = Some s' \<and> fs_base s' = fs_base s"
proof -
  have "ns_inv name n" using q_inv_ns assms(1,2) by blast
  from ns_inv_key [OF promote_inv [OF this] assms(3)] have "Namespace k = name" by (simp add: key_ok_def)
  then show ?thesis using sweep_key assms(2,3) by blast
qed

lemma sweep_levels:
  assumes q: "q_inv q" and c: "c \<in> set (snd (sweep q now))"
  shows "recorded_level (fst (sweep q now)) c"
proof -
  obtain name n where n: "(name, n) \<in> set (q_namespaces q)" and c': "c \<in> set (snd (sweep_ns (q_aging q) now n))"
    using c by (auto simp: sweep_namespaces)
  have look: "map_of (q_namespaces q) name = Some n" using n q by (simp add: q_inv_def)
  have inv: "ns_inv name n" using q_inv_ns [OF q look] by blast
  let ?n = "fst (promote now n)" and ?pr = "snd (promote now n)"
  have "c \<in> set (readds ?n ?pr) \<or> (\<exists>k st. (k, st) \<in> set (fn_keys ?n) \<and> c = readd_call (k, fs_base st * span))"
    using c' by (auto simp: sweep_ns_eq Let_def split: if_splits)
  then show ?thesis
  proof (elim disjE exE conjE)
    assume "c \<in> set (readds ?n ?pr)"
    then obtain k b where k: "(k, b) \<in> set ?pr" and c: "c = readd_call (k, shift b (fn_active ?n - 1))" by (auto simp: readds_def)
    obtain s where "map_of (fn_keys ?n) k = Some s" "fs_base s = b" by (rule pr_rel_base [OF promote_rel [OF inv] k])
    then show ?thesis using sweep_base [OF q look] shift_level by (fastforce simp: c readd_call_def recorded_level_def)
  next
    fix k st assume k: "(k, st) \<in> set (fn_keys ?n)" and c: "c = readd_call (k, fs_base st * span)"
    have "map_of (fn_keys ?n) k = Some st" using k ns_inv_parts(1) [OF promote_inv [OF inv]] by simp
    then show ?thesis using sweep_base [OF q look] by (fastforce simp: c readd_call_def recorded_level_def in_level_def)
  qed
qed

lemma Backlog_levels:
  assumes q: "q_inv q" and c: "c \<in> set (fst (snd (Backlog q name now)))"
  shows "recorded_level (fst (Backlog q name now)) c"
proof -
  obtain n where look: "map_of (q_namespaces q) name = Some n" using c by (cases "map_of (q_namespaces q) name") (auto simp: Backlog_def)
  have inv: "ns_inv name n" using q_inv_ns [OF q look] by blast
  let ?n = "fst (promote now n)" and ?pr = "snd (promote now n)"
  have b: "fst (Backlog q name now) = put_ns q name ?n" "fst (snd (Backlog q name now)) = readds ?n ?pr"
    using look by (simp_all add: Backlog_def case_prod_beta)
  then obtain k v where k: "(k, v) \<in> set ?pr" and c: "c = readd_call (k, shift v (fn_active ?n - 1))" using c by (auto simp: readds_def)
  obtain s where s: "map_of (fn_keys ?n) k = Some s" "fs_base s = v" by (rule pr_rel_base [OF promote_rel [OF inv] k])
  have "Namespace k = name" using ns_inv_key [OF promote_inv [OF inv] s(1)] by (simp add: key_ok_def)
  then have "key_at (put_ns q name ?n) k = Some s" using s(1) by (simp add: key_at_def put_ns_def update_conv')
  then show ?thesis using s(2) shift_level by (auto simp: b c readd_call_def recorded_level_def)
qed

lemma add_item_levels:
  assumes q: "q_inv q"
  shows "\<exists>opts p again. snd (add_item o1 q it now d) = InnerAdd (opts\<lparr>ao_priority := Some p\<rparr>) it # again \<and>
    in_level (case ao_priority o1 of None \<Rightarrow> 0 | Some b \<Rightarrow> b) p \<and> (\<forall>c \<in> set again. recorded_level (fst (add_item o1 q it now d)) c)"
proof -
  let ?n = "fst (promote now (fq_ns q (Namespace it)))" and ?pr = "snd (promote now (fq_ns q (Namespace it)))"
  have inv0: "ns_inv (Namespace it) (fq_ns q (Namespace it))" by (rule fq_ns_inv [OF q])
  note inv = promote_inv [OF inv0, of now]
  obtain q1 n1 st1 opts p ready where e: "enqueue q ?n it (key_state ?n it) (case ao_priority o1 of None \<Rightarrow> 0 | Some b \<Rightarrow> b) ready now = (q1, n1, st1)"
    and a: "add_item o1 q it now d = (put_ns q1 (Namespace it) (n1\<lparr>fn_keys := AList.update it st1 (fn_keys n1)\<rparr>),
        InnerAdd (opts\<lparr>ao_priority := Some p\<rparr>) it #
          readds (n1\<lparr>fn_keys := AList.update it st1 (fn_keys n1)\<rparr>) (filter (\<lambda>(k, b). k \<noteq> it) ?pr))"
    and p: "in_level (case ao_priority o1 of None \<Rightarrow> 0 | Some b \<Rightarrow> b) p"
    by (rule add_item_split [of q now it o1 d]) (simp add: Let_def shift_level)
  note s = enqueue_spec [OF inv refl e]
  let ?n3 = "n1\<lparr>fn_keys := AList.update it st1 (fn_keys n1)\<rparr>"
  have "recorded_level (put_ns q1 (Namespace it) ?n3) c" if c: "c \<in> set (readds ?n3 (filter (\<lambda>(k, b). k \<noteq> it) ?pr))" for c
  proof -
    obtain k b where k: "(k, b) \<in> set ?pr" "k \<noteq> it" and c: "c = readd_call (k, shift b (fn_active ?n3 - 1))"
      using c by (auto simp: readds_def)
    obtain st where st: "map_of (fn_keys ?n) k = Some st" "fs_base st = b" by (rule pr_rel_base [OF promote_rel [OF inv0] k(1)])
    have "Namespace k = Namespace it" using ns_inv_key [OF inv st(1)] by (simp add: key_ok_def)
    then have "key_at (put_ns q1 (Namespace it) ?n3) k = Some st"
      using st(1) k(2) s(2) by (simp add: key_at_def put_ns_def update_conv')
    then show ?thesis using st(2) shift_level by (auto simp: c readd_call_def recorded_level_def)
  qed
  then show ?thesis using p by (auto simp: a)
qed

text \<open>Levels are kept apart: every priority that an add, a sweep or a look at the backlog gives the inner queue lies in
  the level of the added base priority, or, for a key that became due meanwhile or is raised, in the level of the
  base priority recorded for that key. So neither a backlog nor aging moves a key out of its level.\<close>

theorem fair_queue_levels:
  assumes "fq_reach aging q"
  shows "(\<exists>opts p again. snd (add_item o1 q it now d) = InnerAdd (opts\<lparr>ao_priority := Some p\<rparr>) it # again \<and>
      in_level (case ao_priority o1 of None \<Rightarrow> 0 | Some b \<Rightarrow> b) p \<and> (\<forall>c \<in> set again. recorded_level (fst (add_item o1 q it now d)) c)) \<and>
    (\<forall>c \<in> set (snd (sweep q now)). recorded_level (fst (sweep q now)) c) \<and>
    (\<forall>c \<in> set (fst (snd (Backlog q name now))). recorded_level (fst (Backlog q name now)) c)"
  using add_item_levels sweep_levels Backlog_levels fq_reach_inv [OF assms] by blast

theorem fair_queue_levels_witness:
  "\<exists>opts p again. snd (add_item no_opts (run [ev_add demo_key 0 1]) other_key 2 None) = InnerAdd (opts\<lparr>ao_priority := Some p\<rparr>) other_key # again \<and>
     - 5 \<le> p \<and> p \<le> 0"
  using fair_queue_levels [OF run_reach [of "[ev_add demo_key 0 1]"], of no_opts other_key 2 None "''a''"]
  by (auto simp: no_opts_def in_level_def)

section \<open>Two behaviours the comments do not describe\<close>

text \<open>A key added again while it is in process is counted twice, so it is shifted by its own work: here it is the only
  key of its namespace, yet it is added below its level's top. The comments of \<open>namespace\<close>, \<open>shift\<close> and \<open>Backlog\<close> speak
  of the number of keys that are processing or due, and of the other keys.\<close>

lemma own_work_counts_twice:
  "snd (fq_step (run [ev_add demo_key 0 1, EvGet (demo_key, 0, False)]) (ev_add demo_key 0 2)) =
     [InnerAdd \<lparr>ao_after = 0, ao_rateLimited = False, ao_priority = Some (- 1)\<rparr> demo_key]"
  by code_simp

text \<open>The bookkeeping of a released key starts again at generation 0 while its old entry may still be in the heap of
  the namespace. Here a key is added with a delay, then at once, served and released; it is added again to run
  after 100, and the stale entry of its first life (generation 1, ready at 10) matches its new state: the sweep at 10
  adds it without a delay, long before its ready time 102.\<close>

definition aba_run :: "fq_event list" where
  "aba_run = [ev_add other_key 500 0, ev_add demo_key 10 0, ev_add demo_key 0 1, EvGet (demo_key, 0, False), EvDone demo_key,
     ev_add demo_key 100 2]"

lemma aba_state:
  "run aba_run = \<lparr>q_aging = DefaultAging, q_seq = 3, q_namespaces = [(''a'',
     \<lparr>fn_keys = [(other_key, \<lparr>fs_queued = True, fs_processing = False, fs_due = False, fs_aged = False, fs_base = 0,
                   fs_readyAt = 500, fs_dueSince = 0, fs_gen = 1, fs_seq = 1\<rparr>),
                 (demo_key, \<lparr>fs_queued = True, fs_processing = False, fs_due = False, fs_aged = False, fs_base = 0,
                   fs_readyAt = 102, fs_dueSince = 0, fs_gen = 1, fs_seq = 3\<rparr>)],
      fn_active = 0,
      fn_waiting = [\<lparr>fw_at = 10, fw_key = demo_key, fw_gen = 1\<rparr>, \<lparr>fw_at = 500, fw_key = other_key, fw_gen = 1\<rparr>,
                    \<lparr>fw_at = 102, fw_key = demo_key, fw_gen = 1\<rparr>]\<rparr>)]\<rparr>"
  by code_simp

lemma stale_waiter_promotes_early:
  "map_option fs_readyAt (key_at (run aba_run) demo_key) = Some 102 \<and>
   snd (sweep (run aba_run) 10) = [InnerAdd \<lparr>ao_after = 0, ao_rateLimited = False, ao_priority = Some 0\<rparr> demo_key]"
  by code_simp

end
