(* ===== verification/Go_Time.thy ===== *)
theory Go_Time
  imports Prelude
begin

text \<open>
  The part of Go's package \<open>time\<close> that the change windows use: the Gregorian calendar, the fields of an instant in a
  location, and \<open>time.Date\<close> with its choice of an offset. An instant is a number of nanoseconds since the zero
  time, midnight UTC of January 1 of year 1, a Monday.

  A \<open>Location\<close> is its name and its \<open>lookup\<close>: for an instant in seconds, the offset to UTC that is in use and from when
  to when it is. The time zone database behind it is data of the system, so locations are arguments.
\<close>

section \<open>The calendar\<close>

definition day_seconds :: int where "day_seconds = 86400"

definition days_before_year :: "int \<Rightarrow> int" where
  "days_before_year year = (let y = year - 1 in 365 * y + y div 4 - y div 100 + y div 400)"

definition is_leap :: "int \<Rightarrow> bool" where
  "is_leap year = (year mod 4 = 0 \<and> (year mod 100 \<noteq> 0 \<or> year mod 400 = 0))"

definition month_lengths :: "int \<Rightarrow> int list" where
  "month_lengths year = [31, if is_leap year then 29 else 28, 31, 30, 31, 30, 31, 31, 30, 31, 30, 31]"

text \<open>Year and day of the year of a day number: cycles of 400, 100, 4 and 1 years.\<close>

definition year_day :: "int \<Rightarrow> int \<times> int" where
  "year_day n =
     (let n400 = n div 146097; r400 = n mod 146097;
          n100 = min 3 (r400 div 36524); r100 = r400 - 36524 * n100;
          n4 = r100 div 1461; r4 = r100 mod 1461;
          n1 = min 3 (r4 div 365)
      in (400 * n400 + 100 * n100 + 4 * n4 + n1 + 1, r4 - 365 * n1))"

fun month_day :: "int list \<Rightarrow> int \<Rightarrow> int \<times> int" where
  "month_day [] d = (1, d + 1)"
| "month_day (l # ls) d = (if ls = [] \<or> d < l then (1, d + 1) else let (m, md) = month_day ls (d - l) in (m + 1, md))"

definition day_to_date :: "int \<Rightarrow> int \<times> int \<times> int" where
  "day_to_date n = (let (y, yd) = year_day n; (m, d) = month_day (month_lengths y) yd in (y, m, d))"

definition date_to_day :: "int \<Rightarrow> int \<Rightarrow> int \<Rightarrow> int" where
  "date_to_day y m d = days_before_year y + sum_list (take (nat (m - 1)) (month_lengths y)) + d - 1"

lemma year_day_before: "days_before_year (fst (year_day n)) + snd (year_day n) = n"
proof -
  define n400 where "n400 = n div 146097"
  define r400 where "r400 = n mod 146097"
  define n100 where "n100 = min 3 (r400 div 36524)"
  define r100 where "r100 = r400 - 36524 * n100"
  define n4 where "n4 = r100 div 1461"
  define r4 where "r4 = r100 mod 1461"
  define n1 where "n1 = min 3 (r4 div 365)"
  note defs = n400_def r400_def n100_def r100_def n4_def r4_def n1_def
  have r400: "0 \<le> r400" "r400 < 146097" "n = 146097 * n400 + r400" by (auto simp: n400_def r400_def)
  have n100: "0 \<le> n100" "n100 \<le> 3" using r400 by (auto simp: n100_def)
  have r100: "0 \<le> r100" "r100 \<le> 36524" using r400 by (auto simp: r100_def n100_def min_def)
  have n4: "0 \<le> n4" "n4 \<le> 24" "0 \<le> r4" "r4 < 1461" "r100 = 1461 * n4 + r4" using r100 by (auto simp: n4_def r4_def)
  have n1: "0 \<le> n1" "n1 \<le> 3" using n4 by (auto simp: n1_def)
  define y where "y = 400 * n400 + 100 * n100 + 4 * n4 + n1"
  have "y div 4 = 100 * n400 + 25 * n100 + n4" using n1 by (simp add: y_def)
  moreover have "y div 100 = 4 * n400 + n100"
    by (rule int_div_pos_eq [where r = "4 * n4 + n1"]) (use n1 n4 in \<open>auto simp: y_def\<close>)
  moreover have "y div 400 = n400"
    by (rule int_div_pos_eq [where r = "100 * n100 + 4 * n4 + n1"]) (use n1 n4 n100 in \<open>auto simp: y_def\<close>)
  ultimately have "365 * y + y div 4 - y div 100 + y div 400 + (r4 - 365 * n1) = n"
    using r400(3) n4(5) by (simp add: y_def r100_def)
  moreover have "year_day n = (y + 1, r4 - 365 * n1)" by (simp add: year_day_def Let_def y_def defs)
  ultimately show ?thesis by (simp add: days_before_year_def)
qed

lemma month_day_pos: "1 \<le> fst (month_day ls d)"
  by (induction ls d rule: month_day.induct) (auto simp: case_prod_beta)

lemma month_day_before: "sum_list (take (nat (fst (month_day ls d) - 1)) ls) + snd (month_day ls d) - 1 = d"
proof (induction ls d rule: month_day.induct)
  case (2 l ls d)
  show ?case
  proof (cases "ls = [] \<or> d < l")
    case False
    then have IH: "sum_list (take (nat (fst (month_day ls (d - l)) - 1)) ls) + snd (month_day ls (d - l)) - 1 = d - l" using 2 by blast
    have "nat (fst (month_day ls (d - l))) = Suc (nat (fst (month_day ls (d - l)) - 1))" using month_day_pos [of ls "d - l"] by simp
    then show ?thesis using IH False by (simp add: case_prod_beta)
  qed auto
qed auto

lemma date_to_day_to_date: "day_to_date n = (y, m, d) \<Longrightarrow> date_to_day y m d = n"
  using year_day_before [of n] month_day_before [of "month_lengths (fst (year_day n))" "snd (year_day n)"]
  by (auto simp: day_to_date_def date_to_day_def case_prod_beta Let_def)

section \<open>Locations\<close>

record Location =
  loc_name :: string
  loc_lookup :: "int \<Rightarrow> int \<times> int \<times> int"

text \<open>UTC, and a location with one offset for all time.\<close>

definition fixed_zone :: "string \<Rightarrow> int \<Rightarrow> Location" where
  "fixed_zone name off = \<lparr>loc_name = name, loc_lookup = (\<lambda>_. (off, - (2 ^ 63), 2 ^ 63 - 1))\<rparr>"

definition UTC :: Location where
  "UTC = fixed_zone ''UTC'' 0"

definition zone_offset :: "Location \<Rightarrow> int \<Rightarrow> int" where
  "zone_offset loc sec = fst (loc_lookup loc sec)"

definition local_seconds :: "Location \<Rightarrow> time \<Rightarrow> int" where
  "local_seconds loc t = t div second + zone_offset loc (t div second)"

definition Weekday :: "Location \<Rightarrow> time \<Rightarrow> int" where
  "Weekday loc t = (local_seconds loc t div day_seconds + 1) mod 7"

definition Hour :: "Location \<Rightarrow> time \<Rightarrow> int" where
  "Hour loc t = local_seconds loc t mod day_seconds div 3600"

definition Minute :: "Location \<Rightarrow> time \<Rightarrow> int" where
  "Minute loc t = local_seconds loc t mod 3600 div 60"

definition Date_of :: "Location \<Rightarrow> time \<Rightarrow> int \<times> int \<times> int" where
  "Date_of loc t = day_to_date (local_seconds loc t div day_seconds)"

text \<open>\<open>time.Date\<close> with seconds and nanoseconds 0: the wall clock read as UTC, less the offset in use then, or, when that
  offset is not in use at the result, less the one that is.\<close>

definition Date :: "Location \<Rightarrow> int \<Rightarrow> int \<Rightarrow> int \<Rightarrow> int \<Rightarrow> int \<Rightarrow> time" where
  "Date loc year month day hour mins =
     (let unix = date_to_day year month day * day_seconds + hour * 3600 + mins * 60;
          (off, from, til) = loc_lookup loc unix;
          utc = unix - off;
          off' = (if off \<noteq> 0 \<and> (utc < from \<or> til \<le> utc) then zone_offset loc utc else off)
      in (unix - off') * second)"

text \<open>The offset of \<open>loc\<close> is \<open>off\<close> from second \<open>a\<close> to second \<open>b\<close>.\<close>

definition steady :: "Location \<Rightarrow> int \<Rightarrow> int \<Rightarrow> int \<Rightarrow> bool" where
  "steady loc off a b = (\<forall>s. a \<le> s \<and> s \<le> b \<longrightarrow> zone_offset loc s = off)"

lemma steady_fixed [simp]: "steady (fixed_zone name off) off a b"
  by (simp add: steady_def zone_offset_def fixed_zone_def)

lemma steady_mono: "steady loc off a b \<Longrightarrow> a \<le> a' \<Longrightarrow> b' \<le> b \<Longrightarrow> steady loc off a' b'"
  by (auto simp: steady_def)

lemma Date_steady:
  assumes "steady loc off a b" "a \<le> unix" "unix \<le> b" "a \<le> unix - off" "unix - off \<le> b"
    and "unix = date_to_day y m d * day_seconds + hh * 3600 + mm * 60"
  shows "Date loc y m d hh mm = (unix - off) * second"
proof -
  have "zone_offset loc unix = off" "zone_offset loc (unix - off) = off" using assms by (auto simp: steady_def)
  then show ?thesis unfolding Date_def assms(6) [symmetric] Let_def
    by (cases "loc_lookup loc unix") (auto simp: zone_offset_def)
qed

end
