(* ===== verification/Change_Window.thy ===== *)
theory Change_Window
  imports Go_Time Actors
begin

text \<open>
  Change windows: \<open>pkg/reconciler/changewindow/window.go\<close>. \<open>EvaluateWindow\<close> is the code's \<open>Evaluate\<close>: whether a window blocks at an
  instant, and the next instant at which that can change; \<open>OpensAt\<close> and \<open>Transitions\<close> follow those instants.

  The texts of errors and reasons are constructors that carry what the texts name. \<open>zones\<close> is
  \<open>time.LoadLocation\<close> on the time zone database.
\<close>

section \<open>Windows\<close>

record ChangeWindowSchedule =
  Timezone :: string
  AllowedDays :: "string list"
  AllowedHours :: string

record FreezeLift =
  fl_by :: string
  fl_actor :: "Actor option"

record FreezeExemption =
  fe_namespace :: string
  fe_pipeline :: string
  fe_environment :: string
  fe_bundle :: string
  fe_reason :: string
  ExpiresAt :: time
  fe_createdBy :: string
  fe_actor :: "Actor option"

record ChangeWindowFreeze =
  fz_actors :: string
  fz_namespaces :: "string list"
  fz_createdBy :: string
  fz_actor :: "Actor option"
  Lifted :: "FreezeLift option"
  Exemptions :: "FreezeExemption list"

record ChangeWindowSpec =
  cw_type :: string
  cw_start :: time
  cw_end :: time
  cw_reason :: string
  Schedule :: "ChangeWindowSchedule option"
  Freeze :: "ChangeWindowFreeze option"

datatype window_error =
    UnknownType string
  | BlackoutNeedsBounds
  | EndNotAfterStart time time
  | NeedsSchedule
  | LocalTimezone string
  | UnknownTimezone string string
  | NotADay string
  | HoursFormat string
  | BadClock string string
  | HoursEqual string

datatype window_reason =
    InvalidWindow window_error
  | FreezeStartsAt time
  | FrozenSince time
  | BlackoutStartsAt time
  | BlackoutUntil time
  | BlackoutEndedAt time
  | InsideAllowed string
  | OutsideAllowed string

text \<open>\<open>Result\<close>; \<open>Next\<close> is 0, the zero time, when the result never changes.\<close>

record Result =
  Active :: bool
  Reason :: window_reason
  Next :: time
  Err :: "window_error option"

definition invalid :: "window_error \<Rightarrow> Result" where
  "invalid err = \<lparr>Active = True, Reason = InvalidWindow err, Next = 0, Err = Some err\<rparr>"

definition evaluateBlackout :: "ChangeWindowSpec \<Rightarrow> time \<Rightarrow> Result" where
  "evaluateBlackout spec now =
     (let start = cw_start spec; ends = cw_end spec in
      if start \<noteq> 0 \<and> ends = 0 \<and> Freeze spec \<noteq> None
      then if now < start then \<lparr>Active = False, Reason = FreezeStartsAt start, Next = start, Err = None\<rparr>
           else \<lparr>Active = True, Reason = FrozenSince start, Next = 0, Err = None\<rparr>
      else if start = 0 \<or> ends = 0 then invalid BlackoutNeedsBounds
      else if \<not> start < ends then invalid (EndNotAfterStart ends start)
      else if now < start then \<lparr>Active = False, Reason = BlackoutStartsAt start, Next = start, Err = None\<rparr>
      else if now < ends then \<lparr>Active = True, Reason = BlackoutUntil ends, Next = ends, Err = None\<rparr>
      else \<lparr>Active = False, Reason = BlackoutEndedAt ends, Next = 0, Err = None\<rparr>)"

section \<open>Schedules\<close>

text \<open>\<open>schedule\<close>: the days are the keys of the code's map, minutes count from local midnight.\<close>

record window_schedule =
  sc_loc :: Location
  sc_days :: "int list"
  sc_start :: int
  sc_end :: int
  sc_desc :: string

definition weekday_names :: "string list" where
  "weekday_names = [''sunday'', ''monday'', ''tuesday'', ''wednesday'', ''thursday'', ''friday'', ''saturday'']"

definition parseDay :: "string \<Rightarrow> int option" where
  "parseDay name =
     (let key = to_lower (trim_space name)
      in find (\<lambda>d. let full = weekday_names ! nat d in key = full \<or> key = take 3 full) [0..6])"

text \<open>\<open>strconv.Atoi\<close> on a short text: an optional sign and at least one digit.\<close>

definition is_digit :: "char \<Rightarrow> bool" where
  "is_digit c = (48 \<le> (of_char c :: nat) \<and> of_char c \<le> (57 :: nat))"

definition digits_value :: "string \<Rightarrow> int" where
  "digits_value s = foldl (\<lambda>v c. 10 * v + (of_char c - 48)) 0 s"

definition Atoi :: "string \<Rightarrow> int option" where
  "Atoi s =
     (let ds = (if s \<noteq> [] \<and> (hd s = CHR ''-'' \<or> hd s = CHR ''+'') then tl s else s)
      in if ds = [] \<or> \<not> list_all is_digit ds then None
         else Some (if hd s = CHR ''-'' then - digits_value ds else digits_value ds))"

definition parseClock :: "string \<Rightarrow> bool \<Rightarrow> int option" where
  "parseClock s isEnd =
     (case cut CHR '':'' s of
        None \<Rightarrow> None
      | Some (hh, mm) \<Rightarrow>
          if length hh \<noteq> 2 \<or> length mm \<noteq> 2 then None
          else (case (Atoi hh, Atoi mm) of
                  (Some h, Some m) \<Rightarrow>
                    if h < 0 \<or> m < 0 \<or> m > 59 then None
                    else if h = 24 \<and> m = 0 \<and> isEnd then Some (24 * 60)
                    else if h > 23 then None
                    else Some (h * 60 + m)
                | _ \<Rightarrow> None))"

definition loadTimezone :: "(string \<Rightarrow> string + Location) \<Rightarrow> string \<Rightarrow> window_error + Location" where
  "loadTimezone zones name =
     (if name = ''Local'' then Inl (LocalTimezone name)
      else case zones name of Inl err \<Rightarrow> Inl (UnknownTimezone name err) | Inr loc \<Rightarrow> Inr loc)"

fun parse_days :: "string list \<Rightarrow> int list \<Rightarrow> window_error + int list" where
  "parse_days [] days = Inr days"
| "parse_days (name # names) days =
     (case parseDay name of None \<Rightarrow> Inl (NotADay name) | Some d \<Rightarrow> parse_days names (days @ [d]))"

definition parse_hours :: "string \<Rightarrow> window_error + int \<times> int" where
  "parse_hours hours =
     (if hours = '''' then Inr (0, 24 * 60)
      else case cut CHR ''-'' hours of
             None \<Rightarrow> Inl (HoursFormat hours)
           | Some (from, to) \<Rightarrow>
               (case parseClock (trim_space from) False of
                  None \<Rightarrow> Inl (BadClock hours (trim_space from))
                | Some start \<Rightarrow>
                    (case parseClock (trim_space to) True of
                       None \<Rightarrow> Inl (BadClock hours (trim_space to))
                     | Some ends \<Rightarrow> if start = ends then Inl (HoursEqual hours) else Inr (start, ends))))"

definition parseSchedule :: "(string \<Rightarrow> string + Location) \<Rightarrow> ChangeWindowSchedule option \<Rightarrow> window_error + window_schedule" where
  "parseSchedule zones spec =
     (case spec of
        None \<Rightarrow> Inl NeedsSchedule
      | Some s \<Rightarrow>
          (case (if Timezone s \<noteq> '''' then loadTimezone zones (Timezone s) else Inr UTC) of
             Inl err \<Rightarrow> Inl err
           | Inr loc \<Rightarrow>
               (case parse_days (AllowedDays s) (if AllowedDays s = [] then [0..6] else []) of
                  Inl err \<Rightarrow> Inl err
                | Inr days \<Rightarrow>
                    (case parse_hours (AllowedHours s) of
                       Inl err \<Rightarrow> Inl err
                     | Inr (start, ends) \<Rightarrow>
                         Inr \<lparr>sc_loc = loc, sc_days = days, sc_start = start, sc_end = ends,
                              sc_desc = (if AllowedDays s \<noteq> [] then join '','' (AllowedDays s) else ''every day'') @ '' '' @
                                (if AllowedHours s \<noteq> '''' then AllowedHours s else ''all day'') @ '' '' @ loc_name loc\<rparr>))))"

definition allowed :: "window_schedule \<Rightarrow> time \<Rightarrow> bool" where
  "allowed s t =
     (let minute = Hour (sc_loc s) t * 60 + Minute (sc_loc s) t; wd = Weekday (sc_loc s) t in
      if sc_start s < sc_end s then wd \<in> set (sc_days s) \<and> minute \<ge> sc_start s \<and> minute < sc_end s
      else if minute \<ge> sc_start s then wd \<in> set (sc_days s)
      else if minute < sc_end s then (wd + 6) mod 7 \<in> set (sc_days s)
      else False)"

text \<open>The candidates of \<open>next\<close> in the order of its loops, and the loop itself, which keeps the least one after \<open>t\<close>.\<close>

definition candidates :: "window_schedule \<Rightarrow> time \<Rightarrow> time list" where
  "candidates s t =
     (let (y, m, d) = Date_of (sc_loc s) t
      in concat (map (\<lambda>day. map (\<lambda>mi. Date (sc_loc s) y m (d + day) (mi div 60) (mi mod 60)) [0, sc_start s, sc_end s]) [0..8]))"

definition keep_best :: "time \<Rightarrow> time \<Rightarrow> time \<Rightarrow> time" where
  "keep_best t best c = (if t < c \<and> (best = 0 \<or> c < best) then c else best)"

definition next_boundary :: "window_schedule \<Rightarrow> time \<Rightarrow> time" where
  "next_boundary s t = foldl (keep_best t) 0 (candidates s t)"

definition evaluateRecurring :: "(string \<Rightarrow> string + Location) \<Rightarrow> ChangeWindowSchedule option \<Rightarrow> time \<Rightarrow> Result" where
  "evaluateRecurring zones spec now =
     (case parseSchedule zones spec of
        Inl err \<Rightarrow> invalid err
      | Inr s \<Rightarrow>
          if allowed s now
          then \<lparr>Active = False, Reason = InsideAllowed (sc_desc s), Next = next_boundary s now, Err = None\<rparr>
          else \<lparr>Active = True, Reason = OutsideAllowed (sc_desc s), Next = next_boundary s now, Err = None\<rparr>)"

definition EvaluateWindow :: "(string \<Rightarrow> string + Location) \<Rightarrow> ChangeWindowSpec \<Rightarrow> time \<Rightarrow> Result" where
  "EvaluateWindow zones spec now =
     (if cw_type spec = ''blackout'' then evaluateBlackout spec now
      else if cw_type spec = ''recurring'' then evaluateRecurring zones (Schedule spec) now
      else invalid (UnknownType (cw_type spec)))"

section \<open>Following the boundaries\<close>

definition maxTransitions :: nat where "maxTransitions = 64"

fun opens_loop :: "nat \<Rightarrow> (time \<Rightarrow> Result) \<Rightarrow> time \<Rightarrow> time option" where
  "opens_loop 0 ev t = None"
| "opens_loop (Suc n) ev t =
     (let r = ev t in if \<not> Active r then Some t else if Next r = 0 then None else opens_loop n ev (Next r))"

definition OpensAt :: "(string \<Rightarrow> string + Location) \<Rightarrow> ChangeWindowSpec \<Rightarrow> time \<Rightarrow> time option" where
  "OpensAt zones spec now = opens_loop maxTransitions (EvaluateWindow zones spec) now"

fun transitions_loop :: "nat \<Rightarrow> (time \<Rightarrow> Result) \<Rightarrow> time \<Rightarrow> time \<Rightarrow> time list" where
  "transitions_loop 0 ev t until = []"
| "transitions_loop (Suc n) ev t until =
     (let nx = Next (ev t) in if nx = 0 \<or> until < nx then [] else nx # transitions_loop n ev nx until)"

definition Transitions :: "(string \<Rightarrow> string + Location) \<Rightarrow> ChangeWindowSpec \<Rightarrow> time \<Rightarrow> time \<Rightarrow> time list" where
  "Transitions zones spec from until = transitions_loop maxTransitions (EvaluateWindow zones spec) from until"

section \<open>Parsing\<close>










lemma parseClock_bounds:
  assumes "parseClock s isEnd = Some n"
  shows "0 \<le> n \<and> (n < 1440 \<or> isEnd \<and> n = 1440)"
proof -
  obtain hh mm h m where "Atoi hh = Some h" "Atoi mm = Some m" "\<not> (h < 0 \<or> m < 0 \<or> m > 59)"
      "n = (if h = 24 \<and> m = 0 \<and> isEnd then 1440 else h * 60 + m)" "h = 24 \<and> m = 0 \<and> isEnd \<or> h \<le> 23"
    using assms by (auto simp: parseClock_def split: option.splits if_splits prod.splits)
  then show ?thesis by auto
qed

lemma parse_hours_bounds: "parse_hours hs = Inr (a, b) \<Longrightarrow> 0 \<le> a \<and> a < 1440 \<and> 0 \<le> b \<and> b \<le> 1440 \<and> a \<noteq> b"
  by (auto simp: parse_hours_def dest!: parseClock_bounds split: if_splits option.splits prod.splits)

lemma parseDay_range: "parseDay n = Some d \<Longrightarrow> 0 \<le> d \<and> d \<le> 6"
  by (auto simp: parseDay_def Let_def find_Some_iff)





lemma parse_days_range:
  "parse_days ns ds = Inr r \<Longrightarrow> set ds \<subseteq> {0..6} \<Longrightarrow> ns \<noteq> [] \<or> ds \<noteq> [] \<Longrightarrow> r \<noteq> [] \<and> set r \<subseteq> {0..6}"
  by (induction ns ds rule: parse_days.induct) (auto dest: parseDay_range split: option.splits)

text \<open>What a parsed schedule satisfies.\<close>

definition schedule_ok :: "window_schedule \<Rightarrow> bool" where
  "schedule_ok s \<longleftrightarrow> 0 \<le> sc_start s \<and> sc_start s < 1440 \<and> 0 \<le> sc_end s \<and> sc_end s \<le> 1440 \<and> sc_start s \<noteq> sc_end s \<and>
     sc_days s \<noteq> [] \<and> set (sc_days s) \<subseteq> {0..6}"

lemma parseSchedule_ok: "parseSchedule zones spec = Inr s \<Longrightarrow> schedule_ok s"
  using parse_days_range parse_hours_bounds
  by (fastforce simp: parseSchedule_def schedule_ok_def split: option.splits sum.splits if_splits prod.splits)


section \<open>Boundaries\<close>

text \<open>The boundary at minute \<open>m\<close> of local day \<open>d\<close>, with an offset \<open>off\<close>.\<close>

definition boundary :: "int \<Rightarrow> int \<Rightarrow> int \<Rightarrow> time" where
  "boundary off d m = (d * day_seconds + 60 * m - off) * second"

definition boundary_minutes :: "window_schedule \<Rightarrow> int set" where
  "boundary_minutes s = {0, sc_start s, sc_end s}"

text \<open>\<open>allowed\<close> by the local second.\<close>

definition allowed_at :: "window_schedule \<Rightarrow> int \<Rightarrow> bool" where
  "allowed_at s l =
     (let m = l mod day_seconds div 60; wd = (l div day_seconds + 1) mod 7 in
      if sc_start s < sc_end s then wd \<in> set (sc_days s) \<and> m \<ge> sc_start s \<and> m < sc_end s
      else if m \<ge> sc_start s then wd \<in> set (sc_days s)
      else if m < sc_end s then (wd + 6) mod 7 \<in> set (sc_days s)
      else False)"

lemma less_second: "t < x * second \<longleftrightarrow> t div second < x"
  unfolding second_def by linarith

lemma minute_of_day: "Hour loc t * 60 + Minute loc t = local_seconds loc t mod day_seconds div 60"
proof -
  have "local_seconds loc t mod 3600 = local_seconds loc t mod day_seconds mod 3600"
    by (simp add: day_seconds_def mod_mod_cancel)
  moreover have "r div 3600 * 60 + r mod 3600 div 60 = r div 60" for r :: int
  proof -
    have "r = r mod 3600 + 60 * (60 * (r div 3600))" using mult_div_mod_eq [of 3600 r] by simp
    then have "r div 60 = (r mod 3600 + 60 * (60 * (r div 3600))) div 60" by simp
    also have "\<dots> = 60 * (r div 3600) + r mod 3600 div 60" by (subst div_mult_self2) simp_all
    finally show ?thesis by simp
  qed
  ultimately show ?thesis by (simp add: Hour_def Minute_def)
qed

lemma allowed_allowed_at: "allowed s t = allowed_at s (local_seconds (sc_loc s) t)"
  by (simp add: allowed_def allowed_at_def minute_of_day Weekday_def)

lemma minute_ge: "l mod day_seconds div 60 \<ge> m \<longleftrightarrow> l div day_seconds * day_seconds + 60 * m \<le> l"
proof -
  have "m \<le> x div 60 \<longleftrightarrow> 60 * m \<le> x" for x :: int by linarith
  moreover have "l mod day_seconds = l - l div day_seconds * day_seconds" by (simp add: minus_div_mult_eq_mod)
  ultimately have "m \<le> l mod day_seconds div 60 \<longleftrightarrow> 60 * m \<le> l - l div day_seconds * day_seconds" by simp
  then show ?thesis by linarith
qed

lemma allowed_at_same:
  assumes day: "l div day_seconds = l' div day_seconds"
    and cross: "\<And>m. m \<in> boundary_minutes s \<Longrightarrow> l div day_seconds * day_seconds + 60 * m \<le> l \<longleftrightarrow> l div day_seconds * day_seconds + 60 * m \<le> l'"
  shows "allowed_at s l = allowed_at s l'"
proof -
  have "m \<le> l mod day_seconds div 60 \<longleftrightarrow> m \<le> l' mod day_seconds div 60" if "m \<in> boundary_minutes s" for m
    using cross [OF that] day minute_ge [of m l] minute_ge [of m l'] by simp
  then have "sc_start s \<le> l mod day_seconds div 60 \<longleftrightarrow> sc_start s \<le> l' mod day_seconds div 60"
      "l mod day_seconds div 60 < sc_end s \<longleftrightarrow> l' mod day_seconds div 60 < sc_end s"
    by (auto simp: boundary_minutes_def simp flip: not_le)
  then show ?thesis unfolding allowed_at_def Let_def day by presburger
qed

text \<open>The assumption on the location around an instant: one offset, below a day, from two days before to \<open>n\<close> days after.\<close>

definition steady_around :: "Location \<Rightarrow> int \<Rightarrow> int \<Rightarrow> time \<Rightarrow> bool" where
  "steady_around loc off n t \<longleftrightarrow>
     \<bar>off\<bar> < day_seconds \<and> steady loc off (t div second - 2 * day_seconds) (t div second + n * day_seconds)"

lemma steady_around_off: "steady_around loc off n t \<Longrightarrow> 0 \<le> n \<Longrightarrow> local_seconds loc t = t div second + off"
  by (simp add: steady_around_def steady_def local_seconds_def day_seconds_def)

lemma steady_around_later:
  assumes "steady_around loc off n t" "t \<le> t'" "t' div second + k * day_seconds \<le> t div second + n * day_seconds"
  shows "steady_around loc off k t'"
proof -
  have "t div second \<le> t' div second" using assms(2) by (simp add: zdiv_mono1 second_def)
  then show ?thesis using assms by (auto simp: steady_around_def elim!: steady_mono)
qed

lemma candidate_boundary:
  assumes ok: "schedule_ok s" and z: "steady_around (sc_loc s) off 11 t" and k: "0 \<le> k" "k \<le> 8" and mi: "mi \<in> boundary_minutes s"
    and date: "Date_of (sc_loc s) t = (y, m, d)"
  shows "Date (sc_loc s) y m (d + k) (mi div 60) (mi mod 60) = boundary off (local_seconds (sc_loc s) t div day_seconds + k) mi"
proof -
  define dd where "dd = local_seconds (sc_loc s) t div day_seconds"
  have ls: "local_seconds (sc_loc s) t = t div second + off" using steady_around_off [OF z] by simp
  have mb: "0 \<le> mi" "mi \<le> 1440" using mi ok by (auto simp: boundary_minutes_def schedule_ok_def)
  have "date_to_day y m d = dd" using date date_to_day_to_date by (auto simp: Date_of_def dd_def)
  then have dk: "date_to_day y m (d + k) = dd + k" by (simp add: date_to_day_def)
  have b: "dd * day_seconds \<le> t div second + off" "t div second + off < dd * day_seconds + day_seconds"
    unfolding dd_def ls day_seconds_def by linarith+
  have off: "- day_seconds < off" "off < day_seconds" using z by (auto simp: steady_around_def)
  have kd: "0 \<le> k * day_seconds" "k * day_seconds \<le> 8 * day_seconds" using k by (simp_all add: day_seconds_def)
  let ?u = "(dd + k) * day_seconds + mi div 60 * 3600 + mi mod 60 * 60"
  have u: "?u = dd * day_seconds + k * day_seconds + 60 * mi"
  proof -
    have "60 * mi = 60 * (60 * (mi div 60) + mi mod 60)" by (simp only: mult_div_mod_eq)
    then show ?thesis by (simp only: distrib_right distrib_left)
  qed
  have "Date (sc_loc s) y m (d + k) (mi div 60) (mi mod 60) = (?u - off) * second"
    by (rule Date_steady [where a = "t div second - 2 * day_seconds" and b = "t div second + 11 * day_seconds"])
      (use z b off kd mb u in \<open>auto simp: steady_around_def dk day_seconds_def\<close>)
  also have "\<dots> = boundary off (dd + k) mi" unfolding u boundary_def by (simp only: distrib_right)
  finally show ?thesis unfolding dd_def .
qed

lemma candidates_set:
  assumes "schedule_ok s" "steady_around (sc_loc s) off 11 t"
  shows "set (candidates s t) = {boundary off (local_seconds (sc_loc s) t div day_seconds + k) m |k m. 0 \<le> k \<and> k \<le> 8 \<and> m \<in> boundary_minutes s}"
proof -
  obtain y m d where date: "Date_of (sc_loc s) t = (y, m, d)" by (metis prod_cases3)
  have "set (candidates s t) = (\<Union>k \<in> {0..8}. (\<lambda>mi. Date (sc_loc s) y m (d + k) (mi div 60) (mi mod 60)) ` boundary_minutes s)"
    by (simp add: candidates_def date boundary_minutes_def)
  also have "\<dots> = (\<Union>k \<in> {0..8}. boundary off (local_seconds (sc_loc s) t div day_seconds + k) ` boundary_minutes s)"
    using candidate_boundary [OF assms _ _ _ date] by (intro SUP_cong image_cong refl) simp
  also have "\<dots> = {boundary off (local_seconds (sc_loc s) t div day_seconds + k) m |k m. 0 \<le> k \<and> k \<le> 8 \<and> m \<in> boundary_minutes s}"
    by (force intro: exI)
  finally show ?thesis .
qed

lemma keep_best_spec:
  assumes "0 \<le> t" "best = 0 \<or> t < best"
  shows "let r = foldl (keep_best t) best cs in
     (r = best \<or> r \<in> set cs \<and> t < r) \<and> (best \<noteq> 0 \<longrightarrow> r \<noteq> 0 \<and> r \<le> best) \<and> (\<forall>c \<in> set cs. t < c \<longrightarrow> r \<noteq> 0 \<and> r \<le> c)"
  using assms
proof (induction cs arbitrary: best)
  case (Cons c cs)
  show ?case
  proof (cases "t < c \<and> (best = 0 \<or> c < best)")
    case True
    then show ?thesis using Cons.IH [of c] Cons.prems by (auto simp: keep_best_def Let_def)
  next
    case False
    then have "keep_best t best c = best" "t < c \<Longrightarrow> best \<noteq> 0 \<and> best \<le> c" by (auto simp: keep_best_def)
    then show ?thesis using Cons.IH [OF Cons.prems] by (auto simp: Let_def)
  qed
qed (auto simp: Let_def)

text \<open>\<open>next\<close> is the least boundary after \<open>t\<close>.\<close>

lemma next_boundary_least:
  assumes ok: "schedule_ok s" and z: "steady_around (sc_loc s) off 11 t" and t: "0 \<le> t"
  shows "t < next_boundary s t" "\<exists>d m. m \<in> boundary_minutes s \<and> next_boundary s t = boundary off d m"
    "m \<in> boundary_minutes s \<Longrightarrow> t < boundary off d m \<Longrightarrow> next_boundary s t \<le> boundary off d m"
proof -
  define dd where "dd = local_seconds (sc_loc s) t div day_seconds"
  have ls: "local_seconds (sc_loc s) t = t div second + off" using steady_around_off [OF z] by simp
  have b: "dd * day_seconds \<le> t div second + off" "t div second + off < dd * day_seconds + day_seconds"
    unfolding dd_def ls day_seconds_def by linarith+
  note cs = candidates_set [OF ok z, folded dd_def]
  note kb = keep_best_spec [OF t, of 0 "candidates s t", folded next_boundary_def, simplified Let_def, simplified]
  have after: "t < boundary off d' m' \<longleftrightarrow> t div second + off < d' * day_seconds + 60 * m'" for d' m'
    unfolding boundary_def less_second by linarith
  have one: "boundary off (dd + 1) 0 \<in> set (candidates s t)" unfolding cs boundary_minutes_def by (intro CollectI exI [of _ 1] exI [of _ 0]) auto
  have t1: "t < boundary off (dd + 1) 0" using b by (simp add: after distrib_right)
  then have nz: "next_boundary s t \<noteq> 0" "next_boundary s t \<le> boundary off (dd + 1) 0" using kb one by blast+
  then have mem: "next_boundary s t \<in> set (candidates s t)" "t < next_boundary s t" using kb by blast+
  then show "t < next_boundary s t" "\<exists>d m. m \<in> boundary_minutes s \<and> next_boundary s t = boundary off d m"
    unfolding cs by blast+
  assume m: "m \<in> boundary_minutes s" and tb: "t < boundary off d m"
  have mb: "0 \<le> m" "m \<le> 1440" using m ok by (auto simp: boundary_minutes_def schedule_ok_def)
  have "dd * day_seconds < d * day_seconds + day_seconds" using tb b mb by (simp add: after day_seconds_def)
  then have "dd \<le> d" by (simp add: day_seconds_def)
  show "next_boundary s t \<le> boundary off d m"
  proof (cases "d \<le> dd + 8")
    case True
    then have "boundary off d m \<in> set (candidates s t)"
      using \<open>dd \<le> d\<close> m unfolding cs by (intro CollectI exI [of _ "d - dd"] exI [of _ m]) auto
    then show ?thesis using kb tb by blast
  next
    case False
    then have "boundary off (dd + 1) 0 \<le> boundary off d m" using mb by (simp add: boundary_def day_seconds_def second_def)
    then show ?thesis using nz(2) by simp
  qed
qed

section \<open>The state between boundaries\<close>

lemma next_boundary_day: 
  assumes ok: "schedule_ok s" and z: "steady_around (sc_loc s) off 11 t" and t: "0 \<le> t"
  shows "next_boundary s t div second \<le> t div second + day_seconds"
proof -
  define dd where "dd = (t div second + off) div day_seconds"
  have b: "dd * day_seconds \<le> t div second + off" "t div second + off < dd * day_seconds + day_seconds"
    unfolding dd_def day_seconds_def by linarith+
  have "t < boundary off (dd + 1) 0" using b by (simp add: boundary_def less_second distrib_right)
  then have "next_boundary s t \<le> boundary off (dd + 1) 0" using next_boundary_least(3) [OF ok z t] by (simp add: boundary_minutes_def)
  then have "next_boundary s t div second \<le> boundary off (dd + 1) 0 div second" by (simp add: zdiv_mono1 second_def)
  also have "\<dots> = (dd + 1) * day_seconds - off" by (simp add: boundary_def second_def)
  finally show ?thesis using b by (simp add: distrib_right)
qed

lemma allowed_constant:
  assumes ok: "schedule_ok s" and z: "steady_around (sc_loc s) off 11 t" and t: "0 \<le> t" "t \<le> t'" "t' < next_boundary s t"
  shows "allowed s t' = allowed s t"
proof -
  have "t' div second \<le> next_boundary s t div second" using t by (simp add: zdiv_mono1 second_def)
  then have t1: "t' div second \<le> t div second + day_seconds" using next_boundary_day [OF ok z t(1)] by simp
  have z': "steady_around (sc_loc s) off 0 t'" by (rule steady_around_later [OF z t(2)]) (use t1 in \<open>auto simp: day_seconds_def\<close>)
  let ?l = "t div second + off" and ?l' = "t' div second + off"
  have ll: "?l \<le> ?l'" using t(2) by (simp add: zdiv_mono1 second_def)
  have ls: "local_seconds (sc_loc s) t = ?l" "local_seconds (sc_loc s) t' = ?l'" using steady_around_off z z' by simp_all
  have none: "\<not> (?l < d * day_seconds + 60 * m \<and> d * day_seconds + 60 * m \<le> ?l')" if "m \<in> boundary_minutes s" for d m
  proof
    assume a: "?l < d * day_seconds + 60 * m \<and> d * day_seconds + 60 * m \<le> ?l'"
    then have "t < boundary off d m" by (simp add: boundary_def less_second)
    then have "next_boundary s t \<le> boundary off d m" using next_boundary_least(3) [OF ok z t(1) that] by blast
    moreover have "boundary off d m \<le> t'" using a by (simp add: boundary_def less_second flip: not_less)
    ultimately show False using t(3) by simp
  qed
  have "?l div day_seconds = ?l' div day_seconds"
  proof (rule ccontr)
    assume "?l div day_seconds \<noteq> ?l' div day_seconds"
    then have "?l div day_seconds < ?l' div day_seconds" using zdiv_mono1 [OF ll, of day_seconds] by (simp add: day_seconds_def)
    then have "?l < ?l' div day_seconds * day_seconds" "?l' div day_seconds * day_seconds \<le> ?l'"
      unfolding day_seconds_def by linarith+
    then show False using none [of 0 "?l' div day_seconds"] by (simp add: boundary_minutes_def)
  qed
  then have "allowed_at s ?l = allowed_at s ?l'"
    by (rule allowed_at_same) (use none ll in \<open>force\<close>)
  then show ?thesis by (simp add: allowed_allowed_at ls)
qed

text \<open>The assumption on the time zone of a recurring window.\<close>

definition steady_spec :: "(string \<Rightarrow> string + Location) \<Rightarrow> ChangeWindowSpec \<Rightarrow> int \<Rightarrow> time \<Rightarrow> bool" where
  "steady_spec zones spec n now \<longleftrightarrow> 0 \<le> now \<and>
     (\<forall>s. cw_type spec = ''recurring'' \<and> parseSchedule zones (Schedule spec) = Inr s \<longrightarrow> (\<exists>off. steady_around (sc_loc s) off n now))"

lemma steady_spec_UTC:
  assumes "0 \<le> now" "Schedule spec = Some s" "Timezone s = ''''"
  shows "steady_spec zones spec n now"
proof -
  have "steady_around UTC 0 n now" by (simp add: steady_around_def UTC_def day_seconds_def)
  then show ?thesis using assms by (auto simp: steady_spec_def parseSchedule_def split: sum.splits prod.splits)
qed

section \<open>A window opens\<close>

definition boundaries :: "window_schedule \<Rightarrow> int \<Rightarrow> time \<Rightarrow> time \<Rightarrow> time set" where
  "boundaries s off a b = {x. a < x \<and> x \<le> b \<and> (\<exists>d. \<exists>m \<in> boundary_minutes s. x = boundary off d m)}"

lemma finite_boundaries: "finite (boundaries s off a b)"
  by (rule finite_subset [of _ "{a<..b}"]) (auto simp: boundaries_def)

lemma boundaries_step:
  assumes "schedule_ok s" "steady_around (sc_loc s) off 11 t" "0 \<le> t" "next_boundary s t \<le> b"
  shows "card (boundaries s off (next_boundary s t) b) < card (boundaries s off t b)"
proof -
  note nb = next_boundary_least [OF assms(1-3)]
  have "boundaries s off (next_boundary s t) b \<subset> boundaries s off t b"
  proof
    show "boundaries s off (next_boundary s t) b \<subseteq> boundaries s off t b" using nb(1) by (auto simp: boundaries_def)
    have "next_boundary s t \<in> boundaries s off t b" using nb(1,2) assms(4) by (auto simp: boundaries_def)
    then show "boundaries s off (next_boundary s t) b \<noteq> boundaries s off t b" by (auto simp: boundaries_def)
  qed
  then show ?thesis by (intro psubset_card_mono finite_boundaries)
qed

lemma opening_boundary:
  assumes ok: "schedule_ok s" and z: "steady_around (sc_loc s) off 20 now"
  shows "\<exists>T. now < T \<and> T div second \<le> now div second + 8 * day_seconds \<and> allowed s T \<and>
     (\<exists>d. \<exists>m \<in> boundary_minutes s. T = boundary off d m) \<and> card (boundaries s off now T) \<le> 24"
proof -
  define dd where "dd = (now div second + off) div day_seconds"
  have b: "dd * day_seconds \<le> now div second + off" "now div second + off < dd * day_seconds + day_seconds"
    unfolding dd_def day_seconds_def by linarith+
  have st: "0 \<le> sc_start s" "sc_start s < 1440" "sc_start s \<noteq> sc_end s" "0 \<le> sc_end s" "sc_end s \<le> 1440" using ok by (auto simp: schedule_ok_def)
  obtain wd where wd: "wd \<in> set (sc_days s)" "0 \<le> wd" "wd \<le> 6"
    using ok by (auto simp: schedule_ok_def) (metis atLeastAtMost_iff ex_in_conv set_empty subsetD)
  define j where "j = (wd - dd - 2) mod 7 + 1"
  have j: "1 \<le> j" "j \<le> 7" by (simp_all add: j_def)
  have "(dd + j + 1) mod 7 = (wd - dd - 2 + (dd + 2)) mod 7" unfolding j_def by (simp add: mod_add_left_eq add.assoc [symmetric] mod_simps)
  then have wdj: "(dd + j + 1) mod 7 = wd" using wd by simp
  let ?T = "boundary off (dd + j) (sc_start s)"
  have Ts: "?T div second = (dd + j) * day_seconds + 60 * sc_start s - off" by (simp add: boundary_def second_def)
  have "j * day_seconds \<le> 7 * day_seconds" "day_seconds \<le> j * day_seconds" using j by (simp_all add: day_seconds_def)
  then have now: "now < ?T" "?T div second \<le> now div second + 8 * day_seconds" unfolding Ts
    using b st by (simp_all add: boundary_def less_second distrib_right day_seconds_def)
  have "steady_around (sc_loc s) off 0 ?T"
    by (rule steady_around_later [OF z]) (use now in \<open>auto simp: day_seconds_def\<close>)
  then have "local_seconds (sc_loc s) ?T = (dd + j) * day_seconds + 60 * sc_start s" using steady_around_off Ts by simp
  moreover have "((dd + j) * day_seconds + 60 * sc_start s) div day_seconds = dd + j"
    by (rule int_div_pos_eq [where r = "60 * sc_start s"]) (use st in \<open>auto simp: day_seconds_def\<close>)
  moreover have "((dd + j) * day_seconds + 60 * sc_start s) mod day_seconds = 60 * sc_start s"
    by (rule int_mod_pos_eq [where q = "dd + j"]) (use st in \<open>auto simp: day_seconds_def\<close>)
  ultimately have al: "allowed s ?T" using wdj wd(1) st by (simp add: allowed_allowed_at allowed_at_def Let_def)
  have sub: "boundaries s off now ?T \<subseteq> (\<lambda>(d, m). boundary off d m) ` ({dd..dd + 7} \<times> boundary_minutes s)"
  proof
    fix x assume "x \<in> boundaries s off now ?T"
    then obtain d m where x: "now < x" "x \<le> ?T" "x = boundary off d m" "m \<in> boundary_minutes s" by (auto simp: boundaries_def)
    have m: "0 \<le> m" "m \<le> 1440" using x(4) st by (auto simp: boundary_minutes_def)
    have "now div second + off < d * day_seconds + 60 * m" using x(1,3) by (simp add: boundary_def less_second)
    then have "dd \<le> d" using b m by (simp add: day_seconds_def)
    moreover have "d * day_seconds + 60 * m \<le> (dd + j) * day_seconds + 60 * sc_start s" using x(2,3) by (simp add: boundary_def second_def)
    then have "d \<le> dd + 7" using m st j by (simp add: day_seconds_def)
    ultimately show "x \<in> (\<lambda>(d, m). boundary off d m) ` ({dd..dd + 7} \<times> boundary_minutes s)" using x(3,4) by auto
  qed
  have "card ({dd..dd + 7} \<times> boundary_minutes s) \<le> 24"
    using card_insert_le_m1 [of 2 "{sc_start s, sc_end s}" 0] card_2_iff
    by (simp add: card_cartesian_product boundary_minutes_def card_insert_if)
  moreover have "finite ({dd..dd + 7} \<times> boundary_minutes s)" by (simp add: boundary_minutes_def)
  ultimately have "card (boundaries s off now ?T) \<le> 24" using surj_card_le [OF _ sub] le_trans by blast
  then show ?thesis using now al by (intro exI [of _ ?T]) (auto simp: boundary_minutes_def)
qed

lemma opens_recurring:
  assumes ok: "schedule_ok s" and z: "steady_around (sc_loc s) off 20 now" and now: "0 \<le> now"
    and T: "allowed s T" "\<exists>d. \<exists>m \<in> boundary_minutes s. T = boundary off d m" "T div second \<le> now div second + 8 * day_seconds"
    and ev: "\<And>t. Active (ev t) = (\<not> allowed s t)" "\<And>t. Next (ev t) = next_boundary s t"
    and t: "now \<le> t" "t \<le> T" "card (boundaries s off t T) < n"
  shows "\<exists>t'. opens_loop n ev t = Some t' \<and> t \<le> t' \<and> allowed s t' \<and> (\<forall>u. t \<le> u \<and> u < t' \<longrightarrow> \<not> allowed s u)"
  using t
proof (induction n arbitrary: t)
  case (Suc n)
  show ?case
  proof (cases "allowed s t")
    case True
    then show ?thesis using ev by auto
  next
    case False
    have "t div second \<le> T div second" using Suc.prems(2) by (simp add: zdiv_mono1 second_def)
    then have zt: "steady_around (sc_loc s) off 11 t"
      by (intro steady_around_later [OF z Suc.prems(1)]) (use T(3) in \<open>simp add: day_seconds_def\<close>)
    have t0: "0 \<le> t" using now Suc.prems(1) by simp
    note nb = next_boundary_least [OF ok zt t0]
    have "t < T" using False T(1) Suc.prems(2) by (cases "t = T") auto
    then have le: "next_boundary s t \<le> T" using nb(3) T(2) by blast
    have "card (boundaries s off (next_boundary s t) T) < n"
      using boundaries_step [OF ok zt t0 le] Suc.prems(3) by simp
    then obtain t' where t': "opens_loop n ev (next_boundary s t) = Some t'" "next_boundary s t \<le> t'" "allowed s t'"
        "\<forall>u. next_boundary s t \<le> u \<and> u < t' \<longrightarrow> \<not> allowed s u"
      using Suc.IH [of "next_boundary s t"] le nb(1) Suc.prems(1) by auto
    have "next_boundary s t \<noteq> 0" using nb(1) t0 by simp
    then have "opens_loop (Suc n) ev t = Some t'" using t'(1) ev False by (simp add: Let_def)
    moreover have "\<not> allowed s u" if "t \<le> u" "u < t'" for u
      using that t'(4) allowed_constant [OF ok zt t0, of u] False by (cases "u < next_boundary s t") auto
    ultimately show ?thesis using t'(2,3) nb(1) by auto
  qed
qed simp

lemma opens_two_steps:
  "opens_loop maxTransitions ev t =
     (if \<not> Active (ev t) then Some t else if Next (ev t) = 0 then None
      else if \<not> Active (ev (Next (ev t))) then Some (Next (ev t)) else if Next (ev (Next (ev t))) = 0 then None
      else opens_loop 62 ev (Next (ev (Next (ev t)))))"
proof -
  have m: "maxTransitions = Suc (Suc 62)" by (simp add: maxTransitions_def)
  show ?thesis unfolding m opens_loop.simps Let_def ..
qed

lemma evaluateRecurring_parsed:
  assumes "cw_type spec = ''recurring''" "parseSchedule zones (Schedule spec) = Inr s"
  shows "Active (EvaluateWindow zones spec t) = (\<not> allowed s t)" "Next (EvaluateWindow zones spec t) = next_boundary s t"
    "Err (EvaluateWindow zones spec t) = None"
    "Reason (EvaluateWindow zones spec t) = (if allowed s t then InsideAllowed else OutsideAllowed) (sc_desc s)"
  using assms by (simp_all add: EvaluateWindow_def evaluateRecurring_def)

section \<open>Properties\<close>



text \<open>A window that cannot be evaluated blocks. A spec has an error exactly when its type is unknown, a blackout lacks a bound
  it needs or ends before it starts, or a schedule is missing or has a bad zone, day or hours; it then blocks at every
  instant and never changes. The error does not depend on the instant.\<close>

theorem window_fails_closed:
  "let r = EvaluateWindow zones spec now; needs_end = (Freeze spec = None) in
   (Err r = None \<longleftrightarrow>
      (if cw_type spec = ''blackout''
       then cw_start spec \<noteq> 0 \<and> (if cw_end spec = 0 then \<not> needs_end else cw_start spec < cw_end spec)
       else cw_type spec = ''recurring'' \<and>
         (\<exists>s. Schedule spec = Some s \<and>
            (Timezone s = '''' \<or> Timezone s \<noteq> ''Local'' \<and> (\<exists>loc. zones (Timezone s) = Inr loc)) \<and>
            list_all (\<lambda>d. parseDay d \<noteq> None) (AllowedDays s) \<and> (\<exists>ab. parse_hours (AllowedHours s) = Inr ab)))) \<and>
   (Err r \<noteq> None \<longrightarrow> (\<forall>t. EvaluateWindow zones spec t = r) \<and> Active r \<and> Next r = 0)"
proof -
  have days: "(\<exists>r. parse_days ns ds = Inr r) = list_all (\<lambda>d. parseDay d \<noteq> None) ns" for ns ds
    by (induction ns ds rule: parse_days.induct) (auto split: option.splits)
  have sched: "(\<exists>s. parseSchedule zones (Schedule spec) = Inr s) \<longleftrightarrow>
      (\<exists>s. Schedule spec = Some s \<and>
            (Timezone s = '''' \<or> Timezone s \<noteq> ''Local'' \<and> (\<exists>loc. zones (Timezone s) = Inr loc)) \<and>
            list_all (\<lambda>d. parseDay d \<noteq> None) (AllowedDays s) \<and> (\<exists>ab. parse_hours (AllowedHours s) = Inr ab))"
    unfolding days [symmetric, of _ "if AllowedDays (the (Schedule spec)) = [] then [0..6] else []"]
    by (cases "Schedule spec") (auto simp: parseSchedule_def loadTimezone_def split: sum.splits if_splits prod.splits)
  show ?thesis
  proof (cases "cw_type spec = ''recurring''")
    case True
    then show ?thesis using sched
      by (cases "parseSchedule zones (Schedule spec)") (auto simp: Let_def EvaluateWindow_def evaluateRecurring_def invalid_def)
  next
    case False
    then show ?thesis by (auto simp: Let_def EvaluateWindow_def evaluateBlackout_def invalid_def)
  qed
qed

definition weekday_spec :: "string \<Rightarrow> ChangeWindowSpec" where
  "weekday_spec hours = \<lparr>cw_type = ''recurring'', cw_start = 0, cw_end = 0, cw_reason = '''',
     Schedule = Some \<lparr>Timezone = '''', AllowedDays = [''Mon'', ''friday''], AllowedHours = hours\<rparr>, Freeze = None\<rparr>"

theorem window_fails_closed_witness:
  "Active (EvaluateWindow (\<lambda>_. Inl ''unknown'') (weekday_spec ''9-17'') 5) \<and>
   Err (EvaluateWindow (\<lambda>_. Inl ''unknown'') (weekday_spec ''9-17'') 5) = Some (BadClock ''9-17'' ''9'')"
proof -
  have "Err (EvaluateWindow (\<lambda>_. Inl ''unknown'') (weekday_spec ''9-17'') 5) = Some (BadClock ''9-17'' ''9'')" by code_simp
  then show ?thesis using window_fails_closed [of "\<lambda>_. Inl ''unknown''" "weekday_spec ''9-17''" 5] by (simp add: Let_def)
qed

text \<open>C19. \<open>Next\<close> is when to look again. While the offset of the zone does not change around now, a window's state, its
  reason and its error stay the same from now until \<open>Next\<close> (for good when there is none), and \<open>Next\<close> lies after now. So
  a reconcile at \<open>Next\<close> misses no change.\<close>

theorem window_constant_until_next:
  assumes "steady_spec zones spec 11 now" "now \<le> t" "Next (EvaluateWindow zones spec now) = 0 \<or> t < Next (EvaluateWindow zones spec now)"
  shows "let r = EvaluateWindow zones spec now; r' = EvaluateWindow zones spec t in
     Active r' = Active r \<and> Reason r' = Reason r \<and> Err r' = Err r \<and> (Next r = 0 \<or> now < Next r)"
proof (cases "cw_type spec = ''recurring''")
  case False
  then show ?thesis using assms by (auto simp: Let_def EvaluateWindow_def evaluateBlackout_def invalid_def split: if_splits)
next
  case rec: True
  show ?thesis
  proof (cases "parseSchedule zones (Schedule spec)")
    case (Inl err)
    then show ?thesis using rec by (simp add: Let_def EvaluateWindow_def evaluateRecurring_def invalid_def)
  next
    case (Inr s)
    note ev = evaluateRecurring_parsed [OF rec Inr]
    note ok = parseSchedule_ok [OF Inr]
    obtain off where z: "steady_around (sc_loc s) off 11 now" and now: "0 \<le> now" using assms(1) rec Inr by (auto simp: steady_spec_def)
    note nb = next_boundary_least(1) [OF ok z now]
    then have "t < next_boundary s now" using assms(3) now by (auto simp: ev)
    then have "allowed s t = allowed s now" using allowed_constant [OF ok z now assms(2)] by blast
    then show ?thesis using nb by (simp add: Let_def ev)
  qed
qed

definition noon_friday :: time where
  "noon_friday = (date_to_day 2026 10 2 * day_seconds + 43200) * second"

definition office_hours :: window_schedule where
  "office_hours = \<lparr>sc_loc = UTC, sc_days = [1, 5], sc_start = 540, sc_end = 1020, sc_desc = ''Mon,friday 09:00-17:00 UTC''\<rparr>"

lemma weekday_schedule: "parseSchedule zones (Schedule (weekday_spec ''09:00-17:00'')) = Inr office_hours"
proof -
  have "parseDay ''Mon'' = Some 1" "parseDay ''friday'' = Some 5" "parse_hours ''09:00-17:00'' = Inr (540, 1020)" by code_simp+
  then show ?thesis by (simp add: parseSchedule_def weekday_spec_def office_hours_def UTC_def fixed_zone_def)
qed

lemma weekday_steady: "steady_spec zones (weekday_spec ''09:00-17:00'') n (noon_friday + k * minute)" if "- 1000 \<le> k"
proof (rule steady_spec_UTC [where s = "\<lparr>Timezone = '''', AllowedDays = [''Mon'', ''friday''], AllowedHours = ''09:00-17:00''\<rparr>"])
  have "noon_friday = 63926539200 * second" by code_simp
  then show "0 \<le> noon_friday + k * minute" using that by (simp add: second_def minute_def)
qed (simp_all add: weekday_spec_def)

theorem window_constant_until_next_witness:
  "let r = EvaluateWindow (\<lambda>_. Inl ''unknown'') (weekday_spec ''09:00-17:00'') noon_friday in
   \<not> Active r \<and> Next r = noon_friday + 300 * minute \<and>
   \<not> Active (EvaluateWindow (\<lambda>_. Inl ''unknown'') (weekday_spec ''09:00-17:00'') (noon_friday + 200 * minute))"
proof -
  let ?ev = "EvaluateWindow (\<lambda>_. Inl ''unknown'') (weekday_spec ''09:00-17:00'')"
  have type: "cw_type (weekday_spec ''09:00-17:00'') = ''recurring''" by (simp add: weekday_spec_def)
  have "allowed office_hours noon_friday" "next_boundary office_hours noon_friday = noon_friday + 300 * minute" by code_simp+
  then have r: "\<not> Active (?ev noon_friday)" "Next (?ev noon_friday) = noon_friday + 300 * minute"
    by (simp_all add: evaluateRecurring_parsed [OF type weekday_schedule])
  have "steady_spec (\<lambda>_. Inl ''unknown'') (weekday_spec ''09:00-17:00'') 11 noon_friday" using weekday_steady [of 0] by simp
  then show ?thesis using window_constant_until_next [of _ _ noon_friday "noon_friday + 200 * minute"] r
    by (simp add: Let_def minute_def second_def)
qed

text \<open>C20. \<open>OpensAt\<close> finds the opening. While the zone of a recurring window keeps its offset from two days before now to twenty
  days after (around a change of the offset it may name a later opening: \<open>spring_opening_missed\<close> below), the instant it returns is the first from now on at which the window does
  not block, and when it returns none the window blocks for ever: the bound of 64 boundaries is never what ends
  the search, since a recurring window opens within 24 of them.\<close>

theorem OpensAt_first:
  assumes "steady_spec zones spec 20 now"
  shows "case OpensAt zones spec now of
       Some t \<Rightarrow> now \<le> t \<and> \<not> Active (EvaluateWindow zones spec t) \<and> (\<forall>u. now \<le> u \<and> u < t \<longrightarrow> Active (EvaluateWindow zones spec u))
     | None \<Rightarrow> \<forall>u. now \<le> u \<longrightarrow> Active (EvaluateWindow zones spec u)"
proof -
  consider (blackout) "cw_type spec = ''blackout''" | (unknown) "cw_type spec \<noteq> ''blackout''" "cw_type spec \<noteq> ''recurring''" |
      (bad) err where "cw_type spec = ''recurring''" "parseSchedule zones (Schedule spec) = Inl err" |
      (good) s where "cw_type spec = ''recurring''" "parseSchedule zones (Schedule spec) = Inr s"
    by (cases "parseSchedule zones (Schedule spec)") auto
  then show ?thesis
  proof cases
    case good
    note ok = parseSchedule_ok [OF good(2)] and ev = evaluateRecurring_parsed [OF good]
    obtain off where z: "steady_around (sc_loc s) off 20 now" and now: "0 \<le> now" using assms good by (auto simp: steady_spec_def)
    obtain T where T: "now < T" "T div second \<le> now div second + 8 * day_seconds" "allowed s T"
        "\<exists>d. \<exists>m \<in> boundary_minutes s. T = boundary off d m" "card (boundaries s off now T) \<le> 24"
      using opening_boundary [OF ok z] by blast
    have "card (boundaries s off now T) < maxTransitions" using T(5) by (simp add: maxTransitions_def)
    then obtain t' where "opens_loop maxTransitions (EvaluateWindow zones spec) now = Some t'" "now \<le> t'" "allowed s t'"
        "\<forall>u. now \<le> u \<and> u < t' \<longrightarrow> \<not> allowed s u"
      using opens_recurring [OF ok z now T(3,4,2) ev(1,2) order_refl less_imp_le [OF T(1)]] by blast
    then show ?thesis by (simp add: OpensAt_def ev)
  qed (auto simp: OpensAt_def opens_two_steps Let_def EvaluateWindow_def evaluateBlackout_def evaluateRecurring_def invalid_def)
qed

theorem OpensAt_first_witness:
  "OpensAt (\<lambda>_. Inl ''unknown'') (weekday_spec ''09:00-17:00'') (noon_friday + (- 240) * minute) = Some (noon_friday + (- 180) * minute) \<and>
   Active (EvaluateWindow (\<lambda>_. Inl ''unknown'') (weekday_spec ''09:00-17:00'') (noon_friday + (- 181) * minute))"
proof -
  have type: "cw_type (weekday_spec ''09:00-17:00'') = ''recurring''" by (simp add: weekday_spec_def)
  have n: "\<not> allowed office_hours (noon_friday + (- 240) * minute)"
      "next_boundary office_hours (noon_friday + (- 240) * minute) = noon_friday + (- 180) * minute"
      "noon_friday + (- 180) * minute \<noteq> 0" "allowed office_hours (noon_friday + (- 180) * minute)" by code_simp+
  have r: "OpensAt (\<lambda>_. Inl ''unknown'') (weekday_spec ''09:00-17:00'') (noon_friday + (- 240) * minute) = Some (noon_friday + (- 180) * minute)"
    using n by (simp only: OpensAt_def opens_two_steps evaluateRecurring_parsed [OF type weekday_schedule]) simp
  have "steady_spec (\<lambda>_. Inl ''unknown'') (weekday_spec ''09:00-17:00'') 20 (noon_friday + (- 240) * minute)" by (rule weekday_steady) simp
  from OpensAt_first [OF this] show ?thesis unfolding r option.case by (simp add: minute_def second_def)
qed

section \<open>Transitions\<close>

text \<open>\<open>Transitions\<close> lists the boundaries in order, and between two of them the window does not change: its state at an instant is
  the one at the last listed boundary before it, as long as the list was not cut at its bound.\<close>

lemma transitions_loop_complete:
  assumes const: "\<And>t u. from \<le> t \<Longrightarrow> t \<le> u \<Longrightarrow> Next (ev t) = 0 \<or> u < Next (ev t) \<Longrightarrow> Active (ev u) = Active (ev t)"
    and later: "\<And>t. from \<le> t \<Longrightarrow> Next (ev t) = 0 \<or> t < Next (ev t)"
    and t: "from \<le> t" "t \<le> u" "u \<le> until" "length (transitions_loop n ev t until) < n"
  shows "sorted_wrt (<) (t # transitions_loop n ev t until) \<and> set (transitions_loop n ev t until) \<subseteq> {t<..until} \<and>
     Active (ev u) = Active (ev (last (t # filter (\<lambda>x. x \<le> u) (transitions_loop n ev t until))))"
  using t
proof (induction n arbitrary: t u)
  case (Suc n)
  let ?nx = "Next (ev t)"
  show ?case
  proof (cases "?nx = 0 \<or> until < ?nx")
    case True
    then show ?thesis using const [OF Suc.prems(1,2)] Suc.prems(3) by (auto simp: Let_def)
  next
    case False
    then have nx: "t < ?nx" "?nx \<le> until" using later [OF Suc.prems(1)] by auto
    have len: "length (transitions_loop n ev ?nx until) < n" using Suc.prems(4) False by (simp add: Let_def)
    have IH: "sorted_wrt (<) (?nx # transitions_loop n ev ?nx until) \<and> set (transitions_loop n ev ?nx until) \<subseteq> {?nx<..until} \<and>
        Active (ev v) = Active (ev (last (?nx # filter (\<lambda>x. x \<le> v) (transitions_loop n ev ?nx until))))" if "?nx \<le> v" "v \<le> until" for v
      using Suc.IH [OF _ that(1,2) len] nx(1) Suc.prems(1) by simp
    let ?rest = "transitions_loop n ev ?nx until"
    note here = IH [OF nx(2) order_refl]
    have eq: "transitions_loop (Suc n) ev t until = ?nx # ?rest" using False by (simp add: Let_def)
    have rest: "\<forall>x \<in> set ?rest. ?nx < x \<and> x \<le> until" using here by (metis greaterThanAtMost_iff subsetD)
    then have ord: "sorted_wrt (<) (t # ?nx # ?rest) \<and> set (?nx # ?rest) \<subseteq> {t<..until}"
      using here nx by fastforce
    have "Active (ev u) = Active (ev (last (t # filter (\<lambda>x. x \<le> u) (?nx # ?rest))))"
    proof (cases "?nx \<le> u")
      case True
      then show ?thesis using IH [OF True Suc.prems(3)] by simp
    next
      case u: False
      then have "filter (\<lambda>x. x \<le> u) (?nx # ?rest) = []" using rest by (auto simp: filter_empty_conv)
      then show ?thesis using u const [OF Suc.prems(1,2)] by (simp only: last.simps if_True) simp
    qed
    then show ?thesis unfolding eq using ord by blast
  qed
qed simp

section \<open>Where the offset changes\<close>

text \<open>At a change of the offset the state can change away from every candidate. In a zone that goes from 02:00 to 03:00, a window
  that allows 02:30 to 04:00 opens at 03:00, the instant of the change: half an hour before it the window blocks, and \<open>next\<close> is 04:00,
  when it blocks again. \<open>time.Date\<close> puts the missing 02:30 at 01:30.\<close>

definition spring :: int where
  "spring = date_to_day 2026 3 8 * day_seconds + 7 * 3600"

definition new_york :: Location where
  "new_york = \<lparr>loc_name = ''America/New_York'', loc_lookup = (\<lambda>s. if s < spring
     then (- 18000, spring - 126 * day_seconds, spring) else (- 14400, spring, spring + 238 * day_seconds))\<rparr>"

definition night_hours :: window_schedule where
  "night_hours = \<lparr>sc_loc = new_york, sc_days = [0, 1, 2, 3, 4, 5, 6], sc_start = 150, sc_end = 240, sc_desc = ''''\<rparr>"

lemma spring_opening_missed:
  "\<not> allowed night_hours ((spring - 1800) * second)"
  "allowed night_hours (spring * second)"
  "next_boundary night_hours ((spring - 1800) * second) = (spring + 3600) * second"
  "\<not> allowed night_hours ((spring + 3600) * second)"
  by code_simp+

end
