(* ===== verification/Freezes.thy ===== *)
theory Freezes
  imports Change_Window Step_Transition
begin

text \<open>
  Freezes: \<open>freeze.go\<close>, \<open>freeze_audit.go\<close> and \<open>reconciler.go\<close> of \<open>pkg/reconciler/changewindow\<close>, and the hold of a step in
  \<open>freeze.go\<close> of \<open>pkg/reconciler/promotionstep\<close>. The ChangeWindow reconciler writes whether a window is active
  and which exemptions count; a step reads only that status.

  Arguments: the hash behind \<open>ExemptionKey\<close> (\<open>key\<close>), \<open>SetStatusCondition\<close> and its siblings of apimachinery (\<open>cond_lib\<close>), the
  texts of times and of label values, and what the API server answers. \<open>labelvalue.Fit\<close> is the argument \<open>fit\<close>.
\<close>

section \<open>Windows with their status\<close>

datatype window_message = SpecIsValid | SpecIsInvalid window_error | AgentExemptions nat | FreezeStartRecorded

record window_condition =
  wc_type :: string
  wc_true :: bool
  wc_reason :: string
  wc_message :: window_message
  wc_observed :: int
  wc_time :: time

record cond_lib =
  set_cond :: "window_condition list \<Rightarrow> window_condition \<Rightarrow> window_condition list \<times> bool"
  remove_cond :: "window_condition list \<Rightarrow> string \<Rightarrow> window_condition list \<times> bool"
  find_cond :: "window_condition list \<Rightarrow> string \<Rightarrow> window_condition option"

record FreezeExemptionRecord =
  er_key :: string
  FirstSeen :: time
  er_until :: time

record ChangeWindowStatus =
  ws_active :: bool
  ws_reason :: window_reason
  ws_conditions :: "window_condition list"
  ObservedGeneration :: int
  NextTransition :: "time option"
  ws_exemptions :: "FreezeExemption list"
  ExemptionRecords :: "FreezeExemptionRecord list"

record ChangeWindow =
  win_name :: string
  win_uid :: string
  Generation :: int
  CreationTimestamp :: time
  DeletionTimestamp :: time
  Finalizers :: "string list"
  win_spec :: ChangeWindowSpec
  win_status :: ChangeWindowStatus

section \<open>What a freeze holds\<close>

record FreezeTarget =
  ft_namespace :: string
  ft_pipeline :: string
  ft_environment :: string
  ft_bundle :: string
  ft_author :: Actor

record FreezeMatch =
  fm_window :: ChangeWindow
  fm_exemption :: "FreezeExemption option"
  fm_since :: time
  fm_until :: time

definition exemptionByAgent :: "FreezeExemption \<Rightarrow> bool" where
  "exemptionByAgent e = (case fe_actor e of None \<Rightarrow> False | Some a \<Rightarrow> Kind a = ActorAgent)"

definition FreezeSelects :: "ChangeWindowFreeze option \<Rightarrow> FreezeTarget \<Rightarrow> bool" where
  "FreezeSelects f t =
     (case f of
        None \<Rightarrow> False
      | Some fz \<Rightarrow>
          if fz_namespaces fz \<noteq> [] \<and> \<not> Matches (fz_namespaces fz) (ft_namespace t) then False
          else if fz_actors fz = ''everyone'' then True
          else if fz_actors fz = ''agents'' then Kind (ft_author t) = ActorAgent
          else True)"

definition statusBehind :: "ChangeWindow \<Rightarrow> bool" where
  "statusBehind w = (ObservedGeneration (win_status w) = 0 \<or> ObservedGeneration (win_status w) \<noteq> Generation w)"

definition FreezeLifting :: "ChangeWindow \<Rightarrow> bool" where
  "FreezeLifting w = (Freeze (win_spec w) \<noteq> None \<and> DeletionTimestamp w \<noteq> 0)"

definition FreezeActive :: "ChangeWindow \<Rightarrow> bool" where
  "FreezeActive w = (Freeze (win_spec w) \<noteq> None \<and> \<not> FreezeLifting w \<and> (statusBehind w \<or> ws_active (win_status w)))"

definition exemption_matches :: "FreezeTarget \<Rightarrow> FreezeExemption \<Rightarrow> bool" where
  "exemption_matches t e \<longleftrightarrow>
     fe_namespace e = ft_namespace t \<and> fe_pipeline e = ft_pipeline t \<and> \<not> exemptionByAgent e \<and>
     (fe_environment e = '''' \<or> fe_environment e = ft_environment t) \<and> (fe_bundle e = '''' \<or> fe_bundle e = ft_bundle t)"

definition exemptionFor :: "(FreezeExemption \<Rightarrow> string) \<Rightarrow> ChangeWindow \<Rightarrow> FreezeTarget \<Rightarrow> FreezeExemption option \<times> time" where
  "exemptionFor key w t =
     (if statusBehind w then (None, 0)
      else case find (\<lambda>e. exemption_matches t e \<and> e \<in> set (Exemptions (the (Freeze (win_spec w))))) (ws_exemptions (win_status w)) of
             None \<Rightarrow> (None, 0)
           | Some e \<Rightarrow>
               (Some e, foldl (\<lambda>until rec. if er_key rec = key e then er_until rec else until) (ExpiresAt e) (ExemptionRecords (win_status w))))"

definition FreezesFor :: "(FreezeExemption \<Rightarrow> string) \<Rightarrow> ChangeWindow list \<Rightarrow> FreezeTarget \<Rightarrow> FreezeMatch list" where
  "FreezesFor key windows t =
     sort_key (\<lambda>m. win_name (fm_window m))
       (map (\<lambda>w. let (e, until) = exemptionFor key w t
                 in \<lparr>fm_window = w, fm_exemption = e, fm_since = cw_start (win_spec w), fm_until = until\<rparr>)
         (filter (\<lambda>w. FreezeActive w \<and> FreezeSelects (Freeze (win_spec w)) t) windows))"

definition Holding :: "FreezeMatch list \<Rightarrow> FreezeMatch list" where
  "Holding matches = filter (\<lambda>m. fm_exemption m = None) matches"

definition FreezeScope :: "ChangeWindowFreeze \<Rightarrow> string" where
  "FreezeScope f =
     (if fz_actors f = ''agents'' then ''agents'' else ''everyone'') @ '', '' @
     (if fz_namespaces f \<noteq> [] then ''namespaces '' @ join '', '' (fz_namespaces f) else ''every namespace'')"

definition StepFreezeOf :: "FreezeMatch \<Rightarrow> StepFreeze" where
  "StepFreezeOf m = \<lparr>sf_name = win_name (fm_window m), sf_since = fm_since m div second * second\<rparr>"

definition FrozenMessage :: "(time \<Rightarrow> string) \<Rightarrow> FreezeMatch \<Rightarrow> string \<Rightarrow> string \<Rightarrow> string" where
  "FrozenMessage rfc3339 m pipeline env =
     (let f = the (Freeze (win_spec (fm_window m))); name = win_name (fm_window m);
          by1 = (if fz_createdBy f = '''' then ''(unknown)'' else fz_createdBy f);
          reason = cw_reason (win_spec (fm_window m))
      in ''frozen by '' @ name @ '' ('' @ FreezeScope f @ '') since '' @ rfc3339 (fm_since m) @ '' by '' @ by1 @
         (if reason \<noteq> '''' then '': '' @ reason else '''') @
         '' '' @ em_dash @ '' lift it with: kardinal unfreeze '' @ name @ '', or let this through with: kardinal override '' @
         pipeline @ '' '' @ env @ '' --freeze --reason <why>'')"

section \<open>The exemptions of a freeze\<close>

record exemptionState =
  inEffect :: "FreezeExemption list"
  ends :: "time list"
  ex_records :: "FreezeExemptionRecord list"
  byAgents :: nat

definition DefaultMaxExemption :: duration where "DefaultMaxExemption = 24 * 60 * minute"

definition maxExemption :: "duration \<Rightarrow> duration" where
  "maxExemption configured = (if configured > 0 then configured else DefaultMaxExemption)"

text \<open>The old records as the code's map: the last one of a key.\<close>

definition seen_record :: "FreezeExemptionRecord list \<Rightarrow> string \<Rightarrow> FreezeExemptionRecord option" where
  "seen_record old k = find (\<lambda>r. er_key r = k) (rev old)"

definition record_of :: "(FreezeExemption \<Rightarrow> string) \<Rightarrow> FreezeExemptionRecord list \<Rightarrow> time \<Rightarrow> duration \<Rightarrow> FreezeExemption \<Rightarrow> FreezeExemptionRecord" where
  "record_of key old now cap e =
     (let first = (case seen_record old (key e) of None \<Rightarrow> now div second * second | Some r \<Rightarrow> FirstSeen r);
          until = (if first + cap < ExpiresAt e then first + cap else ExpiresAt e)
      in \<lparr>er_key = key e, FirstSeen = first, er_until = until\<rparr>)"

definition exempt_one ::
  "(FreezeExemption \<Rightarrow> string) \<Rightarrow> FreezeExemptionRecord list \<Rightarrow> time \<Rightarrow> duration \<Rightarrow> exemptionState \<Rightarrow> FreezeExemption \<Rightarrow> exemptionState" where
  "exempt_one key old now cap st e =
     (let rec = record_of key old now cap e;
          st1 = (if key e \<in> er_key ` set (ex_records st) then st else st\<lparr>ex_records := ex_records st @ [rec]\<rparr>)
      in if exemptionByAgent e then st1\<lparr>byAgents := byAgents st1 + 1\<rparr>
         else if now < er_until rec then st1\<lparr>inEffect := inEffect st1 @ [e], ends := ends st1 @ [er_until rec]\<rparr>
         else st1)"

definition freezeExemptions ::
  "(FreezeExemption \<Rightarrow> string) \<Rightarrow> ChangeWindowFreeze option \<Rightarrow> FreezeExemptionRecord list \<Rightarrow> time \<Rightarrow> duration \<Rightarrow> exemptionState" where
  "freezeExemptions key f old now cap =
     (let st0 = \<lparr>inEffect = [], ends = [], ex_records = [], byAgents = 0\<rparr> in
      case f of None \<Rightarrow> st0 | Some fz \<Rightarrow> foldl (exempt_one key old now cap) st0 (Exemptions fz))"

section \<open>The records of a freeze\<close>

text \<open>Creating an AuditEvent, with the two refusals that send it to the controller's own namespace.\<close>

datatype freeze_create = FreezeCreated | FreezeExists | FreezeNoNamespace | FreezeForbidden | FreezeCreateFailed string

type_synonym 'w freeze_api = "'w \<Rightarrow> AuditEvent \<Rightarrow> 'w \<times> freeze_create"

definition FreezeAuditFinalizer :: string where "FreezeAuditFinalizer = ''kardinal.io/freeze-audit''"
definition freezeAuditRetry :: duration where "freezeAuditRetry = 10 * second"
definition freezeAuditGrace :: duration where "freezeAuditGrace = 2 * minute"

definition auditNamespace :: "string \<Rightarrow> string" where
  "auditNamespace configured = (if configured \<noteq> '''' then configured else ''kardinal-system'')"

definition orUnknown :: "string \<Rightarrow> string" where
  "orUnknown s = (if s = '''' then ''(unknown)'' else s)"

definition freeze_event :: "(string \<Rightarrow> string) \<Rightarrow> (time \<Rightarrow> string) \<Rightarrow> string \<Rightarrow> time \<Rightarrow> ChangeWindow \<Rightarrow> bool \<Rightarrow> AuditEvent" where
  "freeze_event fit rfc3339nano configured now cw lifted =
     (let f = the (Freeze (win_spec cw));
          (by1, stamp0) = (if lifted then (case Lifted f of None \<Rightarrow> ('''', None) | Some l \<Rightarrow> (fl_by l, fl_actor l))
                           else (fz_createdBy f, fz_actor f));
          stamp = (case stamp0 of None \<Rightarrow> None | Some a \<Rightarrow> if Principal a \<noteq> by1 then None else Some a);
          msg = (if by1 = '''' \<and> lifted
                 then ''freeze '' @ win_name cw @ '' ('' @ FreezeScope f @
                      '') lifted: deleted without kardinal unfreeze; the Kubernetes audit log names who''
                 else orUnknown by1 @ '' '' @ (if lifted then ''lifted'' else ''froze'') @ '' '' @ win_name cw @ '' ('' @ FreezeScope f @ '')'' @
                      (if \<not> lifted \<and> cw_reason (win_spec cw) \<noteq> '''' then '': '' @ cw_reason (win_spec cw) else ''''));
          ns = (if length (fz_namespaces f) = 1 \<and> \<not> has_suffix (hd (fz_namespaces f)) ''*'' then hd (fz_namespaces f)
                else auditNamespace configured);
          at = (if \<not> lifted \<and> CreationTimestamp cw \<noteq> 0 then CreationTimestamp cw else now);
          action = (if lifted then ''FreezeLifted'' else ''FreezeStarted'')
      in \<lparr>ae_namespace = ns, ae_name = win_uid cw @ ''-'' @ (if lifted then ''freeze-lifted'' else ''freeze-started''),
          ae_labels = [(''kardinal.io/changewindow'', fit (win_name cw)), (''kardinal.io/action'', action)],
          ae_annotations = [(''kardinal.io/created-at'', rfc3339nano at)],
          ae_spec = \<lparr>ev_timestamp = at, ev_bundle = '''', ev_pipeline = '''', ev_environment = ''*'', ev_action = action,
            ev_outcome = ''Success'', ev_message = msg, ev_actor = stamp, ev_merged = 0\<rparr>\<rparr>)"

definition writeFreezeAudit ::
  "'w freeze_api \<Rightarrow> (string \<Rightarrow> string) \<Rightarrow> (time \<Rightarrow> string) \<Rightarrow> string \<Rightarrow> time \<Rightarrow> ChangeWindow \<Rightarrow> bool \<Rightarrow> 'w \<Rightarrow> 'w \<times> string option" where
  "writeFreezeAudit create fit rfc3339nano configured now cw lifted w =
     (let ae = freeze_event fit rfc3339nano configured now cw lifted;
          (w1, r1) = create w ae;
          (w2, r2) = (if (r1 = FreezeNoNamespace \<or> r1 = FreezeForbidden) \<and> ae_namespace ae \<noteq> auditNamespace configured
                      then create w1 (ae\<lparr>ae_namespace := auditNamespace configured\<rparr>) else (w1, r1))
      in (w2, case r2 of FreezeCreated \<Rightarrow> None | FreezeExists \<Rightarrow> None | FreezeNoNamespace \<Rightarrow> Some ''not found''
            | FreezeForbidden \<Rightarrow> Some ''forbidden'' | FreezeCreateFailed err \<Rightarrow> Some err))"

text \<open>The outcome of a patch of the window: done, gone, or failed.\<close>

datatype window_patch = WindowPatched | WindowGone | WindowPatchFailed string

record 'w freeze_start =
  fs_world :: 'w
  fs_window :: ChangeWindow
  fs_retry :: duration
  fs_failed :: "string option"

definition startFreezeAudit ::
  "cond_lib \<Rightarrow> 'w freeze_api \<Rightarrow> (string \<Rightarrow> string) \<Rightarrow> (time \<Rightarrow> string) \<Rightarrow> string \<Rightarrow> time \<Rightarrow> window_patch \<Rightarrow> window_patch \<Rightarrow>
   ChangeWindow \<Rightarrow> 'w \<Rightarrow> 'w freeze_start" where
  "startFreezeAudit cl create fit rfc3339nano configured now finalizerPatch statusPatch cw w =
     (if Freeze (win_spec cw) = None then \<lparr>fs_world = w, fs_window = cw, fs_retry = 0, fs_failed = None\<rparr>
      else let has = (FreezeAuditFinalizer \<in> set (Finalizers cw));
               cw1 = (if has then cw else cw\<lparr>Finalizers := Finalizers cw @ [FreezeAuditFinalizer]\<rparr>);
               retry = (if \<not> has \<and> finalizerPatch \<noteq> WindowPatched then freezeAuditRetry else 0);
               recorded = (case find_cond cl (ws_conditions (win_status cw1)) ''FreezeAudited'' of None \<Rightarrow> False | Some c \<Rightarrow> wc_true c)
           in if recorded then \<lparr>fs_world = w, fs_window = cw1, fs_retry = retry, fs_failed = None\<rparr>
              else (case writeFreezeAudit create fit rfc3339nano configured now cw1 False w of
                      (w', Some err) \<Rightarrow> \<lparr>fs_world = w', fs_window = cw1, fs_retry = freezeAuditRetry, fs_failed = Some err\<rparr>
                    | (w', None) \<Rightarrow>
                        let conds = fst (set_cond cl (ws_conditions (win_status cw1))
                              \<lparr>wc_type = ''FreezeAudited'', wc_true = True, wc_reason = ''Recorded'', wc_message = FreezeStartRecorded,
                               wc_observed = Generation cw1, wc_time = now\<rparr>);
                            cw2 = cw1\<lparr>win_status := (win_status cw1)\<lparr>ws_conditions := conds\<rparr>\<rparr>
                        in (case statusPatch of
                              WindowPatchFailed err \<Rightarrow> \<lparr>fs_world = w', fs_window = cw2, fs_retry = freezeAuditRetry, fs_failed = None\<rparr>
                            | _ \<Rightarrow> \<lparr>fs_world = w', fs_window = cw2, fs_retry = retry, fs_failed = None\<rparr>)))"

datatype finish_result =
    FinishNothing
  | FinishRetry duration
  | FinalizerRemoved "string option"
  | FinalizerPatchFailed string

text \<open>A deleted window: \<open>FinalizerRemoved err\<close> says that the record was not written (\<open>err\<close>) when the finalizer came off.\<close>

definition finishFreezeAudit ::
  "'w freeze_api \<Rightarrow> (string \<Rightarrow> string) \<Rightarrow> (time \<Rightarrow> string) \<Rightarrow> string \<Rightarrow> time \<Rightarrow> window_patch \<Rightarrow> ChangeWindow \<Rightarrow> 'w \<Rightarrow> 'w \<times> finish_result" where
  "finishFreezeAudit create fit rfc3339nano configured now patch cw w =
     (if FreezeAuditFinalizer \<notin> set (Finalizers cw) then (w, FinishNothing)
      else let (w', err) = (if Freeze (win_spec cw) = None then (w, None)
                            else writeFreezeAudit create fit rfc3339nano configured now cw True w)
           in if err \<noteq> None \<and> now - DeletionTimestamp cw < freezeAuditGrace then (w', FinishRetry freezeAuditRetry)
              else (case patch of
                      WindowPatchFailed e \<Rightarrow> (w', FinalizerPatchFailed e)
                    | _ \<Rightarrow> (w', FinalizerRemoved err)))"

section \<open>The ChangeWindow reconciler\<close>

definition maxRequeue :: duration where "maxRequeue = 60 * minute"
definition boundarySlack :: duration where "boundarySlack = second"

definition invalidAt :: "cond_lib \<Rightarrow> ChangeWindow \<Rightarrow> int \<Rightarrow> bool" where
  "invalidAt cl cw generation =
     (case find_cond cl (ws_conditions (win_status cw)) ''Valid'' of
        None \<Rightarrow> False | Some c \<Rightarrow> \<not> wc_true c \<and> wc_observed c = generation)"

definition validCondition :: "Result \<Rightarrow> int \<Rightarrow> time \<Rightarrow> window_condition" where
  "validCondition res generation now =
     (case Err res of
        None \<Rightarrow> \<lparr>wc_type = ''Valid'', wc_true = True, wc_reason = ''SpecValid'', wc_message = SpecIsValid, wc_observed = generation, wc_time = now\<rparr>
      | Some err \<Rightarrow> \<lparr>wc_type = ''Valid'', wc_true = False, wc_reason = ''InvalidSpec'', wc_message = SpecIsInvalid err, wc_observed = generation, wc_time = now\<rparr>)"

definition setExemptionIgnored :: "cond_lib \<Rightarrow> window_condition list \<Rightarrow> int \<Rightarrow> nat \<Rightarrow> time \<Rightarrow> window_condition list \<times> bool" where
  "setExemptionIgnored cl conds generation agents now =
     (if agents = 0 then remove_cond cl conds ''ExemptionIgnored''
      else set_cond cl conds \<lparr>wc_type = ''ExemptionIgnored'', wc_true = True, wc_reason = ''MadeByAgent'', wc_message = AgentExemptions agents,
             wc_observed = generation, wc_time = now\<rparr>)"

definition earliest :: "time \<Rightarrow> time list \<Rightarrow> time" where
  "earliest nx us = foldl (\<lambda>n u. if n = 0 \<or> u < n then u else n) nx us"

definition window_status ::
  "cond_lib \<Rightarrow> (FreezeExemption \<Rightarrow> string) \<Rightarrow> (string \<Rightarrow> string + Location) \<Rightarrow> duration \<Rightarrow> time \<Rightarrow> ChangeWindow \<Rightarrow> ChangeWindowStatus \<times> bool \<times> time" where
  "window_status cl key zones configured now cw =
     (let res = EvaluateWindow zones (win_spec cw) now; st = win_status cw;
          ex = freezeExemptions key (Freeze (win_spec cw)) (ExemptionRecords st) now (maxExemption configured);
          nx = earliest (Next res) (ends ex);
          nextTransition = (if nx = 0 then None else Some nx);
          (c1, b1) = set_cond cl (ws_conditions st) (validCondition res (Generation cw) now);
          (c2, b2) = setExemptionIgnored cl c1 (Generation cw) (byAgents ex) now;
          changed = (ws_active st \<noteq> Active res \<or> ws_reason st \<noteq> Reason res \<or> ObservedGeneration st \<noteq> Generation cw \<or>
                     ws_exemptions st \<noteq> inEffect ex \<or> NextTransition st \<noteq> nextTransition \<or> ExemptionRecords st \<noteq> ex_records ex \<or> b1 \<or> b2)
      in (\<lparr>ws_active = Active res, ws_reason = Reason res, ws_conditions = c2, ObservedGeneration = Generation cw,
           NextTransition = nextTransition, ws_exemptions = inEffect ex, ExemptionRecords = ex_records ex\<rparr>, changed, nx))"

datatype window_outcome =
    WindowDeleted finish_result
  | StatusPatchFailed string
  | Reconciled ChangeWindow duration bool

text \<open>One reconcile of a window that was read: the window as it is left, the requeue delay (0 for none) and whether the invalid spec is
  reported. \<open>patched\<close> is the outcome of the status patch.\<close>

definition reconcile_window ::
  "cond_lib \<Rightarrow> (FreezeExemption \<Rightarrow> string) \<Rightarrow> (string \<Rightarrow> string + Location) \<Rightarrow> 'w freeze_api \<Rightarrow> (string \<Rightarrow> string) \<Rightarrow> (time \<Rightarrow> string) \<Rightarrow>
   duration \<Rightarrow> string \<Rightarrow> window_patch \<Rightarrow> window_patch \<Rightarrow> window_patch \<Rightarrow> time \<Rightarrow> ChangeWindow \<Rightarrow> 'w \<Rightarrow> 'w \<times> window_outcome" where
  "reconcile_window cl key zones create fit rfc3339nano configured auditNs patched finalizerPatch auditPatch now cw w =
     (if DeletionTimestamp cw \<noteq> 0
      then (let (w', r) = finishFreezeAudit create fit rfc3339nano auditNs now finalizerPatch cw w in (w', WindowDeleted r))
      else let res = EvaluateWindow zones (win_spec cw) now;
               newlyInvalid = (Err res \<noteq> None \<and> \<not> invalidAt cl cw (Generation cw));
               (st, changed, nx) = window_status cl key zones configured now cw
           in if changed \<and> patched \<noteq> WindowPatched
              then (w, StatusPatchFailed (case patched of WindowPatchFailed e \<Rightarrow> e | _ \<Rightarrow> ''not found''))
              else let a = startFreezeAudit cl create fit rfc3339nano auditNs now finalizerPatch auditPatch (cw\<lparr>win_status := st\<rparr>) w;
                       wait0 = nx - now + boundarySlack;
                       wait1 = (if fs_retry a > 0 \<and> fs_retry a < wait0 then fs_retry a else wait0)
                   in (fs_world a, Reconciled (fs_window a) (if nx = 0 then fs_retry a else if wait1 > maxRequeue then maxRequeue else wait1) newlyInvalid))"

section \<open>The hold of a step\<close>

record StepFreezeExemption =
  sx_freeze :: string
  sx_actors :: string
  sx_exemption :: FreezeExemption
  sx_until :: time

text \<open>A step with the two further fields of its status read here: the message of its FreezeExempted condition and the exemptions it
  went on under.\<close>

record frozen_step =
  fz_step :: StepObject
  fz_exempted :: "string option"
  FreezeExemptions :: "StepFreezeExemption list"

definition needsAuthor :: "ChangeWindow list \<Rightarrow> bool" where
  "needsAuthor windows =
     list_ex (\<lambda>w. case Freeze (win_spec w) of None \<Rightarrow> False | Some f \<Rightarrow> fz_actors f \<noteq> ''everyone'') windows"

text \<open>The author of a version is read only when a freeze asks for it; otherwise the target has the zero Actor, whose kind no
  freeze for everyone reads.\<close>

definition freezesFor ::
  "(FreezeExemption \<Rightarrow> string) \<Rightarrow> string + ChangeWindow list \<Rightarrow> string + Actor \<Rightarrow> StepObject \<Rightarrow> string \<Rightarrow> string + FreezeMatch list" where
  "freezesFor key windows author ps pipeline =
     (case windows of
        Inl err \<Rightarrow> Inl (''list ChangeWindows for freezes: '' @ err)
      | Inr ws \<Rightarrow>
          let t = \<lparr>ft_namespace = so_namespace ps, ft_pipeline = pipeline, ft_environment = so_environment ps,
                   ft_bundle = so_bundleName ps, ft_author = plain_actor ActorUnknown ''''\<rparr>
          in if needsAuthor ws
             then (case author of
                     Inl err \<Rightarrow> Inl (''read the version's actor for an agent freeze: '' @ err)
                   | Inr a \<Rightarrow> Inr (FreezesFor key ws (t\<lparr>ft_author := a\<rparr>)))
             else Inr (FreezesFor key ws t))"

definition MaxStepFreezeExemptions :: nat where "MaxStepFreezeExemptions = 8"

definition match_until :: "FreezeMatch \<Rightarrow> FreezeExemption \<Rightarrow> time" where
  "match_until m e = (if fm_until m = 0 then ExpiresAt e else fm_until m)"

definition record_exemption :: "(FreezeExemption \<Rightarrow> string) \<Rightarrow> StepFreezeExemption list \<Rightarrow> FreezeMatch \<Rightarrow> StepFreezeExemption list" where
  "record_exemption key out m =
     (case fm_exemption m of
        None \<Rightarrow> out
      | Some x \<Rightarrow>
          let e = \<lparr>sx_freeze = win_name (fm_window m), sx_actors = fz_actors (the (Freeze (win_spec (fm_window m)))),
                   sx_exemption = x, sx_until = match_until m x\<rparr>;
              dup = list_ex (\<lambda>h. sx_freeze h = sx_freeze e \<and> key (sx_exemption h) = key x) out
          in if \<not> dup \<and> length out < MaxStepFreezeExemptions then out @ [e] else out)"

definition recordedExemptions :: "(FreezeExemption \<Rightarrow> string) \<Rightarrow> StepFreezeExemption list \<Rightarrow> FreezeMatch list \<Rightarrow> StepFreezeExemption list" where
  "recordedExemptions key have_before matches = foldl (record_exemption key) have_before matches"

definition exemptionMessage :: "(time \<Rightarrow> string) \<Rightarrow> FreezeMatch \<Rightarrow> string" where
  "exemptionMessage rfc3339 m =
     (let e = the (fm_exemption m) in
      ''let through freeze '' @ win_name (fm_window m) @ '' ('' @ FreezeScope (the (Freeze (win_spec (fm_window m)))) @ '') by '' @
      orUnknown (fe_createdBy e) @ '' until '' @ rfc3339 (match_until m e) @ '': '' @ fe_reason e)"

text \<open>\<open>digest\<close> is the hex text of the SHA-256 of its argument.\<close>

definition freezeAuditEntry ::
  "(string \<Rightarrow> string) \<Rightarrow> (time \<Rightarrow> string) \<Rightarrow> (time \<Rightarrow> string) \<Rightarrow> StepObject \<Rightarrow> FreezeMatch \<Rightarrow> string \<Rightarrow> time \<Rightarrow> PendingAuditEvent option" where
  "freezeAuditEntry digest rfc3339 rfc3339nano ps m msg now =
     (case auditEntry rfc3339nano ps ''FreezeExempted'' ''Success'' msg now None of
        None \<Rightarrow> None
      | Some e \<Rightarrow>
          let x = the (fm_exemption m); z = [CHR 0x00];
              sum1 = digest (win_name (fm_window m) @ z @ fe_createdBy x @ z @ fe_environment x @ z @ fe_bundle x @ z @
                            rfc3339 (ExpiresAt x) @ z @ fe_reason x);
              suffix = ''-freeze-exempted-'' @ take 10 sum1;
              base = take (253 - length suffix) (so_name ps)
          in Some (e\<lparr>pe_name := sanitizeK8sName (base @ suffix)\<rparr>))"

datatype 'w hold_result =
    HoldError string
  | Hold duration frozen_step 'w
  | GoOn frozen_step 'w

definition with_status :: "frozen_step \<Rightarrow> PromotionStepStatus \<Rightarrow> frozen_step" where
  "with_status s st = s\<lparr>fz_step := (fz_step s)\<lparr>so_status := st\<rparr>\<rparr>"

definition exemption_entries ::
  "(string \<Rightarrow> string) \<Rightarrow> (time \<Rightarrow> string) \<Rightarrow> (time \<Rightarrow> string) \<Rightarrow> StepObject \<Rightarrow> FreezeMatch list \<Rightarrow> time \<Rightarrow> PendingAuditEvent list" where
  "exemption_entries digest rfc3339 rfc3339nano ps matches now =
     concat (map (\<lambda>m. case freezeAuditEntry digest rfc3339 rfc3339nano ps m (exemptionMessage rfc3339 m) now of None \<Rightarrow> [] | Some e \<Rightarrow> [e]) matches)"

definition recordFreezeExemption ::
  "validation_lib \<Rightarrow> coalescers \<Rightarrow> (FreezeExemption \<Rightarrow> string) \<Rightarrow> (string \<Rightarrow> string) \<Rightarrow> (time \<Rightarrow> string) \<Rightarrow> (time \<Rightarrow> string) \<Rightarrow>
   'w create_call \<Rightarrow> patch_result \<Rightarrow> patch_result \<Rightarrow> frozen_step \<Rightarrow> FreezeMatch list \<Rightarrow> time \<Rightarrow> 'w \<Rightarrow> 'w hold_result" where
  "recordFreezeExemption lib co key digest rfc3339 rfc3339nano create result flushResult s matches now w =
     (let msg = join ''; '' (map (exemptionMessage rfc3339) matches);
          recorded = recordedExemptions key (FreezeExemptions s) matches;
          ps = fz_step s
      in if fz_exempted s = Some msg \<and> length recorded = length (FreezeExemptions s) then GoOn s w
         else let st = (so_status ps)\<lparr>ps_pending := enqueue_all lib co (ps_pending (so_status ps))
                     (exemption_entries digest rfc3339 rfc3339nano ps matches now)\<rparr>;
                  s1 = (with_status s st)\<lparr>fz_exempted := Some msg, FreezeExemptions := recorded\<rparr>
              in (case result of
                    PatchOK \<Rightarrow>
                      let (w', st', _) = flushAudit create (so_namespace ps) flushResult st w
                      in Hold second (with_status s1 st') w'
                  | _ \<Rightarrow> HoldError ''record freeze exemption''))"

definition requeuePaused :: duration where "requeuePaused = minute"

definition holdIfFrozen ::
  "validation_lib \<Rightarrow> coalescers \<Rightarrow> (FreezeExemption \<Rightarrow> string) \<Rightarrow> (string \<Rightarrow> string) \<Rightarrow> (time \<Rightarrow> string) \<Rightarrow> (time \<Rightarrow> string) \<Rightarrow>
   'w create_call \<Rightarrow> patch_result \<Rightarrow> patch_result \<Rightarrow> string + ChangeWindow list \<Rightarrow> string + Actor \<Rightarrow> string \<Rightarrow>
   frozen_step \<Rightarrow> time \<Rightarrow> 'w \<Rightarrow> 'w hold_result" where
  "holdIfFrozen lib co key digest rfc3339 rfc3339nano create result flushResult windows author pipeline s now w =
     (let ps = fz_step s; st = so_status ps in
      case freezesFor key windows author ps pipeline of
        Inl err \<Rightarrow> HoldError err
      | Inr matches \<Rightarrow>
          let held = Holding matches in
          if held = [] \<and> FrozenBy st \<noteq> None
          then (case result of PatchOK \<Rightarrow> Hold second (with_status s (st\<lparr>FrozenBy := None\<rparr>)) w | _ \<Rightarrow> HoldError ''clear status.frozenBy'')
          else if held = []
          then if matches = [] then GoOn s w
               else recordFreezeExemption lib co key digest rfc3339 rfc3339nano create result flushResult s matches now w
          else let msg = FrozenMessage rfc3339 (hd held) pipeline (so_environment ps); by1 = StepFreezeOf (hd held) in
               if ps_message st \<noteq> msg \<or> FrozenBy st \<noteq> Some by1
               then (case result of
                       PatchOK \<Rightarrow> Hold requeuePaused (with_status s (st\<lparr>ps_message := msg, FrozenBy := Some by1\<rparr>)) w
                     | _ \<Rightarrow> HoldError ''patch frozen message'')
               else Hold requeuePaused s w)"

text \<open>The steps that an event of a freeze wakes.\<close>

definition changeWindowStepRequests :: "ChangeWindow \<Rightarrow> string + StepObject list \<Rightarrow> nsname list" where
  "changeWindowStepRequests cw steps =
     (case (Freeze (win_spec cw), steps) of
        (Some f, Inr ss) \<Rightarrow>
          map (\<lambda>s. \<lparr>Namespace = so_namespace s, Name = so_name s\<rparr>)
            (filter (\<lambda>s. ps_state (so_status s) \<in> {StatePending, StatePromoting} \<and>
               FreezeSelects (Some \<lparr>fz_actors = ''everyone'', fz_namespaces = fz_namespaces f, fz_createdBy = '''', fz_actor = None, Lifted = None, Exemptions = []\<rparr>)
                 \<lparr>ft_namespace = so_namespace s, ft_pipeline = '''', ft_environment = '''', ft_bundle = '''', ft_author = plain_actor ActorUnknown ''''\<rparr>) ss)
      | _ \<Rightarrow> [])"

section \<open>Lemmas on exemptions\<close>

definition counts :: "(FreezeExemption \<Rightarrow> string) \<Rightarrow> FreezeExemptionRecord list \<Rightarrow> time \<Rightarrow> duration \<Rightarrow> FreezeExemption \<Rightarrow> bool" where
  "counts key old now cap e \<longleftrightarrow> \<not> exemptionByAgent e \<and> now < er_until (record_of key old now cap e)"

lemma exempt_fold:
  "let st = foldl (exempt_one key old now cap) st0 es in
     inEffect st = inEffect st0 @ filter (counts key old now cap) es \<and>
     ends st = ends st0 @ map (\<lambda>e. er_until (record_of key old now cap e)) (filter (counts key old now cap) es) \<and>
     set (map er_key (ex_records st)) = set (map er_key (ex_records st0)) \<union> key ` set es \<and>
     set (ex_records st) \<subseteq> set (ex_records st0) \<union> record_of key old now cap ` set es \<and>
     (distinct (map er_key (ex_records st0)) \<longrightarrow> distinct (map er_key (ex_records st)))"
proof (induction es arbitrary: st0)
  case (Cons e es)
  have k: "er_key (record_of key old now cap e) = key e" by (simp add: record_of_def Let_def)
  have one: "inEffect (exempt_one key old now cap st0 e) = inEffect st0 @ filter (counts key old now cap) [e]"
    "ends (exempt_one key old now cap st0 e) = ends st0 @ map (\<lambda>e. er_until (record_of key old now cap e)) (filter (counts key old now cap) [e])"
    "ex_records (exempt_one key old now cap st0 e) =
       (if key e \<in> er_key ` set (ex_records st0) then ex_records st0 else ex_records st0 @ [record_of key old now cap e])"
    by (auto simp: exempt_one_def Let_def counts_def)
  have rec: "set (map er_key (ex_records (exempt_one key old now cap st0 e))) = insert (key e) (set (map er_key (ex_records st0)))"
    "set (ex_records (exempt_one key old now cap st0 e)) \<subseteq> insert (record_of key old now cap e) (set (ex_records st0))"
    "distinct (map er_key (ex_records st0)) \<Longrightarrow> distinct (map er_key (ex_records (exempt_one key old now cap st0 e)))"
    by (auto simp: one k)
  show ?case using Cons.IH [of "exempt_one key old now cap st0 e"] one(1,2) rec unfolding Let_def foldl_Cons
    by (intro conjI impI) (simp_all del: set_map, blast+)
qed (simp add: Let_def)

lemma freezeExemptions_spec:
  fixes key old now cap f
  assumes "f = Some fz"
  defines "ex \<equiv> freezeExemptions key f old now cap"
  shows "inEffect ex = filter (counts key old now cap) (Exemptions fz)"
    "ends ex = map (\<lambda>e. er_until (record_of key old now cap e)) (inEffect ex)"
    "er_key ` set (ex_records ex) = key ` set (Exemptions fz)"
    "set (ex_records ex) \<subseteq> record_of key old now cap ` set (Exemptions fz)"
    "distinct (map er_key (ex_records ex))"
  using exempt_fold [of key old now cap "\<lparr>inEffect = [], ends = [], ex_records = [], byAgents = 0\<rparr>" "Exemptions fz"]
  by (simp_all add: Let_def freezeExemptions_def assms)

text \<open>The first sighting of an exemption stays recorded as long as the exemption does.\<close>

lemma first_seen_kept:
  assumes "e \<in> set (Exemptions fz)"
  shows "\<exists>r. seen_record (ex_records (freezeExemptions key (Some fz) old now cap)) (key e) = Some r \<and>
     FirstSeen r = (case seen_record old (key e) of None \<Rightarrow> now div second * second | Some r0 \<Rightarrow> FirstSeen r0)"
proof -
  let ?ex = "freezeExemptions key (Some fz) old now cap"
  note ex = freezeExemptions_spec [OF refl, of key fz old now cap]
  have "\<exists>r \<in> set (ex_records ?ex). er_key r = key e" using ex(3) assms by (metis imageE imageI)
  then obtain r where r: "seen_record (ex_records ?ex) (key e) = Some r"
    unfolding seen_record_def by (cases "find (\<lambda>r. er_key r = key e) (rev (ex_records ?ex))") (auto simp: find_None_iff)
  then have "r \<in> set (ex_records ?ex)" "er_key r = key e"
    unfolding seen_record_def by (auto simp: find_Some_iff) (metis length_rev nth_mem set_rev)
  moreover have "er_key (record_of key old now cap x) = key x" for x by (simp add: record_of_def Let_def)
  ultimately obtain e' where "r = record_of key old now cap e'" "key e' = key e" using ex(4) by (metis imageE subsetD)
  then show ?thesis using r by (simp add: record_of_def Let_def)
qed

lemma exemptionFor_None:
  assumes "\<not> statusBehind w"
  shows "fst (exemptionFor key w t) = None \<longleftrightarrow>
     (\<forall>e \<in> set (ws_exemptions (win_status w)). \<not> (exemption_matches t e \<and> e \<in> set (Exemptions (the (Freeze (win_spec w))))))"
  using assms by (auto simp: exemptionFor_def find_None_iff dest!: find_SomeD split: option.splits)

lemma Holding_Nil:
  "Holding (FreezesFor key ws t) = [] \<longleftrightarrow>
     (\<forall>w \<in> set ws. FreezeActive w \<and> FreezeSelects (Freeze (win_spec w)) t \<longrightarrow> fst (exemptionFor key w t) \<noteq> None)"
  by (auto simp: Holding_def FreezesFor_def filter_empty_conv case_prod_beta Let_def)

text \<open>The window has the status of a reconcile at \<open>at\<close> that found the status \<open>old\<close>.\<close>

definition reconciled_at ::
  "cond_lib \<Rightarrow> (FreezeExemption \<Rightarrow> string) \<Rightarrow> (string \<Rightarrow> string + Location) \<Rightarrow> duration \<Rightarrow> time \<Rightarrow> ChangeWindowStatus \<Rightarrow> ChangeWindow \<Rightarrow> bool" where
  "reconciled_at cl key zones configured at old w \<longleftrightarrow>
     win_status w = fst (window_status cl key zones configured at (w\<lparr>win_status := old\<rparr>))"

lemma reconciled_at_fields:
  assumes "reconciled_at cl key zones configured at old w" "Freeze (win_spec w) = Some f"
  shows "ws_active (win_status w) = Active (EvaluateWindow zones (win_spec w) at)" "ObservedGeneration (win_status w) = Generation w"
    "ws_exemptions (win_status w) = filter (counts key (ExemptionRecords old) at (maxExemption configured)) (Exemptions f)"
    "ExemptionRecords (win_status w) = ex_records (freezeExemptions key (Some f) (ExemptionRecords old) at (maxExemption configured))"
  using assms freezeExemptions_spec(1) [OF assms(2), of key "ExemptionRecords old" at "maxExemption configured"]
  by (simp_all add: reconciled_at_def window_status_def Let_def case_prod_beta)

lemma earliest_spec:
  "earliest nx us \<noteq> 0 \<longrightarrow> earliest nx us \<in> set (nx # us)"
  "\<lbrakk>\<forall>u \<in> set us. 0 < u; 0 \<le> nx\<rbrakk> \<Longrightarrow> \<forall>u \<in> set us. earliest nx us \<noteq> 0 \<and> earliest nx us \<le> u"
  "\<lbrakk>\<forall>u \<in> set us. 0 < u; 0 < nx\<rbrakk> \<Longrightarrow> earliest nx us \<noteq> 0 \<and> earliest nx us \<le> nx"
proof -
  define f where "f = (\<lambda>(n::int) u. if n = 0 \<or> u < n then u else n)"
  show "earliest nx us \<noteq> 0 \<longrightarrow> earliest nx us \<in> set (nx # us)"
    unfolding earliest_def by (induction us arbitrary: nx) (auto split: if_splits)
  have main: "\<lbrakk>\<forall>u \<in> set us. 0 < u; 0 < nx\<rbrakk> \<Longrightarrow> 0 < foldl f nx us \<and> foldl f nx us \<le> nx \<and> (\<forall>u \<in> set us. foldl f nx us \<le> u)" for us nx
  proof (induction us arbitrary: nx)
    case (Cons u us)
    then have "0 < f nx u" "f nx u \<le> nx" "f nx u \<le> u" by (auto simp: f_def)
    then show ?case using Cons.IH [of "f nx u"] Cons.prems by fastforce
  qed simp
  show "\<lbrakk>\<forall>u \<in> set us. 0 < u; 0 < nx\<rbrakk> \<Longrightarrow> earliest nx us \<noteq> 0 \<and> earliest nx us \<le> nx"
    using main unfolding earliest_def f_def by fastforce
  show "\<lbrakk>\<forall>u \<in> set us. 0 < u; 0 \<le> nx\<rbrakk> \<Longrightarrow> \<forall>u \<in> set us. earliest nx us \<noteq> 0 \<and> earliest nx us \<le> u"
  proof (cases "nx = 0")
    case True
    assume pos: "\<forall>u \<in> set us. 0 < u"
    show ?thesis
    proof (cases us)
      case (Cons u rest)
      then show ?thesis using main [of rest u] pos True by (auto simp: earliest_def f_def)
    qed simp
  next
    case False
    assume "\<forall>u \<in> set us. 0 < u" "0 \<le> nx"
    then show ?thesis using main [of us nx] False by (fastforce simp: earliest_def f_def)
  qed
qed

section \<open>Properties\<close>

definition step_target :: "StepObject \<Rightarrow> string \<Rightarrow> Actor \<Rightarrow> FreezeTarget" where
  "step_target ps pipeline author =
     \<lparr>ft_namespace = so_namespace ps, ft_pipeline = pipeline, ft_environment = so_environment ps, ft_bundle = so_bundleName ps, ft_author = author\<rparr>"

lemma freezesFor_target:
  assumes "freezesFor key (Inr ws) author ps pipeline = Inr ms"
  shows "\<exists>a. ms = FreezesFor key ws (step_target ps pipeline a) \<and>
    (\<forall>w \<in> set ws. \<forall>b. author = Inr b \<longrightarrow>
       FreezeSelects (Freeze (win_spec w)) (step_target ps pipeline a) = FreezeSelects (Freeze (win_spec w)) (step_target ps pipeline b))"
proof (cases "needsAuthor ws")
  case True
  then show ?thesis using assms by (auto simp: freezesFor_def step_target_def Let_def split: sum.splits)
next
  case False
  then have "fz_actors f = ''everyone''" if "w \<in> set ws" "Freeze (win_spec w) = Some f" for w f
    using that by (force simp: needsAuthor_def list_ex_iff)
  then have "FreezeSelects (Freeze (win_spec w)) (step_target ps pipeline a) = FreezeSelects (Freeze (win_spec w)) (step_target ps pipeline b)"
    if "w \<in> set ws" for w a b using that by (cases "Freeze (win_spec w)") (auto simp: FreezeSelects_def step_target_def)
  then show ?thesis using assms False by (auto simp: freezesFor_def step_target_def Let_def)
qed

lemma exemption_matches_author: "exemption_matches (step_target ps pipeline a) e = exemption_matches (step_target ps pipeline b) e"
  by (simp add: exemption_matches_def step_target_def)

text \<open>C22. A freeze holds. When a step goes on and the version's author was read, then for every freezing window that is not being deleted
  and selects the step by namespace and author: the window's status describes its spec, and, as of the reconcile that wrote
  that status, the window did not block, or a person's exemption for this pipeline, environment and version had not
  run out, neither by its own expiry nor by the cap. A step never goes on when the windows cannot be listed.\<close>

theorem freeze_holds:
  assumes go: "holdIfFrozen lib co key digest rfc3339 rfc3339nano create result flushResult windows (Inr author) pipeline s now w = GoOn s' w'"
  shows "\<exists>ws. windows = Inr ws \<and>
    (\<forall>cw \<in> set ws. \<forall>f. Freeze (win_spec cw) = Some f \<and> DeletionTimestamp cw = 0 \<and>
       FreezeSelects (Some f) (step_target (fz_step s) pipeline author) \<longrightarrow>
       \<not> statusBehind cw \<and>
       (\<forall>cl zones configured at old. reconciled_at cl key zones configured at old cw \<longrightarrow>
          \<not> Active (EvaluateWindow zones (win_spec cw) at) \<or>
          (\<exists>e \<in> set (Exemptions f). exemption_matches (step_target (fz_step s) pipeline author) e \<and>
             at < er_until (record_of key (ExemptionRecords old) at (maxExemption configured) e))))"
proof -
  obtain ms where ms: "freezesFor key windows (Inr author) (fz_step s) pipeline = Inr ms"
    using go by (auto simp: holdIfFrozen_def Let_def split: sum.splits)
  then obtain ws where ws: "windows = Inr ws" by (auto simp: freezesFor_def split: sum.splits)
  have held: "Holding ms = []"
    using go ms by (auto simp: holdIfFrozen_def Let_def split: if_splits patch_result.splits)
  obtain a where a: "ms = FreezesFor key ws (step_target (fz_step s) pipeline a)"
    and sel: "\<And>cw. cw \<in> set ws \<Longrightarrow> FreezeSelects (Freeze (win_spec cw)) (step_target (fz_step s) pipeline a) = FreezeSelects (Freeze (win_spec cw)) (step_target (fz_step s) pipeline author)"
    using freezesFor_target ms unfolding ws by metis
  have each: "\<not> statusBehind cw \<and> (ws_active (win_status cw) \<longrightarrow>
       (\<exists>e \<in> set (ws_exemptions (win_status cw)). exemption_matches (step_target (fz_step s) pipeline author) e))"
    if cw: "cw \<in> set ws" and f: "Freeze (win_spec cw) = Some f" "DeletionTimestamp cw = 0" "FreezeSelects (Some f) (step_target (fz_step s) pipeline author)" for cw f
  proof -
    have "FreezeActive cw \<longrightarrow> fst (exemptionFor key cw (step_target (fz_step s) pipeline a)) \<noteq> None"
      using held [unfolded a Holding_Nil] cw f sel [OF cw] by metis
    moreover have "FreezeActive cw \<longleftrightarrow> statusBehind cw \<or> ws_active (win_status cw)" using f by (simp add: FreezeActive_def FreezeLifting_def)
    moreover have "statusBehind cw \<Longrightarrow> fst (exemptionFor key cw (step_target (fz_step s) pipeline a)) = None" by (simp add: exemptionFor_def)
    ultimately show ?thesis using exemptionFor_None [of cw key "step_target (fz_step s) pipeline a"] exemption_matches_author by metis
  qed
  have "\<not> Active (EvaluateWindow zones (win_spec cw) at) \<or>
      (\<exists>e \<in> set (Exemptions f). exemption_matches (step_target (fz_step s) pipeline author) e \<and>
         at < er_until (record_of key (ExemptionRecords old) at (maxExemption configured) e))"
    if cw: "cw \<in> set ws" and f: "Freeze (win_spec cw) = Some f" "DeletionTimestamp cw = 0" "FreezeSelects (Some f) (step_target (fz_step s) pipeline author)"
      and rc: "reconciled_at cl key zones configured at old cw" for cw f cl zones configured at old
    using each [OF cw f] reconciled_at_fields(1,3) [OF rc f(1)] by (auto simp: counts_def)
  note exempt = this
  show ?thesis
  proof (intro exI [of _ ws] conjI ballI allI impI)
    fix cw f
    assume cw: "cw \<in> set ws" and "Freeze (win_spec cw) = Some f \<and> DeletionTimestamp cw = 0 \<and> FreezeSelects (Some f) (step_target (fz_step s) pipeline author)"
    then have f: "Freeze (win_spec cw) = Some f" "DeletionTimestamp cw = 0" "FreezeSelects (Some f) (step_target (fz_step s) pipeline author)" by simp_all
    show "\<not> statusBehind cw" using each [OF cw f] ..
    fix cl zones configured at old assume "reconciled_at cl key zones configured at old cw"
    from exempt [OF cw f this] show "\<not> Active (EvaluateWindow zones (win_spec cw) at) \<or>
      (\<exists>e \<in> set (Exemptions f). exemption_matches (step_target (fz_step s) pipeline author) e \<and>
         at < er_until (record_of key (ExemptionRecords old) at (maxExemption configured) e))" .
  qed (rule ws)
qed

definition plain_conds :: cond_lib where
  "plain_conds = \<lparr>set_cond = (\<lambda>cs c. (filter (\<lambda>x. wc_type x \<noteq> wc_type c) cs @ [c], c \<notin> set cs)),
     remove_cond = (\<lambda>cs t. (filter (\<lambda>x. wc_type x \<noteq> t) cs, list_ex (\<lambda>x. wc_type x = t) cs)),
     find_cond = (\<lambda>cs t. find (\<lambda>x. wc_type x = t) cs)\<rparr>"

definition demo_exemption :: FreezeExemption where
  "demo_exemption = \<lparr>fe_namespace = ''team'', fe_pipeline = ''app'', fe_environment = '''', fe_bundle = '''', fe_reason = ''hotfix'',
     ExpiresAt = 2000 * second, fe_createdBy = ''ann'', fe_actor = None\<rparr>"

definition demo_freeze :: ChangeWindowSpec where
  "demo_freeze = \<lparr>cw_type = ''blackout'', cw_start = 5 * second, cw_end = 0, cw_reason = ''incident'', Schedule = None,
     Freeze = Some \<lparr>fz_actors = ''everyone'', fz_namespaces = [], fz_createdBy = ''ann'', fz_actor = None, Lifted = None,
       Exemptions = [demo_exemption]\<rparr>\<rparr>"

definition new_window_status :: ChangeWindowStatus where
  "new_window_status = \<lparr>ws_active = False, ws_reason = FreezeStartsAt 0, ws_conditions = [], ObservedGeneration = 0,
     NextTransition = None, ws_exemptions = [], ExemptionRecords = []\<rparr>"

definition new_window :: ChangeWindow where
  "new_window = \<lparr>win_name = ''stop'', win_uid = ''u1'', Generation = 1, CreationTimestamp = 5 * second, DeletionTimestamp = 0,
     Finalizers = [], win_spec = demo_freeze, win_status = new_window_status\<rparr>"

definition demo_window :: ChangeWindow where
  "demo_window = new_window\<lparr>win_status := fst (window_status plain_conds fe_reason (\<lambda>_. Inl '''') 0 (100 * second) new_window)\<rparr>"

definition demo_frozen :: frozen_step where
  "demo_frozen = \<lparr>fz_step = \<lparr>so_namespace = ''team'', so_name = ''s1'', so_labels = [], so_environment = ''prod'', so_bundleName = ''v1'',
       so_status = demo_status StatePending\<rparr>, fz_exempted = Some ''let through freeze stop (everyone, every namespace) by ann until T: hotfix'',
     FreezeExemptions = [\<lparr>sx_freeze = ''stop'', sx_actors = ''everyone'', sx_exemption = demo_exemption, sx_until = 2000 * second\<rparr>]\<rparr>"

theorem freeze_holds_witness:
  "holdIfFrozen plain_lib (\<lambda>_. None) fe_reason (\<lambda>s. s) (\<lambda>_. ''T'') (\<lambda>_. ''T'') demo_create PatchOK PatchOK (Inr [demo_window])
     (Inr (plain_actor ActorHuman ''bob'')) ''app'' demo_frozen (100 * second) (\<lambda>_. None) = GoOn demo_frozen (\<lambda>_. None) \<and>
   Active (EvaluateWindow (\<lambda>_. Inl '''') demo_freeze (100 * second)) \<and>
   100 * second < er_until (record_of fe_reason [] (100 * second) (maxExemption 0) demo_exemption)"
proof -
  have go: "holdIfFrozen plain_lib (\<lambda>_. None) fe_reason (\<lambda>s. s) (\<lambda>_. ''T'') (\<lambda>_. ''T'') demo_create PatchOK PatchOK (Inr [demo_window])
     (Inr (plain_actor ActorHuman ''bob'')) ''app'' demo_frozen (100 * second) (\<lambda>_. None) = GoOn demo_frozen (\<lambda>_. None)"
    by (simp add: holdIfFrozen_def freezesFor_def needsAuthor_def FreezesFor_def FreezeActive_def FreezeLifting_def FreezeSelects_def
        exemptionFor_def statusBehind_def exemption_matches_def exemptionByAgent_def demo_window_def window_status_def new_window_def
        demo_freeze_def EvaluateWindow_def evaluateBlackout_def freezeExemptions_def exempt_one_def record_of_def seen_record_def
        maxExemption_def DefaultMaxExemption_def demo_exemption_def new_window_status_def plain_conds_def validCondition_def
        setExemptionIgnored_def demo_frozen_def demo_status_def Holding_def recordFreezeExemption_def recordedExemptions_def
        record_exemption_def exemptionMessage_def FreezeScope_def match_until_def orUnknown_def minute_def second_def Let_def)
  have rc: "reconciled_at plain_conds fe_reason (\<lambda>_. Inl '''') 0 (100 * second) new_window_status demo_window"
    by (simp add: reconciled_at_def demo_window_def new_window_def)
  have sel: "Freeze (win_spec demo_window) = Freeze demo_freeze" "DeletionTimestamp demo_window = 0"
    by (simp_all add: demo_window_def new_window_def)
  have act: "Active (EvaluateWindow (\<lambda>_. Inl '''') (win_spec demo_window) (100 * second))" "win_spec demo_window = demo_freeze"
    by (simp_all add: demo_window_def new_window_def EvaluateWindow_def evaluateBlackout_def demo_freeze_def second_def)
  show ?thesis using freeze_holds [OF go] go sel rc act by (fastforce simp: demo_freeze_def FreezeSelects_def new_window_status_def)
qed

text \<open>A window over time: its spec is edited (with a new generation) and it is reconciled.\<close>

fun window_run ::
  "cond_lib \<Rightarrow> (FreezeExemption \<Rightarrow> string) \<Rightarrow> (string \<Rightarrow> string + Location) \<Rightarrow> duration \<Rightarrow> ChangeWindow \<Rightarrow>
   (time \<times> ChangeWindowSpec \<times> int) list \<Rightarrow> ChangeWindow" where
  "window_run cl key zones configured cw [] = cw"
| "window_run cl key zones configured cw ((at, spec, gen) # rs) =
     (let cw1 = cw\<lparr>win_spec := spec, Generation := gen\<rparr>
      in window_run cl key zones configured (cw1\<lparr>win_status := fst (window_status cl key zones configured at cw1)\<rparr>) rs)"

definition exempts :: "FreezeExemption \<Rightarrow> ChangeWindowSpec \<Rightarrow> bool" where
  "exempts e spec = (case Freeze spec of None \<Rightarrow> False | Some f \<Rightarrow> e \<in> set (Exemptions f))"

lemma window_run_first_seen:
  assumes "list_all (\<lambda>(t, spec, g). exempts e spec) rs" "seen_record (ExemptionRecords (win_status cw)) (key e) = Some r0"
  shows "\<exists>r. seen_record (ExemptionRecords (win_status (window_run cl key zones configured cw rs))) (key e) = Some r \<and> FirstSeen r = FirstSeen r0"
  using assms
proof (induction rs arbitrary: cw r0)
  case (Cons x rs)
  obtain t spec g where x: "x = (t, spec, g)" by (cases x)
  obtain f where f: "Freeze spec = Some f" "e \<in> set (Exemptions f)" using Cons.prems(1) by (auto simp: x exempts_def split: option.splits)
  obtain r1 where "seen_record (ExemptionRecords (fst (window_status cl key zones configured t (cw\<lparr>win_spec := spec, Generation := g\<rparr>)))) (key e) = Some r1"
      "FirstSeen r1 = FirstSeen r0"
    using first_seen_kept [OF f(2), where key = key and old = "ExemptionRecords (win_status cw)" and now = t and cap = "maxExemption configured"] Cons.prems(2)
    by (auto simp: window_status_def f(1) Let_def case_prod_beta)
  then show ?case using Cons.IH [of "cw\<lparr>win_spec := spec, Generation := g, win_status := fst (window_status cl key zones configured t (cw\<lparr>win_spec := spec, Generation := g\<rparr>))\<rparr>"] Cons.prems(1)
    by (simp add: x Let_def)
qed auto

text \<open>C23. An exemption ends. However the window is edited otherwise, as long as the exemption itself stays in its spec, and however often
  it is reconciled: an exemption counts only before its own expiry and before the cap after the reconcile that first saw it, and one
  made by an agent never counts. An exemption that is taken out of the spec, with a reconcile in between, and put back is seen for
  the first time again and has a new cap (\<open>exemption_cap_restarts\<close> below): its record goes with it.\<close>

theorem exemption_capped:
  assumes new: "seen_record (ExemptionRecords (win_status cw)) (key e) = None"
    and run: "rs = (t0, spec0, g0) # mid @ [(now, spec, g)]" "list_all (\<lambda>(t, spec, g). exempts e spec) rs"
    and counted: "e \<in> set (ws_exemptions (win_status (window_run cl key zones configured cw rs)))"
  shows "now < ExpiresAt e \<and> now < t0 + maxExemption configured \<and> \<not> exemptionByAgent e"
proof -
  let ?step = "\<lambda>cw t spec g. cw\<lparr>win_spec := spec, Generation := g, win_status := fst (window_status cl key zones configured t (cw\<lparr>win_spec := spec, Generation := g\<rparr>))\<rparr>"
  have app: "window_run cl key zones configured c (a @ b) = window_run cl key zones configured (window_run cl key zones configured c a) b" for c a b
    by (induction a arbitrary: c) (auto simp: Let_def)
  let ?cw0 = "?step cw t0 spec0 g0"
  let ?cw1 = "window_run cl key zones configured ?cw0 mid"
  have last: "window_run cl key zones configured cw rs = ?step ?cw1 now spec g" by (simp add: run(1) app Let_def)
  obtain f0 where f0: "Freeze spec0 = Some f0" "e \<in> set (Exemptions f0)" using run by (auto simp: exempts_def split: option.splits)
  obtain f where f: "Freeze spec = Some f" "e \<in> set (Exemptions f)" using run by (auto simp: exempts_def split: option.splits)
  obtain r0 where r0: "seen_record (ExemptionRecords (win_status ?cw0)) (key e) = Some r0" "FirstSeen r0 = t0 div second * second"
    using first_seen_kept [OF f0(2), where key = key and old = "ExemptionRecords (win_status cw)" and now = t0 and cap = "maxExemption configured"] new
    by (auto simp: window_status_def f0(1) Let_def case_prod_beta)
  obtain r1 where r1: "seen_record (ExemptionRecords (win_status ?cw1)) (key e) = Some r1" "FirstSeen r1 = t0 div second * second"
    using window_run_first_seen [of e mid ?cw0 key r0 cl zones configured] run r0 by auto
  have "counts key (ExemptionRecords (win_status ?cw1)) now (maxExemption configured) e"
    using counted freezeExemptions_spec(1) [OF f(1), of key "ExemptionRecords (win_status ?cw1)" now "maxExemption configured"]
    unfolding last by (simp add: window_status_def Let_def case_prod_beta f(1))
  moreover have "t0 div second * second \<le> t0" by (simp add: second_def)
  ultimately show ?thesis using r1 by (auto simp: counts_def record_of_def Let_def split: if_splits)
qed

theorem exemption_capped_witness:
  "100 * second < 100 * second + maxExemption 0 \<and> 100 * second < ExpiresAt demo_exemption \<and>
   demo_exemption \<in> set (ws_exemptions (win_status (window_run plain_conds fe_reason (\<lambda>_. Inl '''') 0 new_window
     [(100 * second, demo_freeze, 1), (100 * second, demo_freeze, 1)])))"
proof -
  have m: "demo_exemption \<in> set (ws_exemptions (win_status (window_run plain_conds fe_reason (\<lambda>_. Inl '''') 0 new_window
     [(100 * second, demo_freeze, 1), (100 * second, demo_freeze, 1)])))" by code_simp
  show ?thesis
    using exemption_capped [of new_window fe_reason demo_exemption "[(100 * second, demo_freeze, 1), (100 * second, demo_freeze, 1)]"
        "100 * second" demo_freeze 1 "[]" "100 * second" demo_freeze 1 plain_conds "\<lambda>_. Inl ''''" 0] m
    by (simp add: new_window_def new_window_status_def seen_record_def exempts_def demo_freeze_def)
qed

text \<open>The condition is needed: with a cap of 60 seconds, an exemption first seen at 100 that is taken out at 130 and put back
  counts at 200, while one that stays does not.\<close>

lemma exemption_cap_restarts:
  "demo_exemption \<in> set (ws_exemptions (win_status (window_run plain_conds fe_reason (\<lambda>_. Inl '''') (60 * second) new_window
     [(100 * second, demo_freeze, 1), (130 * second, demo_freeze\<lparr>Freeze := map_option (\<lambda>f. f\<lparr>Exemptions := []\<rparr>) (Freeze demo_freeze)\<rparr>, 2),
      (200 * second, demo_freeze, 3)])))"
  "demo_exemption \<notin> set (ws_exemptions (win_status (window_run plain_conds fe_reason (\<lambda>_. Inl '''') (60 * second) new_window
     [(100 * second, demo_freeze, 1), (130 * second, demo_freeze, 2), (200 * second, demo_freeze, 3)])))"
  by code_simp+

section \<open>When the window is looked at again\<close>

text \<open>A reconcile that has a boundary ahead asks to be called again a second after the earliest one, of the window or of an exemption in
  effect, at the latest after an hour.\<close>

lemma startFreezeAudit_next:
  "NextTransition (win_status (fs_window (startFreezeAudit cl create fit rfc3339nano auditNs now p q c w))) = NextTransition (win_status c)"
  "0 \<le> fs_retry (startFreezeAudit cl create fit rfc3339nano auditNs now p q c w)"
  by (auto simp: startFreezeAudit_def freezeAuditRetry_def second_def Let_def split: prod.splits option.splits window_patch.splits)

lemma reconcile_Reconciled:
  assumes "reconcile_window cl key zones create fit rfc3339nano configured auditNs patched finalizerPatch auditPatch now cw w = (w', Reconciled cw' wait ni)"
  defines "st \<equiv> window_status cl key zones configured now cw"
  defines "a \<equiv> startFreezeAudit cl create fit rfc3339nano auditNs now finalizerPatch auditPatch (cw\<lparr>win_status := fst st\<rparr>) w"
  shows "cw' = fs_window a" "wait = (let wait0 = snd (snd st) - now + boundarySlack; wait1 = (if fs_retry a > 0 \<and> fs_retry a < wait0 then fs_retry a else wait0)
         in if snd (snd st) = 0 then fs_retry a else if wait1 > maxRequeue then maxRequeue else wait1)"
proof -
  obtain s0 ch nx where st: "window_status cl key zones configured now cw = (s0, ch, nx)" by (metis prod_cases3)
  show "cw' = fs_window a" "wait = (let wait0 = snd (snd st) - now + boundarySlack; wait1 = (if fs_retry a > 0 \<and> fs_retry a < wait0 then fs_retry a else wait0)
         in if snd (snd st) = 0 then fs_retry a else if wait1 > maxRequeue then maxRequeue else wait1)"
    using assms(1) unfolding reconcile_window_def Let_def a_def st_def st
    by (auto simp: case_prod_beta split: if_splits)
qed

lemma reconcile_requeue:
  assumes "reconcile_window cl key zones create fit rfc3339nano configured auditNs patched finalizerPatch auditPatch now cw w = (w', Reconciled cw' wait ni)"
    and "NextTransition (win_status cw') = Some nx" "now < nx"
  shows "0 < wait \<and> wait \<le> maxRequeue \<and> wait \<le> nx - now + boundarySlack"
proof -
  note rec = reconcile_Reconciled [OF assms(1)]
  have "NextTransition (fst (window_status cl key zones configured now cw)) = Some nx"
    using assms(2) unfolding rec(1) startFreezeAudit_next by simp
  then have nx: "snd (snd (window_status cl key zones configured now cw)) = nx" "nx \<noteq> 0"
    by (auto simp: window_status_def Let_def case_prod_beta split: if_splits)
  show ?thesis using rec(2) assms(3) nx startFreezeAudit_next(2)
    by (auto simp: Let_def maxRequeue_def boundarySlack_def minute_def second_def)
qed

text \<open>The finalizer of a deleted freeze comes off only when the record of its lift is written, or exists, or the grace is over.\<close>

lemma finalizer_waits_for_record:
  assumes "finishFreezeAudit create fit rfc3339nano configured now patch cw w = (w', FinalizerRemoved err)" "Freeze (win_spec cw) \<noteq> None"
  shows "(err = None \<and> snd (writeFreezeAudit create fit rfc3339nano configured now cw True w) = None) \<or>
     freezeAuditGrace \<le> now - DeletionTimestamp cw"
  using assms by (auto simp: finishFreezeAudit_def split: if_splits prod.splits window_patch.splits)

text \<open>An event of a freeze does not wake a step in the explicit Pending state, though such a step can be held like one without a state.\<close>

lemma explicit_pending_not_woken:
  "changeWindowStepRequests demo_window (Inr [demo_object StatePending, demo_object StatePendingExplicit]) =
     [\<lparr>Namespace = so_namespace (demo_object StatePending), Name = so_name (demo_object StatePending)\<rparr>]"
  by code_simp

end
