(* ===== verification/Branch_Queue.thy ===== *)
theory Branch_Queue
  imports Prelude "HOL-Library.AList"
begin

text \<open>
  The turns of the promotions that push to one branch: \<open>pkg/reconciler/promotionstep/branch_queue.go\<close>.

  The maps of the code are association lists; what is proved does not depend on their order. The random number behind the
  jitter and the clock are arguments. Every operation runs under the queue's mutex, so it is one step. \<open>turn_step\<close> is
  how reconciles use the queue: a step asks while it has no turn of the branch, and ends each turn once (the code's
  \<open>sync.Once\<close>).
\<close>

section \<open>The queue\<close>

record turn_waiter =
  w_first :: time
  w_due :: time

record branchTurn =
  holder :: string
  turn_since :: time
  avgHold :: duration
  waiters :: "(string \<times> turn_waiter) list"

type_synonym branchQueue = "(string \<times> branchTurn) list"

definition initialTurn :: duration where "initialTurn = 2 * second"
definition minTurnWait :: duration where "minTurnWait = 300000000"
definition maxTurnWait :: duration where "maxTurnWait = 15 * second"
definition waiterGrace :: duration where "waiterGrace = 5 * second"

text \<open>\<open>rnd\<close> is the draw of \<open>rand.Int64N\<close>, from 0 to twice the span.\<close>

definition turnJitter :: "int \<Rightarrow> duration \<Rightarrow> duration" where
  "turnJitter rnd d = d + (rnd - d div 5)"

text \<open>Older: by the first refusal, then by name.\<close>

definition older :: "string \<times> turn_waiter \<Rightarrow> string \<times> turn_waiter \<Rightarrow> bool" where
  "older a b = (w_first (snd a) < w_first (snd b) \<or> w_first (snd a) = w_first (snd b) \<and> fst a < fst b)"

text \<open>The loop of \<open>headLocked\<close>: the best waiter so far, if any.\<close>

definition head_step :: "(string \<times> turn_waiter) option \<Rightarrow> string \<times> turn_waiter \<Rightarrow> (string \<times> turn_waiter) option" where
  "head_step best kw = (case best of None \<Rightarrow> Some kw | Some b \<Rightarrow> if older kw b then Some kw else Some b)"

definition headLocked :: "branchTurn \<Rightarrow> (string \<times> turn_waiter) option" where
  "headLocked b = foldl head_step None (waiters b)"

definition sweep_turn :: "time \<Rightarrow> branchTurn \<Rightarrow> branchTurn" where
  "sweep_turn now b = b\<lparr>waiters := filter (\<lambda>(k, w). \<not> now > w_due w + waiterGrace) (waiters b)\<rparr>"

definition sweepLocked :: "time \<Rightarrow> branchQueue \<Rightarrow> branchQueue" where
  "sweepLocked now q =
     filter (\<lambda>(k, b). \<not> (holder b = '''' \<and> waiters b = [])) (map (\<lambda>(k, b). (k, sweep_turn now b)) q)"

datatype turn_answer = Turn | Wait duration

definition place_of :: "branchTurn \<Rightarrow> string \<Rightarrow> turn_waiter \<Rightarrow> nat" where
  "place_of b step w = 1 + length (filter (\<lambda>kw. fst kw \<noteq> step \<and> older kw (step, w)) (waiters b))"

definition tryTurn :: "branchQueue \<Rightarrow> string \<Rightarrow> string \<Rightarrow> time \<Rightarrow> int \<Rightarrow> branchQueue \<times> turn_answer" where
  "tryTurn q0 key step now rnd =
     (let q = sweepLocked now q0;
          b = (case map_of q key of
                 None \<Rightarrow> \<lparr>holder = '''', turn_since = 0, avgHold = initialTurn, waiters = []\<rparr>
               | Some b \<Rightarrow> b);
          w = (case map_of (waiters b) step of None \<Rightarrow> \<lparr>w_first = now, w_due = 0\<rparr> | Some w \<Rightarrow> w);
          free = (holder b = '''' \<or> holder b = step);
          first = (case headLocked b of None \<Rightarrow> True | Some (h, _) \<Rightarrow> h = step)
      in if free \<and> first
         then (AList.update key (b\<lparr>holder := step, turn_since := now, waiters := AList.delete step (waiters b)\<rparr>) q, Turn)
         else let wait0 = int (place_of b step w) * avgHold b;
                  wait = turnJitter rnd (min (max wait0 minTurnWait) maxTurnWait)
              in (AList.update key (b\<lparr>waiters := AList.update step (w\<lparr>w_due := now + wait\<rparr>) (waiters b)\<rparr>) q, Wait wait))"

text \<open>\<open>release\<close> of the queue: the new queue and the step to wake.\<close>

definition release_turn :: "branchQueue \<Rightarrow> string \<Rightarrow> string \<Rightarrow> time \<Rightarrow> branchQueue \<times> string option" where
  "release_turn q key step at =
     (case map_of q key of
        None \<Rightarrow> (q, None)
      | Some b \<Rightarrow>
          if holder b \<noteq> step then (q, None)
          else let d = at - turn_since b;
                   b1 = b\<lparr>avgHold := (if d > 0 then (4 * avgHold b + d) div 5 else avgHold b), holder := ''''\<rparr>
               in (case headLocked b1 of
                     None \<Rightarrow> (AList.delete key q, None)
                   | Some (h, _) \<Rightarrow> (AList.update key b1 q, Some h)))"

section \<open>Which branch a sequence pushes to\<close>

definition normalizeRepoURL :: "string \<Rightarrow> string" where
  "normalizeRepoURL u = trim_suffix (trim_suffix (to_lower (trim_space u)) ''/'') ''.git''"

fun last_push :: "string list \<Rightarrow> nat \<Rightarrow> nat option \<Rightarrow> nat option option" where
  "last_push [] i push = Some push"
| "last_push (s # ss) i push =
     (if s = ''open-pr'' then None else last_push ss (i + 1) (if s = ''git-push'' then Some i else push))"

definition basePushBranch :: "string list \<Rightarrow> nat \<Rightarrow> string \<Rightarrow> string \<Rightarrow> string option" where
  "basePushBranch seq from repoURL branch =
     (case last_push seq 0 None of
        None \<Rightarrow> None
      | Some None \<Rightarrow> None
      | Some (Some push) \<Rightarrow>
          if from > push \<or> repoURL = '''' \<or> branch = '''' then None
          else Some (normalizeRepoURL repoURL @ ''#'' @ branch))"

section \<open>How the queue is used\<close>

inductive turn_step :: "branchQueue \<times> (string \<times> string) set \<Rightarrow> branchQueue \<times> (string \<times> string) set \<Rightarrow> bool" where
  granted: "\<lbrakk>step \<noteq> ''''; (key, step) \<notin> out; tryTurn q key step now rnd = (q', Turn)\<rbrakk>
     \<Longrightarrow> turn_step (q, out) (q', insert (key, step) out)"
| refused: "\<lbrakk>step \<noteq> ''''; (key, step) \<notin> out; tryTurn q key step now rnd = (q', Wait d)\<rbrakk>
     \<Longrightarrow> turn_step (q, out) (q', out)"
| ended: "\<lbrakk>(key, step) \<in> out; release_turn q key step at = (q', woken)\<rbrakk>
     \<Longrightarrow> turn_step (q, out) (q', out - {(key, step)})"

definition turns :: "branchQueue \<times> (string \<times> string) set \<Rightarrow> bool" where
  "turns s = rtranclp turn_step ([], {}) s"

lemma turns_start [intro]: "turns ([], {})"
  by (simp add: turns_def)

lemma turns_step: "turns s \<Longrightarrow> turn_step s s' \<Longrightarrow> turns s'"
  by (simp add: turns_def)

section \<open>Lemmas\<close>

lemma older_linear: "fst a \<noteq> fst b \<Longrightarrow> older a b \<or> older b a"
  by (auto simp: older_def)

lemma older_trans: "older a b \<Longrightarrow> older b c \<Longrightarrow> older a c"
  by (auto simp: older_def)

lemma older_irrefl [simp]: "\<not> older a a"
  by (simp add: older_def)

lemma head_fold:
  "\<exists>h. foldl head_step (Some b) ws = Some h \<and> h \<in> insert b (set ws) \<and> \<not> older b h \<and> (\<forall>x \<in> set ws. \<not> older x h)"
proof (induction ws arbitrary: b)
  case (Cons x ws)
  let ?b = "if older x b then x else b"
  obtain h where h: "foldl head_step (Some ?b) ws = Some h" "h \<in> insert ?b (set ws)" "\<not> older ?b h" "\<forall>x \<in> set ws. \<not> older x h"
    using Cons.IH by metis
  have "\<not> older b h \<and> \<not> older x h"
    using h(3) older_trans [of x b h] by (auto simp: older_def split: if_splits)
  moreover have "foldl head_step (Some b) (x # ws) = Some h" using h(1) by (cases "older x b") (simp_all add: head_step_def)
  ultimately show ?case using h(2,4) by (intro exI [of _ h]) (auto split: if_splits)
qed simp

text \<open>The head is the oldest waiter, whatever the order of the map.\<close>

lemma headLocked_spec:
  "headLocked b = None \<longleftrightarrow> waiters b = []"
  "headLocked b = Some h \<Longrightarrow> h \<in> set (waiters b) \<and> (\<forall>x \<in> set (waiters b). \<not> older x h)"
proof -
  have "waiters b = [] \<or> (\<exists>h. headLocked b = Some h \<and> h \<in> set (waiters b) \<and> (\<forall>x \<in> set (waiters b). \<not> older x h))"
  proof (cases "waiters b")
    case (Cons x ws)
    then show ?thesis using head_fold [of x ws] by (auto simp: headLocked_def head_step_def)
  qed simp
  then show "headLocked b = None \<longleftrightarrow> waiters b = []"
    "headLocked b = Some h \<Longrightarrow> h \<in> set (waiters b) \<and> (\<forall>x \<in> set (waiters b). \<not> older x h)"
    by (auto simp: headLocked_def)
qed

lemma filter_lookup:
  assumes "distinct (map fst kvs)"
  shows "map_of (filter keep kvs) x = Option.bind (map_of kvs x) (\<lambda>y. if keep (x, y) then Some y else None)"
  using assms
proof (induction kvs)
  case (Cons kv kvs)
  moreover have "map_of kvs (fst kv) = None" using Cons.prems by (simp add: map_of_eq_None_iff)
  ultimately show ?case by (cases kv) auto
qed simp

definition queue_ok :: "branchQueue \<Rightarrow> bool" where
  "queue_ok q \<longleftrightarrow> distinct (map fst q) \<and>
     (\<forall>b \<in> snd ` set q. distinct (map fst (waiters b)) \<and> 1 \<le> avgHold b \<and> '''' \<notin> fst ` set (waiters b))"

lemma queue_ok_turn: "queue_ok q \<Longrightarrow> map_of q k = Some b \<Longrightarrow> distinct (map fst (waiters b)) \<and> 1 \<le> avgHold b \<and> '''' \<notin> fst ` set (waiters b)"
  by (metis queue_ok_def image_eqI map_of_SomeD snd_conv)

lemma sweepLocked_spec:
  assumes "queue_ok q"
  shows "queue_ok (sweepLocked now q)"
    "map_of (sweepLocked now q) key =
       (case map_of q key of None \<Rightarrow> None
        | Some b \<Rightarrow> let b' = sweep_turn now b in if holder b = '''' \<and> waiters b' = [] then None else Some b')"
proof -
  have d: "distinct (map fst (map (\<lambda>(k, b). (k, sweep_turn now b)) q))" using assms by (simp add: queue_ok_def case_prod_beta comp_def)
  have keys: "map fst (map (\<lambda>(k, b). (k, sweep_turn now b)) q) = map fst q" by (induction q) auto
  have h: "holder (sweep_turn now b) = holder b" "avgHold (sweep_turn now b) = avgHold b" for b by (simp_all add: sweep_turn_def)
  have each: "distinct (map fst (waiters (sweep_turn now b))) \<and> 1 \<le> avgHold (sweep_turn now b) \<and> '''' \<notin> fst ` set (waiters (sweep_turn now b))"
    if "distinct (map fst (waiters b)) \<and> 1 \<le> avgHold b \<and> '''' \<notin> fst ` set (waiters b)" for b
    using that by (auto simp: sweep_turn_def intro: distinct_map_filter)
  have sub: "snd ` set (sweepLocked now q) \<subseteq> sweep_turn now ` snd ` set q" 
  proof
    fix x assume "x \<in> snd ` set (sweepLocked now q)"
    then obtain k b where "(k, b) \<in> set q" "x = sweep_turn now b" by (auto simp: sweepLocked_def)
    then show "x \<in> sweep_turn now ` snd ` set q" by force
  qed
  have dd: "distinct (map fst (sweepLocked now q))" unfolding sweepLocked_def by (rule distinct_map_filter [OF d])
  show "queue_ok (sweepLocked now q)" unfolding queue_ok_def
  proof (intro conjI ballI)
    fix b assume "b \<in> snd ` set (sweepLocked now q)"
    then obtain c where c: "c \<in> snd ` set q" "b = sweep_turn now c" using sub by blast
    have "distinct (map fst (waiters c)) \<and> 1 \<le> avgHold c \<and> '''' \<notin> fst ` set (waiters c)"
      using assms c(1) unfolding queue_ok_def by blast
    from each [OF this] show "distinct (map fst (waiters b))" "1 \<le> avgHold b" "'''' \<notin> fst ` set (waiters b)"
      unfolding c(2) by simp_all
  qed (rule dd)
  have "map_of (map (\<lambda>(k, b). (k, sweep_turn now b)) q) key = map_option (sweep_turn now) (map_of q key)"
    by (induction q) auto
  then show "map_of (sweepLocked now q) key =
       (case map_of q key of None \<Rightarrow> None
        | Some b \<Rightarrow> let b' = sweep_turn now b in if holder b = '''' \<and> waiters b' = [] then None else Some b')"
    unfolding sweepLocked_def using filter_lookup [OF d, of "\<lambda>(k, b). \<not> (holder b = '''' \<and> waiters b = [])" key]
    by (auto simp: Let_def h split: option.splits)
qed

text \<open>The turn of a branch, and what of it a call at \<open>now\<close> finds.\<close>

definition turn_of :: "branchQueue \<Rightarrow> string \<Rightarrow> branchTurn" where
  "turn_of q key = (case map_of q key of
     None \<Rightarrow> \<lparr>holder = '''', turn_since = 0, avgHold = initialTurn, waiters = []\<rparr> | Some b \<Rightarrow> b)"

definition live :: "branchQueue \<Rightarrow> string \<Rightarrow> time \<Rightarrow> (string \<times> turn_waiter) list" where
  "live q key now = filter (\<lambda>(k, w). now \<le> w_due w + waiterGrace) (waiters (turn_of q key))"

lemma swept_turn:
  assumes "queue_ok q"
  shows "holder (turn_of (sweepLocked now q) key) = holder (turn_of q key)" "waiters (turn_of (sweepLocked now q) key) = live q key now"
    "1 \<le> avgHold (turn_of (sweepLocked now q) key)"
proof -
  have "1 \<le> avgHold b" if "map_of q key = Some b" for b using queue_ok_turn [OF assms that] by simp
  then show "holder (turn_of (sweepLocked now q) key) = holder (turn_of q key)" "waiters (turn_of (sweepLocked now q) key) = live q key now"
    "1 \<le> avgHold (turn_of (sweepLocked now q) key)"
    by (auto simp: turn_of_def live_def sweepLocked_spec(2) [OF assms] sweep_turn_def initialTurn_def second_def Let_def not_less split: option.splits)
qed

lemma live_distinct: "queue_ok q \<Longrightarrow> distinct (map fst (live q key now)) \<and> '''' \<notin> fst ` set (live q key now)"
  by (cases "map_of q key") (auto simp: live_def turn_of_def intro!: distinct_map_filter dest: queue_ok_turn)

text \<open>\<open>tryTurn\<close> in terms of the swept turn.\<close>

lemma tryTurn_alt:
  assumes "queue_ok q"
  shows "tryTurn q key step now rnd =
    (let b = turn_of (sweepLocked now q) key;
         w = (case map_of (live q key now) step of None \<Rightarrow> \<lparr>w_first = now, w_due = 0\<rparr> | Some w \<Rightarrow> w) in
     if (holder (turn_of q key) = '''' \<or> holder (turn_of q key) = step) \<and> (case headLocked b of None \<Rightarrow> True | Some (h, _) \<Rightarrow> h = step)
     then (AList.update key (b\<lparr>holder := step, turn_since := now, waiters := AList.delete step (live q key now)\<rparr>) (sweepLocked now q), Turn)
     else let wait = turnJitter rnd (min (max (int (place_of b step w) * avgHold b) minTurnWait) maxTurnWait)
          in (AList.update key (b\<lparr>waiters := AList.update step (w\<lparr>w_due := now + wait\<rparr>) (live q key now)\<rparr>) (sweepLocked now q), Wait wait))"
  unfolding swept_turn(1,2) [OF assms, symmetric, of key now]
  by (simp add: tryTurn_def turn_of_def Let_def)

lemma set_alist_update: "set (AList.update k v al) \<subseteq> insert (k, v) (set al)"
  by (induction al) auto

lemma set_alist_delete: "set (AList.delete k al) \<subseteq> set al"
  by (auto simp: AList.delete_eq)

lemma queue_ok_update:
  assumes "queue_ok q" "distinct (map fst (waiters b))" "1 \<le> avgHold b" "'''' \<notin> fst ` set (waiters b)"
  shows "queue_ok (AList.update key b q)"
proof -
  have "snd ` set (AList.update key b q) \<subseteq> insert b (snd ` set q)" using set_alist_update [of key b q] by auto
  then show ?thesis using assms distinct_update [of q key b] unfolding queue_ok_def by blast
qed

lemma queue_ok_delete: "queue_ok q \<Longrightarrow> queue_ok (AList.delete key q)"
  using image_mono [OF set_alist_delete [of key q], of snd] distinct_delete [of q key] unfolding queue_ok_def by blast

lemma tryTurn_ok:
  assumes "queue_ok q" "step \<noteq> ''''" "tryTurn q key step now rnd = (q', ans)"
  shows "queue_ok q'"
proof -
  note sw = swept_turn [OF assms(1), of now key] and l = live_distinct [OF assms(1), of key now]
  have del: "distinct (map fst (AList.delete step (live q key now)))" "'''' \<notin> fst ` set (AList.delete step (live q key now))"
    using l by (simp_all add: delete_keys distinct_removeAll flip: set_map)
  have up: "distinct (map fst (AList.update step v (live q key now)))" "'''' \<notin> fst ` set (AList.update step v (live q key now))" for v
    using l assms(2) by (simp_all add: update_keys flip: set_map)
  have "queue_ok (AList.update key (turn_of (sweepLocked now q) key\<lparr>holder := step, turn_since := now, waiters := AList.delete step (live q key now)\<rparr>) (sweepLocked now q))"
    by (rule queue_ok_update [OF sweepLocked_spec(1) [OF assms(1)]]) (use del sw(3) in simp_all)
  moreover have "queue_ok (AList.update key (turn_of (sweepLocked now q) key\<lparr>waiters := AList.update step v (live q key now)\<rparr>) (sweepLocked now q))" for v
    by (rule queue_ok_update [OF sweepLocked_spec(1) [OF assms(1)]]) (use up sw(3) in simp_all)
  ultimately show ?thesis using assms(3) unfolding tryTurn_alt [OF assms(1)] Let_def
    by (simp only: prod.inject split: if_splits) blast+
qed

lemma turn_of_update: "turn_of (AList.update key b q) k = (if k = key then b else turn_of q k)"
  by (simp add: turn_of_def update_conv')

lemma tryTurn_holder:
  assumes "queue_ok q" "tryTurn q key step now rnd = (q', ans)"
  shows "holder (turn_of q' k) = (if k = key \<and> ans = Turn then step else holder (turn_of q k))"
proof -
  show ?thesis using assms(2) swept_turn(1) [OF assms(1)] unfolding tryTurn_alt [OF assms(1)] Let_def
    by (simp only: prod.inject split: if_splits) (auto simp: turn_of_update)
qed

lemma release_turn_spec:
  assumes "queue_ok q" "holder (turn_of q key) = step" "step \<noteq> ''''" "release_turn q key step at = (q', woken)"
  shows "queue_ok q'" "holder (turn_of q' k) = (if k = key then '''' else holder (turn_of q k))"
    "waiters (turn_of q' key) = waiters (turn_of q key)" "woken = map_option fst (headLocked (turn_of q key))"
proof -
  obtain b where b: "map_of q key = Some b" "holder b = step" using assms(2,3) by (auto simp: turn_of_def split: option.splits)
  define avg where "avg = (if at - turn_since b > 0 then (4 * avgHold b + (at - turn_since b)) div 5 else avgHold b)"
  define b1 where "b1 = b\<lparr>avgHold := avg, holder := ''''\<rparr>"
  have ok: "distinct (map fst (waiters b))" "1 \<le> avgHold b" "'''' \<notin> fst ` set (waiters b)"
    using queue_ok_turn [OF assms(1) b(1)] by simp_all
  have "5 \<le> 4 * avgHold b + (at - turn_since b)" if "at - turn_since b > 0" using ok(2) that by linarith
  then have "1 \<le> (4 * avgHold b + (at - turn_since b)) div 5" if "at - turn_since b > 0"
    using that zdiv_mono1 [of 5 "4 * avgHold b + (at - turn_since b)" 5] by simp
  then have "1 \<le> avg" using ok(2) by (simp add: avg_def)
  have hd: "headLocked b1 = headLocked b" by (simp add: headLocked_def b1_def)
  have rel: "release_turn q key step at = (case headLocked b of None \<Rightarrow> (AList.delete key q, None) | Some (h, _) \<Rightarrow> (AList.update key b1 q, Some h))"
    unfolding hd [symmetric] by (simp only: release_turn_def b option.case not_True_eq_False if_False simp_thms Let_def b1_def avg_def)
  have q': "q' = (case headLocked b of None \<Rightarrow> AList.delete key q | Some _ \<Rightarrow> AList.update key b1 q)" "woken = map_option fst (headLocked b)"
    using assms(4) unfolding rel by (auto split: option.splits prod.splits)
  show "queue_ok q'" unfolding q' using assms(1) ok \<open>1 \<le> avg\<close>
    by (auto simp: b1_def split: option.splits intro!: queue_ok_delete queue_ok_update)
  show "holder (turn_of q' k) = (if k = key then '''' else holder (turn_of q k))"
    unfolding q' by (auto simp: turn_of_def update_conv' delete_conv' b1_def split: option.splits)
  show "woken = map_option fst (headLocked (turn_of q key))" using q'(2) b by (simp add: turn_of_def)
  show "waiters (turn_of q' key) = waiters (turn_of q key)"
    unfolding q' using b headLocked_spec(1) [of b] by (auto simp: turn_of_def update_conv' delete_conv' b1_def split: option.splits)
qed

lemma tryTurn_answer:
  assumes "queue_ok q"
  shows "snd (tryTurn q key step now rnd) = Turn \<longleftrightarrow>
    (holder (turn_of q key) = '''' \<or> holder (turn_of q key) = step) \<and>
    (\<forall>kw \<in> set (live q key now). fst kw = step \<or> (\<exists>w. (step, w) \<in> set (live q key now) \<and> older (step, w) kw))"
proof -
  let ?b = "turn_of (sweepLocked now q) key"
  note wl = swept_turn(2) [OF assms, of now key] and hd = headLocked_spec [of ?b, unfolded wl]
  have d: "distinct (map fst (live q key now))" using live_distinct [OF assms] by blast
  have head: "(case headLocked ?b of None \<Rightarrow> True | Some (h, _) \<Rightarrow> h = step) \<longleftrightarrow>
      (\<forall>kw \<in> set (live q key now). fst kw = step \<or> (\<exists>w. (step, w) \<in> set (live q key now) \<and> older (step, w) kw))"
  proof (cases "headLocked ?b")
    case None
    then show ?thesis using hd(1) by simp
  next
    case (Some hw)
    obtain h w where hw: "hw = (h, w)" by (cases hw)
    have mem: "(h, w) \<in> set (live q key now)" "\<forall>x \<in> set (live q key now). \<not> older x (h, w)" using hd(2) [OF Some] hw by auto
    have "older (h, w) x" if "x \<in> set (live q key now)" "fst x \<noteq> h" for x
      using mem(2) that older_linear [of "(h, w)" x] by auto
    then show ?thesis using mem by (auto simp: Some hw)
  qed
  show ?thesis unfolding tryTurn_alt [OF assms] Let_def head by simp
qed

lemma tryTurn_wait_bounds:
  assumes "tryTurn q key step now rnd = (q', Wait d)"
    and "\<And>x. minTurnWait \<le> x \<Longrightarrow> x \<le> maxTurnWait \<Longrightarrow> 0 \<le> rnd \<and> rnd \<le> 2 * (x div 5)"
  shows "minTurnWait - minTurnWait div 5 \<le> d \<and> d \<le> maxTurnWait + maxTurnWait div 5"
proof -
  obtain x where x: "d = turnJitter rnd (min (max x minTurnWait) maxTurnWait)"
    using assms(1) by (auto simp: tryTurn_def Let_def split: if_splits)
  define y where "y = min (max x minTurnWait) maxTurnWait"
  have y: "minTurnWait \<le> y" "y \<le> maxTurnWait" by (auto simp: y_def minTurnWait_def maxTurnWait_def second_def)
  have "d = y + (rnd - y div 5)" using x by (simp add: y_def turnJitter_def)
  moreover have "0 \<le> rnd" "rnd \<le> 2 * (y div 5)" using assms(2) [OF y] by auto
  moreover have "minTurnWait - minTurnWait div 5 \<le> y - y div 5" "y + y div 5 \<le> maxTurnWait + maxTurnWait div 5"
    using y unfolding minTurnWait_def maxTurnWait_def second_def by linarith+
  ultimately show ?thesis by linarith
qed

text \<open>A step that asks again in time keeps its place: its first refusal stays recorded, and nobody else's changes.\<close>

lemma tryTurn_keeps_place:
  assumes "queue_ok q" "tryTurn q key step now rnd = (q', Wait d)" "0 \<le> d + waiterGrace"
  shows "map_of (waiters (turn_of q' key)) = (map_of (live q key now))(step \<mapsto>
     \<lparr>w_first = (case map_of (live q key now) step of None \<Rightarrow> now | Some w \<Rightarrow> w_first w), w_due = now + d\<rparr>)"
  using assms(2) unfolding tryTurn_alt [OF assms(1)] Let_def
  by (simp only: prod.inject split: if_splits) (auto simp: turn_of_update update_conv' split: option.splits)

definition turn_inv :: "branchQueue \<times> (string \<times> string) set \<Rightarrow> bool" where
  "turn_inv s \<longleftrightarrow> queue_ok (fst s) \<and> (\<forall>key t. (key, t) \<in> snd s \<longleftrightarrow> t \<noteq> '''' \<and> holder (turn_of (fst s) key) = t)"

lemma turn_step_inv: "turn_step s s' \<Longrightarrow> turn_inv s \<Longrightarrow> turn_inv s'"
proof (induction rule: turn_step.induct)
  case (granted step key out q now rnd q')
  then have ok: "queue_ok q" and out: "\<And>k t. (k, t) \<in> out \<longleftrightarrow> t \<noteq> '''' \<and> holder (turn_of q k) = t" by (auto simp: turn_inv_def)
  have "holder (turn_of q key) = '''' \<or> holder (turn_of q key) = step"
    using tryTurn_answer [OF ok, of key step now rnd] granted(3) by simp
  then have "(key, t) \<notin> out" for t using out granted(1,2) by metis
  then show ?case using out tryTurn_holder [OF ok granted(3)] tryTurn_ok [OF ok granted(1,3)] granted(1)
    by (auto simp: turn_inv_def)
next
  case (refused step key out q now rnd q' d)
  then have ok: "queue_ok q" and out: "\<And>k t. (k, t) \<in> out \<longleftrightarrow> t \<noteq> '''' \<and> holder (turn_of q k) = t" by (auto simp: turn_inv_def)
  then show ?case using tryTurn_holder [OF ok refused(3)] tryTurn_ok [OF ok refused(1,3)] by (auto simp: turn_inv_def)
next
  case (ended key step out q at q' woken)
  then have ok: "queue_ok q" and out: "\<And>k t. (k, t) \<in> out \<longleftrightarrow> t \<noteq> '''' \<and> holder (turn_of q k) = t" by (auto simp: turn_inv_def)
  have h: "holder (turn_of q key) = step" "step \<noteq> ''''" using out ended(1) by auto
  show ?case using release_turn_spec(1,2) [OF ok h ended(2)] out h by (auto simp: turn_inv_def)
qed

interpretation branch_turn: step_system "\<lambda>s. s = ([], {})" turn_step turn_inv
proof unfold_locales
  show "turn_inv s" if "s = ([], {})" for s using that by (auto simp: turn_inv_def queue_ok_def turn_of_def)
  show "turn_inv s'" if "turn_step s s'" "turn_inv s" for s s' using turn_step_inv that .
qed

lemma turns_inv: "turns s \<Longrightarrow> turn_inv s"
  unfolding turns_def by (erule branch_turn.inv_steps) (rule refl)

section \<open>Properties\<close>

text \<open>C24. One turn at a time, oldest first. Whatever steps asked and ended their turns before, at most one step has the turn of a
  branch; a step that asks gets it exactly when nobody has it and every other step still waiting for the branch was first refused
  later (or at the same instant and has a greater name). So no step overtakes one that has waited longer and still asks in time.\<close>

theorem branch_turns:
  assumes "turns (q, out)" "step \<noteq> ''''" "(key, step) \<notin> out"
  shows "(\<forall>s t. (key, s) \<in> out \<and> (key, t) \<in> out \<longrightarrow> s = t) \<and>
    (snd (tryTurn q key step now rnd) = Turn \<longleftrightarrow>
       (\<forall>s. (key, s) \<notin> out) \<and>
       (\<forall>kw \<in> set (live q key now). fst kw = step \<or> (\<exists>w. (step, w) \<in> set (live q key now) \<and> older (step, w) kw)))"
proof -
  have ok: "queue_ok q" and out: "\<And>k t. (k, t) \<in> out \<longleftrightarrow> t \<noteq> '''' \<and> holder (turn_of q k) = t"
    using turns_inv [OF assms(1)] by (auto simp: turn_inv_def)
  have "(holder (turn_of q key) = '''' \<or> holder (turn_of q key) = step) \<longleftrightarrow> (\<forall>s. (key, s) \<notin> out)"
    using out assms(2,3) by auto
  then show ?thesis using tryTurn_answer [OF ok, of key step now rnd] out by auto
qed

theorem branch_turns_witness:
  "turns (fst (tryTurn [] ''r#main'' ''ns/a'' 5 0), {(''r#main'', ''ns/a'')}) \<and>
   snd (tryTurn (fst (tryTurn [] ''r#main'' ''ns/a'' 5 0)) ''r#main'' ''ns/b'' 6 0) \<noteq> Turn"
proof -
  have t: "tryTurn [] ''r#main'' ''ns/a'' 5 0 = (fst (tryTurn [] ''r#main'' ''ns/a'' 5 0), Turn)" by code_simp
  then have "turn_step ([], {}) (fst (tryTurn [] ''r#main'' ''ns/a'' 5 0), {(''r#main'', ''ns/a'')})"
    by (intro turn_step.granted) simp_all
  then have r: "turns (fst (tryTurn [] ''r#main'' ''ns/a'' 5 0), {(''r#main'', ''ns/a'')})" by (blast intro: turns_step)
  then show ?thesis using branch_turns [OF r, of "''ns/b''" "''r#main''" 6 0] by auto
qed

text \<open>A turn is passed on. When a step ends its turn, the branch is free and the longest waiting step, if any, is woken; if
  that step asks while it is still waiting, before anyone else did, it gets the turn. When nobody is woken, nobody waits.\<close>

theorem turn_passed_on:
  assumes "turns (q, out)" "(key, step) \<in> out" "release_turn q key step at = (q', woken)"
  shows "(\<forall>s. (key, s) \<notin> out - {(key, step)}) \<and> turns (q', out - {(key, step)}) \<and>
    (case woken of
       None \<Rightarrow> waiters (turn_of q key) = []
     | Some h \<Rightarrow> h \<in> fst ` set (waiters (turn_of q key)) \<and>
         (\<forall>now rnd. h \<in> fst ` set (live q' key now) \<longrightarrow> snd (tryTurn q' key h now rnd) = Turn))"
proof -
  have ok: "queue_ok q" and out: "\<And>k t. (k, t) \<in> out \<longleftrightarrow> t \<noteq> '''' \<and> holder (turn_of q k) = t"
    using turns_inv [OF assms(1)] by (auto simp: turn_inv_def)
  have h: "holder (turn_of q key) = step" "step \<noteq> ''''" using out assms(2) by auto
  note rel = release_turn_spec [OF ok h assms(3)]
  have r: "turns (q', out - {(key, step)})" using assms turn_step.ended turns_step by metis
  have "case woken of None \<Rightarrow> waiters (turn_of q key) = []
     | Some h \<Rightarrow> h \<in> fst ` set (waiters (turn_of q key)) \<and>
         (\<forall>now rnd. h \<in> fst ` set (live q' key now) \<longrightarrow> snd (tryTurn q' key h now rnd) = Turn)"
  proof (cases "headLocked (turn_of q key)")
    case None
    moreover have "woken = None" using rel(4) None by simp
    ultimately show ?thesis using headLocked_spec(1) [of "turn_of q key"] by simp
  next
    case (Some hw)
    note hd = headLocked_spec(2) [OF Some]
    have "snd (tryTurn q' key (fst hw) now rnd) = Turn" if lv: "fst hw \<in> fst ` set (live q' key now)" for now rnd
    proof -
      have sub: "set (live q' key now) \<subseteq> set (waiters (turn_of q key))" using rel(3) by (auto simp: live_def)
      have "distinct (map fst (waiters (turn_of q key)))"
        by (cases "map_of q key") (auto simp: turn_of_def dest: queue_ok_turn [OF ok])
      moreover obtain kw where kw: "kw \<in> set (live q' key now)" "fst kw = fst hw" using lv by auto
      ultimately have "kw = hw" using sub hd eq_key_imp_eq_value [of "waiters (turn_of q key)" "fst hw" "snd kw" "snd hw"]
        by (cases kw; cases hw) auto
      then have mem: "hw \<in> set (live q' key now)" using kw by simp
      have "older hw kw" if "kw \<in> set (live q' key now)" "fst kw \<noteq> fst hw" for kw
        using hd sub that older_linear [of hw kw] by auto
      then show ?thesis unfolding tryTurn_answer [OF rel(1)] using rel(2) [of key] mem by (metis prod.collapse)
    qed
    then show ?thesis using rel(4) Some hd by auto
  qed
  then show ?thesis using out r h by auto
qed

theorem turn_passed_on_witness:
  "let q = fst (tryTurn (fst (tryTurn [] ''r#main'' ''ns/a'' 5 0)) ''r#main'' ''ns/b'' 6 0) in
   snd (release_turn q ''r#main'' ''ns/a'' 9) = Some ''ns/b'' \<and>
   snd (tryTurn (fst (release_turn q ''r#main'' ''ns/a'' 9)) ''r#main'' ''ns/b'' 10 0) = Turn"
proof -
  let ?q1 = "fst (tryTurn [] ''r#main'' ''ns/a'' 5 0)"
  let ?q2 = "fst (tryTurn ?q1 ''r#main'' ''ns/b'' 6 0)"
  let ?q3 = "fst (release_turn ?q2 ''r#main'' ''ns/a'' 9)"
  have t: "tryTurn [] ''r#main'' ''ns/a'' 5 0 = (?q1, Turn)" by code_simp
  have w: "tryTurn ?q1 ''r#main'' ''ns/b'' 6 0 = (?q2, Wait (2 * second - 2 * second div 5))" by code_simp
  have "turn_step ([], {}) (?q1, {(''r#main'', ''ns/a'')})" using turn_step.granted [OF _ _ t] by simp
  then have "turns (?q1, {(''r#main'', ''ns/a'')})" by (blast intro: turns_step)
  moreover have "turn_step (?q1, {(''r#main'', ''ns/a'')}) (?q2, {(''r#main'', ''ns/a'')})" by (rule turn_step.refused [OF _ _ w]) simp_all
  ultimately have r: "turns (?q2, {(''r#main'', ''ns/a'')})" by (blast intro: turns_step)
  have e: "release_turn ?q2 ''r#main'' ''ns/a'' 9 = (?q3, Some ''ns/b'')" by code_simp
  have "''ns/b'' \<in> fst ` set (live ?q3 ''r#main'' 10)" by code_simp
  then have "snd (tryTurn ?q3 ''r#main'' ''ns/b'' 10 0) = Turn" using turn_passed_on [OF r _ e] by simp
  moreover have "snd (release_turn ?q2 ''r#main'' ''ns/a'' 9) = Some ''ns/b''" by (subst e) simp
  ultimately show ?thesis by (simp add: Let_def)
qed

section \<open>Who takes a turn\<close>

lemma last_push_spec:
  "last_push ss i push = (if ''open-pr'' \<in> set ss then None
     else Some (if ''git-push'' \<in> set ss then Some (i + length ss - 1 - length (takeWhile (\<lambda>s. s \<noteq> ''git-push'') (rev ss))) else push))"
proof (induction ss arbitrary: i push)
  case (Cons s ss)
  have "length (takeWhile (\<lambda>s. s \<noteq> ''git-push'') (rev ss)) \<le> length ss" using length_takeWhile_le [of _ "rev ss"] by simp
  then show ?case using Cons by (auto simp: takeWhile_append)
qed simp

text \<open>A sequence takes a turn exactly when it opens no pull request and its last push is not behind it.\<close>

lemma basePushBranch_spec:
  "basePushBranch seq from url branch =
     (if ''open-pr'' \<notin> set seq \<and> ''git-push'' \<in> set (drop from seq) \<and> url \<noteq> '''' \<and> branch \<noteq> ''''
      then Some (normalizeRepoURL url @ ''#'' @ branch) else None)"
proof (cases "''git-push'' \<in> set seq")
  case True
  define n where "n = length (takeWhile (\<lambda>s. s \<noteq> ''git-push'') (rev seq))"
  have "takeWhile (\<lambda>s. s \<noteq> ''git-push'') (rev seq) \<noteq> rev seq" using True by (auto simp: takeWhile_eq_all_conv)
  moreover have "seq' = take (length seq') xs" if "seq' = takeWhile P xs" for seq' P and xs :: "string list"
    using that takeWhile_eq_take by simp
  ultimately have "n \<noteq> length seq" unfolding n_def by (metis length_rev take_all order_refl)
  moreover have "n \<le> length seq" unfolding n_def using length_takeWhile_le [of _ "rev seq"] by simp
  ultimately have n: "n < length seq" by simp
  have at: "rev seq ! n = ''git-push''" unfolding n_def using True nth_length_takeWhile [of "\<lambda>s. s \<noteq> ''git-push''" "rev seq"] n n_def by simp
  have before: "rev seq ! j \<noteq> ''git-push''" if "j < n" for j
  proof -
    have j: "j < length (takeWhile (\<lambda>s. s \<noteq> ''git-push'') (rev seq))" using that by (simp add: n_def)
    then show ?thesis using set_takeWhileD [OF nth_mem [OF j]] takeWhile_nth [OF j] by simp
  qed
  have "''git-push'' \<in> set (drop from seq) \<longleftrightarrow> from \<le> length seq - 1 - n"
  proof
    assume "''git-push'' \<in> set (drop from seq)"
    then obtain j where j: "from \<le> j" "j < length seq" "seq ! j = ''git-push''"
      by (auto simp: in_set_conv_nth) (metis add.commute le_add2 less_diff_conv)
    then have "\<not> length seq - 1 - j < n" using before [of "length seq - 1 - j"] by (auto simp: rev_nth)
    then show "from \<le> length seq - 1 - n" using j by linarith
  next
    assume "from \<le> length seq - 1 - n"
    moreover have "seq ! (length seq - 1 - n) = ''git-push''" using at n by (simp add: rev_nth)
    ultimately have "''git-push'' = drop from seq ! (length seq - 1 - n - from)" "length seq - 1 - n - from < length (drop from seq)"
      using n by auto
    then show "''git-push'' \<in> set (drop from seq)" by (metis nth_mem)
  qed
  then show ?thesis using True by (auto simp: basePushBranch_def last_push_spec n_def)
next
  case False
  then show ?thesis using in_set_dropD by (fastforce simp: basePushBranch_def last_push_spec)
qed

end
