(* ===== verification/Spec2Isabelle.thy ===== *)
theory Spec2Isabelle
  imports Policy_Gate SCM_Circuit Step_Health Git_Push Slots_Limiter Graph_Intent Approvals Verdicts Fair_Queue Freezes Branch_Queue
begin

text \<open>
  kardinal-promoter promotes a version of an application through the environments of a Pipeline. A Bundle names what to promote
  (images, a config commit); for each Bundle the controller builds a Graph of PromotionSteps, one per environment, and of
  PolicyGates that hold them; a step changes the environment's files in git, pushes or opens a pull request, waits for the
  merge and for the health of the environment. The controller is a set of Kubernetes reconcilers (\<open>pkg/reconciler\<close>) around packages
  of pure rules (\<open>pkg/graph\<close>, \<open>pkg/lifecycle\<close>, \<open>pkg/actor\<close>, \<open>pkg/slots\<close>, \<open>pkg/steps\<close>, \<open>pkg/audit\<close>). This development models those rules
  and the parts of the reconcilers that decide, as executable functions on records, and proves what makes them correct.

  \<^bold>\<open>How the parts interact.\<close> \<open>pkg/graph\<close> orders the environments and places the gates. A gate passes by its tally of approvals or
  verdicts (\<open>pkg/lifecycle\<close>) over actors derived by \<open>pkg/actor\<close> from the index that the AgentIdentity reconciler writes. A reconcile of a step is scheduled by the fair queue, takes a slot of the
  limiter for its health check, is held by freezes, waits for its turn on the branch, runs its sequence through the step engine, pushes
  through the push guard, and goes through health check and bake to Verified, each change of state with its audit records. Newer
  Bundles supersede older ones; rejections and holds decide which.

  \<^bold>\<open>The theories.\<close>

  \<^item> \<open>Prelude\<close>: times, the pieces of Go's standard library on strings, and the locales \<open>step_system\<close> and \<open>run_system\<close>: a property that holds
    at the start and that every step keeps holds in every reachable state.
  \<^item> \<open>Go_Heap\<close>: \<open>container/heap\<close>; the locale \<open>heap_order\<close> gives the least element on top for every strict linear order, and is
    interpreted for the limiter's ready heap and the fair queue's waiters.
  \<^item> \<open>Go_Time\<close>: the calendar, zones and \<open>time.Date\<close>.
  \<^item> \<open>Slots_Limiter\<close> (\<open>pkg/slots/limiter.go\<close>): every method of the limiter and the machine over all its events. The caps are never
    exceeded, no slot is idle while a check that could take it waits, slots are given in the order asked, reservations expire.
  \<^item> \<open>Topo_Sort\<close>, \<open>Graph_Ordering\<close>, \<open>Graph_Fleet\<close>, \<open>Graph_Intent\<close> (\<open>pkg/graph\<close>: \<open>builder.go\<close>, \<open>cycle.go\<close>, \<open>fleet.go\<close>, \<open>upstreams.go\<close>, \<open>skip.go\<close>): Kahn's
    algorithm with its cycle report, waves and dependencies, fleets, the intent of a Bundle, bridged dependencies, skip permissions
    and the state of a gate.
  \<^item> \<open>Actors\<close> (\<open>pkg/actor\<close>, and the index of \<open>pkg/reconciler/agentidentity\<close>), \<open>Approvals\<close>, \<open>Verdicts\<close> (\<open>pkg/lifecycle\<close>: \<open>approval_tally.go\<close>, \<open>approval_fields.go\<close>, \<open>verdict_tally.go\<close>): who acts, and when a gate's
    quorum is met; an agent never counts as a person (with a full registry nobody is resolved), nobody approves their own change, old verdicts do not vote.
  \<^item> \<open>Fair_Queue\<close> (\<open>pkg/reconciler/fairqueue\<close>): the wrapper of the work queue; its accounts, no lost key, aging, levels.
  \<^item> \<open>Audit_Outbox\<close> (\<open>pkg/audit/outbox.go\<close>) and \<open>Step_Transition\<close> (\<open>promotionstep\<close>: \<open>transition.go\<close>, \<open>audit.go\<close>, \<open>status_patch.go\<close>): the bounded
    outbox, and the change of a step's state with its records and its locked write.
  \<^item> \<open>Change_Window\<close>, \<open>Freezes\<close> (\<open>pkg/reconciler/changewindow\<close>, \<open>promotionstep/freeze.go\<close>): schedules and blackouts, when they open, freezes, their
    exemptions and the hold of a step.
  \<^item> \<open>Branch_Queue\<close> (\<open>promotionstep/branch_queue.go\<close>): the turns of steps that push to one branch.
  \<^item> \<open>Step_Engine\<close> (\<open>pkg/steps\<close>), \<open>Step_Retry\<close> (\<open>handleStepError\<close>, \<open>scm_wait.go\<close>, \<open>git_credential.go\<close>), \<open>Step_Health\<close> (\<open>handleHealthChecking\<close>, \<open>handleBake\<close>):
    a run of the sequence refines an abstract engine of at most four passes; what a failed run leads to; health checks and bakes.
  \<^item> \<open>Supersession\<close> (\<open>pkg/lifecycle\<close>: \<open>lifecycle.go\<close>, \<open>supersede.go\<close>, \<open>hold.go\<close>, \<open>rejected.go\<close>, \<open>rejected_set.go\<close>): the order of creation, which Bundle
    gives way, what a rejection rejects.
  \<^item> \<open>Push_Guard\<close> (\<open>promotionstep/push_guard.go\<close>) and \<open>Git_Push\<close> (\<open>pkg/steps/steps/git_push.go\<close>): the guard as a program of
    API calls, the guards of several steps run call by call against one API server (\<open>push_step\<close>), and the step that pushes, over an arbitrary git client.
  \<^item> \<open>SCM_Circuit\<close> (\<open>pkg/scm\<close>: \<open>circuit_breaker.go\<close>, \<open>circuit_registry.go\<close>): the circuit breakers in front of the SCM APIs. One probe at a time,
    its backoff and where it overflows, and that the failures of one owner do not stop another.
  \<^item> \<open>Gate_Overrides\<close>, \<open>Policy_Gate\<close> (\<open>pkg/reconciler/policygate\<close>): the overrides of a gate with their cap, and the evaluation of a gate: what
    a reconcile may store as ready, over an arbitrary API server, context and evaluator.

  \<^bold>\<open>State and operations.\<close> A struct is a record with the names of its fields (prefixed where two structs share a name), an enum a datatype, a
  method a function from the state to its result and the new state, a mutex-protected object a machine whose steps are the method
  calls. A Go map is an association list where the order of a \<open>range\<close> could matter and a HOL map otherwise; an error is a value of a
  sum or an option, with its text. Times and durations are integers of nanoseconds; the code's sums of them stay within 64 bits by
  290 years (\<open>SCM_Circuit\<close> writes out the products that may not).

  \<^bold>\<open>Parameters.\<close> What is not in the repository is an argument: the API server's answers, label selectors and name validation
  (apimachinery), the time zone database, git, the adapters' verdict, the random numbers of jitters, hashes. What a theorem needs of
  them is a hypothesis of that theorem (\<open>conds_ok\<close>, \<open>reads_named\<close>, \<open>steady\<close>, \<open>create_ok\<close>), shown to be satisfiable by its witness.

  \<^bold>\<open>Bounds and fuel.\<close> No definition takes fuel. Loops of the code that are bounded by a counter are functions with a measure: the
  engine's restarts (3), the rebases of a push (6), the tries of a status patch (3), the boundaries of \<open>OpensAt\<close> (64, proved to be
  enough), the walk for a cycle (the number of nodes).

  \<^bold>\<open>Interfaces.\<close> \<open>step_system\<close> is interpreted for the branch turns, the overrides of a gate, the bake and the push protocol, \<open>run_system\<close> for the limiter, the fair queue, the breaker and its registry,
  \<open>heap_order\<close> for their two heaps. \<open>gate_property\<close> carries a property of a gate through the patches of a reconcile; it is interpreted for the
  time of an override record, the number of records, and a gate that is not ready.

  \<^bold>\<open>Not modelled.\<close> The context of a gate's expression and its evaluation by cel-go, the nodes of a Graph and their CEL expressions (their meaning is kro's), the reconcilers that drive an external
  system (Jobs, issue trackers, registries, Sigstore, Prometheus, chat), the SCM providers' HTTP clients, the steps that edit YAML,
  kustomize and Helm files, receipts and signatures, the UI server, the command line tool and the generated code of the API types.
  Of the step reconciler, the dispatch on the state, \<open>handlePending\<close>, \<open>handlePromoting\<close>, \<open>handleWaitingForMerge\<close> and the cancellation are not
  modelled: they are sequences of reads and writes around the rules above. Log lines, metrics and tracing are left out
  everywhere.
\<close>

end
